(* ===== verification/Prelude.thy ===== *)
theory Prelude
  imports "HOL-Library.Word"
begin

text \<open>
  What every component of the model shares: the fixed-width integers of the C code, the memory image
  of such an integer on a little-endian host with the byte-order conversions of
  \<^verbatim>\<open>arpa/inet.h\<close> on top of it, C strings as byte lists, and the collections of simplification
  rules that the component theories fill.

  Pointers to characters are lists of bytes. A C string is read up to its terminator, so
  \<open>cstr\<close> is what \<^verbatim>\<open>strlen\<close>, \<^verbatim>\<open>strcmp\<close> and \<^verbatim>\<open>strcpy\<close>
  see of a buffer. Reads out of the bounds of a list are never relied upon: the component invariants
  show the index to be in range.
\<close>

unbundle bit_operations_syntax

section \<open>Machine integers\<close>

type_synonym u8 = "8 word"
type_synonym u16 = "16 word"
type_synonym u32 = "32 word"
type_synonym u64 = "64 word"
type_synonym bytes = "u8 list"

named_theorems bytes_simps \<open>byte images of integers and their inverses\<close>
named_theorems cstr_simps \<open>C strings inside buffers\<close>

definition UINT32_MAX :: u32 where
  "UINT32_MAX = 0xFFFFFFFF"

definition SIZE_MAX :: u64 where
  "SIZE_MAX = 0xFFFFFFFFFFFFFFFF"

text \<open>Byte \<open>i\<close> of a word, counted from the least significant one, and the word made of bytes.\<close>

definition byte32 :: "nat \<Rightarrow> u32 \<Rightarrow> u8" where
  "byte32 i w = ucast (drop_bit (8 * i) w)"

definition mk32 :: "u8 \<Rightarrow> u8 \<Rightarrow> u8 \<Rightarrow> u8 \<Rightarrow> u32" where
  "mk32 b3 b2 b1 b0 =
     push_bit 24 (ucast b3) OR push_bit 16 (ucast b2) OR push_bit 8 (ucast b1) OR ucast b0"

definition byte16 :: "nat \<Rightarrow> u16 \<Rightarrow> u8" where
  "byte16 i w = ucast (drop_bit (8 * i) w)"

definition mk16 :: "u8 \<Rightarrow> u8 \<Rightarrow> u16" where
  "mk16 b1 b0 = push_bit 8 (ucast b1) OR ucast b0"

lemma bit_mk32:
  "bit (mk32 b3 b2 b1 b0) n \<longleftrightarrow>
     (if n < 8 then bit b0 n else if n < 16 then bit b1 (n - 8)
      else if n < 24 then bit b2 (n - 16) else n < 32 \<and> bit b3 (n - 24))"
  unfolding mk32_def by (auto simp: bit_simps dest: bit_imp_le_length)

lemma bit_byte32: "bit (byte32 i w) n \<longleftrightarrow> n < 8 \<and> bit w (8 * i + n)"
  by (auto simp: byte32_def bit_simps dest: bit_imp_le_length)

lemma bit_mk16: "bit (mk16 b1 b0) n \<longleftrightarrow> (if n < 8 then bit b0 n else n < 16 \<and> bit b1 (n - 8))"
  unfolding mk16_def by (auto simp: bit_simps dest: bit_imp_le_length)

lemma bit_byte16: "bit (byte16 i w) n \<longleftrightarrow> n < 8 \<and> bit w (8 * i + n)"
  by (auto simp: byte16_def bit_simps dest: bit_imp_le_length)

lemma byte32_mk32 [simp, bytes_simps]:
  "byte32 0 (mk32 d c b a) = a" "byte32 (Suc 0) (mk32 d c b a) = b"
  "byte32 2 (mk32 d c b a) = c" "byte32 3 (mk32 d c b a) = d"
  by (rule bit_word_eqI, simp add: bit_byte32 bit_mk32)+

lemma mk32_byte32 [simp, bytes_simps]:
  "mk32 (byte32 3 w) (byte32 2 w) (byte32 (Suc 0) w) (byte32 0 w) = w"
  by (rule bit_word_eqI) (auto simp: bit_mk32 bit_byte32)

lemma byte16_mk16 [simp, bytes_simps]:
  "byte16 0 (mk16 b a) = a" "byte16 (Suc 0) (mk16 b a) = b"
  by (rule bit_word_eqI, simp add: bit_byte16 bit_mk16)+

lemma mk16_byte16 [simp, bytes_simps]: "mk16 (byte16 (Suc 0) w) (byte16 0 w) = w"
  by (rule bit_word_eqI) (auto simp: bit_mk16 bit_byte16)

section \<open>Memory images and network byte order (little-endian host)\<close>

definition le32 :: "u32 \<Rightarrow> bytes" where
  "le32 w = [byte32 0 w, byte32 1 w, byte32 2 w, byte32 3 w]"

definition le16 :: "u16 \<Rightarrow> bytes" where
  "le16 w = [byte16 0 w, byte16 1 w]"

definition htonl :: "u32 \<Rightarrow> u32" where
  "htonl w = mk32 (byte32 0 w) (byte32 1 w) (byte32 2 w) (byte32 3 w)"

definition ntohl :: "u32 \<Rightarrow> u32" where
  "ntohl w = mk32 (byte32 0 w) (byte32 1 w) (byte32 2 w) (byte32 3 w)"

definition htons :: "u16 \<Rightarrow> u16" where
  "htons w = mk16 (byte16 0 w) (byte16 1 w)"

definition ntohs :: "u16 \<Rightarrow> u16" where
  "ntohs w = mk16 (byte16 0 w) (byte16 1 w)"

lemma ntohl_htonl [simp, bytes_simps]: "ntohl (htonl w) = w"
  by (simp add: ntohl_def htonl_def)

lemma htonl_ntohl [simp, bytes_simps]: "htonl (ntohl w) = w"
  by (simp add: ntohl_def htonl_def)

lemma ntohs_htons [simp, bytes_simps]: "ntohs (htons w) = w"
  by (simp add: ntohs_def htons_def)

lemma htons_ntohs [simp, bytes_simps]: "htons (ntohs w) = w"
  by (simp add: ntohs_def htons_def)

lemma htonl_eq_iff [simp]: "htonl a = htonl b \<longleftrightarrow> a = b"
  by (metis ntohl_htonl)

text \<open>The bytes of a value in network order, in memory order, start with the most significant.\<close>

lemma le32_htonl: "le32 (htonl w) = [byte32 3 w, byte32 2 w, byte32 1 w, byte32 0 w]"
  by (simp add: le32_def htonl_def)

lemma length_le32 [simp]: "length (le32 w) = 4"
  by (simp add: le32_def)

lemma length_le16 [simp]: "length (le16 w) = 2"
  by (simp add: le16_def)

section \<open>C strings\<close>

definition ch :: "char \<Rightarrow> u8" where
  "ch c = of_char c"

definition ascii :: "string \<Rightarrow> bytes" where
  "ascii s = map of_char s"

definition cstr :: "bytes \<Rightarrow> bytes" where
  "cstr s = takeWhile (\<lambda>c. c \<noteq> 0) s"

lemma cstr_Nil [simp]: "cstr [] = []"
  by (simp add: cstr_def)

lemma cstr_Cons: "cstr (c # s) = (if c = 0 then [] else c # cstr s)"
  by (simp add: cstr_def)

lemma cstr_append_NUL [simp, cstr_simps]: "cstr (s @ 0 # t) = cstr s"
  by (induction s) (simp_all add: cstr_def)

lemma cstr_cstr [simp, cstr_simps]: "cstr (cstr s) = cstr s"
  by (induction s) (auto simp: cstr_Cons)

lemma length_cstr_le: "length (cstr s) \<le> length s"
  by (simp add: cstr_def length_takeWhile_le)

lemma NUL_notin_cstr [simp]: "0 \<notin> set (cstr s)"
  by (induction s) (auto simp: cstr_Cons)

lemma cstr_id: "0 \<notin> set s \<Longrightarrow> cstr s = s"
  by (induction s) (auto simp: cstr_Cons)

lemma cstr_take: "cstr (take n s) = take n (cstr s)"
  by (induction s arbitrary: n) (auto simp: cstr_Cons take_Cons split: nat.splits)

section \<open>Generic facts\<close>

lemma AND_pow2_minus_1: "w AND (2 ^ k - 1) = take_bit k (w :: 'a::len word)"
  by (simp add: take_bit_eq_mask mask_eq_exp_minus_1)

lemma unat_take_bit: "unat (take_bit k (w :: 'a::len word)) = unat w mod 2 ^ k"
  by (simp add: unsigned_take_bit_eq flip: take_bit_eq_mod)

text \<open>Network and host part of an address: a mask that keeps the bits from \<open>k\<close> on.\<close>

lemma bit_host_mask: "bit (w AND NOT (mask k)) n \<longleftrightarrow> bit w n \<and> k \<le> n" for w :: "'a::len word"
  by (auto simp: bit_simps dest: bit_imp_le_length)

lemma small_word_bits: 
  fixes off :: "'a::len word"
  assumes "unat off < 2 ^ k"
  shows "take_bit k off = off"
  by (rule word_unat_eq_iff [THEN iffD2]) (simp add: unat_take_bit assms)

lemma host_part_add:
  fixes net off :: "'a::len word"
  assumes net: "net AND NOT (mask k) = net" and off: "unat off < 2 ^ k"
  shows "(net + off) AND NOT (mask k) = net" 
proof -
  have n: "bit net i \<Longrightarrow> k \<le> i" for i
    by (metis net bit_host_mask)
  have o: "bit off i \<Longrightarrow> i < k" for i
    by (metis small_word_bits [OF off] bit_take_bit_iff)
  have o': "\<not> bit off i" if "k \<le> i" for i
    using o [of i] that by linarith
  have "net + off = net OR off"
    by (rule disjunctive_add) (use n o in force)
  then show ?thesis
    by (auto intro!: bit_word_eqI simp: bit_host_mask bit_or_iff o' dest: n)
qed

lemma host_part_diff:
  fixes w net :: "'a::len word"
  assumes net: "w AND NOT (mask k) = net"
  shows "w - net = take_bit k w"
proof -
  have "net + take_bit k w = net OR take_bit k w"
    by (rule disjunctive_add) (auto simp: net [symmetric] bit_host_mask bit_take_bit_iff)
  also have "\<dots> = w"
    by (rule bit_word_eqI) (auto simp: net [symmetric] bit_host_mask bit_take_bit_iff bit_or_iff)
  finally show ?thesis by (simp add: diff_eq_eq add.commute)
qed

lemma odd_mult_inj_aux:
  fixes a :: nat
  assumes "odd s" "i \<le> j" "j < 2 ^ k" "(a + i * s) mod 2 ^ k = (a + j * s) mod 2 ^ k"
  shows "i = j"
proof -
  have "2 ^ k dvd (a + j * s) - (a + i * s)"
    using assms(2,4) by (intro mod_eq_dvd_iff_nat [THEN iffD1]) (auto simp: mult_le_mono1)
  also have "(a + j * s) - (a + i * s) = (j - i) * s"
    by (simp add: diff_mult_distrib)
  finally have "2 ^ k dvd j - i"
    using \<open>odd s\<close> by (simp add: coprime_dvd_mult_left_iff)
  then show ?thesis
    using assms(2,3) by (auto dest: dvd_imp_le)
qed

lemma odd_mult_inj:
  fixes a :: nat
  assumes "odd s" "i < 2 ^ k" "j < 2 ^ k" "(a + i * s) mod 2 ^ k = (a + j * s) mod 2 ^ k"
  shows "i = j"
  using odd_mult_inj_aux [of s i j k a] odd_mult_inj_aux [of s j i k a] assms
  by (cases "i \<le> j") auto

lemma sint32_eq_unat:
  assumes "unat (w::u32) < 2 ^ 31" shows "sint w = int (unat w)"
proof -
  have "nat (uint w) < 2147483648" using assms by simp
  then have "uint w < 2147483648" by linarith
  then have "signed_take_bit 31 (uint w) = uint w"
    by (intro signed_take_bit_int_eq_self order_trans [OF _ uint_nonnegative]) simp_all
  then show ?thesis by (simp add: sint_uint)
qed

lemma sint32_diff:
  fixes a b :: u32
  assumes "- (2 ^ 31) \<le> sint a - sint b" "sint a - sint b < 2 ^ 31"
  shows "sint (a - b) = sint a - sint b"
  using assms by (simp add: sint_word_diff signed_take_bit_int_eq_self)

lemma unat_pow2: 
  assumes "k < 32" shows "unat (2 ^ k :: u32) = 2 ^ k"
proof -
  have "(2::nat) ^ k < 2 ^ 32" using assms by (intro power_strict_increasing) auto
  moreover have "unat (2 ^ k :: u32) = take_bit 32 (2 ^ k)"
    using unsigned_push_bit_eq [of k "1::u32", where 'a = nat] by (simp add: push_bit_eq_mult)
  ultimately show ?thesis by (simp add: take_bit_eq_mod)
qed

text \<open>The number of filled places of a table of pointers.\<close>

definition occupied :: "'a option list \<Rightarrow> nat" where
  "occupied xs = length (filter (\<lambda>s. s \<noteq> None) xs)"

lemma occupied_replicate_None [simp]: "occupied (replicate n None) = 0"
  by (simp add: occupied_def)

lemma occupied_update_Some:
  "i < length xs \<Longrightarrow> occupied (xs[i := Some e]) = occupied xs + (if xs ! i = None then 1 else 0)"
  unfolding occupied_def by (induction xs arbitrary: i) (auto simp: nth_Cons split: nat.splits)

lemma occupied_less: "i < length xs \<Longrightarrow> xs ! i = None \<Longrightarrow> occupied xs < length xs"
  unfolding occupied_def by (metis (mono_tags, lifting) length_filter_less nth_mem)

lemma unat_Suc32:
  assumes "w \<noteq> UINT32_MAX" shows "unat (w + 1) = Suc (unat w)"
proof -
  have "1 + w \<noteq> 0"
  proof
    assume "1 + w = 0"
    moreover have "w = (1 + w) - 1" by simp
    ultimately have "w = - 1" by simp
    with assms show False by (simp add: UINT32_MAX_def)
  qed
  then show ?thesis using unatSuc [of w] by (simp add: add.commute)
qed

end
