(* ===== verification/Libc.thy ===== *)
theory Libc
  imports Prelude
begin

text \<open>
  The functions of the C and POSIX library that the sources parse text with, on C strings as byte
  lists: \<^verbatim>\<open>strtol\<close> and \<^verbatim>\<open>strtoul\<close> in base 10 on a 64-bit
  \<^verbatim>\<open>long\<close>, \<^verbatim>\<open>strchr\<close>, \<^verbatim>\<open>strncasecmp\<close>
  against a constant, \<^verbatim>\<open>strtok_r\<close> with one delimiter, and
  \<^verbatim>\<open>inet_pton(AF_INET, ...)\<close>. A function that sets an end pointer returns the rest of
  the string there.
\<close>

section \<open>Characters\<close>

definition isspace :: "u8 \<Rightarrow> bool" where
  "isspace c \<longleftrightarrow> c = 32 \<or> (9 \<le> c \<and> c \<le> 13)"

definition isdigit :: "u8 \<Rightarrow> bool" where
  "isdigit c \<longleftrightarrow> 48 \<le> c \<and> c \<le> 57"

definition digit_val :: "u8 \<Rightarrow> nat" where
  "digit_val c = unat (c - 48)"

definition tolower :: "u8 \<Rightarrow> u8" where
  "tolower c = (if 65 \<le> c \<and> c \<le> 90 then c + 32 else c)"

section \<open>Decimal numbers\<close>

definition dec_value :: "bytes \<Rightarrow> nat" where
  "dec_value ds = foldl (\<lambda>acc c. 10 * acc + digit_val c) 0 ds"

text \<open>The optional white space and sign, then the digits; no digit at all converts nothing.\<close>

definition strtox_split :: "bytes \<Rightarrow> bool \<times> bytes \<times> bytes" where
  "strtox_split s =
     (let t = dropWhile isspace s;
          neg = (t \<noteq> [] \<and> hd t = ch CHR ''-'');
          u = (if t \<noteq> [] \<and> (hd t = ch CHR ''-'' \<or> hd t = ch CHR ''+'') then tl t else t)
      in (neg, takeWhile isdigit u, dropWhile isdigit u))"

definition strtol :: "bytes \<Rightarrow> int \<times> bytes" where
  "strtol s =
     (case strtox_split s of (neg, ds, rest) \<Rightarrow>
        if ds = [] then (0, s)
        else (let v = int (dec_value ds)
              in (if neg then max (- (2 ^ 63)) (- v) else min (2 ^ 63 - 1) v, rest)))"

definition strtoul :: "bytes \<Rightarrow> u64 \<times> bytes" where
  "strtoul s =
     (case strtox_split s of (neg, ds, rest) \<Rightarrow>
        if ds = [] then (0, s)
        else (let v = dec_value ds
              in (if v \<ge> 2 ^ 64 then - 1 else if neg then - of_nat v else of_nat v, rest)))"

section \<open>Searching and comparing\<close>

text \<open>The text before the first \<open>c\<close> and the text after it.\<close>

definition strchr_split :: "u8 \<Rightarrow> bytes \<Rightarrow> (bytes \<times> bytes) option" where
  "strchr_split c s =
     (if c \<in> set s then Some (takeWhile (\<lambda>x. x \<noteq> c) s, tl (dropWhile (\<lambda>x. x \<noteq> c) s)) else None)"

definition strncasecmp_eq :: "bytes \<Rightarrow> bytes \<Rightarrow> nat \<Rightarrow> bool" where
  "strncasecmp_eq a b n \<longleftrightarrow> map tolower (take n (cstr a)) = map tolower (take n (cstr b))"

text \<open>Splitting at every \<open>c\<close>: \<open>n\<close> separators give \<open>n + 1\<close> fields, empty ones included.\<close>

fun split_on :: "u8 \<Rightarrow> bytes \<Rightarrow> bytes list" where
  "split_on c [] = [[]]"
| "split_on c (x # xs) =
     (if x = c then [] # split_on c xs
      else (case split_on c xs of [] \<Rightarrow> [[x]] | f # fs \<Rightarrow> (x # f) # fs))"

text \<open>The tokens \<^verbatim>\<open>strtok_r\<close> returns one after the other: runs of delimiters separate.\<close>

definition strtok_all :: "u8 \<Rightarrow> bytes \<Rightarrow> bytes list" where
  "strtok_all c s = filter (\<lambda>f. f \<noteq> []) (split_on c s)"

section \<open>Dotted decimal addresses\<close>

text \<open>One field: digits only, no leading zero, at most 255.\<close>

definition dec_octet :: "bytes \<Rightarrow> u8 option" where
  "dec_octet f =
     (if f \<noteq> [] \<and> list_all isdigit f \<and> (hd f = 48 \<longrightarrow> length f = 1) \<and> length f \<le> 3 \<and> dec_value f \<le> 255
      then Some (of_nat (dec_value f)) else None)"

definition inet_pton4 :: "bytes \<Rightarrow> (u8 \<times> u8 \<times> u8 \<times> u8) option" where
  "inet_pton4 s =
     (case map dec_octet (split_on (ch CHR ''.'') s) of
        [Some a, Some b, Some c, Some d] \<Rightarrow> Some (a, b, c, d)
      | _ \<Rightarrow> None)"

lemma split_on_not_Nil [simp]: "split_on c s \<noteq> []"
  by (cases s) (auto split: list.splits)

lemma split_on_no_sep: "c \<notin> set s \<Longrightarrow> split_on c s = [s]"
  by (induction s) auto

lemma split_on_append: "c \<notin> set s \<Longrightarrow> split_on c (s @ c # t) = s # split_on c t"
  by (induction s) auto

end
