(* ===== verification/FakednsPool.thy ===== *)
theory FakednsPool
  imports Libc
begin

text \<open>
  The fake-IP pool of \<^verbatim>\<open>src/src/fakedns.c\<close>: the global array of entries indexed by the
  host part of the address, its initialisation from a CIDR string, the allocation of an address to a
  domain by double hashing (\<^verbatim>\<open>fakedns_lookup_domain\<close>) and the range test. The reverse
  direction with its per-thread cache is in theory \<open>FakednsReverse\<close>.

  The record \<open>fakedns\<close> holds the file's static variables. The pool is a list of pointers:
  \<open>None\<close> is a NULL slot. The clock (\<^verbatim>\<open>time(NULL)\<close> cut to 32 bits), the hash
  function \<^verbatim>\<open>XXH3_64bits\<close> of the vendored xxhash and the success of
  \<^verbatim>\<open>calloc\<close> and \<^verbatim>\<open>posix_memalign\<close> are arguments. Every property holds
  for any hash function. Log output is left out, the throttling state of the log is kept.
\<close>

section \<open>State\<close>

record fakedns_entry =
  fe_ip :: u32      \<comment> \<open>network byte order\<close>
  fe_expire :: u32
  fe_version :: u32
  fe_domain :: bytes \<comment> \<open>the bytes of the array up to the terminator written last\<close>

record fakedns =
  g_fakedns_pool :: "fakedns_entry option list"
  g_fakeip_net_host :: u32
  g_fakeip_mask_host :: u32
  g_pool_size :: u32
  g_pool_used :: u32
  g_last_warn_used :: u32
  g_cidr_str :: bytes
  g_max_probes :: u32

definition fakedns_static :: fakedns where
  "fakedns_static =
     \<lparr>g_fakedns_pool = [], g_fakeip_net_host = 0, g_fakeip_mask_host = 0, g_pool_size = 0,
      g_pool_used = 0, g_last_warn_used = 0, g_cidr_str = [], g_max_probes = 0\<rparr>"

definition FAKEDNS_MAX_DOMAIN_LEN :: nat where "FAKEDNS_MAX_DOMAIN_LEN = 244"
definition FAKEDNS_DNS_TTL :: u32 where "FAKEDNS_DNS_TTL = 3600"
definition FAKEDNS_ENTRY_LIFETIME :: u32 where "FAKEDNS_ENTRY_LIFETIME = 86400"
definition FAKEDNS_TTL_REFRESH_THRESHOLD :: int where "FAKEDNS_TTL_REFRESH_THRESHOLD = 86400 * 3 div 10"

lemmas fakedns_consts =
  FAKEDNS_MAX_DOMAIN_LEN_def FAKEDNS_DNS_TTL_def FAKEDNS_ENTRY_LIFETIME_def
  FAKEDNS_TTL_REFRESH_THRESHOLD_def UINT32_MAX_def

section \<open>Initialisation\<close>

text \<open>\<open>strncpy(dst, src, n - 1); dst[n - 1] = 0\<close>: the string that ends up in \<open>dst\<close>.\<close>

definition strncpy_z :: "nat \<Rightarrow> bytes \<Rightarrow> bytes" where
  "strncpy_z n src = take (n - 1) (cstr src)"

text \<open>The value of \<^verbatim>\<open>addr.s_addr\<close> for the four bytes that \<^verbatim>\<open>inet_pton\<close> stores.\<close>

definition s_addr_of :: "u8 \<times> u8 \<times> u8 \<times> u8 \<Rightarrow> u32" where
  "s_addr_of q = (case q of (a, b, c, d) \<Rightarrow> mk32 d c b a)"

text \<open>\<^verbatim>\<open>exit(1)\<close> is \<open>None\<close>.\<close>

definition fakedns_init :: "bool \<Rightarrow> bytes \<Rightarrow> fakedns \<Rightarrow> fakedns option" where
  "fakedns_init calloc_ok cidr_str st =
     (let ip_str = strncpy_z 64 cidr_str;
          st = st\<lparr>g_cidr_str := strncpy_z 64 cidr_str\<rparr>
      in case strchr_split (ch CHR ''/'') ip_str of
           None \<Rightarrow> None
         | Some (ip_part, after_slash) \<Rightarrow>
             (let (prefix_len, endptr) = strtol after_slash
              in case inet_pton4 ip_part of
                   None \<Rightarrow> None
                 | Some addr \<Rightarrow>
                     if endptr \<noteq> [] \<or> prefix_len < 8 \<or> prefix_len > 24 then None
                     else
                       (let ip_host = ntohl (s_addr_of addr);
                            mask_host = push_bit (nat (32 - prefix_len)) (NOT 0 :: u32);
                            size = push_bit (nat (32 - prefix_len)) (1 :: u32)
                        in if \<not> calloc_ok then None
                           else Some (st\<lparr>g_fakeip_net_host := ip_host AND mask_host,
                                         g_fakeip_mask_host := mask_host,
                                         g_pool_size := size,
                                         g_fakedns_pool := replicate (unat size) None,
                                         g_max_probes := (if size < 128 then size else 128)\<rparr>))))"

section \<open>Lookup of a domain\<close>

definition entry_set_domain :: "bytes \<Rightarrow> fakedns_entry \<Rightarrow> fakedns_entry" where
  "entry_set_domain domain entry =
     (let len = length domain;
          copy_len = (if len \<ge> FAKEDNS_MAX_DOMAIN_LEN then FAKEDNS_MAX_DOMAIN_LEN - 1 else len)
      in entry\<lparr>fe_domain := take copy_len domain @ [0]\<rparr>)"

text \<open>
  The probe loop of phase 1, run for at most \<^verbatim>\<open>g_max_probes\<close> steps. It ends at a slot that
  holds the domain, at an empty slot, or with all probes used; \<open>first_expired\<close> is
  \<^verbatim>\<open>first_expired_offset\<close> with \<^verbatim>\<open>UINT32_MAX\<close> for none.
\<close>

datatype probe_result =
    Probe_hit u32
  | Probe_empty u32 u32
  | Probe_exhausted u32

definition slot :: "fakedns \<Rightarrow> u32 \<Rightarrow> fakedns_entry option" where
  "slot st offset = g_fakedns_pool st ! unat offset"

definition is_expired :: "u32 \<Rightarrow> fakedns_entry \<Rightarrow> bool" where
  "is_expired now e \<longleftrightarrow> sint (fe_expire e - now) < 0"

fun fakedns_probe :: "fakedns \<Rightarrow> u32 \<Rightarrow> bytes \<Rightarrow> u32 \<Rightarrow> nat \<Rightarrow> u32 \<Rightarrow> u32 \<Rightarrow> probe_result" where
  "fakedns_probe st now domain step 0 offset first_expired = Probe_exhausted first_expired"
| "fakedns_probe st now domain step (Suc n) offset first_expired =
     (case slot st offset of
        None \<Rightarrow> Probe_empty offset first_expired
      | Some entry \<Rightarrow>
          if cstr (fe_domain entry) = cstr domain then Probe_hit offset
          else fakedns_probe st now domain step n ((offset + step) AND (g_pool_size st - 1))
                 (if first_expired = UINT32_MAX \<and> is_expired now entry then offset else first_expired))"

definition set_slot :: "u32 \<Rightarrow> fakedns_entry \<Rightarrow> fakedns \<Rightarrow> fakedns" where
  "set_slot offset entry st =
     st\<lparr>g_fakedns_pool := (g_fakedns_pool st)[unat offset := Some entry]\<rparr>"

text \<open>A match: the lifetime is renewed when less than 30 per cent of it is left.\<close>

definition fakedns_hit :: "u32 \<Rightarrow> u32 \<Rightarrow> fakedns \<Rightarrow> u32 \<times> fakedns" where
  "fakedns_hit now offset st =
     (let ip_net = htonl (g_fakeip_net_host st + offset);
          entry = the (slot st offset);
          remaining = sint (fe_expire entry - now)
      in if remaining > FAKEDNS_TTL_REFRESH_THRESHOLD then (ip_net, st)
         else (ip_net, set_slot offset (entry\<lparr>fe_expire := now + FAKEDNS_ENTRY_LIFETIME\<rparr>) st))"

text \<open>Phase 2, an expired entry was met: it is overwritten and its version incremented.\<close>

definition fakedns_overwrite :: "u32 \<Rightarrow> bytes \<Rightarrow> u32 \<Rightarrow> fakedns \<Rightarrow> u32 \<times> fakedns" where
  "fakedns_overwrite now domain first_expired st =
     (let ip_net = htonl (g_fakeip_net_host st + first_expired);
          entry = entry_set_domain domain (the (slot st first_expired))
      in (ip_net,
          set_slot first_expired
            (entry\<lparr>fe_expire := now + FAKEDNS_ENTRY_LIFETIME, fe_version := fe_version entry + 1\<rparr>) st))"

text \<open>
  The throttling of the usage warnings. \<^verbatim>\<open>usage\<close> is a quotient of two single-precision
  numbers; the size is a power of two and the count at most \<open>2^24\<close>, so both conversions and the
  division are exact, and the literals \<^verbatim>\<open>0.95f\<close> and \<^verbatim>\<open>0.80f\<close> are the
  fractions \<open>15938355 / 2^24\<close> and \<open>13421773 / 2^24\<close>.
\<close>

definition usage_at_least :: "u32 \<Rightarrow> u32 \<Rightarrow> nat \<Rightarrow> bool" where
  "usage_at_least used cap threshold24 \<longleftrightarrow> unat used * 2 ^ 24 \<ge> threshold24 * unat cap"

definition fakedns_warn_usage :: "fakedns \<Rightarrow> fakedns" where
  "fakedns_warn_usage st =
     (let used = g_pool_used st; size = g_pool_size st in
      if usage_at_least used size 15938355
      then (if used - g_last_warn_used st \<ge> size div 50 then st\<lparr>g_last_warn_used := used\<rparr> else st)
      else if usage_at_least used size 13421773
      then (if used - g_last_warn_used st \<ge> size div 20 then st\<lparr>g_last_warn_used := used\<rparr> else st)
      else st)"

text \<open>Phase 2, only an empty slot was met: a new entry.\<close>

definition fakedns_insert :: "bool \<Rightarrow> u32 \<Rightarrow> bytes \<Rightarrow> u32 \<Rightarrow> fakedns \<Rightarrow> u32 \<times> fakedns" where
  "fakedns_insert memalign_ok now domain offset st =
     (let ip_net = htonl (g_fakeip_net_host st + offset) in
      if g_pool_used st \<ge> g_pool_size st then (0, st)
      else if \<not> memalign_ok then (0, st)
      else
        (let entry = entry_set_domain domain
               \<lparr>fe_ip = ip_net, fe_expire = now + FAKEDNS_ENTRY_LIFETIME, fe_version = 1, fe_domain = []\<rparr>;
             st = set_slot offset entry st;
             st = st\<lparr>g_pool_used := g_pool_used st + 1\<rparr>
         in (ip_net, fakedns_warn_usage st)))"

definition probe_start :: "fakedns \<Rightarrow> u64 \<Rightarrow> u32" where
  "probe_start st hash = ucast (hash AND ucast (g_pool_size st - 1))"

definition probe_step :: "u64 \<Rightarrow> u32" where
  "probe_step hash = ucast (drop_bit 32 hash) OR 1"

definition fakedns_lookup_domain ::
  "(bytes \<Rightarrow> u64) \<Rightarrow> bool \<Rightarrow> u32 \<Rightarrow> bytes \<Rightarrow> fakedns \<Rightarrow> u32 \<times> fakedns" where
  "fakedns_lookup_domain xxh memalign_ok now domain st =
     (if g_pool_size st = 0 then (0, st)
      else
        (let hash = xxh domain in
         case fakedns_probe st now domain (probe_step hash) (unat (g_max_probes st))
                (probe_start st hash) UINT32_MAX of
           Probe_hit offset \<Rightarrow> fakedns_hit now offset st
         | Probe_empty offset first_expired \<Rightarrow>
             if first_expired \<noteq> UINT32_MAX then fakedns_overwrite now domain first_expired st
             else fakedns_insert memalign_ok now domain offset st
         | Probe_exhausted first_expired \<Rightarrow>
             if first_expired \<noteq> UINT32_MAX then fakedns_overwrite now domain first_expired st
             else (0, st)))"

section \<open>The range test\<close>

definition fakedns_is_fakeip :: "fakedns \<Rightarrow> u32 \<Rightarrow> bool" where
  "fakedns_is_fakeip st ip_net \<longleftrightarrow>
     g_pool_size st \<noteq> 0 \<and> ntohl ip_net AND g_fakeip_mask_host st = g_fakeip_net_host st"

section \<open>Sizes and well-formedness\<close>

definition fakedns_sized :: "nat \<Rightarrow> fakedns \<Rightarrow> bool" where
  "fakedns_sized k st \<longleftrightarrow>
     8 \<le> k \<and> k \<le> 24 \<and> g_pool_size st = 2 ^ k \<and> g_fakeip_mask_host st = NOT (mask k) \<and>
     g_fakeip_net_host st AND NOT (mask k) = g_fakeip_net_host st \<and>
     length (g_fakedns_pool st) = 2 ^ k \<and> g_max_probes st = 128"

definition entry_ok :: "u32 \<Rightarrow> nat \<Rightarrow> fakedns_entry \<Rightarrow> bool" where
  "entry_ok net i e \<longleftrightarrow>
     fe_ip e = htonl (net + of_nat i) \<and>
     length (fe_domain e) \<le> FAKEDNS_MAX_DOMAIN_LEN \<and> 0 \<in> set (fe_domain e)"

definition fakedns_wf :: "fakedns \<Rightarrow> bool" where
  "fakedns_wf st \<longleftrightarrow>
     (\<exists>k \<in> {8..24}. fakedns_sized k st) \<and>
     unat (g_pool_used st) = occupied (g_fakedns_pool st) \<and>
     (\<forall>i < length (g_fakedns_pool st). 
        case g_fakedns_pool st ! i of None \<Rightarrow> True | Some e \<Rightarrow> entry_ok (g_fakeip_net_host st) i e)"

lemma fakedns_wf_sizedE:
  assumes "fakedns_wf st" obtains k where "fakedns_sized k st"
  using assms by (auto simp: fakedns_wf_def)

lemma fakedns_init_cases:
  assumes "fakedns_init c cidr st0 = Some st"
  obtains n ip where "8 \<le> n" "n \<le> 24"
    "st = st0\<lparr>g_cidr_str := strncpy_z 64 cidr, g_fakeip_net_host := ip AND NOT (mask n),
           g_fakeip_mask_host := NOT (mask n), g_pool_size := 2 ^ n,
           g_fakedns_pool := replicate (unat (2 ^ n :: u32)) None,
           g_max_probes := (if (2 ^ n :: u32) < 128 then 2 ^ n else 128)\<rparr>"
proof -
  obtain ip_part rest where s: "strchr_split (ch CHR ''/'') (strncpy_z 64 cidr) = Some (ip_part, rest)"
    using assms by (auto simp: fakedns_init_def Let_def split: option.splits)
  obtain p e where p: "strtol rest = (p, e)" by fastforce
  obtain addr where a: "inet_pton4 ip_part = Some addr"
    using assms s p by (auto simp: fakedns_init_def Let_def split: option.splits)
  have c: "e = []" "8 \<le> p" "p \<le> 24" "c"
    using assms s p a by (auto simp: fakedns_init_def Let_def split: if_splits)
  show ?thesis
    by (rule that [of "nat (32 - p)" "ntohl (s_addr_of addr)"])
      (use assms c in \<open>simp_all add: fakedns_init_def Let_def s p a\<close>)
qed

lemma fakedns_init_sized:
  assumes "fakedns_init c cidr st0 = Some st"
  shows "\<exists>k \<in> {8..24}. fakedns_sized k st \<and> g_fakedns_pool st = replicate (2 ^ k) None \<and> g_pool_used st = g_pool_used st0"
proof -
  obtain n ip where n: "8 \<le> n" "n \<le> 24" and
    st: "st = st0\<lparr>g_cidr_str := strncpy_z 64 cidr, g_fakeip_net_host := ip AND NOT (mask n),
           g_fakeip_mask_host := NOT (mask n), g_pool_size := 2 ^ n,
           g_fakedns_pool := replicate (unat (2 ^ n :: u32)) None,
           g_max_probes := (if (2 ^ n :: u32) < 128 then 2 ^ n else 128)\<rparr>"
    using assms by (rule fakedns_init_cases)
  have un: "unat (2 ^ n :: u32) = 2 ^ n" using n by (simp add: unat_pow2)
  have "(256::nat) \<le> 2 ^ n" using power_increasing [OF n(1), of "2::nat"] by simp
  then have "\<not> (2 ^ n :: u32) < 128" by (simp add: word_less_nat_alt un)
  then show ?thesis using n
    by (auto simp: st fakedns_sized_def un and.assoc)
qed

lemma fakedns_init_wf:
  assumes "fakedns_init c cidr st0 = Some st" "g_pool_used st0 = 0"
  shows "fakedns_wf st"
  using fakedns_init_sized [OF assms(1)] assms(2) by (auto simp: fakedns_wf_def)

section \<open>The probe sequence visits distinct slots\<close>

lemma fakedns_sized_bounds:
  assumes "fakedns_sized k st"
  shows "k < 32" "unat (g_pool_size st) = 2 ^ k" "g_pool_size st \<noteq> 0" "unat (w AND (g_pool_size st - 1)) < 2 ^ k"
    "128 \<le> (2::nat) ^ k"
proof -
  show k: "k < 32" using assms by (simp add: fakedns_sized_def)
  show "unat (g_pool_size st) = 2 ^ k" using assms k by (simp add: fakedns_sized_def unat_pow2)
  then show "g_pool_size st \<noteq> 0" by auto
  show "unat (w AND (g_pool_size st - 1)) < 2 ^ k"
    using assms by (simp add: fakedns_sized_def AND_pow2_minus_1 unat_take_bit)
  have "8 \<le> k" using assms by (simp add: fakedns_sized_def)
  then show "128 \<le> (2::nat) ^ k" using power_increasing [of 8 k "2::nat"] by simp
qed

lemma is_fakeip_slot:
  assumes "fakedns_sized k st" "unat off < 2 ^ k"
  shows "fakedns_is_fakeip st (htonl (g_fakeip_net_host st + off))"
  using assms fakedns_sized_bounds(3) [OF assms(1)]
  by (simp add: fakedns_is_fakeip_def fakedns_sized_def host_part_add)

lemma is_fakeip_offset:
  assumes "fakedns_sized k st" "fakedns_is_fakeip st ip"
  shows "unat (ntohl ip - g_fakeip_net_host st) < 2 ^ k"
proof -
  have "ntohl ip - g_fakeip_net_host st = take_bit k (ntohl ip)"
    using assms by (intro host_part_diff) (simp add: fakedns_is_fakeip_def fakedns_sized_def)
  then show ?thesis by (simp add: unat_take_bit)
qed

definition probe_at :: "fakedns \<Rightarrow> u32 \<Rightarrow> u32 \<Rightarrow> nat \<Rightarrow> u32" where
  "probe_at st start step i = (start + of_nat i * step) AND (g_pool_size st - 1)"

lemma mod_2p32:
  assumes "fakedns_sized k st" shows "x mod 2 ^ 32 mod 2 ^ k = x mod (2 ^ k :: nat)"
  using fakedns_sized_bounds(1) [OF assms] by (intro mod_mod_cancel le_imp_power_dvd) simp

lemma unat_probe_at:
  assumes "fakedns_sized k st"
  shows "unat (probe_at st start step i) = (unat start + i * unat step) mod 2 ^ k"
proof -
  have "unat (start + of_nat i * step) mod 2 ^ k = (unat start + i * unat step) mod 2 ^ k"
    using mod_2p32 [OF assms] by (simp add: unat_word_ariths unat_of_nat mod_simps)
  then show ?thesis
    using assms by (simp add: probe_at_def fakedns_sized_def AND_pow2_minus_1 unat_take_bit)
qed

lemma probe_at_Suc:
  assumes "fakedns_sized k st"
  shows "(probe_at st start step i + step) AND (g_pool_size st - 1) = probe_at st start step (Suc i)"
proof (rule word_unat_eq_iff [THEN iffD2])
  have "unat ((probe_at st start step i + step) AND (g_pool_size st - 1)) = 
        (unat (probe_at st start step i) + unat step) mod 2 ^ k"
    using mod_2p32 [OF assms] assms
    by (simp add: fakedns_sized_def AND_pow2_minus_1 unat_take_bit unat_word_ariths)
  then show "unat ((probe_at st start step i + step) AND (g_pool_size st - 1)) = unat (probe_at st start step (Suc i))"
    by (simp add: unat_probe_at [OF assms] mod_simps algebra_simps)
qed

lemma probe_step_odd: "odd (unat (probe_step h))"
proof -
  have "bit (unat (probe_step h)) 0"
    by (simp only: bit_unsigned_iff) (simp add: probe_step_def bit_simps)
  then show ?thesis by (simp add: bit_0)
qed

lemma probe_at_inj:
  assumes "fakedns_sized k st" "i < 2 ^ k" "j < 2 ^ k"
    "probe_at st start (probe_step h) i = probe_at st start (probe_step h) j"
  shows "i = j"
  using assms probe_step_odd [of h]
  by (intro odd_mult_inj [of "unat (probe_step h)" i k j "unat start"]) (metis unat_probe_at)+

lemma probe_start_at: "fakedns_sized k st \<Longrightarrow> probe_at st (probe_start st h) step 0 = probe_start st h"
  by (rule bit_word_eqI)
    (auto simp: probe_at_def probe_start_def fakedns_sized_def bit_simps simp flip: mask_eq_exp_minus_1)

section \<open>What the probe loop finds\<close>

definition holds_domain :: "fakedns \<Rightarrow> bytes \<Rightarrow> u32 \<Rightarrow> bool" where
  "holds_domain st domain off \<longleftrightarrow>
     (case slot st off of None \<Rightarrow> False | Some e \<Rightarrow> cstr (fe_domain e) = cstr domain)"

definition foreign :: "fakedns \<Rightarrow> bytes \<Rightarrow> u32 \<Rightarrow> bool" where
  "foreign st domain off \<longleftrightarrow>
     (case slot st off of None \<Rightarrow> False | Some e \<Rightarrow> cstr (fe_domain e) \<noteq> cstr domain)"

definition slot_expired :: "fakedns \<Rightarrow> u32 \<Rightarrow> u32 \<Rightarrow> bool" where
  "slot_expired st now off \<longleftrightarrow> (case slot st off of None \<Rightarrow> False | Some e \<Rightarrow> is_expired now e)"

lemmas slot_preds = holds_domain_def foreign_def slot_expired_def

lemma not_holds_foreign: "slot st off \<noteq> None \<Longrightarrow> \<not> holds_domain st d off \<longleftrightarrow> foreign st d off"
  by (auto simp: slot_preds)

text \<open>What the probe loop finds, in terms of the probe sequence \<open>P\<close> from step \<open>i\<close> on.\<close>

definition first_expired_ok :: "fakedns \<Rightarrow> u32 \<Rightarrow> bytes \<Rightarrow> (nat \<Rightarrow> u32) \<Rightarrow> nat \<Rightarrow> nat \<Rightarrow> u32 \<Rightarrow> u32 \<Rightarrow> bool" where
  "first_expired_ok st now domain P i m fe0 fe \<longleftrightarrow>
     (fe = fe0 \<or> fe0 = UINT32_MAX \<and> (\<exists>j \<in> {i..<m}. fe = P j \<and> slot_expired st now (P j))) \<and>
     (fe = UINT32_MAX \<longrightarrow> (\<forall>j \<in> {i..<m}. \<not> slot_expired st now (P j)))"

lemma probe_at_bound: "fakedns_sized k st \<Longrightarrow> unat (probe_at st start step i) < 2 ^ k"
  by (simp add: unat_probe_at)

lemma probe_at_neq_MAX:
  assumes "fakedns_sized k st" shows "probe_at st start step i \<noteq> UINT32_MAX"
proof
  assume "probe_at st start step i = UINT32_MAX"
  then have "unat UINT32_MAX < 2 ^ k" using probe_at_bound [OF assms] by metis
  moreover have "(2::nat) ^ k \<le> 2 ^ 24"
    using assms by (intro power_increasing) (auto simp: fakedns_sized_def)
  ultimately show False by (simp add: UINT32_MAX_def)
qed

lemma fakedns_probe_spec:
  fixes start step :: u32
  assumes "fakedns_sized k st"
  defines "P \<equiv> probe_at st start step"
  shows "case fakedns_probe st now domain step n (P i) fe0 of
      Probe_hit off \<Rightarrow> \<exists>m \<in> {i..<i + n}. off = P m \<and> holds_domain st domain off \<and> (\<forall>l \<in> {i..<m}. foreign st domain (P l))
    | Probe_empty off fe \<Rightarrow> \<exists>m \<in> {i..<i + n}. off = P m \<and> slot st off = None \<and>
         (\<forall>l \<in> {i..<m}. foreign st domain (P l)) \<and> first_expired_ok st now domain P i m fe0 fe
    | Probe_exhausted fe \<Rightarrow> (\<forall>l \<in> {i..<i + n}. foreign st domain (P l)) \<and>
         first_expired_ok st now domain P i (i + n) fe0 fe"
proof (induction n arbitrary: i fe0)
  case 0
  then show ?case by (simp add: first_expired_ok_def)
next
  case (Suc n)
  show ?case
  proof (cases "slot st (P i)")
    case None
    then show ?thesis by (auto simp: first_expired_ok_def)
  next
    case (Some e)
    show ?thesis
    proof (cases "cstr (fe_domain e) = cstr domain")
      case True
      with Some show ?thesis by (auto simp: holds_domain_def)
    next
      case False
      define fe1 where "fe1 = (if fe0 = UINT32_MAX \<and> is_expired now e then P i else fe0)"
      have run: "fakedns_probe st now domain step (Suc n) (P i) fe0 = fakedns_probe st now domain step n (P (Suc i)) fe1"
        using Some False by (simp add: fe1_def P_def probe_at_Suc [OF assms(1)])
      have f: "foreign st domain (P i)" using Some False by (simp add: foreign_def)
      have ext: "(\<forall>l \<in> {i..<m}. foreign st domain (P l)) \<longleftrightarrow> (\<forall>l \<in> {Suc i..<m}. foreign st domain (P l))" for m
        using f by (auto simp: Suc_le_eq le_less)
      have in1: "{i..<m} = insert i {Suc i..<m}" if "i < m" for m
        using that by auto
      have ok: "first_expired_ok st now domain P i m fe0 fe"
        if "first_expired_ok st now domain P (Suc i) m fe1 fe" "i < m" for m fe
        using that(1) Some probe_at_neq_MAX [OF assms(1), of start step i]
        by (auto simp: first_expired_ok_def fe1_def slot_expired_def in1 [OF that(2)] P_def split: if_splits)
      show ?thesis
        unfolding run using Suc.IH [of "Suc i" fe1]
        by (auto simp: ext split: probe_result.splits intro: ok  intro!: ok)
    qed
  qed
qed

lemma fakedns_probe_hitI:
  assumes "fakedns_sized k st" "\<forall>l < m. foreign st domain (probe_at st start step (i + l))"
    "holds_domain st domain (probe_at st start step (i + m))" "m < n"
  shows "fakedns_probe st now domain step n (probe_at st start step i) fe = Probe_hit (probe_at st start step (i + m))"
  using assms(2-4)
proof (induction m arbitrary: n i fe)
  case 0
  then obtain n' where "n = Suc n'" using gr0_conv_Suc by blast
  with 0 show ?case by (auto simp: holds_domain_def split: option.splits)
next
  case (Suc m)
  then obtain n' where n: "n = Suc n'" "m < n'" by (cases n) auto
  have "\<forall>l < m. foreign st domain (probe_at st start step (Suc i + l))" using Suc.prems(1) by force
  note IH = Suc.IH [OF this _ n(2)]
  have f: "foreign st domain (probe_at st start step i)"
    using Suc.prems(1) by (metis add_0_right zero_less_Suc)
  show ?case
    using IH f Suc.prems(2) n
    by (auto simp: foreign_def probe_at_Suc [OF assms(1)] split: option.splits)
qed

section \<open>The four outcomes of a lookup\<close>

definition probe_seq :: "(bytes \<Rightarrow> u64) \<Rightarrow> bytes \<Rightarrow> fakedns \<Rightarrow> nat \<Rightarrow> u32" where
  "probe_seq xxh domain st = probe_at st (probe_start st (xxh domain)) (probe_step (xxh domain))"

lemma fakedns_lookup_cases:
  assumes "fakedns_sized k st" and P: "P = probe_seq xxh domain st"
  obtains
    (hit) m where "m < 128" "\<forall>l < m. foreign st domain (P l)" "holds_domain st domain (P m)"
      "fakedns_lookup_domain xxh mem now domain st = fakedns_hit now (P m) st"
  | (overwrite) m where "m < 128" "\<forall>l \<le> m. foreign st domain (P l)" "slot_expired st now (P m)"
      "fakedns_lookup_domain xxh mem now domain st = fakedns_overwrite now domain (P m) st"
  | (insert) m where "m < 128" "\<forall>l < m. foreign st domain (P l) \<and> \<not> slot_expired st now (P l)"
      "slot st (P m) = None"
      "fakedns_lookup_domain xxh mem now domain st = fakedns_insert mem now domain (P m) st"
  | (full) "\<forall>l < 128. foreign st domain (P l) \<and> \<not> slot_expired st now (P l)"
      "fakedns_lookup_domain xxh mem now domain st = (0, st)"
proof -
  let ?r = "fakedns_probe st now domain (probe_step (xxh domain)) 128 (P 0) UINT32_MAX"
  have P0: "P 0 = probe_start st (xxh domain)"
    using probe_start_at [OF assms(1)] by (simp add: P probe_seq_def)
  have lk: "fakedns_lookup_domain xxh mem now domain st =
      (case ?r of
           Probe_hit offset \<Rightarrow> fakedns_hit now offset st
         | Probe_empty offset first_expired \<Rightarrow>
             if first_expired \<noteq> UINT32_MAX then fakedns_overwrite now domain first_expired st
             else fakedns_insert mem now domain offset st
         | Probe_exhausted first_expired \<Rightarrow>
             if first_expired \<noteq> UINT32_MAX then fakedns_overwrite now domain first_expired st
             else (0, st))"
    using assms(1) fakedns_sized_bounds(3) [OF assms(1)]
    by (simp add: fakedns_lookup_domain_def P0 fakedns_sized_def Let_def)
  have spec: "case ?r of
      Probe_hit off \<Rightarrow> \<exists>m \<in> {0..<128}. off = P m \<and> holds_domain st domain off \<and> (\<forall>l \<in> {0..<m}. foreign st domain (P l))
    | Probe_empty off fe \<Rightarrow> \<exists>m \<in> {0..<128}. off = P m \<and> slot st off = None \<and>
         (\<forall>l \<in> {0..<m}. foreign st domain (P l)) \<and> first_expired_ok st now domain P 0 m UINT32_MAX fe
    | Probe_exhausted fe \<Rightarrow> (\<forall>l \<in> {0..<128}. foreign st domain (P l)) \<and>
         first_expired_ok st now domain P 0 128 UINT32_MAX fe"
    using fakedns_probe_spec [OF assms(1), where now = now and domain = domain and n = 128 and i = 0
        and step = "probe_step (xxh domain)" and start = "probe_start st (xxh domain)" and ?fe0.0 = UINT32_MAX]
    unfolding P probe_seq_def add_0 .
  show thesis
  proof (cases ?r)
    case (Probe_hit off)
    then show thesis using spec lk by (auto intro: hit)
  next
    case (Probe_empty off fe)
    then obtain m where m: "m < 128" "off = P m" "slot st (P m) = None" "\<forall>l < m. foreign st domain (P l)"
      and fe: "first_expired_ok st now domain P 0 m UINT32_MAX fe"
      using spec by auto
    show thesis
    proof (cases "fe = UINT32_MAX")
      case True
      then show thesis using m fe lk Probe_empty by (auto simp: first_expired_ok_def intro: insert)
    next
      case False
      then obtain j where "j < m" "fe = P j" "slot_expired st now (P j)"
        using fe by (auto simp: first_expired_ok_def)
      then show thesis using m lk Probe_empty False by (intro overwrite [of j]) auto
    qed
  next
    case (Probe_exhausted fe)
    then have m: "\<forall>l < 128. foreign st domain (P l)"
      and fe: "first_expired_ok st now domain P 0 128 UINT32_MAX fe"
      using spec by auto
    show thesis
    proof (cases "fe = UINT32_MAX")
      case True
      then show thesis using m fe lk Probe_exhausted by (auto simp: first_expired_ok_def intro: full)
    next
      case False
      then obtain j where "j < 128" "fe = P j" "slot_expired st now (P j)"
        using fe by (auto simp: first_expired_ok_def)
      then show thesis using m lk Probe_exhausted False by (intro overwrite [of j]) auto
    qed
  qed
qed

lemma probe_seq_bound: "fakedns_sized k st \<Longrightarrow> unat (probe_seq xxh domain st l) < 2 ^ k"
  by (simp add: probe_seq_def probe_at_bound)

lemma probe_seq_inj:
  "fakedns_sized k st \<Longrightarrow> i < 128 \<Longrightarrow> j < 128 \<Longrightarrow> probe_seq xxh domain st i = probe_seq xxh domain st j \<Longrightarrow> i = j"
  using probe_at_inj fakedns_sized_bounds(5) unfolding probe_seq_def by (meson order_less_le_trans)

section \<open>Writes to a slot\<close>

lemma set_slot_sized [simp]: "fakedns_sized k (set_slot off e st) = fakedns_sized k st"
  by (simp add: fakedns_sized_def set_slot_def)

lemma slot_set_slot:
  assumes "fakedns_sized k st" "unat off < 2 ^ k"
  shows "slot (set_slot off e st) o' = (if o' = off then Some e else slot st o')"
  using assms by (auto simp: slot_def set_slot_def fakedns_sized_def nth_list_update dest: word_unat_eq_iff [THEN iffD2])

lemma set_slot_fields [simp]:
  "g_fakeip_net_host (set_slot off e st) = g_fakeip_net_host st"
  "g_fakeip_mask_host (set_slot off e st) = g_fakeip_mask_host st"
  "g_pool_size (set_slot off e st) = g_pool_size st"
  "g_pool_used (set_slot off e st) = g_pool_used st"
  "g_max_probes (set_slot off e st) = g_max_probes st"
  "g_cidr_str (set_slot off e st) = g_cidr_str st"
  "length (g_fakedns_pool (set_slot off e st)) = length (g_fakedns_pool st)"
  by (simp_all add: set_slot_def)

lemma warn_usage_fields [simp]:
  "g_fakedns_pool (fakedns_warn_usage st) = g_fakedns_pool st"
  "g_fakeip_net_host (fakedns_warn_usage st) = g_fakeip_net_host st"
  "g_fakeip_mask_host (fakedns_warn_usage st) = g_fakeip_mask_host st"
  "g_pool_size (fakedns_warn_usage st) = g_pool_size st"
  "g_pool_used (fakedns_warn_usage st) = g_pool_used st"
  "g_max_probes (fakedns_warn_usage st) = g_max_probes st"
  "g_cidr_str (fakedns_warn_usage st) = g_cidr_str st"
  by (simp_all add: fakedns_warn_usage_def Let_def)

lemma warn_usage_sized [simp]: "fakedns_sized k (fakedns_warn_usage st) = fakedns_sized k st"
  by (simp add: fakedns_sized_def)

lemma warn_usage_slot [simp]: "slot (fakedns_warn_usage st) off = slot st off"
  by (simp add: slot_def)

lemma used_sized [simp]: "fakedns_sized k (st\<lparr>g_pool_used := u\<rparr>) = fakedns_sized k st"
  by (simp add: fakedns_sized_def)

lemma used_slot [simp]: "slot (st\<lparr>g_pool_used := u\<rparr>) off = slot st off"
  by (simp add: slot_def)

section \<open>Well-formedness is kept\<close>

text \<open>The well-formedness of a pool, slot by slot.\<close>

definition fakedns_slots_ok :: "fakedns \<Rightarrow> bool" where
  "fakedns_slots_ok st \<longleftrightarrow> (\<forall>off. unat off < length (g_fakedns_pool st) \<longrightarrow>
     (case slot st off of None \<Rightarrow> True
      | Some e \<Rightarrow> fe_ip e = htonl (g_fakeip_net_host st + off) \<and>
          length (fe_domain e) \<le> FAKEDNS_MAX_DOMAIN_LEN \<and> 0 \<in> set (fe_domain e)))"

lemma fakedns_wf_alt:
  assumes "fakedns_sized k st"
  shows "fakedns_wf st \<longleftrightarrow> unat (g_pool_used st) = occupied (g_fakedns_pool st) \<and> fakedns_slots_ok st"
proof -
  have len: "length (g_fakedns_pool st) = 2 ^ k" and k: "k \<in> {8..24}"
    using assms by (auto simp: fakedns_sized_def)
  have big: "(2::nat) ^ k < 2 ^ 32" using k by (intro power_strict_increasing) auto
  have "(\<forall>i < length (g_fakedns_pool st). 
        case g_fakedns_pool st ! i of None \<Rightarrow> True | Some e \<Rightarrow> entry_ok (g_fakeip_net_host st) i e)
     \<longleftrightarrow> fakedns_slots_ok st" (is "?L \<longleftrightarrow> ?R")
  proof
    assume ?L then show ?R
      by (fastforce simp: fakedns_slots_ok_def slot_def entry_ok_def split: option.splits)
  next
    assume R: ?R show ?L
    proof (intro allI impI)
      fix i assume i: "i < length (g_fakedns_pool st)"
      then have "unat (of_nat i :: u32) = i" using len big by (simp add: unat_of_nat)
      then show "case g_fakedns_pool st ! i of None \<Rightarrow> True | Some e \<Rightarrow> entry_ok (g_fakeip_net_host st) i e"
        using R [unfolded fakedns_slots_ok_def, rule_format, of "of_nat i"] i
        by (auto simp: slot_def entry_ok_def split: option.splits)
    qed
  qed
  then show ?thesis using assms k by (auto simp: fakedns_wf_def)
qed

lemma entry_set_domain_fields [simp]:
  "fe_ip (entry_set_domain d e) = fe_ip e" "fe_expire (entry_set_domain d e) = fe_expire e"
  "fe_version (entry_set_domain d e) = fe_version e"
  "0 \<in> set (fe_domain (entry_set_domain d e))"
  "length (fe_domain (entry_set_domain d e)) \<le> FAKEDNS_MAX_DOMAIN_LEN"
  by (auto simp: entry_set_domain_def Let_def FAKEDNS_MAX_DOMAIN_LEN_def)

lemma cstr_entry_set_domain [cstr_simps]:
  "length d < FAKEDNS_MAX_DOMAIN_LEN \<Longrightarrow> cstr (fe_domain (entry_set_domain d e)) = cstr d"
  by (simp add: entry_set_domain_def Let_def cstr_append_NUL [where t = "[]"])

lemma set_slot_wf:
  assumes "fakedns_sized k st" "fakedns_wf st" "unat off < 2 ^ k" "slot st off \<noteq> None"
    "fe_ip e = htonl (g_fakeip_net_host st + off)"
    "length (fe_domain e) \<le> FAKEDNS_MAX_DOMAIN_LEN" "0 \<in> set (fe_domain e)"
  shows "fakedns_wf (set_slot off e st)"
proof -
  have len: "length (g_fakedns_pool st) = 2 ^ k" using assms(1) by (simp add: fakedns_sized_def)
  have wf: "unat (g_pool_used st) = occupied (g_fakedns_pool st)" "fakedns_slots_ok st"
    using assms(2) fakedns_wf_alt [OF assms(1)] by auto
  have "fakedns_slots_ok (set_slot off e st)"
    using wf(2) assms(5-7) len 
    by (auto simp: fakedns_slots_ok_def slot_set_slot [OF assms(1,3)] split: option.splits)
  moreover have "occupied (g_fakedns_pool (set_slot off e st)) = unat (g_pool_used st)"
    using assms(3,4) wf(1) len by (auto simp: set_slot_def slot_def occupied_update_Some)
  ultimately show ?thesis
    using fakedns_wf_alt [of k "set_slot off e st"] assms(1) by simp
qed

lemma fakedns_insert_wf:
  assumes "fakedns_sized k st" "fakedns_wf st" "unat off < 2 ^ k" "slot st off = None"
  shows "fakedns_wf (snd (fakedns_insert mem now d off st))" 
    "g_pool_used st < g_pool_size st"
proof -
  have len: "length (g_fakedns_pool st) = 2 ^ k" using assms(1) by (simp add: fakedns_sized_def)
  have wf: "unat (g_pool_used st) = occupied (g_fakedns_pool st)" "fakedns_slots_ok st"
    using assms(2) fakedns_wf_alt [OF assms(1)] by auto
  have used: "unat (g_pool_used st) < 2 ^ k"
    using occupied_less [of "unat off" "g_fakedns_pool st"] assms(3,4) len wf(1) by (simp add: slot_def)
  then show "g_pool_used st < g_pool_size st"
    using fakedns_sized_bounds(2) [OF assms(1)] by (simp add: word_less_nat_alt)
  have big: "(2::nat) ^ k \<le> 2 ^ 24" using assms(1) by (intro power_increasing) (auto simp: fakedns_sized_def)
  have inc: "unat (g_pool_used st + 1) = Suc (unat (g_pool_used st))"
    using used big by (simp add: unat_word_ariths)
  let ?e = "entry_set_domain d \<lparr>fe_ip = htonl (g_fakeip_net_host st + off), 
     fe_expire = now + FAKEDNS_ENTRY_LIFETIME, fe_version = 1, fe_domain = []\<rparr>"
  let ?st = "fakedns_warn_usage (set_slot off ?e st\<lparr>g_pool_used := g_pool_used st + 1\<rparr>)"
  have "fakedns_slots_ok ?st"
    using wf(2) len
    by (auto simp: fakedns_slots_ok_def slot_set_slot [OF assms(1,3)] split: option.splits)
  moreover have "occupied (g_fakedns_pool ?st) = unat (g_pool_used ?st)"
    using assms(3,4) wf(1) len inc by (auto simp: set_slot_def slot_def occupied_update_Some)
  ultimately have "fakedns_wf ?st"
    using fakedns_wf_alt [of k ?st] assms(1) by simp
  then show "fakedns_wf (snd (fakedns_insert mem now d off st))"
    using assms(2) by (simp add: fakedns_insert_def Let_def)
qed

section \<open>The effect of one lookup\<close>

text \<open>
  What one lookup does: it answers \<open>0\<close> and changes nothing, or it answers the address of one
  slot, which then holds the domain with a fresh lease; no other slot changes.
\<close>

definition slot_given :: "u32 \<Rightarrow> bytes \<Rightarrow> fakedns_entry option \<Rightarrow> fakedns_entry \<Rightarrow> bool" where
  "slot_given now domain old e \<longleftrightarrow>
     (length domain < FAKEDNS_MAX_DOMAIN_LEN \<longrightarrow> cstr (fe_domain e) = cstr domain) \<and>
     FAKEDNS_TTL_REFRESH_THRESHOLD < sint (fe_expire e - now) \<and>
     (case old of
        None \<Rightarrow> fe_version e = 1
      | Some e0 \<Rightarrow>
          if cstr (fe_domain e0) = cstr domain
          then fe_domain e = fe_domain e0 \<and> fe_version e = fe_version e0 
            \<and> (fe_expire e = fe_expire e0 \<or> fe_expire e = now + FAKEDNS_ENTRY_LIFETIME)
          else is_expired now e0 \<and> fe_version e = fe_version e0 + 1)"

definition lookup_gives :: "u32 \<Rightarrow> bytes \<Rightarrow> fakedns \<Rightarrow> u32 \<Rightarrow> fakedns \<Rightarrow> bool" where
  "lookup_gives now domain st off st' \<longleftrightarrow>
     unat off < unat (g_pool_size st) \<and>
     (\<forall>o'. o' \<noteq> off \<longrightarrow> slot st' o' = slot st o') \<and>
     (case slot st' off of None \<Rightarrow> False | Some e \<Rightarrow> slot_given now domain (slot st off) e)"

lemma sint_lifetime: "sint (FAKEDNS_ENTRY_LIFETIME :: u32) = 86400"
  by (simp add: FAKEDNS_ENTRY_LIFETIME_def)

lemma wf_slot:
  assumes "fakedns_sized k st" "fakedns_wf st" "unat off < 2 ^ k" "slot st off = Some e"
  shows "fe_ip e = htonl (g_fakeip_net_host st + off)" "length (fe_domain e) \<le> FAKEDNS_MAX_DOMAIN_LEN"
    "0 \<in> set (fe_domain e)"
  using assms fakedns_wf_alt [OF assms(1)]
  by (auto simp: fakedns_slots_ok_def fakedns_sized_def split: option.splits)

lemma fakedns_hit_post:
  assumes "fakedns_sized k st" "fakedns_wf st" "unat off < 2 ^ k" "holds_domain st domain off"
    "fakedns_hit now off st = (r, st')"
  shows "r = htonl (g_fakeip_net_host st + off)" "fakedns_sized k st'" "fakedns_wf st'"
    "g_fakeip_net_host st' = g_fakeip_net_host st" "lookup_gives now domain st off st'"
proof -
  obtain e where e: "slot st off = Some e" "cstr (fe_domain e) = cstr domain"
    using assms(4) by (auto simp: holds_domain_def split: option.splits)
  note w = wf_slot [OF assms(1-3) e(1)]
  note defs = fakedns_hit_def Let_def slot_set_slot [OF assms(1,3)] e
  have bound: "unat off < unat (g_pool_size st)"
    using assms(3) fakedns_sized_bounds(2) [OF assms(1)] by simp
  show "r = htonl (g_fakeip_net_host st + off)" "fakedns_sized k st'"
    "g_fakeip_net_host st' = g_fakeip_net_host st"
    using assms(1,5) by (auto simp: defs split: if_splits)
  show "fakedns_wf st'"
    using assms(2,5) w by (auto simp: defs split: if_splits intro!: set_slot_wf [OF assms(1-3)])
  have "st' = (if FAKEDNS_TTL_REFRESH_THRESHOLD < sint (fe_expire e - now) then st
      else set_slot off (e\<lparr>fe_expire := now + FAKEDNS_ENTRY_LIFETIME\<rparr>) st)"
    using assms(5) by (simp add: fakedns_hit_def Let_def e split: if_splits)
  then show "lookup_gives now domain st off st'"
    using bound e
    by (simp add: lookup_gives_def slot_given_def slot_set_slot [OF assms(1,3)] sint_lifetime FAKEDNS_TTL_REFRESH_THRESHOLD_def)
qed

lemma fakedns_overwrite_post:
  assumes "fakedns_sized k st" "fakedns_wf st" "unat off < 2 ^ k" "foreign st domain off"
    "slot_expired st now off" "fakedns_overwrite now domain off st = (r, st')"
  shows "r = htonl (g_fakeip_net_host st + off)" "fakedns_sized k st'" "fakedns_wf st'"
    "g_fakeip_net_host st' = g_fakeip_net_host st" "lookup_gives now domain st off st'"
proof -
  obtain e where e: "slot st off = Some e" "cstr (fe_domain e) \<noteq> cstr domain" "is_expired now e"
    using assms(4,5) by (auto simp: slot_preds split: option.splits)
  note w = wf_slot [OF assms(1-3) e(1)]
  note defs = fakedns_overwrite_def Let_def slot_set_slot [OF assms(1,3)] e
  have bound: "unat off < unat (g_pool_size st)"
    using assms(3) fakedns_sized_bounds(2) [OF assms(1)] by simp
  show "r = htonl (g_fakeip_net_host st + off)" "fakedns_sized k st'"
    "g_fakeip_net_host st' = g_fakeip_net_host st"
    using assms(1,6) by (auto simp: defs)
  show "fakedns_wf st'"
    using assms(2,6) w by (auto simp: defs intro!: set_slot_wf [OF assms(1-3)])
  show "lookup_gives now domain st off st'"
    using assms(6) bound
    by (auto simp: defs lookup_gives_def slot_given_def sint_lifetime FAKEDNS_TTL_REFRESH_THRESHOLD_def cstr_entry_set_domain)
qed

lemma fakedns_insert_post:
  assumes "fakedns_sized k st" "fakedns_wf st" "unat off < 2 ^ k" "slot st off = None"
    "fakedns_insert True now domain off st = (r, st')"
  shows "r = htonl (g_fakeip_net_host st + off)" "fakedns_sized k st'" "fakedns_wf st'"
    "g_fakeip_net_host st' = g_fakeip_net_host st" "lookup_gives now domain st off st'"
proof -
  have room: "\<not> g_pool_size st \<le> g_pool_used st"
    using fakedns_insert_wf(2) [OF assms(1-4)] by simp
  note defs = fakedns_insert_def Let_def slot_set_slot [OF assms(1,3)] assms(4)
  have bound: "unat off < unat (g_pool_size st)"
    using assms(3) fakedns_sized_bounds(2) [OF assms(1)] by simp
  show "r = htonl (g_fakeip_net_host st + off)" "fakedns_sized k st'"
    "g_fakeip_net_host st' = g_fakeip_net_host st"
    using assms(1,5) room by (auto simp: defs)
  show "fakedns_wf st'"
    using fakedns_insert_wf(1) [OF assms(1-4)] assms(5) by (metis snd_conv)
  show "lookup_gives now domain st off st'"
    using assms(5) bound room
    by (auto simp: defs lookup_gives_def slot_given_def sint_lifetime FAKEDNS_TTL_REFRESH_THRESHOLD_def cstr_entry_set_domain)
qed

lemma fakedns_insert_nomem: "fakedns_insert False now domain off st = (0, st)"
  by (simp add: fakedns_insert_def Let_def)

lemma fakedns_lookup_post:
  assumes "fakedns_sized k st" "fakedns_wf st" "fakedns_lookup_domain xxh mem now domain st = (r, st')"
  shows "fakedns_sized k st'" "fakedns_wf st'" "g_fakeip_net_host st' = g_fakeip_net_host st"
    "r = 0 \<and> st' = st \<or> (\<exists>m < 128. r = htonl (g_fakeip_net_host st + probe_seq xxh domain st m) \<and>
      lookup_gives now domain st (probe_seq xxh domain st m) st' \<and>
      (\<forall>l < m. foreign st domain (probe_seq xxh domain st l)))"
proof -
  have *: "fakedns_sized k st' \<and> fakedns_wf st' \<and> g_fakeip_net_host st' = g_fakeip_net_host st \<and>
    (r = 0 \<and> st' = st \<or> (\<exists>m < 128. r = htonl (g_fakeip_net_host st + probe_seq xxh domain st m) \<and>
      lookup_gives now domain st (probe_seq xxh domain st m) st' \<and>
      (\<forall>l < m. foreign st domain (probe_seq xxh domain st l))))"
  proof (cases rule: fakedns_lookup_cases [OF assms(1) refl, where xxh = xxh and domain = domain and mem = mem and now = now,
      case_names hit overwrite insert full])
    case (hit m)
    then show ?thesis
      using fakedns_hit_post [OF assms(1,2) probe_seq_bound [OF assms(1)]] assms(3) by metis
  next
    case (overwrite m)
    then show ?thesis
      using fakedns_overwrite_post [OF assms(1,2) probe_seq_bound [OF assms(1)]] assms(3) by (metis le_refl less_imp_le)
  next
    case (insert m)
    show ?thesis
    proof (cases mem)
      case True
      then have "fakedns_insert True now domain (probe_seq xxh domain st m) st = (r, st')"
        using insert(4) assms(3) by simp
      from fakedns_insert_post [OF assms(1,2) probe_seq_bound [OF assms(1)] insert(3) this]
      show ?thesis using insert(1,2) by blast
    next
      case False
      then show ?thesis using insert(4) assms by (simp add: fakedns_insert_nomem)
    qed
  next
    case full
    then show ?thesis using assms by simp
  qed
  then show "fakedns_sized k st'" "fakedns_wf st'" "g_fakeip_net_host st' = g_fakeip_net_host st"
    "r = 0 \<and> st' = st \<or> (\<exists>m < 128. r = htonl (g_fakeip_net_host st + probe_seq xxh domain st m) \<and>
      lookup_gives now domain st (probe_seq xxh domain st m) st' \<and>
      (\<forall>l < m. foreign st domain (probe_seq xxh domain st l)))"
    by auto
qed

lemma fakedns_lookup_changed:
  assumes "fakedns_sized k st" "fakedns_wf st" "fakedns_lookup_domain xxh mem now domain st = (r, st')"
    "slot st' off \<noteq> slot st off"
  shows "lookup_gives now domain st off st'"
proof -
  obtain off' where g: "lookup_gives now domain st off' st'"
    using fakedns_lookup_post(4) [OF assms(1-3)] assms(4) by auto
  then have "off = off'" using assms(4) by (auto simp: lookup_gives_def)
  with g show ?thesis by simp
qed

section \<open>Stability and leases\<close>

definition fakedns_resolve :: "fakedns \<Rightarrow> u32 \<Rightarrow> bytes option" where
  "fakedns_resolve st ip_net =
     (if fakedns_is_fakeip st ip_net
      then map_option (\<lambda>e. cstr (fe_domain e)) (slot st (ntohl ip_net - g_fakeip_net_host st))
      else None)"

lemma fakedns_resolve_slot:
  assumes "fakedns_sized k st" "unat off < 2 ^ k"
  shows "fakedns_resolve st (htonl (g_fakeip_net_host st + off)) = map_option (\<lambda>e. cstr (fe_domain e)) (slot st off)"
  using is_fakeip_slot [OF assms] by (simp add: fakedns_resolve_def)

lemma lookup_gives_bound:
  "fakedns_sized k st \<Longrightarrow> lookup_gives now domain st off st' \<Longrightarrow> unat off < 2 ^ k"
  using fakedns_sized_bounds(2) by (simp add: lookup_gives_def)

lemma fakedns_lookup_resolves:
  assumes "fakedns_wf st" "length domain < FAKEDNS_MAX_DOMAIN_LEN"
    "fakedns_lookup_domain xxh mem now domain st = (ip, st')" "ip \<noteq> 0"
  shows "fakedns_is_fakeip st' ip \<and> fakedns_resolve st' ip = Some (cstr domain)"
proof -
  obtain k where k: "fakedns_sized k st" using assms(1) by (rule fakedns_wf_sizedE)
  note p = fakedns_lookup_post [OF k assms(1,3)]
  obtain off where off: "ip = htonl (g_fakeip_net_host st' + off)" "lookup_gives now domain st off st'"
    using p(3,4) assms(4) by auto
  have b: "unat off < 2 ^ k" by (rule lookup_gives_bound [OF k off(2)])
  have "map_option (\<lambda>e. cstr (fe_domain e)) (slot st' off) = Some (cstr domain)"
    using off(2) assms(2) by (auto simp: lookup_gives_def slot_given_def split: option.splits)
  then show ?thesis
    using fakedns_resolve_slot [OF p(1) b] is_fakeip_slot [OF p(1) b] off(1) by simp
qed

lemma fakedns_lookup_live:
  assumes "fakedns_wf st" "fakedns_lookup_domain xxh mem now domain st = (ip, st')"
    "slot st off = Some e" "unat off < unat (g_pool_size st)" "\<not> is_expired now e"
  shows "\<exists>e'. slot st' off = Some e' \<and> fe_domain e' = fe_domain e \<and> fe_ip e' = fe_ip e \<and> fe_version e' = fe_version e"
proof -
  obtain k where k: "fakedns_sized k st" using assms(1) by (rule fakedns_wf_sizedE)
  note p = fakedns_lookup_post [OF k assms(1,2)]
  have b: "unat off < 2 ^ k" using assms(4) fakedns_sized_bounds(2) [OF k] by simp
  obtain e' where e': "slot st' off = Some e'" "fe_domain e' = fe_domain e" "fe_version e' = fe_version e"
    using p(4) assms(3,5)
    by (auto simp: lookup_gives_def slot_given_def split: option.splits if_splits) (metis option.inject)+
  then show ?thesis
    using wf_slot(1) [OF k assms(1) b assms(3)] wf_slot(1) [OF p(1,2) b e'(1)] p(3) by auto
qed

text \<open>A name in its slot is found, when the slots before it in its sequence hold other names, expired or not.\<close>

lemma fakedns_lookup_finds:
  assumes "fakedns_sized k st" "m < 128" "\<forall>l < m. foreign st domain (probe_seq xxh domain st l)"
    "holds_domain st domain (probe_seq xxh domain st m)"
  shows "fakedns_lookup_domain xxh mem now domain st = fakedns_hit now (probe_seq xxh domain st m) st"
proof -
  let ?P = "probe_seq xxh domain st"
  have seq: "probe_at st (probe_start st (xxh domain)) (probe_step (xxh domain)) = ?P" by (simp add: probe_seq_def fun_eq_iff)
  have "fakedns_probe st now domain (probe_step (xxh domain)) 128 (?P 0) UINT32_MAX = Probe_hit (?P m)"
    using fakedns_probe_hitI [OF assms(1), where m = m and n = 128 and i = 0 and domain = domain
      and start = "probe_start st (xxh domain)" and step = "probe_step (xxh domain)"] assms(2-4)
    unfolding seq by simp
  moreover have "probe_start st (xxh domain) = ?P 0" using probe_start_at [OF assms(1)] seq by metis
  ultimately show ?thesis
    using assms(1) fakedns_sized_bounds(3) [OF assms(1)] by (simp add: fakedns_lookup_domain_def fakedns_sized_def Let_def)
qed

lemma probe_seq_same:
  "fakedns_sized k st \<Longrightarrow> fakedns_sized k st' \<Longrightarrow> probe_seq xxh domain st' = probe_seq xxh domain st"
  by (simp add: fun_eq_iff probe_seq_def probe_at_def probe_start_def fakedns_sized_def)

text \<open>The sequence of a name written out: double hashing, modulo the size of the pool.\<close>

lemma probe_seq_eq:
  "probe_seq xxh domain st i = (probe_start st (xxh domain) + of_nat i * probe_step (xxh domain)) AND (g_pool_size st - 1)"
  by (simp add: probe_seq_def probe_at_def)

text \<open>A slot whose entry stays valid for longer than the DNS time to live from time \<open>t0\<close> on.\<close>

definition leased :: "u32 \<Rightarrow> bytes \<Rightarrow> fakedns \<Rightarrow> u32 \<Rightarrow> bool" where
  "leased t0 name st off \<longleftrightarrow>
     (case slot st off of None \<Rightarrow> False
      | Some e \<Rightarrow> cstr (fe_domain e) = name \<and> sint FAKEDNS_DNS_TTL < sint (fe_expire e - t0))"

lemma sint_small:
  fixes w :: u32 assumes "unat w \<le> 3600" shows "sint w = uint w" "uint w \<le> 3600" "0 \<le> sint w" "sint w \<le> 3600"
proof -
  show 1: "sint w = uint w" using assms by (subst sint32_eq_unat) simp_all
  have "nat (uint w) \<le> 3600" using assms by simp
  then show 2: "uint w \<le> 3600" by linarith
  show "0 \<le> sint w" "sint w \<le> 3600" using 1 2 by simp_all
qed

lemma sint_shift:
  fixes e t t0 :: u32
  assumes "3600 < sint (e - t0)" "unat (t - t0) \<le> 3600"
  shows "sint (e - t) = sint (e - t0) - sint (t - t0)"
proof -
  have "e - t = (e - t0) - (t - t0)" by simp
  moreover have "sint ((e - t0) - (t - t0)) = sint (e - t0) - sint (t - t0)"
    using assms(1) sint_small(3,4) [OF assms(2)] sint_lt [of "e - t0"] by (intro sint32_diff) simp_all
  ultimately show ?thesis by simp
qed

lemma leased_lookup:
  assumes "fakedns_sized k st" "fakedns_wf st" "leased t0 name st off" "unat off < 2 ^ k"
    "unat (t - t0) \<le> unat FAKEDNS_DNS_TTL" 
    "fakedns_lookup_domain xxh mem t domain st = (r, st')"
  shows "leased t0 name st' off"
proof -
  obtain e where e: "slot st off = Some e" "cstr (fe_domain e) = name" "3600 < sint (fe_expire e - t0)"
    using assms(3) by (auto simp: leased_def FAKEDNS_DNS_TTL_def split: option.splits)
  have t: "unat (t - t0) \<le> 3600" using assms(5) by (simp add: FAKEDNS_DNS_TTL_def)
  have live: "\<not> is_expired t e"
    using sint_shift [OF e(3) t] e(3) sint_small(4) [OF t] by (simp add: is_expired_def)
  note dt = sint_small(3,4) [OF t]
  have "(t + FAKEDNS_ENTRY_LIFETIME) - t0 = (t - t0) - (- 86400)"
    by (simp add: FAKEDNS_ENTRY_LIFETIME_def)
  also have "sint \<dots> = sint (t - t0) - sint (- 86400 :: u32)"
    using dt by (intro sint32_diff) simp_all
  also have "\<dots> = sint (t - t0) + 86400" by simp
  finally have "sint ((t + FAKEDNS_ENTRY_LIFETIME) - t0) = sint (t - t0) + 86400" .
  then have renewed: "3600 < sint ((t + FAKEDNS_ENTRY_LIFETIME) - t0)" using dt by simp
  note p = fakedns_lookup_post [OF assms(1,2,6)]
  show ?thesis
  proof (cases "slot st' off = slot st off")
    case True
    then show ?thesis using assms(3) by (simp add: leased_def)
  next
    case False
    from fakedns_lookup_changed [OF assms(1,2,6) this] show ?thesis
      using e live renewed
      by (auto simp: lookup_gives_def slot_given_def leased_def FAKEDNS_DNS_TTL_def split: option.splits if_splits)
  qed
qed

lemma fakedns_lookup_zero:
  assumes "fakedns_sized k st" "fakedns_wf st" "g_fakeip_net_host st \<noteq> 0"
    "fakedns_lookup_domain xxh True now domain st = (0, st')"
  shows "st' = st \<and> (\<forall>l < 128. foreign st domain (probe_seq xxh domain st l) \<and> \<not> slot_expired st now (probe_seq xxh domain st l))"
proof -
  have nz: "htonl (g_fakeip_net_host st + probe_seq xxh domain st m) \<noteq> 0" for m
  proof
    assume "htonl (g_fakeip_net_host st + probe_seq xxh domain st m) = 0"
    moreover have "htonl 0 = 0" by (rule bit_word_eqI) (simp add: htonl_def bit_mk32 bit_byte32)
    ultimately have z: "g_fakeip_net_host st + probe_seq xxh domain st m = 0" by (metis htonl_eq_iff)
    have "g_fakeip_net_host st = (g_fakeip_net_host st + probe_seq xxh domain st m) AND NOT (mask k)"
      using assms(1) probe_seq_bound [OF assms(1)] by (simp add: host_part_add fakedns_sized_def)
    then show False using z assms(3) by simp
  qed
  show ?thesis
  proof (cases rule: fakedns_lookup_cases [OF assms(1) refl, where xxh = xxh and domain = domain and mem = True and now = now,
      case_names hit overwrite insert full])
    case (hit m)
    then show ?thesis
      using fakedns_hit_post(1) [OF assms(1,2) probe_seq_bound [OF assms(1)]] assms(4) nz by metis
  next
    case (overwrite m)
    then show ?thesis
      using fakedns_overwrite_post(1) [OF assms(1,2) probe_seq_bound [OF assms(1)]] assms(4) nz by (metis le_refl)
  next
    case (insert m)
    then show ?thesis
      using fakedns_insert_post(1) [OF assms(1,2) probe_seq_bound [OF assms(1)]] assms(4) nz by metis
  next
    case full
    then show ?thesis using assms(4) by simp
  qed
qed

text \<open>A series of lookups, each at its own time.\<close>

definition fakedns_lookups :: "(bytes \<Rightarrow> u64) \<Rightarrow> (u32 \<times> bool \<times> bytes) list \<Rightarrow> fakedns \<Rightarrow> fakedns" where
  "fakedns_lookups xxh = fold (\<lambda>(now, mem, domain) st. snd (fakedns_lookup_domain xxh mem now domain st))"

text \<open>The name is in its slot, under its lease, and the slots before that in its sequence hold other names.\<close>

definition settled :: "(bytes \<Rightarrow> u64) \<Rightarrow> nat \<Rightarrow> u32 \<Rightarrow> bytes \<Rightarrow> u32 \<Rightarrow> nat \<Rightarrow> fakedns \<Rightarrow> bool" where
  "settled xxh k t0 domain net m st \<longleftrightarrow>
     fakedns_sized k st \<and> fakedns_wf st \<and> g_fakeip_net_host st = net \<and>
     leased t0 (cstr domain) st (probe_seq xxh domain st m) \<and> (\<forall>l < m. foreign st domain (probe_seq xxh domain st l))"

lemma leased_holds: "leased t0 (cstr domain) st off \<Longrightarrow> holds_domain st domain off"
  by (auto simp: leased_def holds_domain_def split: option.splits)

lemma settled_finds:
  assumes "settled xxh k t0 domain net m st" "m < 128"
  shows "fakedns_lookup_domain xxh mem now domain st = fakedns_hit now (probe_seq xxh domain st m) st"
  using assms by (intro fakedns_lookup_finds [of k]) (auto simp: settled_def leased_holds)

lemma lookup_settles:
  assumes "fakedns_sized k st" "fakedns_wf st" "length domain < FAKEDNS_MAX_DOMAIN_LEN"
    "fakedns_lookup_domain xxh mem t0 domain st = (ip, st1)" "ip \<noteq> 0"
  obtains m where "m < 128" "ip = htonl (g_fakeip_net_host st1 + probe_seq xxh domain st1 m)"
    "settled xxh k t0 domain (g_fakeip_net_host st1) m st1"
proof -
  note p = fakedns_lookup_post [OF assms(1,2,4)]
  let ?P = "probe_seq xxh domain st"
  obtain m where m: "m < 128" "ip = htonl (g_fakeip_net_host st + ?P m)" "lookup_gives t0 domain st (?P m) st1" "\<forall>l < m. foreign st domain (?P l)"
    using p(4) assms(5) by auto
  have P: "probe_seq xxh domain st1 = ?P" by (rule probe_seq_same [OF assms(1) p(1)])
  have "foreign st1 domain (?P l)" if l: "l < m" for l
  proof -
    have "?P l \<noteq> ?P m" using probe_seq_inj [OF assms(1), of l m] l m(1) by auto
    then show ?thesis using m(3,4) l by (auto simp: lookup_gives_def foreign_def)
  qed
  moreover have "leased t0 (cstr domain) st1 (?P m)"
    using m(3) assms(3) by (auto simp: leased_def lookup_gives_def slot_given_def fakedns_consts split: option.splits)
  ultimately have "settled xxh k t0 domain (g_fakeip_net_host st1) m st1" using p(1,2) unfolding settled_def P by simp
  then show ?thesis using that m(1,2) p(3) P by simp
qed

lemma settled_lookup:
  assumes s: "settled xxh k t0 domain net m st" and m: "m < 128" and t: "unat (t - t0) \<le> unat FAKEDNS_DNS_TTL"
    and names: "0 \<notin> set domain" "0 \<notin> set d" "length d < FAKEDNS_MAX_DOMAIN_LEN"
    and run: "fakedns_lookup_domain xxh mem t d st = (r, st')"
  shows "settled xxh k t0 domain net m st'"
proof -
  let ?P = "probe_seq xxh domain st"
  have st: "fakedns_sized k st" "fakedns_wf st" "g_fakeip_net_host st = net" "leased t0 (cstr domain) st (?P m)"
    "\<forall>l < m. foreign st domain (?P l)" using s by (auto simp: settled_def)
  note p = fakedns_lookup_post [OF st(1,2) run]
  have P: "probe_seq xxh domain st' = ?P" by (rule probe_seq_same [OF st(1) p(1)])
  have b: "unat (?P m) < 2 ^ k" using probe_seq_bound [OF st(1)] by simp
  have lease: "leased t0 (cstr domain) st' (?P m)" by (rule leased_lookup [OF st(1,2,4) b t run])
  have before: "foreign st' domain (?P l)" if l: "l < m" for l
  proof (cases "slot st' (?P l) = slot st (?P l)")
    case True
    then show ?thesis using st(5) l by (simp add: foreign_def)
  next
    case False
    then obtain i where i: "?P l = probe_seq xxh d st i" "lookup_gives t d st (probe_seq xxh d st i) st'"
      using p(4) by (force simp: lookup_gives_def)
    have "d \<noteq> domain"
    proof
      assume "d = domain"
      then have "fakedns_hit t (?P m) st = (r, st')" using settled_finds [OF s m, of mem t] run by simp
      moreover have "?P l \<noteq> ?P m" using probe_seq_inj [OF st(1), of l m] l m by auto
      ultimately have "slot st' (?P l) = slot st (?P l)"
        using slot_set_slot [OF st(1) b] by (auto simp: fakedns_hit_def Let_def split: if_splits)
      then show False using False by simp
    qed
    then have "cstr d \<noteq> cstr domain" using names by (simp add: cstr_id)
    then show ?thesis using i names(3) by (auto simp: lookup_gives_def slot_given_def foreign_def split: option.splits)
  qed
  show ?thesis using p(1-3) st(3) lease before unfolding settled_def P by simp
qed

lemma settled_lookups:
  assumes "settled xxh k t0 domain net m st" "m < 128" "0 \<notin> set domain"
    "\<forall>(now, mem, d) \<in> set ls. unat (now - t0) \<le> unat FAKEDNS_DNS_TTL \<and> 0 \<notin> set d \<and> length d < FAKEDNS_MAX_DOMAIN_LEN"
  shows "settled xxh k t0 domain net m (fakedns_lookups xxh ls st)"
  using assms
proof (induction ls arbitrary: st)
  case (Cons x ls)
  obtain now mem d where x: "x = (now, mem, d)" by (metis prod_cases3)
  obtain r st' where r: "fakedns_lookup_domain xxh mem now d st = (r, st')" by (metis surj_pair)
  have "settled xxh k t0 domain net m st'" using settled_lookup [OF Cons.prems(1,2) _ Cons.prems(3) _ _ r] Cons.prems(4) x by simp
  from Cons.IH [OF this] Cons.prems show ?case by (simp add: fakedns_lookups_def x r)
qed (simp add: fakedns_lookups_def)

lemma cstr_entry_short:
  assumes "length s \<le> n" "0 \<in> set s" shows "length (cstr s) \<le> n - 1"
proof -
  have "length (cstr s) < length s"
    using assms(2) unfolding cstr_def by (induction s) auto
  then show ?thesis using assms(1) by simp
qed

section \<open>A concrete pool\<close>

text \<open>
  The pool of the CIDR 10.0.0.0/24, before and after its first allocation, for the witnesses. The hash
  of a name here is its first byte.
\<close>

definition demo_pool :: fakedns where
  "demo_pool =
     \<lparr>g_fakedns_pool = replicate 256 None, g_fakeip_net_host = 0x0A000000, g_fakeip_mask_host = 0xFFFFFF00,
      g_pool_size = 256, g_pool_used = 0, g_last_warn_used = 0, g_cidr_str = ascii ''10.0.0.0/24'', g_max_probes = 128\<rparr>"
definition demo_hash :: "bytes \<Rightarrow> u64" where
  "demo_hash d = (case d of [] \<Rightarrow> 0 | c # _ \<Rightarrow> ucast c)"

lemma demo_init: "fakedns_init True (ascii ''10.0.0.0/24'') fakedns_static = Some demo_pool"
  by code_simp

definition demo_entry :: "u32 \<Rightarrow> bytes \<Rightarrow> fakedns_entry" where
  "demo_entry off d = \<lparr>fe_ip = htonl (0x0A000000 + off), fe_expire = 86500, fe_version = 1, fe_domain = d @ [0]\<rparr>"

lemma fakedns_probe_numeral:
  "fakedns_probe st now domain step (numeral n) offset first_expired =
     (case slot st offset of
        None \<Rightarrow> Probe_empty offset first_expired
      | Some entry \<Rightarrow>
          if cstr (fe_domain entry) = cstr domain then Probe_hit offset
          else fakedns_probe st now domain step (pred_numeral n) ((offset + step) AND (g_pool_size st - 1))
                 (if first_expired = UINT32_MAX \<and> is_expired now entry then offset else first_expired))"
  by (simp add: numeral_eq_Suc)
lemma demo_step: "probe_step 97 = 1" by code_simp
definition demo_pool1 :: fakedns where
 "demo_pool1 = demo_pool\<lparr>g_fakedns_pool := (replicate 256 None)[97 := Some (demo_entry 97 (ascii ''a.b''))], g_pool_used := 1\<rparr>"
lemma demo_lookup: "fakedns_lookup_domain demo_hash True 100 (ascii ''a.b'') demo_pool =
  (htonl 0x0A000061, demo_pool1)"
  by (simp add: fakedns_lookup_domain_def demo_pool1_def demo_pool_def demo_hash_def ascii_def probe_start_def Let_def
   slot_def fakedns_consts fakedns_insert_def entry_set_domain_def demo_entry_def set_slot_def fakedns_warn_usage_def usage_at_least_def fakedns_probe_numeral demo_step)
lemma demo_again: "fakedns_lookup_domain demo_hash True 100 (ascii ''a.b'') demo_pool1 =
  (htonl 0x0A000061, demo_pool1)"
  by (simp add: fakedns_lookup_domain_def demo_pool1_def demo_pool_def demo_hash_def ascii_def probe_start_def Let_def
   slot_def fakedns_consts fakedns_hit_def entry_set_domain_def demo_entry_def fakedns_probe_numeral demo_step cstr_def)
lemma demo_slot: "slot demo_pool1 97 = Some (demo_entry 97 (ascii ''a.b''))" by (simp add: slot_def demo_pool1_def demo_pool_def)
lemma demo_htonl: "htonl 0x0A000061 = 0x6100000A" by code_simp

text \<open>The same pool with every slot taken by a live entry.\<close>

definition demo_full :: fakedns where
  "demo_full = demo_pool\<lparr>g_fakedns_pool := map (\<lambda>i. Some (demo_entry (of_nat i) (ascii ''z''))) [0..<256], g_pool_used := 256\<rparr>"

lemma slot_demo_full: "unat off < 256 \<Longrightarrow> slot demo_full off = Some (demo_entry off (ascii ''z''))"
  by (simp add: demo_full_def slot_def)

lemma demo_full_probe:
  "unat off < 256 \<Longrightarrow>
   fakedns_probe demo_full 100 (ascii ''a.b'') step n off UINT32_MAX = Probe_exhausted UINT32_MAX"
proof (induction n arbitrary: off)
  case (Suc n)
  have size: "g_pool_size demo_full - 1 = mask 8"
    by (simp add: demo_full_def demo_pool_def mask_eq_exp_minus_1)
  have "unat ((off + step) AND mask 8) < 256"
    by (simp add: unat_take_bit flip: take_bit_eq_mask)
  then show ?case
    using Suc by (simp add: slot_demo_full size demo_entry_def ascii_def cstr_def is_expired_def)
qed simp

lemma demo_full_lookup: "fakedns_lookup_domain demo_hash True 100 (ascii ''a.b'') demo_full = (0, demo_full)"
proof -
  have size: "g_pool_size demo_full = 256" by (simp add: demo_full_def demo_pool_def)
  have "unat (probe_start demo_full (demo_hash (ascii ''a.b''))) < 256"
    by (simp add: probe_start_def size demo_hash_def ascii_def)
  then show ?thesis by (simp add: fakedns_lookup_domain_def size demo_full_probe Let_def)
qed

lemma demo_full_wf: "fakedns_wf demo_full"
proof -
  have sized: "fakedns_sized 8 demo_full"
    by (simp add: fakedns_sized_def demo_full_def demo_pool_def mask_eq_exp_minus_1)
  have fields: "g_fakeip_net_host demo_full = 0x0A000000" "length (g_fakedns_pool demo_full) = 256"
    "g_pool_used demo_full = 256" "occupied (g_fakedns_pool demo_full) = 256"
    by (simp_all add: demo_full_def demo_pool_def occupied_def comp_def)
  have "fakedns_slots_ok demo_full"
    by (simp add: fakedns_slots_ok_def slot_demo_full fields) (simp add: demo_entry_def fakedns_consts ascii_def)
  then show ?thesis
    by (simp add: fakedns_wf_alt [OF sized] fields)
qed

lemma demo_wf: "fakedns_wf demo_pool"
  using fakedns_init_wf [OF demo_init] by (simp add: fakedns_static_def)

section \<open>Properties\<close>

text \<open>C8. A successful initialisation yields a well-formed pool of at least 256 and at most
  \<open>2 ^ 24\<close> slots, all of them empty, probed at most 128 times per lookup.\<close>

theorem fakedns_init_pool:
  assumes "fakedns_init calloc_ok cidr fakedns_static = Some st"
  shows "fakedns_wf st \<and> 256 \<le> unat (g_pool_size st) \<and> unat (g_pool_size st) \<le> 2 ^ 24 \<and> g_max_probes st = 128 \<and>
    (\<forall>off. unat off < unat (g_pool_size st) \<longrightarrow> slot st off = None)"
proof -
  obtain k where k: "k \<in> {8..24}" "fakedns_sized k st" "g_fakedns_pool st = replicate (2 ^ k) None"
    using fakedns_init_sized [OF assms] by auto
  have "(2::nat) ^ 8 \<le> 2 ^ k" "(2::nat) ^ k \<le> 2 ^ 24"
    using k(1) by (simp_all only: atLeastAtMost_iff power_increasing one_le_numeral)
  then show ?thesis
    using fakedns_init_wf [OF assms] k fakedns_sized_bounds(2) [OF k(2)]
    by (simp add: fakedns_static_def slot_def fakedns_sized_def)
qed

theorem fakedns_init_pool_witness: "fakedns_wf demo_pool \<and> slot demo_pool 7 = None"
proof -
  have "unat (g_pool_size demo_pool) = 256" by (simp add: demo_pool_def)
  then show ?thesis using fakedns_init_pool [OF demo_init] by simp
qed

text \<open>C29. Every lookup keeps the pool well formed: the number of used slots is the number of filled ones,
  each entry carries the address of its slot and a terminated name that fits its buffer, and the size,
  the network and the mask stay as they are.\<close>

theorem fakedns_lookup_wf:
  assumes "fakedns_wf st" "fakedns_lookup_domain xxh memalign_ok now domain st = (ip, st')"
  shows "fakedns_wf st' \<and> g_fakeip_net_host st' = g_fakeip_net_host st \<and> 
    g_fakeip_mask_host st' = g_fakeip_mask_host st \<and> g_pool_size st' = g_pool_size st"
proof -
  obtain k where k: "fakedns_sized k st" using assms(1) by (rule fakedns_wf_sizedE)
  show ?thesis using fakedns_lookup_post(1-3) [OF k assms] k by (simp add: fakedns_sized_def)
qed

theorem fakedns_lookup_wf_witness: "fakedns_wf demo_pool1"
  using fakedns_lookup_wf [OF demo_wf demo_lookup] by simp

text \<open>C20. A live mapping is never taken away: whatever domain is looked up, an entry that has not expired at
  that time keeps its domain, its address and its version.\<close>

theorem fakedns_lookup_keeps_live:
  assumes "fakedns_wf st" "fakedns_lookup_domain xxh memalign_ok now domain st = (ip, st')"
    "unat off < unat (g_pool_size st)" "slot st off = Some e" "\<not> is_expired now e"
  shows "\<exists>e'. slot st' off = Some e' \<and> fe_domain e' = fe_domain e \<and> fe_ip e' = fe_ip e \<and> fe_version e' = fe_version e"
  by (rule fakedns_lookup_live [OF assms(1,2,4,3,5)])

theorem fakedns_lookup_keeps_live_witness:
  "\<exists>e'. slot demo_pool1 97 = Some e' \<and> fe_domain e' = ascii ''a.b'' @ [0]"
proof -
  have "fakedns_wf demo_pool1"
    using fakedns_lookup_post(2) [OF _ demo_wf demo_lookup] fakedns_wf_sizedE [OF demo_wf] by blast
  from fakedns_lookup_keeps_live [OF this demo_again _ demo_slot]
  show ?thesis by (force simp: demo_pool1_def demo_pool_def demo_entry_def is_expired_def)
qed

text \<open>C27. A domain keeps its address: for the whole time to live of the answer, and whatever other names are looked up
  meanwhile, whichever slots are filled or taken over for them, the same name is given the same address again.\<close>

theorem fakedns_lookup_stable:
  assumes "fakedns_wf st" "0 \<notin> set domain" "length domain < FAKEDNS_MAX_DOMAIN_LEN"
    "fakedns_lookup_domain xxh memalign_ok t0 domain st = (ip, st1)" "ip \<noteq> 0"
    "\<forall>(now, mem, d) \<in> set ls. unat (now - t0) \<le> unat FAKEDNS_DNS_TTL \<and> 0 \<notin> set d \<and> length d < FAKEDNS_MAX_DOMAIN_LEN"
  shows "fst (fakedns_lookup_domain xxh memalign_ok' now' domain (fakedns_lookups xxh ls st1)) = ip"
proof -
  obtain k where k: "fakedns_sized k st" using assms(1) by (rule fakedns_wf_sizedE)
  obtain m where m: "m < 128" "ip = htonl (g_fakeip_net_host st1 + probe_seq xxh domain st1 m)" "settled xxh k t0 domain (g_fakeip_net_host st1) m st1"
    using lookup_settles [OF k assms(1,3,4,5)] by blast
  note s = settled_lookups [OF m(3,1) assms(2,6)]
  have "probe_seq xxh domain (fakedns_lookups xxh ls st1) = probe_seq xxh domain st1"
    using s m(3) probe_seq_same unfolding settled_def by metis
  then show ?thesis
    using settled_finds [OF s m(1)] s m(2) by (simp add: fakedns_hit_def Let_def settled_def)
qed

theorem fakedns_lookup_stable_witness:
  "fst (fakedns_lookup_domain demo_hash False 99999 (ascii ''a.b'')
     (fakedns_lookups demo_hash [(200, True, ascii ''ax''), (3700, True, ascii ''b.c'')] demo_pool1)) = 0x6100000A"
proof -
  have "unat FAKEDNS_DNS_TTL = 3600" "FAKEDNS_MAX_DOMAIN_LEN = 244" by (simp_all add: fakedns_consts)
  with fakedns_lookup_stable [OF demo_wf _ _ demo_lookup, of "[(200, True, ascii ''ax''), (3700, True, ascii ''b.c'')]" False 99999]
  show ?thesis by (simp add: demo_htonl ascii_def)
qed

text \<open>C28. A lookup fails only when it must: with memory available and a network other than zero, the
  answer zero means that the 128 slots of the name's own probe sequence, which are pairwise distinct, all hold another
  domain whose lease has not run out.\<close>

theorem fakedns_lookup_fails_only_full:
  assumes "fakedns_wf st" "g_fakeip_net_host st \<noteq> 0"
    "fakedns_lookup_domain xxh True now domain st = (0, st')"
  defines "P \<equiv> \<lambda>i. (probe_start st (xxh domain) + of_nat i * probe_step (xxh domain)) AND (g_pool_size st - 1)"
  shows "st' = st \<and> inj_on P {..<128::nat} \<and> (\<forall>i < 128. \<exists>e. slot st (P i) = Some e \<and> unat (P i) < unat (g_pool_size st) \<and>
    cstr (fe_domain e) \<noteq> cstr domain \<and> \<not> is_expired now e)"
proof -
  obtain k where k: "fakedns_sized k st" using assms(1) by (rule fakedns_wf_sizedE)
  have P: "P = probe_seq xxh domain st" by (simp add: P_def probe_seq_eq fun_eq_iff)
  note z = fakedns_lookup_zero [OF k assms(1-3)]
  have "\<forall>i < 128. \<exists>e. slot st (P i) = Some e \<and> unat (P i) < unat (g_pool_size st) \<and>
    cstr (fe_domain e) \<noteq> cstr domain \<and> \<not> is_expired now e"
    using z probe_seq_bound [OF k] fakedns_sized_bounds(2) [OF k] unfolding P
    by (fastforce simp: slot_preds split: option.splits)
  moreover have "inj_on P {..<128}"
    using probe_seq_inj [OF k] unfolding P by (auto intro!: inj_onI)
  ultimately show ?thesis using z by blast
qed

theorem fakedns_lookup_fails_only_full_witness:
  "\<exists>e e'. slot demo_full 97 = Some e \<and> slot demo_full 224 = Some e' \<and> \<not> is_expired 100 e \<and> \<not> is_expired 100 e' \<and>
    cstr (fe_domain e') \<noteq> ascii ''a.b''"
proof -
  have p: "probe_start demo_full (demo_hash (ascii ''a.b'')) = 97" "probe_step (demo_hash (ascii ''a.b'')) = 1" "g_pool_size demo_full - 1 = 255"
    by (simp_all add: demo_full_def demo_pool_def demo_hash_def probe_start_def probe_step_def ascii_def)
  have net: "g_fakeip_net_host demo_full \<noteq> 0" by (simp add: demo_full_def demo_pool_def)
  have c: "cstr (ascii ''a.b'') = ascii ''a.b''" by (simp add: ascii_def cstr_def)
  note full = fakedns_lookup_fails_only_full [OF demo_full_wf net demo_full_lookup, unfolded p c, THEN conjunct2, THEN conjunct2, rule_format]
  from full [of 0] full [of 127] show ?thesis by auto
qed

end
