(* ===== verification/FakednsPersist.thy ===== *)
theory FakednsPersist
  imports FakednsPool
begin

text \<open>
  Saving the pool to a file and loading it again, \<^verbatim>\<open>fakedns_save\<close> and
  \<^verbatim>\<open>fakedns_load\<close> of \<^verbatim>\<open>src/src/fakedns.c\<close>. The file system is a map
  from paths to contents. The outcome of every call that can fail is an argument: the record
  \<open>save_io\<close> for the writer, with the \<open>n\<close>-th \<^verbatim>\<open>fwrite\<close> under its number. An
  open file that is read is the list of the bytes not read yet; \<^verbatim>\<open>fseek\<close> past the end
  succeeds and leaves nothing to read.
\<close>

section \<open>Saving\<close>

definition FAKEDNS_MAGIC :: u32 where "FAKEDNS_MAGIC = 0x464E5344"
definition FAKEDNS_VERSION :: u32 where "FAKEDNS_VERSION = 3"

record save_io =
  io_fopen :: bool
  io_fwrite :: "nat \<Rightarrow> bool"
  io_fseek :: bool
  io_fflush :: bool
  io_fsync :: bool
  io_rename :: bool

definition saved_bytes :: "fakedns_entry \<Rightarrow> bytes" where
  "saved_bytes e = le32 (fe_ip e) @ le16 (of_nat (length (cstr (fe_domain e)))) @ cstr (fe_domain e)"

text \<open>The loop over the pool: the bytes written, the number of entries, and whether every write succeeded;
  \<open>k\<close> is the number of the next write.\<close>

fun save_loop :: "(nat \<Rightarrow> bool) \<Rightarrow> u32 \<Rightarrow> nat \<Rightarrow> fakedns_entry option list \<Rightarrow> bytes \<Rightarrow> u32 \<Rightarrow> bytes \<times> u32 \<times> bool" where
  "save_loop fwrite now k [] written actual_count = (written, actual_count, True)"
| "save_loop fwrite now k (None # pool) written actual_count = save_loop fwrite now k pool written actual_count"
| "save_loop fwrite now k (Some entry # pool) written actual_count =
     (if fe_expire entry \<le> now then save_loop fwrite now k pool written actual_count
      else if \<not> fwrite k \<or> \<not> fwrite (k + 1) \<or> \<not> fwrite (k + 2) then (written, actual_count, False)
      else save_loop fwrite now (k + 3) pool (written @ saved_bytes entry) (actual_count + 1))"

definition save_header :: "fakedns \<Rightarrow> bytes" where
  "save_header st =
     le32 FAKEDNS_MAGIC @ le32 FAKEDNS_VERSION @ le32 0 @
     le16 (of_nat (length (g_cidr_str st))) @ g_cidr_str st"

definition fakedns_save ::
  "save_io \<Rightarrow> u32 \<Rightarrow> bytes option \<Rightarrow> fakedns \<Rightarrow> (bytes \<rightharpoonup> bytes) \<Rightarrow> (bytes \<rightharpoonup> bytes)" where
  "fakedns_save io now path_opt st fs =
     (case path_opt of
        None \<Rightarrow> fs
      | Some path \<Rightarrow>
          if g_fakedns_pool st = [] \<or> g_pool_used st = 0 then fs
          else
            (let tmp_path = take 511 (path @ ascii ''.tmp'') in
             if \<not> io_fopen io then fs
             else if \<not> (io_fwrite io 0 \<and> io_fwrite io 1 \<and> io_fwrite io 2) then fs(tmp_path := None)
             else if \<not> (io_fwrite io 3 \<and> io_fwrite io 4) then fs(tmp_path := None)
             else
               (case save_loop (io_fwrite io) now 5 (g_fakedns_pool st) (save_header st) 0 of
                  (written, actual_count, success) \<Rightarrow>
                    (let success = success \<and> io_fseek io;
                         success = success \<and> io_fwrite io (5 + 3 * unat actual_count);
                         content = (if success then take 8 written @ le32 actual_count @ drop 12 written else written);
                         success = success \<and> io_fflush io \<and> io_fsync io
                     in if success
                        then (if io_rename io then (fs(tmp_path := None))(path \<mapsto> content)
                              else fs(tmp_path := None))
                        else fs(tmp_path := None)))))"

section \<open>Loading\<close>

definition read32 :: "bytes \<Rightarrow> (u32 \<times> bytes) option" where
  "read32 f = (case f of b0 # b1 # b2 # b3 # rest \<Rightarrow> Some (mk32 b3 b2 b1 b0, rest) | _ \<Rightarrow> None)"

definition read16 :: "bytes \<Rightarrow> (u16 \<times> bytes) option" where
  "read16 f = (case f of b0 # b1 # rest \<Rightarrow> Some (mk16 b1 b0, rest) | _ \<Rightarrow> None)"

text \<open>One entry read into its slot, a new one or over an old one; \<open>None\<close> is no memory.\<close>

definition load_entry :: "bool \<Rightarrow> u32 \<Rightarrow> u32 \<Rightarrow> u32 \<Rightarrow> bytes \<Rightarrow> fakedns \<Rightarrow> fakedns" where
  "load_entry memalign_ok now ip offset domain st =
     (let expire = now + FAKEDNS_ENTRY_LIFETIME in
      case slot st offset of
        None \<Rightarrow>
          if \<not> memalign_ok then st
          else (set_slot offset \<lparr>fe_ip = ip, fe_expire = expire, fe_version = 1, fe_domain = domain @ [0]\<rparr> st)
                 \<lparr>g_pool_used := g_pool_used st + 1\<rparr>
      | Some entry \<Rightarrow> set_slot offset (entry\<lparr>fe_domain := domain @ [0], fe_expire := expire\<rparr>) st)"

fun load_loop :: "(nat \<Rightarrow> bool) \<Rightarrow> (nat \<Rightarrow> bool) \<Rightarrow> u32 \<Rightarrow> nat \<Rightarrow> bytes \<Rightarrow> fakedns \<Rightarrow> fakedns" where
  "load_loop fseek_ok memalign_ok now 0 f st = st"
| "load_loop fseek_ok memalign_ok now (Suc n) f st =
     (case read32 f of
        None \<Rightarrow> st
      | Some (ip, f) \<Rightarrow>
          (case read16 f of
             None \<Rightarrow> st
           | Some (dlen, f) \<Rightarrow>
               (let ip_host = ntohl ip; offset = ip_host - g_fakeip_net_host st; d = unat dlen in
                if ip_host AND g_fakeip_mask_host st \<noteq> g_fakeip_net_host st \<or> offset \<ge> g_pool_size st
                then (if fseek_ok n then load_loop fseek_ok memalign_ok now n (drop d f) st else st)
                else if d \<ge> FAKEDNS_MAX_DOMAIN_LEN
                then (if fseek_ok n then load_loop fseek_ok memalign_ok now n (drop d f) st else st)
                else if length f < d then st
                else load_loop fseek_ok memalign_ok now n (drop d f)
                       (load_entry (memalign_ok n) now ip offset (take d f) st))))"

definition fakedns_load ::
  "(nat \<Rightarrow> bool) \<Rightarrow> (nat \<Rightarrow> bool) \<Rightarrow> u32 \<Rightarrow> bytes option \<Rightarrow> (bytes \<rightharpoonup> bytes) \<Rightarrow> fakedns \<Rightarrow> fakedns" where
  "fakedns_load fseek_ok memalign_ok now path_opt fs st =
     (case path_opt of
        None \<Rightarrow> st
      | Some path \<Rightarrow>
          (case fs path of
             None \<Rightarrow> st
           | Some f \<Rightarrow>
               (case read32 f of
                  None \<Rightarrow> st
                | Some (magic, f) \<Rightarrow>
                    (case read32 f of
                       None \<Rightarrow> st
                     | Some (version, f) \<Rightarrow>
                         (case read32 f of
                            None \<Rightarrow> st
                          | Some (cnt, f) \<Rightarrow>
                              if magic \<noteq> FAKEDNS_MAGIC \<or> version \<noteq> FAKEDNS_VERSION then st
                              else
                                (case read16 f of
                                   None \<Rightarrow> st
                                 | Some (cidr_len, f) \<Rightarrow>
                                     if cidr_len \<ge> 64 then st
                                     else if length f < unat cidr_len then st
                                     else if cstr (take (unat cidr_len) f) \<noteq> cstr (g_cidr_str st) then st
                                     else load_loop fseek_ok memalign_ok now (unat cnt) (drop (unat cidr_len) f) st))))))"

section \<open>Loading keeps the pool well formed\<close>

lemma load_entry_fields [simp]:
  "g_fakeip_net_host (load_entry mem now ip off d st) = g_fakeip_net_host st"
  "g_fakeip_mask_host (load_entry mem now ip off d st) = g_fakeip_mask_host st"
  "g_pool_size (load_entry mem now ip off d st) = g_pool_size st"
  "g_cidr_str (load_entry mem now ip off d st) = g_cidr_str st"
  "fakedns_sized k (load_entry mem now ip off d st) = fakedns_sized k st"
  by (auto simp: load_entry_def Let_def split: option.splits)

lemma load_entry_slot:
  assumes "fakedns_sized k st" "unat off < 2 ^ k"
  shows "slot (load_entry True now ip off d st) o' =
    (if o' = off then
       Some (case slot st off of
               None \<Rightarrow> \<lparr>fe_ip = ip, fe_expire = now + FAKEDNS_ENTRY_LIFETIME, fe_version = 1, fe_domain = d @ [0]\<rparr>
             | Some e \<Rightarrow> e\<lparr>fe_domain := d @ [0], fe_expire := now + FAKEDNS_ENTRY_LIFETIME\<rparr>)
     else slot st o')"
  using slot_set_slot [OF assms] by (auto simp: load_entry_def Let_def split: option.splits)

lemma fill_slot_wf:
  assumes "fakedns_sized k st" "fakedns_wf st" "unat off < 2 ^ k" "slot st off = None"
    "fe_ip e = htonl (g_fakeip_net_host st + off)"
    "length (fe_domain e) \<le> FAKEDNS_MAX_DOMAIN_LEN" "0 \<in> set (fe_domain e)"
  shows "fakedns_wf ((set_slot off e st)\<lparr>g_pool_used := g_pool_used st + 1\<rparr>)"
proof -
  let ?st = "(set_slot off e st)\<lparr>g_pool_used := g_pool_used st + 1\<rparr>"
  have len: "length (g_fakedns_pool st) = 2 ^ k" using assms(1) by (simp add: fakedns_sized_def)
  have wf: "unat (g_pool_used st) = occupied (g_fakedns_pool st)" "fakedns_slots_ok st"
    using assms(2) fakedns_wf_alt [OF assms(1)] by auto
  have used: "unat (g_pool_used st) < 2 ^ k"
    using occupied_less [of "unat off" "g_fakedns_pool st"] assms(3,4) len wf(1) by (simp add: slot_def)
  have big: "(2::nat) ^ k \<le> 2 ^ 24" using assms(1) by (intro power_increasing) (auto simp: fakedns_sized_def)
  have inc: "unat (g_pool_used st + 1) = Suc (unat (g_pool_used st))"
    using used big by (simp add: unat_word_ariths)
  have "fakedns_slots_ok ?st"
    using wf(2) len assms(5-7)
    by (auto simp: fakedns_slots_ok_def slot_set_slot [OF assms(1,3)] split: option.splits)
  moreover have "occupied (g_fakedns_pool ?st) = unat (g_pool_used ?st)"
    using assms(3,4) wf(1) len inc by (auto simp: set_slot_def slot_def occupied_update_Some)
  ultimately show ?thesis
    using fakedns_wf_alt [of k ?st] assms(1) by simp
qed

lemma load_entry_wf:
  assumes "fakedns_sized k st" "fakedns_wf st" "fakedns_is_fakeip st ip" "length d < FAKEDNS_MAX_DOMAIN_LEN"
  shows "fakedns_wf (load_entry mem now ip (ntohl ip - g_fakeip_net_host st) d st)"
proof -
  let ?off = "ntohl ip - g_fakeip_net_host st"
  note b = is_fakeip_offset [OF assms(1,3)]
  have ip: "ip = htonl (g_fakeip_net_host st + ?off)" by simp
  show ?thesis
  proof (cases "slot st ?off")
    case None
    then show ?thesis
      using fill_slot_wf [OF assms(1,2) b None] assms(2,4) by (simp add: load_entry_def Let_def)
  next
    case (Some e)
    then have "slot st ?off \<noteq> None" by simp
    then show ?thesis
      using set_slot_wf [OF assms(1,2) b] assms(4) Some wf_slot(1) [OF assms(1,2) b Some]
      by (simp add: load_entry_def Let_def)
  qed
qed

lemma load_loop_wf:
  "fakedns_sized k st \<Longrightarrow> fakedns_wf st \<Longrightarrow> 
    fakedns_sized k (load_loop sk mem now n f st) \<and> fakedns_wf (load_loop sk mem now n f st)"
proof (induction sk mem now n f st rule: load_loop.induct)
  case (2 sk mem now n f st)
  note bound = fakedns_sized_bounds(3) [OF 2(4)]
  show ?case
  proof (cases "read32 f")
    case (Some r)
    obtain ip f1 where r: "r = (ip, f1)" by (cases r)
    show ?thesis
    proof (cases "read16 f1")
      case (Some r2)
      obtain dl f2 where r2: "r2 = (dl, f2)" by (cases r2)
      let ?off = "ntohl ip - g_fakeip_net_host st"
      let ?bad = "ntohl ip AND g_fakeip_mask_host st \<noteq> g_fakeip_net_host st \<or> ?off \<ge> g_pool_size st"
      let ?st = "load_entry (mem n) now ip ?off (take (unat dl) f2) st"
      note run = \<open>read32 f = Some r\<close> r Some r2
      note IH = 2(1-3) [OF \<open>read32 f = Some r\<close> r [symmetric] Some r2 [symmetric] refl refl refl]
      show ?thesis
      proof (cases "?bad \<or> unat dl \<ge> FAKEDNS_MAX_DOMAIN_LEN \<or> length f2 < unat dl")
        case True
        then show ?thesis using run IH(1,2) 2(4,5) by (auto simp: Let_def)
      next
        case False
        then have "fakedns_is_fakeip st ip" using bound by (simp add: fakedns_is_fakeip_def)
        from load_entry_wf [OF 2(4,5) this, of "take (unat dl) f2" "mem n" now] False
        have "fakedns_wf ?st" by simp
        then show ?thesis using run IH(3) False 2(4) by (simp add: Let_def)
      qed
    qed (use 2(4,5) \<open>read32 f = Some r\<close> r in simp)
  qed (use 2(4,5) in simp)
qed simp

lemma fakedns_load_cases:
  assumes "P st" "\<And>n f. P (load_loop sk mem now n f st)"
  shows "P (fakedns_load sk mem now path fs st)"
  using assms by (simp add: fakedns_load_def Let_def split: option.split prod.split)

lemma fakedns_load_wf_aux:
  assumes "fakedns_sized k st" "fakedns_wf st"
  shows "fakedns_sized k (fakedns_load sk mem now path fs st) \<and> fakedns_wf (fakedns_load sk mem now path fs st)"
  by (rule fakedns_load_cases) (use assms load_loop_wf in auto)

lemma load_loop_net: "g_fakeip_net_host (load_loop fseek_ok memalign_ok now n f st) = g_fakeip_net_host st"
  by (induction fseek_ok memalign_ok now n f st rule: load_loop.induct) (auto simp: Let_def split: option.splits)

lemma fakedns_load_net: "g_fakeip_net_host (fakedns_load fseek_ok memalign_ok now path fs st) = g_fakeip_net_host st"
  by (rule fakedns_load_cases) (simp_all add: load_loop_net)

section \<open>What is saved is loaded\<close>

lemma read_le [simp]: "read32 (le32 w @ f) = Some (w, f)" "read16 (le16 v @ f) = Some (v, f)"
  by (simp_all add: read32_def read16_def le32_def le16_def)

text \<open>The live entries of a pool and what the file holds of them.\<close>

definition is_saved :: "u32 \<Rightarrow> fakedns_entry option \<Rightarrow> bool" where
  "is_saved now s = (case s of None \<Rightarrow> False | Some e \<Rightarrow> now < fe_expire e)"

definition saved_entries :: "u32 \<Rightarrow> fakedns_entry option list \<Rightarrow> fakedns_entry list" where
  "saved_entries now pool = map the (filter (is_saved now) pool)"

lemma save_loop_all:
  "\<forall>i. fwrite i \<Longrightarrow>
   save_loop fwrite now k pool written cnt =
     (written @ concat (map saved_bytes (saved_entries now pool)), cnt + of_nat (length (saved_entries now pool)), True)"
  by (induction fwrite now k pool written cnt rule: save_loop.induct)
    (auto simp: saved_entries_def is_saved_def not_le)

definition reload :: "u32 \<Rightarrow> fakedns_entry \<Rightarrow> fakedns \<Rightarrow> fakedns" where
  "reload now e st = load_entry True now (fe_ip e) (ntohl (fe_ip e) - g_fakeip_net_host st) (cstr (fe_domain e)) st"

lemma load_loop_saved:
  assumes "fakedns_sized k st" "\<forall>e \<in> set es. fakedns_is_fakeip st (fe_ip e) \<and> length (cstr (fe_domain e)) < FAKEDNS_MAX_DOMAIN_LEN"
  shows "load_loop sk (\<lambda>_. True) now (length es) (concat (map saved_bytes es) @ f) st = fold (reload now) es st"
  using assms
proof (induction es arbitrary: st)
  case (Cons e es)
  let ?d = "cstr (fe_domain e)" and ?off = "ntohl (fe_ip e) - g_fakeip_net_host st"
  have d: "length ?d < 244" and fake: "fakedns_is_fakeip st (fe_ip e)"
    using Cons.prems(2) by (simp_all add: FAKEDNS_MAX_DOMAIN_LEN_def)
  have dl: "unat (of_nat (length ?d) :: u16) = length ?d" using d by (simp add: unat_of_nat)
  have in_range: "ntohl (fe_ip e) AND g_fakeip_mask_host st = g_fakeip_net_host st" "\<not> ?off \<ge> g_pool_size st"
    using fake is_fakeip_offset [OF Cons.prems(1) fake] fakedns_sized_bounds(2) [OF Cons.prems(1)]
    by (simp_all add: fakedns_is_fakeip_def word_le_nat_alt)
  have "load_loop sk (\<lambda>_. True) now (length (e # es)) (concat (map saved_bytes (e # es)) @ f) st =
      load_loop sk (\<lambda>_. True) now (length es) (concat (map saved_bytes es) @ f) (reload now e st)"
    using in_range d by (simp add: saved_bytes_def dl Let_def reload_def FAKEDNS_MAX_DOMAIN_LEN_def)
  also have "\<dots> = fold (reload now) es (reload now e st)"
    using Cons.prems by (intro Cons.IH) (simp_all add: reload_def fakedns_is_fakeip_def)
  finally show ?case by simp
qed simp

lemma reload_fields [simp]:
  "g_fakeip_net_host (reload now e st) = g_fakeip_net_host st"
  "fakedns_sized k (reload now e st) = fakedns_sized k st"
  by (simp_all add: reload_def)

text \<open>The slot of a reloaded pool.\<close>

definition reloaded :: "u32 \<Rightarrow> fakedns_entry \<Rightarrow> fakedns_entry" where
  "reloaded now e =
     \<lparr>fe_ip = fe_ip e, fe_expire = now + FAKEDNS_ENTRY_LIFETIME, fe_version = 1, fe_domain = cstr (fe_domain e) @ [0]\<rparr>"

lemma fold_reload_slot:
  assumes "fakedns_sized k st" "distinct (map fe_ip es)" 
    "\<forall>e \<in> set es. unat (ntohl (fe_ip e) - g_fakeip_net_host st) < 2 ^ k \<and> slot st (ntohl (fe_ip e) - g_fakeip_net_host st) = None"
  shows "slot (fold (reload now) es st) off =
    (case find (\<lambda>e. ntohl (fe_ip e) - g_fakeip_net_host st = off) es of
       None \<Rightarrow> slot st off | Some e \<Rightarrow> Some (reloaded now e))"
  using assms
proof (induction es arbitrary: st)
  case (Cons e es)
  let ?off = "\<lambda>e. ntohl (fe_ip e) - g_fakeip_net_host st"
  have one: "slot (reload now e st) o' = (if o' = ?off e then Some (reloaded now e) else slot st o')" for o'
    using Cons.prems by (auto simp: reload_def load_entry_slot reloaded_def)
  have inj: "?off e' \<noteq> ?off e" if "e' \<in> set es" for e'
    using Cons.prems(2) that by simp (metis htonl_ntohl imageI)
  have rest: "slot (fold (reload now) es (reload now e st)) off =
    (case find (\<lambda>e. ?off e = off) es of None \<Rightarrow> slot (reload now e st) off | Some e \<Rightarrow> Some (reloaded now e))"
    using Cons.prems inj one by (subst Cons.IH) auto
  show ?case
  proof (cases "?off e = off")
    case True
    then have "find (\<lambda>e. ?off e = off) es = None" using inj by (auto simp: find_None_iff)
    then show ?thesis using rest one True by simp
  next
    case False
    then show ?thesis using rest one by (simp split: option.splits)
  qed
qed simp

lemma pool_entry_wf:
  assumes "fakedns_sized k st" "fakedns_wf st" "i < length (g_fakedns_pool st)" "g_fakedns_pool st ! i = Some e"
  shows "fe_ip e = htonl (g_fakeip_net_host st + of_nat i)" "length (cstr (fe_domain e)) < FAKEDNS_MAX_DOMAIN_LEN"
    "fakedns_is_fakeip st (fe_ip e)" "unat (of_nat i :: u32) = i"
proof -
  have len: "length (g_fakedns_pool st) = 2 ^ k" and k: "k \<le> 24" using assms(1) by (auto simp: fakedns_sized_def)
  have "(2::nat) ^ k \<le> 2 ^ 24" using k by (intro power_increasing) auto
  then show u: "unat (of_nat i :: u32) = i" using assms(3) len by (simp add: unat_of_nat)
  have b: "unat (of_nat i :: u32) < 2 ^ k" and s: "slot st (of_nat i) = Some e" using u assms(3,4) len by (simp_all add: slot_def)
  note w = wf_slot [OF assms(1,2) b s]
  show "fe_ip e = htonl (g_fakeip_net_host st + of_nat i)" by (rule w(1))
  show "length (cstr (fe_domain e)) < FAKEDNS_MAX_DOMAIN_LEN"
    using cstr_entry_short [OF w(2,3)] by (simp add: FAKEDNS_MAX_DOMAIN_LEN_def)
  show "fakedns_is_fakeip st (fe_ip e)" unfolding w(1) by (rule is_fakeip_slot [OF assms(1) b])
qed

lemma filter_index: "filter P xs = map (\<lambda>i. xs ! i) (filter (\<lambda>i. P (xs ! i)) [0..<length xs])"
  by (metis (no_types, lifting) comp_def filter_cong filter_map map_nth)

lemma saved_entriesE:
  assumes "e \<in> set (saved_entries now pool)"
  obtains i where "i < length pool" "pool ! i = Some e" "now < fe_expire e"
  using assms by (auto simp: saved_entries_def is_saved_def in_set_conv_nth split: option.splits)

lemma saved_entriesI: "i < length pool \<Longrightarrow> pool ! i = Some e \<Longrightarrow> now < fe_expire e \<Longrightarrow> e \<in> set (saved_entries now pool)"
  unfolding saved_entries_def by (force simp: is_saved_def in_set_conv_nth)

lemma saved_entries_distinct:
  assumes "fakedns_sized k st" "fakedns_wf st"
  shows "distinct (map fe_ip (saved_entries now (g_fakedns_pool st)))"
proof -
  let ?pool = "g_fakedns_pool st"
  let ?is = "filter (\<lambda>i. is_saved now (?pool ! i)) [0..<length ?pool]"
  have ip: "fe_ip (the (?pool ! i)) = htonl (g_fakeip_net_host st + of_nat i)" "unat (of_nat i :: u32) = i" if "i \<in> set ?is" for i
    using that pool_entry_wf [OF assms, of i] by (auto simp: is_saved_def split: option.splits)
  have "saved_entries now ?pool = map (\<lambda>i. the (?pool ! i)) ?is"
    unfolding saved_entries_def by (subst filter_index) simp
  then have "map fe_ip (saved_entries now ?pool) = map (\<lambda>i. htonl (g_fakeip_net_host st + of_nat i)) ?is"
    using ip(1) by simp
  moreover have "inj_on (\<lambda>i. htonl (g_fakeip_net_host st + of_nat i)) (set ?is)"
  proof (rule inj_onI)
    fix i j assume "i \<in> set ?is" "j \<in> set ?is" and
      "htonl (g_fakeip_net_host st + of_nat i) = htonl (g_fakeip_net_host st + of_nat j)"
    moreover from this(3) have "(of_nat i :: u32) = of_nat j" by simp
    ultimately show "i = j" using ip(2) by metis
  qed
  ultimately show ?thesis by (simp add: distinct_map)
qed

lemma find_unique:
  "e \<in> set es \<Longrightarrow> P e \<Longrightarrow> \<forall>e' \<in> set es. P e' \<longrightarrow> e' = e \<Longrightarrow> find P es = Some e"
proof (induction es)
  case (Cons x es)
  then show ?case by (cases "P x") (metis find.simps(2) list.set_intros, metis find.simps(2) list.set_intros(2) set_ConsD)
qed simp

lemma find_saved:
  assumes "fakedns_sized k st" "fakedns_wf st" "unat off < 2 ^ k"
  shows "find (\<lambda>e. ntohl (fe_ip e) - g_fakeip_net_host st = off) (saved_entries now (g_fakedns_pool st)) =
    (case slot st off of None \<Rightarrow> None | Some e \<Rightarrow> if now < fe_expire e then Some e else None)"
proof -
  let ?es = "saved_entries now (g_fakedns_pool st)"
  have len: "unat off < length (g_fakedns_pool st)" using assms(1,3) by (simp add: fakedns_sized_def)
  have at: "slot st off = Some e \<and> now < fe_expire e" if e: "e \<in> set ?es" "ntohl (fe_ip e) - g_fakeip_net_host st = off" for e
  proof -
    obtain i where i: "i < length (g_fakedns_pool st)" "g_fakedns_pool st ! i = Some e" "now < fe_expire e"
      using e(1) by (rule saved_entriesE)
    note w = pool_entry_wf [OF assms(1,2) i(1,2)]
    then have "off = of_nat i" using e(2) by simp
    then show ?thesis using i w(4) by (simp add: slot_def)
  qed
  show ?thesis
  proof (cases "\<exists>e. slot st off = Some e \<and> now < fe_expire e")
    case True
    then obtain e where e: "slot st off = Some e" "now < fe_expire e" by blast
    then have "e \<in> set ?es" using len by (auto simp: slot_def intro: saved_entriesI)
    moreover have "ntohl (fe_ip e) - g_fakeip_net_host st = off" using wf_slot(1) [OF assms e(1)] by simp
    moreover have "\<forall>e' \<in> set ?es. ntohl (fe_ip e') - g_fakeip_net_host st = off \<longrightarrow> e' = e"
      using at e(1) by (metis option.inject)
    ultimately have "find (\<lambda>e. ntohl (fe_ip e) - g_fakeip_net_host st = off) ?es = Some e" by (rule find_unique)
    then show ?thesis using e by simp
  next
    case False
    then show ?thesis using at by (auto simp: find_None_iff split: option.splits)
  qed
qed

lemma save_loop_success:
  "snd (snd (save_loop fwrite now k pool written n)) \<Longrightarrow>
   save_loop fwrite now k pool written n =
     (written @ concat (map saved_bytes (saved_entries now pool)), n + of_nat (length (saved_entries now pool)), True)"
  by (induction fwrite now k pool written n rule: save_loop.induct)
    (auto simp: saved_entries_def is_saved_def not_le split: if_splits)

text \<open>The loop succeeds when all its writes do, three for each entry that is saved.\<close>

lemma save_loop_ok:
  "snd (snd (save_loop fwrite now k pool written n)) \<longleftrightarrow> (\<forall>j < 3 * length (saved_entries now pool). fwrite (k + j))"
proof (induction fwrite now k pool written n rule: save_loop.induct)
  case (3 fwrite now k entry pool written n)
  show ?case
  proof (cases "fe_expire entry \<le> now")
    case True
    then have "saved_entries now (Some entry # pool) = saved_entries now pool" by (simp add: saved_entries_def is_saved_def)
    then show ?thesis using 3(1) True by simp
  next
    case False
    let ?n = "3 * length (saved_entries now pool)"
    have len: "length (saved_entries now (Some entry # pool)) = Suc (length (saved_entries now pool))"
      using False by (simp add: saved_entries_def is_saved_def)
    have split: "(\<forall>j < 3 + ?n. fwrite (k + j)) \<longleftrightarrow> (fwrite k \<and> fwrite (k + 1) \<and> fwrite (k + 2)) \<and> (\<forall>j < ?n. fwrite (k + 3 + j))"
      by (simp add: All_less_Suc2 eval_nat_numeral)
    show ?thesis
    proof (cases "fwrite k \<and> fwrite (k + 1) \<and> fwrite (k + 2)")
      case True
      then show ?thesis using 3(2) False split unfolding len by simp
    next
      case bad: False
      have "3 * Suc (length (saved_entries now pool)) = 3 + ?n" by simp
      then show ?thesis using False bad split unfolding len by (simp only:) auto
    qed
  qed
qed (simp_all add: saved_entries_def is_saved_def)

definition save_io_ok :: "save_io \<Rightarrow> bool" where
  "save_io_ok io \<longleftrightarrow> io_fopen io \<and> (\<forall>i. io_fwrite io i) \<and> io_fseek io \<and> io_fflush io \<and> io_fsync io \<and> io_rename io"

lemma writes_split:
  fixes f :: "nat \<Rightarrow> bool"
  shows "(\<forall>i < 6 + 3 * n. f i) \<longleftrightarrow> f 0 \<and> f 1 \<and> f 2 \<and> f 3 \<and> f 4 \<and> (\<forall>j < 3 * n. f (5 + j)) \<and> f (5 + 3 * n)"
proof (intro iffI conjI)
  assume f: "f 0 \<and> f 1 \<and> f 2 \<and> f 3 \<and> f 4 \<and> (\<forall>j < 3 * n. f (5 + j)) \<and> f (5 + 3 * n)"
  have "f i" if "i < 6 + 3 * n" for i
  proof -
    have "i = 0 \<or> i = 1 \<or> i = 2 \<or> i = 3 \<or> i = 4 \<or> (\<exists>j. i = 5 + j \<and> j \<le> 3 * n)" using that by presburger
    then show ?thesis using f by (metis nat_less_le)
  qed
  then show "\<forall>i < 6 + 3 * n. f i" by blast
qed auto

definition saved_file :: "u32 \<Rightarrow> fakedns \<Rightarrow> bytes" where
  "saved_file now st =
     le32 FAKEDNS_MAGIC @ le32 FAKEDNS_VERSION @ le32 (of_nat (length (saved_entries now (g_fakedns_pool st)))) @
     le16 (of_nat (length (g_cidr_str st))) @ g_cidr_str st @ concat (map saved_bytes (saved_entries now (g_fakedns_pool st)))"

lemma fakedns_save_all:
  assumes "save_io_ok io" "g_fakedns_pool st \<noteq> []" "g_pool_used st \<noteq> 0"
  shows "fakedns_save io now (Some path) st fs = (fs(take 511 (path @ ascii ''.tmp'') := None))(path \<mapsto> saved_file now st)"
  using assms
  by (simp add: fakedns_save_def save_io_ok_def save_loop_all save_header_def saved_file_def)

lemma fakedns_load_saved:
  assumes "fs path = Some (saved_file now st)" "length (g_cidr_str st) < 64" "g_cidr_str st0 = g_cidr_str st"
    "length (saved_entries now (g_fakedns_pool st)) < 2 ^ 32"
  shows "fakedns_load sk mem now' (Some path) fs st0 =
    load_loop sk mem now' (length (saved_entries now (g_fakedns_pool st))) (concat (map saved_bytes (saved_entries now (g_fakedns_pool st)))) st0"
proof -
  have l: "unat (of_nat (length (g_cidr_str st)) :: u16) = length (g_cidr_str st)" using assms(2) by (simp add: unat_of_nat)
  then have "\<not> (of_nat (length (g_cidr_str st)) :: u16) \<ge> 64" using assms(2) by (simp add: word_le_nat_alt)
  moreover have "unat (of_nat (length (saved_entries now (g_fakedns_pool st))) :: u32) = length (saved_entries now (g_fakedns_pool st))"
    using assms(4) by (simp add: unat_of_nat)
  ultimately show ?thesis using assms(1,3) l by (simp add: fakedns_load_def saved_file_def)
qed

lemma fakedns_save_load_aux:
  assumes "fakedns_sized k st" "fakedns_wf st" "g_pool_used st \<noteq> 0" "save_io_ok io"
    "fakedns_sized k st0" "\<forall>off. unat off < 2 ^ k \<longrightarrow> slot st0 off = None"
    "g_cidr_str st0 = g_cidr_str st" "length (g_cidr_str st) < 64" "g_fakeip_net_host st0 = g_fakeip_net_host st" "unat off < 2 ^ k"
  shows "slot (fakedns_load sk (\<lambda>_. True) now' (Some path) (fakedns_save io now (Some path) st fs) st0) off =
    (case slot st off of None \<Rightarrow> None | Some e \<Rightarrow> if now < fe_expire e then Some (reloaded now' e) else None)"
proof -
  let ?es = "saved_entries now (g_fakedns_pool st)"
  have len: "length (g_fakedns_pool st) = 2 ^ k" and k: "k \<le> 24" using assms(1) by (auto simp: fakedns_sized_def)
  have "(2::nat) ^ k \<le> 2 ^ 24" using k by (intro power_increasing) auto
  moreover have "length ?es \<le> length (g_fakedns_pool st)" by (simp add: saved_entries_def)
  ultimately have few: "length ?es < 2 ^ 32" using len by simp
  have "g_fakedns_pool st \<noteq> []" using len by auto
  note save = fakedns_save_all [OF assms(4) this assms(3)]
  have content: "fakedns_save io now (Some path) st fs path = Some (saved_file now st)" by (simp add: save)
  have each: "unat (ntohl (fe_ip e) - g_fakeip_net_host st0) < 2 ^ k \<and> fakedns_is_fakeip st0 (fe_ip e) \<and>
      length (cstr (fe_domain e)) < FAKEDNS_MAX_DOMAIN_LEN" if "e \<in> set ?es" for e
  proof -
    obtain i where i: "i < length (g_fakedns_pool st)" "g_fakedns_pool st ! i = Some e" using \<open>e \<in> set ?es\<close> by (rule saved_entriesE)
    note w = pool_entry_wf [OF assms(1,2) i]
    have "fakedns_is_fakeip st0 (fe_ip e)"
      using w(3) assms(1,5,9) by (simp add: fakedns_is_fakeip_def fakedns_sized_def)
    then show ?thesis using w i len assms(9) by simp
  qed
  have "fakedns_load sk (\<lambda>_. True) now' (Some path) (fakedns_save io now (Some path) st fs) st0 = fold (reload now') ?es st0"
    using fakedns_load_saved [where fs = "fakedns_save io now (Some path) st fs" and path = path, OF content assms(8,7) few] load_loop_saved [OF assms(5), of ?es sk now' "[]"] each by simp
  also have "slot \<dots> off = (case find (\<lambda>e. ntohl (fe_ip e) - g_fakeip_net_host st0 = off) ?es of
       None \<Rightarrow> slot st0 off | Some e \<Rightarrow> Some (reloaded now' e))"
    using each assms(6) by (intro fold_reload_slot [OF assms(5) saved_entries_distinct [OF assms(1,2)]]) simp
  finally show ?thesis
    using find_saved [OF assms(1,2,10), of now] assms(6,9,10) by (auto split: option.splits)
qed


section \<open>A concrete file\<close>

definition demo_io :: save_io where
  "demo_io = \<lparr>io_fopen = True, io_fwrite = (\<lambda>_. True), io_fseek = True, io_fflush = True, io_fsync = True, io_rename = True\<rparr>"

lemma demo_pool1_wf: "fakedns_wf demo_pool1"
  using fakedns_lookup_post(2) [OF _ demo_wf demo_lookup] fakedns_wf_sizedE [OF demo_wf] by blast

section \<open>Properties\<close>

text \<open>A file of any content, whole, truncated or corrupt, leaves the pool well formed when it is loaded, with
  its network, mask and size as they were.\<close>

theorem fakedns_load_wf:
  assumes "fakedns_wf st"
  shows "fakedns_wf (fakedns_load fseek_ok memalign_ok now path fs st) \<and>
    g_fakeip_net_host (fakedns_load fseek_ok memalign_ok now path fs st) = g_fakeip_net_host st \<and>
    g_pool_size (fakedns_load fseek_ok memalign_ok now path fs st) = g_pool_size st"
proof -
  obtain k where k: "fakedns_sized k st" using assms by (rule fakedns_wf_sizedE)
  show ?thesis using fakedns_load_wf_aux [OF k assms] k by (simp add: fakedns_sized_def fakedns_load_net)
qed

text \<open>C25. A restart keeps the addresses: what was saved and is loaded into a fresh pool of the same network gives
  every slot its unexpired entry back, with the same address and name and a new lease, and leaves the
  other slots empty.\<close>

theorem fakedns_save_load:
  assumes "fakedns_wf st" "g_pool_used st \<noteq> 0" "save_io_ok io"
    "fakedns_init calloc_ok cidr fakedns_static = Some st0"
    "g_cidr_str st = g_cidr_str st0" "g_fakeip_net_host st = g_fakeip_net_host st0" "g_pool_size st = g_pool_size st0"
    "unat off < unat (g_pool_size st)"
  shows "slot (fakedns_load fseek_ok (\<lambda>_. True) now' (Some path) (fakedns_save io now (Some path) st fs) st0) off =
    (case slot st off of
       None \<Rightarrow> None
     | Some e \<Rightarrow>
         if now < fe_expire e
         then Some \<lparr>fe_ip = fe_ip e, fe_expire = now' + FAKEDNS_ENTRY_LIFETIME, fe_version = 1, fe_domain = cstr (fe_domain e) @ [0]\<rparr>
         else None)"
proof -
  obtain k0 where k0: "fakedns_sized k0 st0" "g_fakedns_pool st0 = replicate (2 ^ k0) None"
    using fakedns_init_sized [OF assms(4)] by blast
  obtain k where k: "fakedns_sized k st" using assms(1) by (rule fakedns_wf_sizedE)
  have "(2::nat) ^ k = 2 ^ k0"
    using fakedns_sized_bounds(2) [OF k] fakedns_sized_bounds(2) [OF k0(1)] assms(7) by simp
  then have kk: "k0 = k" by simp
  have "length (g_cidr_str st0) < 64"
  proof (rule fakedns_init_cases [OF assms(4)])
    fix n ip
    show "length (g_cidr_str st0) < 64"
      if "st0 = fakedns_static\<lparr>g_cidr_str := strncpy_z 64 cidr, g_fakeip_net_host := ip AND NOT (mask n),
           g_fakeip_mask_host := NOT (mask n), g_pool_size := 2 ^ n,
           g_fakedns_pool := replicate (unat (2 ^ n :: u32)) None,
           g_max_probes := (if (2 ^ n :: u32) < 128 then 2 ^ n else 128)\<rparr>"
      using that by (simp add: strncpy_z_def)
  qed
  moreover have "\<forall>off. unat off < 2 ^ k \<longrightarrow> slot st0 off = None" using k0(2) kk by (simp add: slot_def)
  ultimately show ?thesis
    using fakedns_save_load_aux [OF k assms(1,2,3) k0(1) [unfolded kk]] assms(5,6,8) fakedns_sized_bounds(2) [OF k]
    by (simp add: reloaded_def split: option.splits)
qed

theorem fakedns_save_load_witness:
  "slot (fakedns_load (\<lambda>_. True) (\<lambda>_. True) 9000 (Some [112]) (fakedns_save demo_io 200 (Some [112]) demo_pool1 Map.empty) demo_pool) 97 =
    Some \<lparr>fe_ip = htonl 0x0A000061, fe_expire = 95400, fe_version = 1, fe_domain = ascii ''a.b'' @ [0]\<rparr>"
  using fakedns_save_load [OF demo_pool1_wf _ _ demo_init, where io = demo_io and off = 97 and fseek_ok = "\<lambda>_. True" and now = 200
      and now' = 9000 and path = "[112]" and fs = Map.empty] demo_slot
  by (simp add: demo_io_def save_io_ok_def demo_entry_def ascii_def cstr_def fakedns_consts)
    (simp add: demo_pool1_def demo_pool_def)

text \<open>C26. A save replaces the file if, and only if, every call succeeds: opening, each of the writes that there are, the seek, the
  flush, the synchronisation and the rename. Then the file is complete; otherwise it is what it was. No other file is
  touched but the temporary one, which is gone once it has been opened.\<close>

theorem fakedns_save_atomic:
  fixes now st path
  defines "n \<equiv> length (saved_entries now (g_fakedns_pool st))" and "tmp \<equiv> take 511 (path @ ascii ''.tmp'')"
  assumes "fakedns_wf st" "g_pool_used st \<noteq> 0" "tmp \<noteq> path" "fakedns_save io now (Some path) st fs = fs'"
  shows "fs' path =
      (if io_fopen io \<and> (\<forall>i < 6 + 3 * n. io_fwrite io i) \<and> io_fseek io \<and> io_fflush io \<and> io_fsync io \<and> io_rename io
       then Some (saved_file now st) else fs path) \<and>
    (\<forall>p. p \<noteq> path \<longrightarrow> p \<noteq> tmp \<longrightarrow> fs' p = fs p) \<and> fs' tmp = (if io_fopen io then None else fs tmp)"
proof -
  obtain k where k: "fakedns_sized k st" using assms(3) by (rule fakedns_wf_sizedE)
  have len: "length (g_fakedns_pool st) = 2 ^ k" "k \<le> 24" using k by (auto simp: fakedns_sized_def)
  have "(2::nat) ^ k \<le> 2 ^ 24" using len(2) by (intro power_increasing) auto
  moreover have "n \<le> length (g_fakedns_pool st)" by (simp add: n_def saved_entries_def)
  ultimately have n: "unat (of_nat n :: u32) = n" using len(1) by (simp add: unat_of_nat)
  have pool: "g_fakedns_pool st \<noteq> []" using len(1) by auto
  obtain w c ok where r: "save_loop (io_fwrite io) now 5 (g_fakedns_pool st) (save_header st) 0 = (w, c, ok)" by (metis prod_cases3)
  have ok: "ok \<longleftrightarrow> (\<forall>j < 3 * n. io_fwrite io (5 + j))" using save_loop_ok [of "io_fwrite io" now 5 "g_fakedns_pool st" "save_header st" 0] r by (simp add: n_def)
  have whole: "ok \<Longrightarrow> c = of_nat n \<and> take 8 w @ le32 c @ drop 12 w = saved_file now st"
    using save_loop_success [of "io_fwrite io" now 5 "g_fakedns_pool st" "save_header st" 0] r by (simp add: saved_file_def save_header_def n_def)
  have all: "(\<forall>i < 6 + 3 * n. io_fwrite io i) \<longleftrightarrow>
      io_fwrite io 0 \<and> io_fwrite io 1 \<and> io_fwrite io 2 \<and> io_fwrite io 3 \<and> io_fwrite io 4 \<and> ok \<and> io_fwrite io (5 + 3 * n)"
    unfolding ok by (rule writes_split)
  define good where "good \<longleftrightarrow> (\<forall>i < 6 + 3 * n. io_fwrite io i) \<and> io_fseek io \<and> io_fflush io \<and> io_fsync io \<and> io_rename io"
  have "fs' = (if \<not> io_fopen io then fs else if good then (fs(tmp := None))(path \<mapsto> saved_file now st) else fs(tmp := None))"
  proof (cases ok)
    case True
    note w = whole [OF True]
    have "c = of_nat n" "saved_file now st = take 8 w @ le32 (of_nat n) @ drop 12 w" using w by auto
    then show ?thesis
      using assms(4) pool n True
      unfolding assms(6) [symmetric] good_def all fakedns_save_def option.case r prod.case Let_def tmp_def [symmetric] by simp
  next
    case False
    then show ?thesis
      using assms(4) pool
      unfolding assms(6) [symmetric] good_def all fakedns_save_def option.case r prod.case Let_def tmp_def [symmetric] by simp
  qed
  then show ?thesis using assms(5) unfolding good_def [symmetric] by (cases "io_fopen io"; cases good) simp_all
qed

theorem fakedns_save_atomic_witness:
  "fakedns_save (demo_io\<lparr>io_fsync := False\<rparr>) 200 (Some [112]) demo_pool1 [[112] \<mapsto> [1], [113] \<mapsto> [2]] [112] = Some [1] \<and>
   fakedns_save demo_io 200 (Some [112]) demo_pool1 [[112] \<mapsto> [1], [113] \<mapsto> [2]] [112] = Some (saved_file 200 demo_pool1)"
  using fakedns_save_atomic [OF demo_pool1_wf _ _ refl, of "[112]" "demo_io\<lparr>io_fsync := False\<rparr>" 200 "[[112] \<mapsto> [1], [113] \<mapsto> [2]]"]
    fakedns_save_atomic [OF demo_pool1_wf _ _ refl, of "[112]" demo_io 200 "[[112] \<mapsto> [1], [113] \<mapsto> [2]]"]
  by (simp add: ascii_def demo_io_def) (simp add: demo_pool1_def demo_pool_def)

text \<open>A pool in which a collision pushed a name to the second slot of its probe sequence, and the entry in the
  first one has expired since.\<close>

definition demo_gap :: fakedns where
  "demo_gap = demo_pool\<lparr>g_fakedns_pool := (replicate 256 None)
     [97 := Some \<lparr>fe_ip = htonl 0x0A000061, fe_expire = 150, fe_version = 1, fe_domain = ascii ''ax'' @ [0]\<rparr>,
      98 := Some (demo_entry 98 (ascii ''a.b''))], g_pool_used := 2\<rparr>"

lemma demo_gap_slot:
  "unat off < 256 \<Longrightarrow> slot demo_gap off =
    (if off = 97 then Some \<lparr>fe_ip = htonl 0x0A000061, fe_expire = 150, fe_version = 1, fe_domain = ascii ''ax'' @ [0]\<rparr>
     else if off = 98 then Some (demo_entry 98 (ascii ''a.b'')) else None)"
  by (auto simp: demo_gap_def demo_pool_def slot_def nth_list_update word_unat_eq_iff)

lemma demo_gap_fields:
  "g_pool_size demo_gap = 256" "g_fakeip_net_host demo_gap = 0x0A000000" "g_cidr_str demo_gap = g_cidr_str demo_pool"
  "g_pool_used demo_gap = 2" "fakedns_sized 8 demo_gap" "length (g_fakedns_pool demo_gap) = 256"
  "occupied (g_fakedns_pool demo_gap) = 2" "fakedns_sized 8 demo_pool" "g_pool_size demo_pool = 256"
  "g_fakeip_net_host demo_pool = 0x0A000000"
proof -
  show "occupied (g_fakedns_pool demo_gap) = 2"
    by (simp add: demo_gap_def demo_pool_def occupied_update_Some nth_list_update)
qed (simp_all add: demo_gap_def demo_pool_def fakedns_sized_def mask_eq_exp_minus_1)

lemma demo_gap_wf: "fakedns_wf demo_gap"
  unfolding fakedns_wf_alt [OF demo_gap_fields(5)]
  by (auto simp: demo_gap_fields fakedns_slots_ok_def demo_gap_slot demo_entry_def ascii_def fakedns_consts)

lemma lookup_first_slot_empty:
  assumes "fakedns_sized k st" "fakedns_wf st" "slot st (probe_seq xxh domain st 0) = None"
  shows "fst (fakedns_lookup_domain xxh True now domain st) = htonl (g_fakeip_net_host st + probe_seq xxh domain st 0)"
proof (cases rule: fakedns_lookup_cases [OF assms(1) refl, where xxh = xxh and domain = domain and mem = True and now = now,
      case_names hit overwrite insert full])
  case (insert m)
  then have "m = 0" using assms(3) by (auto simp: foreign_def)
  then have "fakedns_lookup_domain xxh True now domain st = fakedns_insert True now domain (probe_seq xxh domain st 0) st"
    using insert by simp
  then show ?thesis
    using fakedns_insert_post(1) [OF assms(1,2) probe_seq_bound [OF assms(1)] assms(3)] by (metis prod.collapse)
next
  case (hit m)
  then show ?thesis using assms(3) by (cases "m = 0") (auto simp: foreign_def holds_domain_def)
next
  case (overwrite m)
  then show ?thesis using assms(3) by (auto simp: foreign_def)
next
  case full
  then have "foreign st domain (probe_seq xxh domain st 0)" by simp
  then show ?thesis using assms(3) by (simp add: foreign_def)
qed


lemma fakedns_restart_moves_name_aux:
  assumes "fakedns_load (\<lambda>_. True) (\<lambda>_. True) 300 (Some path) (fakedns_save demo_io 200 (Some path) demo_gap fs) demo_pool = st1"
  shows "fst (fakedns_lookup_domain demo_hash True 200 (ascii ''a.b'') demo_gap) = htonl 0x0A000062 \<and>
    fst (fakedns_lookup_domain demo_hash True 400 (ascii ''a.b'') st1) = htonl 0x0A000061 \<and>
    map_option (\<lambda>e. cstr (fe_domain e)) (slot st1 98) = Some (ascii ''a.b'')"
proof -
  have saved: "slot st1 off = (case slot demo_gap off of None \<Rightarrow> None | Some e \<Rightarrow> if 200 < fe_expire e then Some (reloaded 300 e) else None)"
    if "unat off < 2 ^ 8" for off
    using fakedns_save_load_aux [OF demo_gap_fields(5) demo_gap_wf, where io = demo_io and ?st0.0 = demo_pool and off = off
        and now' = 300 and now = 200 and path = path and fs = fs and sk = "\<lambda>_. True"] that assms
    by (simp add: demo_gap_fields demo_io_def save_io_ok_def) (simp add: demo_pool_def slot_def ascii_def)
  have st1: "fakedns_sized 8 st1" "fakedns_wf st1"
    using fakedns_load_wf_aux [OF demo_gap_fields(8) demo_wf] assms by blast+
  have p0: "probe_seq demo_hash (ascii ''a.b'') st 0 = 97" if "g_pool_size st = 256" for st
    using that by (simp add: probe_seq_def probe_at_def probe_start_def demo_hash_def ascii_def)
  have net: "g_fakeip_net_host st1 = 0x0A000000"
    using fakedns_load_net [of "\<lambda>_. True" "\<lambda>_. True" 300 "Some path" "fakedns_save demo_io 200 (Some path) demo_gap fs" demo_pool] assms
    by (simp add: demo_gap_fields)
  have "slot st1 97 = None" "slot st1 98 = Some (reloaded 300 (demo_entry 98 (ascii ''a.b'')))"
    using saved [of 97] saved [of 98] by (simp_all add: demo_gap_slot demo_entry_def)
  moreover have "fakedns_lookup_domain demo_hash True 200 (ascii ''a.b'') demo_gap = fakedns_hit 200 98 demo_gap"
  proof -
    have "probe_start demo_gap (demo_hash (ascii ''a.b'')) = 97" "probe_step (demo_hash (ascii ''a.b'')) = 1" "g_max_probes demo_gap = 128"
      using demo_step demo_gap_fields(5)
      by (simp_all add: probe_start_def demo_hash_def ascii_def demo_gap_fields fakedns_sized_def)
    then show ?thesis
      by (simp add: fakedns_lookup_domain_def demo_gap_fields Let_def fakedns_probe_numeral demo_gap_slot)
        (simp add: ascii_def cstr_def demo_entry_def)
  qed
  ultimately show ?thesis
    using lookup_first_slot_empty [OF st1, of demo_hash "ascii ''a.b''" 400] p0 [of st1] st1(1) net
    by (simp add: fakedns_sized_def fakedns_hit_def Let_def demo_gap_fields reloaded_def demo_entry_def ascii_def cstr_def)
qed

text \<open>A restart can move a name: in this pool, saved at time 200, the name has its address and keeps it while the
  program runs, but the file has no trace of the expired entry before it, so after loading the same name is
  given the other slot, and two slots hold it. (An address cached from before still resolves.)\<close>

theorem fakedns_restart_moves_name:
  "\<exists>st1. fakedns_load (\<lambda>_. True) (\<lambda>_. True) 300 (Some path) (fakedns_save demo_io 200 (Some path) demo_gap fs) demo_pool = st1 \<and>
    fst (fakedns_lookup_domain demo_hash True 200 (ascii ''a.b'') demo_gap) = htonl 0x0A000062 \<and>
    fst (fakedns_lookup_domain demo_hash True 400 (ascii ''a.b'') st1) = htonl 0x0A000061 \<and>
    map_option (\<lambda>e. cstr (fe_domain e)) (slot st1 98) = Some (ascii ''a.b'')"
  by (rule exI, rule conjI [OF refl fakedns_restart_moves_name_aux [OF refl]])

end
