(* ===== verification/FakednsReverse.thy ===== *)
theory FakednsReverse
  imports FakednsPersist "HOL-Library.Multiset"
begin

text \<open>
  The reverse direction of the fake-IP pool in \<^verbatim>\<open>src/src/fakedns.c\<close>:
  \<^verbatim>\<open>fakedns_reverse_lookup\<close> and \<^verbatim>\<open>fakedns_try_resolve\<close> with the
  thread-local cache of the eight most recently used answers. The cache is an array of entries and an
  array of pointers into it, kept in order of use; pointers are indices here. An entry is valid as long as
  the version it was copied with is the version of the slot.

  The interleaving of the single writer with the readers is the relation \<open>fakedns_reach\<close>: a
  lookup of a domain by the DNS thread, or a reverse lookup by any thread. A reverse lookup is one step,
  because it reads the shared pool at one point: the version of the slot on the fast path, the slot under
  the read lock on the slow path.
\<close>

section \<open>State\<close>

record fakedns_mru_entry =
  me_ip :: u32
  me_version :: u32
  me_valid :: bool
  me_domain :: bytes \<comment> \<open>up to the terminator\<close>

record fakedns_mru =
  g_fakedns_mru_data :: "fakedns_mru_entry list"
  g_fakedns_mru_ptrs :: "nat list"
  g_fakedns_mru_init :: bool

definition FAKEDNS_MRU_SIZE :: nat where "FAKEDNS_MRU_SIZE = 8"

definition fakedns_mru_static :: fakedns_mru where
  "fakedns_mru_static =
     \<lparr>g_fakedns_mru_data = replicate FAKEDNS_MRU_SIZE \<lparr>me_ip = 0, me_version = 0, me_valid = False, me_domain = [0]\<rparr>,
      g_fakedns_mru_ptrs = [], g_fakedns_mru_init = False\<rparr>"

section \<open>Reverse lookup\<close>

definition mru_start :: "fakedns_mru \<Rightarrow> fakedns_mru" where
  "mru_start m =
     (if g_fakedns_mru_init m then m
      else m\<lparr>g_fakedns_mru_ptrs := [0..<FAKEDNS_MRU_SIZE], g_fakedns_mru_init := True\<rparr>)"

text \<open>The position in the pointer array of the first valid item for \<open>ip\<close>.\<close>

fun mru_find :: "fakedns_mru_entry list \<Rightarrow> u32 \<Rightarrow> nat list \<Rightarrow> nat option" where
  "mru_find data ip [] = None"
| "mru_find data ip (p # ps) =
     (if me_valid (data ! p) \<and> me_ip (data ! p) = ip then Some 0 else map_option Suc (mru_find data ip ps))"

text \<open>\<^verbatim>\<open>memmove\<close> of the first \<open>i\<close> pointers one place up, then \<open>p\<close> in front.\<close>

definition mru_shift :: "nat \<Rightarrow> nat \<Rightarrow> nat list \<Rightarrow> nat list" where
  "mru_shift i p ptrs = p # take i ptrs @ drop (Suc i) ptrs"

text \<open>The slow path: the slot under the read lock, then the new front item.\<close>

definition mru_insert :: "u32 \<Rightarrow> u32 \<Rightarrow> bytes \<Rightarrow> fakedns_mru \<Rightarrow> fakedns_mru" where
  "mru_insert ip version domain m =
     (let evicted = g_fakedns_mru_ptrs m ! (FAKEDNS_MRU_SIZE - 1)
      in m\<lparr>g_fakedns_mru_ptrs := mru_shift (FAKEDNS_MRU_SIZE - 1) evicted (g_fakedns_mru_ptrs m),
           g_fakedns_mru_data := (g_fakedns_mru_data m)[evicted :=
             \<lparr>me_ip = ip, me_version = version, me_valid = True, me_domain = domain @ [0]\<rparr>]\<rparr>)"

definition reverse_slow :: "fakedns \<Rightarrow> u32 \<Rightarrow> nat \<Rightarrow> fakedns_mru \<Rightarrow> bytes option \<times> fakedns_mru" where
  "reverse_slow st ip buf_len m =
     (case slot st (ntohl ip - g_fakeip_net_host st) of
        None \<Rightarrow> (None, m)
      | Some entry \<Rightarrow>
          (let tmp_domain = take (FAKEDNS_MAX_DOMAIN_LEN - 1) (cstr (fe_domain entry));
               dlen = length tmp_domain;
               copy_len = (if dlen \<ge> buf_len then buf_len - 1 else dlen)
           in (Some (take copy_len tmp_domain), mru_insert ip (fe_version entry) tmp_domain m)))"

text \<open>
  The answer is the string left in the buffer, or \<open>None\<close> for \<^verbatim>\<open>false\<close>.
  A NULL buffer is a \<open>buf_len\<close> of zero.
\<close>

definition fakedns_reverse_lookup ::
  "fakedns \<Rightarrow> u32 \<Rightarrow> nat \<Rightarrow> fakedns_mru \<Rightarrow> bytes option \<times> fakedns_mru" where
  "fakedns_reverse_lookup st ip buf_len m =
     (if buf_len = 0 then (None, m)
      else if ntohl ip AND g_fakeip_mask_host st \<noteq> g_fakeip_net_host st then (None, m)
      else if ntohl ip - g_fakeip_net_host st \<ge> g_pool_size st then (None, m)
      else
        (let m = mru_start m in
         case mru_find (g_fakedns_mru_data m) ip (g_fakedns_mru_ptrs m) of
           None \<Rightarrow> reverse_slow st ip buf_len m
         | Some i \<Rightarrow>
             (let p = g_fakedns_mru_ptrs m ! i; mru_item = g_fakedns_mru_data m ! p;
                  fresh = (case slot st (ntohl ip - g_fakeip_net_host st) of
                             None \<Rightarrow> False | Some g_entry \<Rightarrow> fe_version g_entry = me_version mru_item)
              in if \<not> fresh
                 then reverse_slow st ip buf_len
                        (m\<lparr>g_fakedns_mru_data := (g_fakedns_mru_data m)[p := mru_item\<lparr>me_valid := False\<rparr>]\<rparr>)
                 else (Some (take (buf_len - 1) (cstr (me_domain mru_item))),
                       if i > 0
                       then m\<lparr>g_fakedns_mru_ptrs := mru_shift i p (g_fakedns_mru_ptrs m)\<rparr>
                       else m))))"

text \<open>The answer with \<^verbatim>\<open>is_miss\<close>: an address of the pool that has no entry.\<close>

definition fakedns_try_resolve :: "fakedns \<Rightarrow> u32 \<Rightarrow> fakedns_mru \<Rightarrow> (bytes option \<times> bool) \<times> fakedns_mru" where
  "fakedns_try_resolve st ip_net m =
     (if \<not> fakedns_is_fakeip st ip_net then ((None, False), m)
      else (case fakedns_reverse_lookup st ip_net FAKEDNS_MAX_DOMAIN_LEN m of
              (Some s, m) \<Rightarrow> ((Some s, False), m)
            | (None, m) \<Rightarrow> ((None, True), m)))"

section \<open>The cache invariant\<close>

text \<open>The pointers are a permutation of the entries; a valid item has the address of a slot and a version
  not newer than the slot's, and where the versions agree the names do.\<close>

definition mru_item_ok :: "fakedns \<Rightarrow> fakedns_mru_entry \<Rightarrow> bool" where
  "mru_item_ok st item \<longleftrightarrow>
     (me_valid item \<longrightarrow> fakedns_is_fakeip st (me_ip item) \<and>
        (case slot st (ntohl (me_ip item) - g_fakeip_net_host st) of
           None \<Rightarrow> False
         | Some e \<Rightarrow> me_version item \<le> fe_version e \<and>
             (me_version item = fe_version e \<longrightarrow> cstr (me_domain item) = cstr (fe_domain e))))"

definition mru_ok :: "fakedns \<Rightarrow> fakedns_mru \<Rightarrow> bool" where
  "mru_ok st m \<longleftrightarrow>
     length (g_fakedns_mru_data m) = FAKEDNS_MRU_SIZE \<and>
     (g_fakedns_mru_init m \<longrightarrow> distinct (g_fakedns_mru_ptrs m) \<and> set (g_fakedns_mru_ptrs m) = {..<FAKEDNS_MRU_SIZE}) \<and>
     (\<forall>item \<in> set (g_fakedns_mru_data m). mru_item_ok st item)"

lemma mru_find_SomeD:
  "mru_find data ip ps = Some i \<Longrightarrow> i < length ps \<and> me_valid (data ! (ps ! i)) \<and> me_ip (data ! (ps ! i)) = ip"
  by (induction ps arbitrary: i) (auto split: if_splits)

lemma mset_mru_shift: "i < length ps \<Longrightarrow> mset (mru_shift i (ps ! i) ps) = mset ps"
  unfolding mru_shift_def by (subst (4) id_take_nth_drop [of i ps]) simp_all

lemma mru_shift_perm:
  assumes "i < length ps"
  shows "distinct (mru_shift i (ps ! i) ps) = distinct ps" "set (mru_shift i (ps ! i) ps) = set ps"
  using mset_mru_shift [OF assms] mset_eq_setD mset_eq_imp_distinct_iff by blast+

lemma mru_ptrs_length: 
  "distinct ps \<Longrightarrow> set ps = {..<FAKEDNS_MRU_SIZE} \<Longrightarrow> length ps = FAKEDNS_MRU_SIZE"
  using distinct_card [of ps] by simp

lemma mru_start_ok:
  assumes "mru_ok st m" shows "mru_ok st (mru_start m)" "g_fakedns_mru_init (mru_start m)"
    "g_fakedns_mru_data (mru_start m) = g_fakedns_mru_data m"
  using assms by (auto simp: mru_ok_def mru_start_def)

lemma mru_ok_ptr:
  assumes "mru_ok st m" "g_fakedns_mru_init m" "i < FAKEDNS_MRU_SIZE"
  shows "length (g_fakedns_mru_ptrs m) = FAKEDNS_MRU_SIZE" "g_fakedns_mru_ptrs m ! i < FAKEDNS_MRU_SIZE"
proof -
  show "length (g_fakedns_mru_ptrs m) = FAKEDNS_MRU_SIZE"
    using assms mru_ptrs_length by (auto simp: mru_ok_def)
  then have "g_fakedns_mru_ptrs m ! i \<in> set (g_fakedns_mru_ptrs m)" using assms(3) by simp
  then show "g_fakedns_mru_ptrs m ! i < FAKEDNS_MRU_SIZE" using assms by (auto simp: mru_ok_def)
qed

lemma mru_ok_write:
  assumes "mru_ok st m" "mru_item_ok st item"
  shows "mru_ok st (m\<lparr>g_fakedns_mru_data := (g_fakedns_mru_data m)[p := item]\<rparr>)"
  using assms set_update_subset_insert [of "g_fakedns_mru_data m" p item] by (auto simp: mru_ok_def)

lemma mru_ok_shift:
  assumes "mru_ok st m" "g_fakedns_mru_init m" "i < FAKEDNS_MRU_SIZE"
  shows "mru_ok st (m\<lparr>g_fakedns_mru_ptrs := mru_shift i (g_fakedns_mru_ptrs m ! i) (g_fakedns_mru_ptrs m)\<rparr>)"
  using assms mru_ok_ptr(1) [OF assms] by (auto simp: mru_ok_def mru_shift_perm)

lemma is_fakeip_wf:
  assumes "fakedns_wf st"
  shows "fakedns_is_fakeip st ip \<longleftrightarrow> ntohl ip AND g_fakeip_mask_host st = g_fakeip_net_host st"
  using fakedns_wf_sizedE [OF assms] fakedns_sized_bounds(3) by (metis fakedns_is_fakeip_def)

lemma fakeip_slot:
  assumes "fakedns_wf st" "fakedns_is_fakeip st ip"
  shows "ntohl ip - g_fakeip_net_host st < g_pool_size st"
    "slot st (ntohl ip - g_fakeip_net_host st) = Some e \<Longrightarrow> length (cstr (fe_domain e)) \<le> FAKEDNS_MAX_DOMAIN_LEN - 1"
proof -
  obtain k where k: "fakedns_sized k st" using assms(1) by (rule fakedns_wf_sizedE)
  note b = is_fakeip_offset [OF k assms(2)]
  show "ntohl ip - g_fakeip_net_host st < g_pool_size st"
    using b fakedns_sized_bounds(2) [OF k] by (simp add: word_less_nat_alt)
  show "length (cstr (fe_domain e)) \<le> FAKEDNS_MAX_DOMAIN_LEN - 1"
    if "slot st (ntohl ip - g_fakeip_net_host st) = Some e"
    using wf_slot(2,3) [OF k assms(1) b that] by (rule cstr_entry_short)
qed

section \<open>A reverse lookup answers what the slot holds\<close>

lemma mru_insert_ok:
  assumes "mru_ok st m" "g_fakedns_mru_init m"
    "mru_item_ok st \<lparr>me_ip = ip, me_version = v, me_valid = True, me_domain = d @ [0]\<rparr>"
  shows "mru_ok st (mru_insert ip v d m)"
proof -
  have "FAKEDNS_MRU_SIZE - 1 < FAKEDNS_MRU_SIZE" by (simp add: FAKEDNS_MRU_SIZE_def)
  from mru_ok_write [OF mru_ok_shift [OF assms(1,2) this] assms(3)]
  show ?thesis by (simp add: mru_insert_def Let_def)
qed

lemma reverse_slow_ok:
  assumes "fakedns_wf st" "mru_ok st m" "g_fakedns_mru_init m" "fakedns_is_fakeip st ip"
  shows "fst (reverse_slow st ip buf_len m) = map_option (take (buf_len - 1)) (fakedns_resolve st ip)"
    "mru_ok st (snd (reverse_slow st ip buf_len m))"
proof -
  note short = fakeip_slot(2) [OF assms(1,4)]
  show "fst (reverse_slow st ip buf_len m) = map_option (take (buf_len - 1)) (fakedns_resolve st ip)"
    using short assms(4) by (auto simp: reverse_slow_def fakedns_resolve_def Let_def split: option.splits)
  show "mru_ok st (snd (reverse_slow st ip buf_len m))"
  proof (cases "slot st (ntohl ip - g_fakeip_net_host st)")
    case None then show ?thesis using assms by (simp add: reverse_slow_def)
  next
    case (Some e)
    have "mru_item_ok st \<lparr>me_ip = ip, me_version = fe_version e, me_valid = True, me_domain = cstr (fe_domain e) @ [0]\<rparr>"
      using Some assms(4) by (simp add: mru_item_ok_def cstr_append_NUL [where t = "[]"])
    then show ?thesis
      using Some short by (simp add: reverse_slow_def Let_def mru_insert_ok [OF assms(2,3)])
  qed
qed

lemma fakedns_reverse_lookup_ok:
  assumes "fakedns_wf st" "mru_ok st m" "0 < buf_len"
  shows "fst (fakedns_reverse_lookup st ip buf_len m) = map_option (take (buf_len - 1)) (fakedns_resolve st ip)"
    "mru_ok st (snd (fakedns_reverse_lookup st ip buf_len m))"
proof -
  have "fst (fakedns_reverse_lookup st ip buf_len m) = map_option (take (buf_len - 1)) (fakedns_resolve st ip) \<and>
    mru_ok st (snd (fakedns_reverse_lookup st ip buf_len m))"
  proof (cases "fakedns_is_fakeip st ip")
    case False
    then show ?thesis
      using assms is_fakeip_wf [OF assms(1)] by (simp add: fakedns_reverse_lookup_def fakedns_resolve_def)
  next
    case fake: True
    let ?m = "mru_start m" and ?off = "ntohl ip - g_fakeip_net_host st"
    note m = mru_start_ok [OF assms(2)]
    show ?thesis
    proof (cases "mru_find (g_fakedns_mru_data ?m) ip (g_fakedns_mru_ptrs ?m)")
      case None
      then show ?thesis
        using fake fakeip_slot(1) [OF assms(1) fake] is_fakeip_wf [OF assms(1)] assms(3) reverse_slow_ok [OF assms(1) m(1,2) fake]
        by (auto simp: fakedns_reverse_lookup_def)
    next
      case (Some i)
      let ?p = "g_fakedns_mru_ptrs ?m ! i"
      let ?item = "g_fakedns_mru_data ?m ! ?p"
      define fresh where "fresh = (case slot st ?off of None \<Rightarrow> False | Some e \<Rightarrow> fe_version e = me_version ?item)"
      have i: "i < FAKEDNS_MRU_SIZE" "me_valid ?item" "me_ip ?item = ip"
        using mru_find_SomeD [OF Some] mru_ok_ptr(1) [OF m(1,2), of 0] by (auto simp: FAKEDNS_MRU_SIZE_def)
      have p: "?p < length (g_fakedns_mru_data ?m)"
        using mru_ok_ptr(2) [OF m(1,2) i(1)] m(1) by (simp add: mru_ok_def)
      have run: "fakedns_reverse_lookup st ip buf_len m =
          (if \<not> fresh then reverse_slow st ip buf_len
              (?m\<lparr>g_fakedns_mru_data := (g_fakedns_mru_data ?m)[?p := ?item\<lparr>me_valid := False\<rparr>]\<rparr>)
           else (Some (take (buf_len - 1) (cstr (me_domain ?item))),
              if i > 0 then ?m\<lparr>g_fakedns_mru_ptrs := mru_shift i ?p (g_fakedns_mru_ptrs ?m)\<rparr> else ?m))"
        using fake fakeip_slot(1) [OF assms(1) fake, THEN linorder_not_le [THEN iffD2]] is_fakeip_wf [OF assms(1)] assms(3) Some
        by (simp add: fakedns_reverse_lookup_def fresh_def Let_def)
      show ?thesis
      proof (cases fresh)
        case False
        have "mru_ok st (?m\<lparr>g_fakedns_mru_data := (g_fakedns_mru_data ?m)[?p := ?item\<lparr>me_valid := False\<rparr>]\<rparr>)"
          by (rule mru_ok_write [OF m(1)]) (simp add: mru_item_ok_def)
        from reverse_slow_ok [OF assms(1) this _ fake]
        show ?thesis using run False m(2) by simp
      next
        case True
        have "mru_item_ok st ?item" using m(1) p by (auto simp: mru_ok_def)
        then have "fakedns_resolve st ip = Some (cstr (me_domain ?item))"
          using True i(2,3) fake by (auto simp: mru_item_ok_def fresh_def fakedns_resolve_def split: option.splits)
        then show ?thesis using run True mru_ok_shift [OF m(1,2) i(1)] m(1) by simp
      qed
    qed
  qed
  then show "fst (fakedns_reverse_lookup st ip buf_len m) = map_option (take (buf_len - 1)) (fakedns_resolve st ip)"
    "mru_ok st (snd (fakedns_reverse_lookup st ip buf_len m))" by auto
qed

section \<open>Lookups of other threads keep the cache\<close>

lemma lookup_keeps_mru:
  assumes "fakedns_wf st" "mru_ok st m" "fakedns_lookup_domain xxh mem now d st = (r, st')"
    "\<forall>off e. unat off < unat (g_pool_size st) \<longrightarrow> slot st off = Some e \<longrightarrow> fe_version e \<noteq> UINT32_MAX"
  shows "mru_ok st' m"
proof -
  obtain k where k: "fakedns_sized k st" using assms(1) by (rule fakedns_wf_sizedE)
  note p = fakedns_lookup_post [OF k assms(1,3)]
  have fake: "fakedns_is_fakeip st' ip = fakedns_is_fakeip st ip" for ip
    using k p(1,3) by (simp add: fakedns_is_fakeip_def fakedns_sized_def)
  have inc: "v \<le> w \<Longrightarrow> w \<noteq> UINT32_MAX \<Longrightarrow> v \<le> w + 1 \<and> v \<noteq> w + 1" for v w :: u32
  proof -
    assume "v \<le> w" "w \<noteq> UINT32_MAX"
    moreover note unat_Suc32 [OF \<open>w \<noteq> UINT32_MAX\<close>]
    ultimately show ?thesis by (auto simp: word_le_nat_alt)
  qed
  have "mru_item_ok st' item" if ok: "mru_item_ok st item" for item
  proof (cases "me_valid item")
    case True
    let ?off = "ntohl (me_ip item) - g_fakeip_net_host st"
    obtain e where e: "slot st ?off = Some e" "fakedns_is_fakeip st (me_ip item)"
        "me_version item \<le> fe_version e" "me_version item = fe_version e \<longrightarrow> cstr (me_domain item) = cstr (fe_domain e)"
      using ok True by (auto simp: mru_item_ok_def split: option.splits)
    have "unat ?off < unat (g_pool_size st)"
      using fakeip_slot(1) [OF assms(1) e(2)] by (simp add: word_less_nat_alt)
    then have v: "fe_version e \<noteq> UINT32_MAX" using assms(4) e(1) by blast
    have "\<exists>e'. slot st' ?off = Some e' \<and> (fe_version e' = fe_version e \<and> fe_domain e' = fe_domain e \<or> fe_version e' = fe_version e + 1)"
    proof (cases "slot st' ?off = slot st ?off")
      case False
      from fakedns_lookup_changed [OF k assms(1,3) this] show ?thesis using e(1) by (auto simp: lookup_gives_def slot_given_def split: option.splits if_splits)
    qed (use e(1) in simp)
    then show ?thesis using e v p(3) inc [OF e(3) v] by (auto simp: mru_item_ok_def fake)
  qed (simp add: mru_item_ok_def)
  then show ?thesis using assms(2) by (auto simp: mru_ok_def)
qed

section \<open>Interleaved lookups and reverse lookups\<close>

text \<open>
  A run of \<open>n\<close> lookups of domains, each at a time that satisfies \<open>during\<close>, and any number
  of reverse lookups by any of the threads, whose caches are indexed by \<open>'t\<close>.
\<close>

inductive fakedns_steps ::
  "(bytes \<Rightarrow> u64) \<Rightarrow> (u32 \<Rightarrow> bool) \<Rightarrow> nat \<Rightarrow> fakedns \<Rightarrow> ('t \<Rightarrow> fakedns_mru) \<Rightarrow> fakedns \<Rightarrow> ('t \<Rightarrow> fakedns_mru) \<Rightarrow> bool"
  for xxh during where
  steps_none: "fakedns_steps xxh during 0 st ms st ms"
| steps_lookup: "fakedns_steps xxh during n st0 ms0 st ms \<Longrightarrow> during now \<Longrightarrow>
    fakedns_lookup_domain xxh mem now domain st = (ip, st') \<Longrightarrow> fakedns_steps xxh during (Suc n) st0 ms0 st' ms"
| steps_reverse: "fakedns_steps xxh during n st0 ms0 st ms \<Longrightarrow>
    fakedns_reverse_lookup st ip buf_len (ms t) = (r, m) \<Longrightarrow> fakedns_steps xxh during n st0 ms0 st (ms(t := m))"

text \<open>
  Before the threads are started \<^verbatim>\<open>main\<close> initialises the pool and, when a cache path is configured,
  loads the file there, whatever it holds and whichever of its seeks and allocations fail
  (\<^verbatim>\<open>src/src/main.c\<close>). The number says how far the versions can be, and \<open>fakedns_reach\<close> counts
  a load like a lookup.
\<close>

definition fakedns_started :: "nat \<Rightarrow> fakedns \<Rightarrow> bool" where
  "fakedns_started v st \<longleftrightarrow>
     (\<exists>cidr st0. fakedns_init True cidr fakedns_static = Some st0 \<and>
        (v = 0 \<and> st = st0 \<or>
         v = 1 \<and> (\<exists>fseek_ok memalign_ok now path fs. st = fakedns_load fseek_ok memalign_ok now (Some path) fs st0)))"

definition fakedns_reach :: "(bytes \<Rightarrow> u64) \<Rightarrow> nat \<Rightarrow> fakedns \<Rightarrow> ('t \<Rightarrow> fakedns_mru) \<Rightarrow> bool" where
  "fakedns_reach xxh n st ms \<longleftrightarrow>
     (\<exists>v m st0. fakedns_started v st0 \<and> n = v + m \<and>
        fakedns_steps xxh (\<lambda>_. True) m st0 (\<lambda>_. fakedns_mru_static) st ms)"

lemma mru_static_ok: "mru_ok st fakedns_mru_static"
  by (auto simp: mru_ok_def fakedns_mru_static_def mru_item_ok_def)

text \<open>A version counts the lookups at most.\<close>

definition versions_le :: "nat \<Rightarrow> fakedns \<Rightarrow> bool" where
  "versions_le n st \<longleftrightarrow>
     (\<forall>off e. unat off < unat (g_pool_size st) \<longrightarrow> slot st off = Some e \<longrightarrow> unat (fe_version e) \<le> n)"

lemma versions_le_lookup:
  assumes "fakedns_wf st" "versions_le n st" "fakedns_lookup_domain xxh mem now d st = (r, st')"
  shows "versions_le (Suc n) st'"
  unfolding versions_le_def
proof (intro allI impI)
  obtain k where k: "fakedns_sized k st" using assms(1) by (rule fakedns_wf_sizedE)
  note p = fakedns_lookup_post [OF k assms(1,3)]
  have size: "g_pool_size st' = g_pool_size st" using k p(1) by (simp add: fakedns_sized_def)
  fix off e assume off: "unat off < unat (g_pool_size st')" and e: "slot st' off = Some e"
  show "unat (fe_version e) \<le> Suc n"
  proof (cases "slot st' off = slot st off")
    case True
    then have "unat (fe_version e) \<le> n" using assms(2) off e size by (auto simp: versions_le_def)
    then show ?thesis by simp
  next
    case False
    from fakedns_lookup_changed [OF k assms(1,3) this] have g: "slot_given now d (slot st off) e" using e by (simp add: lookup_gives_def)
    show ?thesis
    proof (cases "slot st off")
      case None then show ?thesis using g by (simp add: slot_given_def)
    next
      case (Some e0)
      then have "unat (fe_version e0) \<le> n" using assms(2) off size by (auto simp: versions_le_def)
      moreover have "fe_version e = fe_version e0 \<or> fe_version e = fe_version e0 + 1"
        using g Some by (auto simp: slot_given_def split: if_splits)
      moreover have "unat (fe_version e0 + 1) \<le> Suc (unat (fe_version e0))"
        using unat_word_ariths(1) [of "fe_version e0" 1] mod_less_eq_dividend [of "unat (fe_version e0) + 1"] by simp
      ultimately show ?thesis by auto
    qed
  qed
qed

definition fakedns_inv :: "nat \<Rightarrow> fakedns \<Rightarrow> ('t \<Rightarrow> fakedns_mru) \<Rightarrow> bool" where
  "fakedns_inv n st ms \<longleftrightarrow> fakedns_wf st \<and> versions_le n st \<and> (\<forall>t. mru_ok st (ms t))"

lemma fakedns_inv_init:
  assumes "fakedns_init c cidr fakedns_static = Some st"
  shows "fakedns_inv 0 st (\<lambda>_. fakedns_mru_static)"
proof -
  obtain k where k: "fakedns_sized k st" "g_fakedns_pool st = replicate (2 ^ k) None"
    using fakedns_init_sized [OF assms] by blast
  then have "slot st off = None" if "unat off < unat (g_pool_size st)" for off
    using that fakedns_sized_bounds(2) [OF k(1)] by (simp add: slot_def)
  then show ?thesis
    using fakedns_init_wf [OF assms]
    by (simp add: fakedns_inv_def fakedns_static_def mru_static_ok versions_le_def)
qed

lemma versions_le_load_entry:
  assumes "fakedns_sized k st" "versions_le (Suc n) st" "unat off < 2 ^ k"
  shows "versions_le (Suc n) (load_entry mem now ip off d st)"
proof (cases "mem \<or> slot st off \<noteq> None")
  case True
  then have "load_entry mem now ip off d st = load_entry True now ip off d st" by (cases mem) (auto simp: load_entry_def Let_def)
  then show ?thesis
    using assms(2,3) fakedns_sized_bounds(2) [OF assms(1)]
    by (auto simp: versions_le_def load_entry_slot [OF assms(1,3)] split: option.splits)
next
  case False
  then show ?thesis using assms(2) by (simp add: load_entry_def)
qed

lemma versions_le_load_loop:
  "fakedns_sized k st \<Longrightarrow> versions_le (Suc n) st \<Longrightarrow> versions_le (Suc n) (load_loop sk mem now c f st)"
proof (induction sk mem now c f st rule: load_loop.induct)
  case (2 sk mem now c f st)
  show ?case
  proof (cases "read32 f")
    case (Some r)
    obtain ip f1 where r: "r = (ip, f1)" by (cases r)
    show ?thesis
    proof (cases "read16 f1")
      case (Some r2)
      obtain dl f2 where r2: "r2 = (dl, f2)" by (cases r2)
      let ?off = "ntohl ip - g_fakeip_net_host st"
      let ?bad = "ntohl ip AND g_fakeip_mask_host st \<noteq> g_fakeip_net_host st \<or> ?off \<ge> g_pool_size st"
      note run = \<open>read32 f = Some r\<close> r Some r2
      note IH = 2(1-3) [OF \<open>read32 f = Some r\<close> r [symmetric] Some r2 [symmetric] refl refl refl]
      show ?thesis
      proof (cases "?bad \<or> unat dl \<ge> FAKEDNS_MAX_DOMAIN_LEN \<or> length f2 < unat dl")
        case True
        then show ?thesis using run IH(1,2) 2(4,5) by (auto simp: Let_def)
      next
        case False
        then have "unat ?off < 2 ^ k" using fakedns_sized_bounds(2) [OF 2(4)] by (simp add: word_less_nat_alt not_le)
        from versions_le_load_entry [OF 2(4,5) this]
        show ?thesis using run IH(3) False 2(4) by (simp add: Let_def)
      qed
    qed (use 2(4,5) \<open>read32 f = Some r\<close> r in simp)
  qed (use 2(4,5) in simp)
qed simp

lemma fakedns_inv_started:
  assumes "fakedns_started v st"
  shows "fakedns_inv v st (\<lambda>_. fakedns_mru_static)"
proof -
  obtain cidr st0 where init: "fakedns_init True cidr fakedns_static = Some st0"
    and st: "v = 0 \<and> st = st0 \<or> v = 1 \<and> (\<exists>sk mem now path fs. st = fakedns_load sk mem now (Some path) fs st0)"
    using assms unfolding fakedns_started_def by blast
  have inv: "fakedns_wf st0" "versions_le 0 st0"
    using fakedns_inv_init [OF init] by (auto simp: fakedns_inv_def)
  obtain k where k: "fakedns_sized k st0" using inv(1) by (rule fakedns_wf_sizedE)
  have one: "versions_le (Suc 0) st0" using inv(2) by (auto simp: versions_le_def)
  show ?thesis
  proof (cases "v = 0")
    case True
    then show ?thesis using st fakedns_inv_init [OF init] by simp
  next
    case False
    then obtain sk mem now path fs where st': "st = fakedns_load sk mem now (Some path) fs st0" "v = Suc 0" using st by auto
    have "versions_le (Suc 0) st"
      unfolding st' by (rule fakedns_load_cases) (use one versions_le_load_loop [OF k one] in auto)
    then show ?thesis
      using fakedns_load_wf_aux [OF k inv(1)] st' by (simp add: fakedns_inv_def mru_static_ok)
  qed
qed

lemma fakedns_inv_lookup:
  assumes "fakedns_inv n st ms" "n + 1 < 2 ^ 32" "fakedns_lookup_domain xxh mem now d st = (r, st')"
  shows "fakedns_inv (Suc n) st' ms"
proof -
  have inv: "fakedns_wf st" "versions_le n st" "\<forall>t. mru_ok st (ms t)"
    using assms(1) by (auto simp: fakedns_inv_def)
  have "fe_version e \<noteq> UINT32_MAX" if "unat off < unat (g_pool_size st)" "slot st off = Some e" for off e
  proof
    assume "fe_version e = UINT32_MAX"
    then have "unat (fe_version e) = 2 ^ 32 - 1" by (simp add: UINT32_MAX_def)
    moreover have "unat (fe_version e) \<le> n" using inv(2) that by (auto simp: versions_le_def)
    ultimately show False using assms(2) by simp
  qed
  then have "mru_ok st' (ms t)" for t using lookup_keeps_mru [OF inv(1) _ assms(3)] inv(3) by blast
  moreover obtain k where "fakedns_sized k st" using inv(1) by (rule fakedns_wf_sizedE)
  ultimately show ?thesis
    using fakedns_lookup_post(2) [OF _ inv(1) assms(3)] versions_le_lookup [OF inv(1,2) assms(3)]
    by (auto simp: fakedns_inv_def)
qed

lemma fakedns_inv_reverse:
  assumes "fakedns_inv n st ms" "fakedns_reverse_lookup st ip buf_len (ms t) = (r, m)"
  shows "fakedns_inv n st (ms(t := m))"
proof -
  have inv: "fakedns_wf st" "versions_le n st" "\<forall>t. mru_ok st (ms t)"
    using assms(1) by (auto simp: fakedns_inv_def)
  have "mru_ok st m"
  proof (cases "buf_len = 0")
    case True
    then show ?thesis using assms(2) inv(3) by (auto simp: fakedns_reverse_lookup_def)
  next
    case False
    then show ?thesis
      using fakedns_reverse_lookup_ok(2) [OF inv(1), of "ms t" buf_len ip] inv(3) assms(2) by simp
  qed
  then show ?thesis using inv by (simp add: fakedns_inv_def)
qed

lemma fakedns_inv_steps:
  assumes "fakedns_steps xxh during m st0 ms0 st ms" "fakedns_inv n st0 ms0" "n + m < 2 ^ 32"
  shows "fakedns_inv (n + m) st ms"
  using assms
proof (induction rule: fakedns_steps.induct)
  case (steps_lookup m st0 ms0 st ms now mem domain ip st')
  then show ?case using fakedns_inv_lookup [of "n + m" st ms] by simp
qed (auto intro: fakedns_inv_reverse)

lemma fakedns_inv_reach:
  "fakedns_reach xxh n st ms \<Longrightarrow> n < 2 ^ 32 \<Longrightarrow> fakedns_inv n st ms"
  by (auto simp: fakedns_reach_def dest: fakedns_inv_steps [OF _ fakedns_inv_started])

lemma leased_steps:
  assumes "fakedns_steps xxh (\<lambda>t. unat (t - t0) \<le> unat FAKEDNS_DNS_TTL) m st0 ms0 st ms"
    "fakedns_sized k st0" "fakedns_wf st0" "unat off < 2 ^ k" "leased t0 name st0 off"
  shows "fakedns_sized k st \<and> fakedns_wf st \<and> leased t0 name st off \<and> g_fakeip_net_host st = g_fakeip_net_host st0"
  using assms
proof (induction rule: fakedns_steps.induct)
  case (steps_lookup m st0 ms0 st ms now mem domain ip st')
  then have IH: "fakedns_sized k st" "fakedns_wf st" "leased t0 name st off"
    "g_fakeip_net_host st = g_fakeip_net_host st0" by auto
  then show ?case
    using fakedns_lookup_post(1-3) [OF IH(1,2) steps_lookup.hyps(3)]
      leased_lookup [OF IH(1,2,3) steps_lookup.prems(3) steps_lookup.hyps(2,3)] by simp
qed auto

lemma try_resolve_ok:
  assumes "fakedns_wf st" "mru_ok st m"
  shows "fst (fakedns_try_resolve st ip m) =
    (fakedns_resolve st ip, fakedns_is_fakeip st ip \<and> fakedns_resolve st ip = None)"
proof -
  have short: "map_option (take (FAKEDNS_MAX_DOMAIN_LEN - 1)) (fakedns_resolve st ip) = fakedns_resolve st ip"
    using fakeip_slot(2) [OF assms(1), of ip]
    by (cases "slot st (ntohl ip - g_fakeip_net_host st)") (auto simp: fakedns_resolve_def)
  have "0 < FAKEDNS_MAX_DOMAIN_LEN" by (simp add: FAKEDNS_MAX_DOMAIN_LEN_def)
  from fakedns_reverse_lookup_ok(1) [OF assms this, of ip, unfolded short]
  show ?thesis
    by (cases "fakedns_reverse_lookup st ip FAKEDNS_MAX_DOMAIN_LEN m")
      (auto simp: fakedns_try_resolve_def fakedns_resolve_def split: option.splits)
qed

section \<open>A concrete run\<close>

abbreviation demo_ms :: "unit \<Rightarrow> fakedns_mru" where
  "demo_ms \<equiv> (\<lambda>_. fakedns_mru_static)"

lemma demo_started: "fakedns_started 0 demo_pool"
  unfolding fakedns_started_def using demo_init by blast

lemma demo_reach0: "fakedns_reach demo_hash 0 demo_pool demo_ms"
  unfolding fakedns_reach_def using demo_started steps_none by fastforce

lemma demo_reach1: "fakedns_reach demo_hash 1 demo_pool1 demo_ms"
  unfolding fakedns_reach_def
  by (rule exI [of _ 0], rule exI [of _ "Suc 0"], rule exI [of _ demo_pool], simp add: demo_started)
    (rule steps_lookup [OF steps_none TrueI demo_lookup])

lemma demo_fakeip: "fakedns_is_fakeip demo_pool1 (htonl 0x0A000061)"
  by (simp add: fakedns_is_fakeip_def demo_pool1_def demo_pool_def)

lemma demo_short: "length (ascii ''a.b'') < FAKEDNS_MAX_DOMAIN_LEN"
  by (simp add: ascii_def FAKEDNS_MAX_DOMAIN_LEN_def)

lemma htonl_eq_0_iff: "htonl w = 0 \<longleftrightarrow> w = 0"
proof -
  have "htonl 0 = 0" by (rule bit_word_eqI) (simp add: htonl_def bit_mk32 bit_byte32)
  then show ?thesis by (metis htonl_eq_iff)
qed

section \<open>Properties\<close>

text \<open>C7. The cache is invisible: in every state that the DNS thread and the readers can reach with fewer
  than \<open>2 ^ 32\<close> lookups, a reverse lookup by any thread answers what the slot of the address holds
  at that moment, cut to the buffer, and fails exactly for an address outside the pool or an empty slot.\<close>

theorem fakedns_reverse_lookup_direct:
  assumes "fakedns_reach xxh n st ms" "n < 2 ^ 32" "0 < buf_len"
  shows "fst (fakedns_reverse_lookup st ip buf_len (ms t)) =
    (if fakedns_is_fakeip st ip
     then (case slot st (ntohl ip - g_fakeip_net_host st) of
             None \<Rightarrow> None | Some e \<Rightarrow> Some (take (buf_len - 1) (cstr (fe_domain e))))
     else None)"
  using fakedns_reverse_lookup_ok(1) [of st "ms t" buf_len ip] fakedns_inv_reach [OF assms(1,2)] assms(3)
  by (simp add: fakedns_inv_def fakedns_resolve_def split: option.splits)

theorem fakedns_reverse_lookup_direct_witness:
  "fst (fakedns_reverse_lookup demo_pool1 (htonl 0x0A000061) 3 (demo_ms ())) = Some (ascii ''a.'')"
  using fakedns_reverse_lookup_direct [OF demo_reach1, where buf_len = 3 and ip = "htonl 0x0A000061"] demo_fakeip demo_slot
  by (simp add: demo_entry_def ascii_def cstr_def) (simp add: demo_pool1_def demo_pool_def cstr_def)

text \<open>C2. The lease: for the whole time to live of a DNS answer, and whatever names are looked up and whatever
  addresses are resolved meanwhile, the address resolves to the domain it was handed out for.\<close>

theorem fakedns_lease:
  assumes "fakedns_reach xxh n st ms" "n + 1 + m < 2 ^ 32" "length domain < FAKEDNS_MAX_DOMAIN_LEN"
    "fakedns_lookup_domain xxh memalign_ok t0 domain st = (ip, st1)" "ip \<noteq> 0"
    "fakedns_steps xxh (\<lambda>now. unat (now - t0) \<le> unat FAKEDNS_DNS_TTL) m st1 ms st2 ms2"
  shows "fst (fakedns_try_resolve st2 ip (ms2 t)) = (Some (cstr domain), False)"
proof -
  have inv: "fakedns_inv n st ms" using fakedns_inv_reach [OF assms(1)] assms(2) by simp
  have inv1: "fakedns_inv (Suc n) st1 ms" by (rule fakedns_inv_lookup [OF inv _ assms(4)]) (use assms(2) in simp)
  have inv2: "fakedns_inv (Suc n + m) st2 ms2" using fakedns_inv_steps [OF assms(6) inv1] assms(2) by simp
  obtain k where k: "fakedns_sized k st" using inv fakedns_wf_sizedE by (auto simp: fakedns_inv_def)
  have wf: "fakedns_wf st" using inv by (simp add: fakedns_inv_def)
  note p = fakedns_lookup_post [OF k wf assms(4)]
  obtain off where off: "ip = htonl (g_fakeip_net_host st1 + off)" "lookup_gives t0 domain st off st1"
    using p(3,4) assms(5) by auto
  have b: "unat off < 2 ^ k" by (rule lookup_gives_bound [OF k off(2)])
  have "leased t0 (cstr domain) st1 off"
    using off(2) assms(3)
    by (auto simp: leased_def lookup_gives_def slot_given_def fakedns_consts split: option.splits)
  from leased_steps [OF assms(6) p(1,2) b this]
  have "fakedns_resolve st2 ip = Some (cstr domain)"
    using fakedns_resolve_slot [of k st2 off] b off(1) by (auto simp: leased_def split: option.splits)
  then show ?thesis using try_resolve_ok [of st2 "ms2 t" ip] inv2 by (simp add: fakedns_inv_def)
qed

theorem fakedns_lease_witness:
  "fst (fakedns_try_resolve demo_pool1 (htonl 0x0A000061) (demo_ms ())) = (Some (ascii ''a.b''), False)"
proof -
  have "fakedns_steps demo_hash (\<lambda>now. unat (now - 100) \<le> unat FAKEDNS_DNS_TTL) 1 demo_pool1 demo_ms demo_pool1 demo_ms"
    unfolding One_nat_def by (rule steps_lookup [OF steps_none _ demo_again]) simp
  from fakedns_lease [OF demo_reach0 _ demo_short demo_lookup _ this]
  show ?thesis by (simp add: htonl_eq_0_iff ascii_def cstr_def)
qed

end
