(* ===== verification/FakednsWire.thy ===== *)
theory FakednsWire
  imports FakednsReverse
begin

text \<open>
  The DNS wire format in \<^verbatim>\<open>src/src/fakedns.c\<close>: reading the name of a pointer query
  (\<^verbatim>\<open>fakedns_parse_ptr_name\<close>), writing a name as labels
  (\<^verbatim>\<open>fakedns_encode_dns_name\<close>) and answering one query
  (\<^verbatim>\<open>fakedns_process_query\<close>). A buffer is the list of its bytes; a write at an offset
  is \<open>put\<close>, which keeps the length when it is in bounds. The query and the response buffer may be the
  same memory (\<open>inplace\<close>): the code has read all it needs of the query before its first write.
\<close>

section \<open>Writes into a buffer\<close>

text \<open>\<^verbatim>\<open>memcpy(buf + off, xs, n)\<close> with the \<open>n\<close> bytes \<open>xs\<close>.\<close>

definition put :: "nat \<Rightarrow> bytes \<Rightarrow> bytes \<Rightarrow> bytes" where
  "put off xs buf = take off buf @ xs @ drop (off + length xs) buf"

section \<open>Names of pointer queries\<close>

definition ptr_octet :: "bytes \<Rightarrow> u8 option" where
  "ptr_octet tok =
     (if tok = [] then None
      else if hd tok = ch CHR ''0'' \<and> length tok > 1 then None
      else (case strtoul tok of (val, endptr) \<Rightarrow>
              if endptr \<noteq> [] \<or> val > 255 \<or> endptr = tok then None else Some (ucast val)))"

text \<open>The loop over the tokens, at most four of them.\<close>

fun ptr_loop :: "bytes list \<Rightarrow> u8 list \<Rightarrow> u8 list option" where
  "ptr_loop [] octets = (if length octets = 4 then Some octets else None)"
| "ptr_loop (tok # toks) octets =
     (if length octets < 4
      then (case ptr_octet tok of None \<Rightarrow> None | Some v \<Rightarrow> ptr_loop toks (octets @ [v]))
      else None)"

definition fakedns_parse_ptr_name :: "bytes \<Rightarrow> u32 option" where
  "fakedns_parse_ptr_name name =
     (let len = length name in
      if len < 20 \<or> len > 28 then None
      else if \<not> strncasecmp_eq (drop (len - 13) name) (ascii ''.in-addr.arpa'') 13 then None
      else (case ptr_loop (strtok_all (ch CHR ''.'') (cstr (take (len - 13) name))) [] of
              None \<Rightarrow> None
            | Some octets \<Rightarrow> Some (htonl (mk32 (octets ! 3) (octets ! 2) (octets ! 1) (octets ! 0)))))"

section \<open>Writing a name\<close>

text \<open>The bytes written so far are \<open>out\<close>; \<open>None\<close> is the error value zero.\<close>

function encode_loop :: "bytes \<Rightarrow> bytes \<Rightarrow> nat \<Rightarrow> bytes option" where
  "encode_loop p out outlen =
     (if p = [] then (if length out + 1 > outlen then None else Some (out @ [0]))
      else
        (let label = takeWhile (\<lambda>c. c \<noteq> ch CHR ''.'') p; label_len = length label in
         if label_len = 0 \<or> label_len > 63 then None
         else if length out + 1 + label_len + 1 > outlen then None
         else encode_loop (drop (label_len + 1) p) (out @ of_nat label_len # label) outlen))"
  by pat_completeness auto
termination
  by (relation "measure (\<lambda>(p, _). length p)") (auto simp: Let_def)

declare encode_loop.simps [simp del]

definition fakedns_encode_dns_name :: "bytes \<Rightarrow> nat \<Rightarrow> bytes option" where
  "fakedns_encode_dns_name domain outlen = encode_loop (cstr domain) [] outlen"

section \<open>One query\<close>

definition qname_lower :: "u8 \<Rightarrow> u8" where
  "qname_lower c = (if 65 \<le> c \<and> c \<le> 90 then c OR 0x20 else c)"

text \<open>
  The walk over the labels of the question: the offset after the name and the dotted name in lower case.
  \<open>None\<close> is an early return of zero.
\<close>

function qname_loop :: "bytes \<Rightarrow> nat \<Rightarrow> bytes \<Rightarrow> nat \<Rightarrow> (nat \<times> bytes) option" where
  "qname_loop query offset domain label_count =
     (if offset \<ge> length query then Some (offset, domain)
      else if label_count + 1 > 128 then None
      else
        (let len = unat (query ! offset); dom_len = length domain in
         if len = 0 then Some (offset + 1, domain)
         else if len > 63 then None
         else if offset + 1 + len > length query then None
         else if dom_len + (if dom_len > 0 then 1 else 0) + len \<ge> FAKEDNS_MAX_DOMAIN_LEN then None
         else qname_loop query (offset + 1 + len)
                (domain @ (if dom_len > 0 then [ch CHR ''.''] else []) @
                 map qname_lower (take len (drop (offset + 1) query)))
                (label_count + 1)))"
  by pat_completeness auto
termination
  by (relation "measure (\<lambda>(query, offset, _, _). length query - offset)") auto

declare qname_loop.simps [simp del]

text \<open>Flags of the response, and no records in any section but the question.\<close>

definition put_header :: "u16 \<Rightarrow> bytes \<Rightarrow> bytes" where
  "put_header resp_flags buf =
     buf[2 := byte16 1 resp_flags, 3 := byte16 0 resp_flags,
         6 := 0, 7 := 0, 8 := 0, 9 := 0, 10 := 0, 11 := 0]"

definition put_flags :: "u16 \<Rightarrow> bytes \<Rightarrow> bytes" where
  "put_flags resp_flags buf = buf[2 := byte16 1 resp_flags, 3 := byte16 0 resp_flags]"

definition answer_a :: "u32 \<Rightarrow> bytes" where
  "answer_a fakeip =
     [0xC0, 0x0C, 0x00, 0x01, 0x00, 0x01] @ le32 (htonl FAKEDNS_DNS_TTL) @ [0x00, 0x04] @ le32 fakeip"

definition answer_ptr :: "bytes \<Rightarrow> bytes" where
  "answer_ptr rdata =
     [0xC0, 0x0C, 0x00, 0x0C, 0x00, 0x01] @ le32 (htonl FAKEDNS_DNS_TTL) @
     [of_nat (length rdata div 256), of_nat (length rdata)] @ rdata"

text \<open>The part after the header is written: the answer by query type.\<close>

definition query_a ::
  "(bytes \<Rightarrow> u64) \<Rightarrow> bool \<Rightarrow> u32 \<Rightarrow> bytes \<Rightarrow> u16 \<Rightarrow> nat \<Rightarrow> bytes \<Rightarrow> fakedns \<Rightarrow> nat \<times> bytes \<times> fakedns" where
  "query_a xxh mem now domain resp_flags resp_len buffer st =
     (case fakedns_lookup_domain xxh mem now domain st of (fakeip, st) \<Rightarrow>
        if fakeip \<noteq> 0
        then (if resp_len + 16 > length buffer then (0, buffer, st)
              else (resp_len + 16, (put resp_len (answer_a fakeip) buffer)[7 := 1], st))
        else (resp_len, put_flags (resp_flags OR 0x0002) buffer, st))"

definition query_ptr :: "bytes \<Rightarrow> nat \<Rightarrow> bytes \<Rightarrow> fakedns \<Rightarrow> fakedns_mru \<Rightarrow> nat \<times> bytes \<times> fakedns_mru" where
  "query_ptr domain resp_len buffer st m =
     (case fakedns_parse_ptr_name domain of
        None \<Rightarrow> (resp_len, buffer, m)
      | Some ptr_ip \<Rightarrow>
          (case fakedns_reverse_lookup st ptr_ip FAKEDNS_MAX_DOMAIN_LEN m of
             (None, m) \<Rightarrow> (resp_len, buffer, m)
           | (Some ptr_domain, m) \<Rightarrow>
               (case fakedns_encode_dns_name ptr_domain (FAKEDNS_MAX_DOMAIN_LEN + 2) of
                  None \<Rightarrow> (resp_len, buffer, m)
                | Some rdata \<Rightarrow>
                    if resp_len + 12 + length rdata > length buffer then (0, buffer, m)
                    else (resp_len + 12 + length rdata,
                          (put resp_len (answer_ptr rdata) buffer)[7 := 1], m))))"

text \<open>The returned length, the buffer, the pool and the cache of the calling thread.\<close>

definition fakedns_process_query ::
  "(bytes \<Rightarrow> u64) \<Rightarrow> bool \<Rightarrow> u32 \<Rightarrow> bool \<Rightarrow> bytes \<Rightarrow> bytes \<Rightarrow> fakedns \<Rightarrow> fakedns_mru \<Rightarrow>
   nat \<times> bytes \<times> fakedns \<times> fakedns_mru" where
  "fakedns_process_query xxh mem now inplace query buffer st m =
     (let qlen = length query; buflen = length buffer in
      if qlen < 12 \<or> buflen < qlen then (0, buffer, st, m)
      else
        (let flags = mk16 (query ! 2) (query ! 3); qdcount = mk16 (query ! 4) (query ! 5) in
         if flags AND 0xF800 \<noteq> 0 \<or> qdcount \<noteq> 1 then (0, buffer, st, m)
         else
           (let resp_flags = 0x8180 OR (flags AND 0x0100) in
            case qname_loop query 12 [] 0 of
              None \<Rightarrow> (0, buffer, st, m)
            | Some (offset, domain) \<Rightarrow>
                if domain = [] then (0, buffer, st, m)
                else if offset + 4 > qlen then (0, buffer, st, m)
                else
                  (let qtype = mk16 (query ! offset) (query ! (offset + 1));
                       qclass = mk16 (query ! (offset + 2)) (query ! (offset + 3)) in
                   if offset + 4 > buflen then (0, buffer, st, m)
                   else
                     (let copied = (if inplace then buffer else put 0 (take (offset + 4) query) buffer) in
                      if qclass \<noteq> 1 then (offset + 4, put_header (resp_flags OR 0x0005) copied, st, m)
                      else
                        (let buffer = put_header resp_flags copied; resp_len = offset + 4 in
                         if qtype = 1
                         then (case query_a xxh mem now domain resp_flags resp_len buffer st of
                                 (n, buffer, st) \<Rightarrow> (n, buffer, st, m))
                         else if qtype = 12
                         then (case query_ptr domain resp_len buffer st m of
                                 (n, buffer, m) \<Rightarrow> (n, buffer, st, m))
                         else (resp_len, buffer, st, m)))))))"

section \<open>Decimal octets and pointer names\<close>

definition dec8 :: "u8 \<Rightarrow> bytes" where
  "dec8 b = (let n = unat b; d = (\<lambda>k. of_nat (48 + k)) in
     (if n \<ge> 100 then [d (n div 100)] else []) @ (if n \<ge> 10 then [d (n div 10 mod 10)] else []) @ [d (n mod 10)])"


lemma digit_facts:
  assumes "k < 10"
  shows "isdigit (of_nat (48 + k))" "digit_val (of_nat (48 + k)) = k" "(of_nat (48 + k) :: u8) = 48 \<longleftrightarrow> k = 0"
proof -
  have "k \<in> {0, 1, 2, 3, 4, 5, 6, 7, 8, 9}" using assms by auto
  then show "isdigit (of_nat (48 + k))" "digit_val (of_nat (48 + k)) = k" "(of_nat (48 + k) :: u8) = 48 \<longleftrightarrow> k = 0"
    by (auto simp: isdigit_def digit_val_def)
qed

lemma isdigit_not: "isdigit c \<Longrightarrow> c \<noteq> 0 \<and> c \<noteq> 46 \<and> c \<noteq> 45 \<and> c \<noteq> 43 \<and> \<not> isspace c"
  by (auto simp: isdigit_def isspace_def word_le_nat_alt word_less_nat_alt)

lemma strtoul_digits:
  assumes "list_all isdigit s" "s \<noteq> []" "dec_value s < 2 ^ 64"
  shows "strtoul s = (of_nat (dec_value s), [])"
proof -
  obtain c cs where s: "s = c # cs" using assms(2) by (cases s) auto
  have "isdigit c" using assms(1) s by simp
  note c = isdigit_not [OF this]
  have "takeWhile isdigit s = s" "dropWhile isdigit s = []"
    using assms(1) by (auto simp: list_all_iff takeWhile_eq_all_conv dropWhile_eq_Nil_conv)
  then show ?thesis using c s assms(3) by (simp add: strtoul_def strtox_split_def ch_def Let_def)
qed

lemma dec8_digits: "list_all isdigit (dec8 b)"
proof -
  have "unat b < 256" using unsigned_less [of b, where ?'a = nat] by simp
  then have "unat b div 100 < 10" by simp
  then show ?thesis using digit_facts(1) by (auto simp: dec8_def Let_def)
qed

lemma dec_value_dec8: "dec_value (dec8 b) = unat b"
proof -
  have "unat b < 256" using unsigned_less [of b, where ?'a = nat] by simp
  then have h: "unat b div 100 < 10" by simp
  have m: "unat b div 10 mod 10 < 10" "unat b mod 10 < 10" by simp_all
  have "100 * (n div 100) + 10 * (n div 10 mod 10) + n mod 10 = n" for n :: nat
    using div_mult_mod_eq [of n 10] div_mult_mod_eq [of "n div 10" 10] div_mult2_eq [of n 10 10, simplified] by linarith
  moreover have "unat b < 100 \<Longrightarrow> unat b div 10 mod 10 = unat b div 10" by simp
  ultimately show ?thesis
    using digit_facts(2) [OF h] digit_facts(2) [OF m(1)] digit_facts(2) [OF m(2)]
    by (simp add: dec8_def dec_value_def Let_def)
qed

lemma dec8_simps [simp]:
  "ptr_octet (dec8 b) = Some b" "dec8 b \<noteq> []" "length (dec8 b) \<le> 3" "46 \<notin> set (dec8 b)" "0 \<notin> set (dec8 b)"
proof -
  show ne: "dec8 b \<noteq> []" and "length (dec8 b) \<le> 3" by (simp_all add: dec8_def Let_def)
  show "46 \<notin> set (dec8 b)" "0 \<notin> set (dec8 b)"
    using dec8_digits [of b] isdigit_not by (auto simp: list_all_iff)
  have u: "unat b < 256" using unsigned_less [of b, where ?'a = nat] by simp
  have zero: "hd (dec8 b) = 48 \<Longrightarrow> length (dec8 b) = 1"
  proof -
    have h: "unat b div 100 < 10" "unat b div 10 mod 10 < 10" "unat b mod 10 < 10" using u by simp_all
    show "hd (dec8 b) = 48 \<Longrightarrow> length (dec8 b) = 1"
      using digit_facts(3) [OF h(1)] digit_facts(3) [OF h(2)] digit_facts(3) [OF h(3)] u
      by (auto simp: dec8_def Let_def split: if_splits)
  qed
  have "strtoul (dec8 b) = (of_nat (unat b), [])"
    using strtoul_digits [OF dec8_digits ne] u by (simp add: dec_value_dec8)
  moreover have "unat (ucast b :: u64) = unat b"
    using u by (simp add: unsigned_ucast_eq take_bit_nat_eq_self_iff)
  then have "\<not> (of_nat (unat b) :: u64) > 255"
    using u by (simp add: word_less_nat_alt)
  moreover have "(ucast (of_nat (unat b) :: u64) :: u8) = b"
    by (rule bit_word_eqI) (simp add: bit_simps)
  ultimately show "ptr_octet (dec8 b) = Some b"
    using ne zero by (auto simp: ptr_octet_def ch_def)
qed

lemmas dec8_length = dec8_simps(3)

definition ptr_name :: "u32 \<Rightarrow> bytes" where
  "ptr_name ip = (let h = ntohl ip in
     dec8 (byte32 0 h) @ ch CHR ''.'' # dec8 (byte32 1 h) @ ch CHR ''.'' # dec8 (byte32 2 h) @ ch CHR ''.'' #
     dec8 (byte32 3 h) @ ascii ''.in-addr.arpa'')"

lemma strtok_dotted:
  assumes "46 \<notin> set a" "46 \<notin> set b" "46 \<notin> set c" "46 \<notin> set d" "a \<noteq> []" "b \<noteq> []" "c \<noteq> []" "d \<noteq> []"
  shows "strtok_all 46 (a @ 46 # b @ 46 # c @ 46 # d) = [a, b, c, d]"
  using assms by (simp add: strtok_all_def split_on_append split_on_no_sep)

lemma parse_ptr_name_ptr_name: "fakedns_parse_ptr_name (ptr_name ip) = Some ip"
proof -
  define h where "h = ntohl ip"
  let ?o = "\<lambda>i. dec8 (byte32 i h)"
  define body where "body = ?o 0 @ 46 # ?o 1 @ 46 # ?o 2 @ 46 # ?o 3"
  have dot: "ch CHR ''.'' = 46" by (simp add: ch_def)
  have name: "ptr_name ip = body @ ascii ''.in-addr.arpa''"
    by (simp add: ptr_name_def body_def h_def dot Let_def)
  have len: "length (ascii ''.in-addr.arpa'') = 13" by (simp add: ascii_def)
  have pos: "1 \<le> length (?o i)" for i by (simp add: Suc_le_eq)
  have bounds: "7 \<le> length body" "length body \<le> 15"
    using pos [of 0] pos [of 1] pos [of 2] pos [of 3] dec8_length [of "byte32 0 h"] dec8_length [of "byte32 (Suc 0) h"]
     dec8_length [of "byte32 2 h"] dec8_length [of "byte32 3 h"] by (simp_all add: body_def del: dec8_simps)
  have "cstr body = body" unfolding body_def by (rule cstr_id) simp
  moreover have "strtok_all 46 body = [?o 0, ?o 1, ?o 2, ?o 3]" unfolding body_def by (rule strtok_dotted) simp_all
  moreover have "drop (length (ptr_name ip) - 13) (ptr_name ip) = ascii ''.in-addr.arpa''"
    "take (length (ptr_name ip) - 13) (ptr_name ip) = body"
    unfolding name by (simp_all add: len)
  moreover have "length (ptr_name ip) = length body + 13" unfolding name by (simp add: len)
  moreover have "strncasecmp_eq s s n" for s n by (simp add: strncasecmp_eq_def)
  ultimately show ?thesis
    using bounds by (simp add: fakedns_parse_ptr_name_def Let_def dot h_def)
qed

section \<open>Writes\<close>

lemma length_put [simp]: "off + length xs \<le> length buf \<Longrightarrow> length (put off xs buf) = length buf"
  by (simp add: put_def)

lemma length_put_header [simp]: "length (put_header f buf) = length buf"
  by (simp add: put_header_def)

lemma length_put_flags [simp]: "length (put_flags f buf) = length buf"
  by (simp add: put_flags_def)

lemma length_answer_a [simp]: "length (answer_a ip) = 16"
  by (simp add: answer_a_def)

lemma length_answer_ptr [simp]: "length (answer_ptr rdata) = 12 + length rdata"
  by (simp add: answer_ptr_def)

section \<open>Names\<close>

lemma qname_loop_bounds:
  assumes "qname_loop query offset domain cnt = Some (offset', domain')" "offset \<le> length query"
    "length domain < FAKEDNS_MAX_DOMAIN_LEN"
  shows "offset \<le> offset' \<and> offset' \<le> length query \<and> length domain' < FAKEDNS_MAX_DOMAIN_LEN"
  using assms
proof (induction query offset domain cnt rule: qname_loop.induct)
  case (1 query offset domain cnt)
  show ?case
  proof (cases "offset \<ge> length query \<or> unat (query ! offset) = 0")
    case True
    then show ?thesis
      using 1(2-4) by (subst (asm) qname_loop.simps) (auto simp: Let_def split: if_splits)
  next
    case False
    let ?len = "unat (query ! offset)"
    have c: "\<not> cnt + 1 > 128" "\<not> ?len > 63" "\<not> offset + 1 + ?len > length query"
      "\<not> length domain + (if length domain > 0 then 1 else 0) + ?len \<ge> FAKEDNS_MAX_DOMAIN_LEN"
      using 1(2) False by (subst (asm) qname_loop.simps, auto simp: Let_def split: if_splits)+
    have "qname_loop query (offset + 1 + ?len)
        (domain @ (if length domain > 0 then [ch CHR ''.''] else []) @ map qname_lower (take ?len (drop (offset + 1) query)))
        (cnt + 1) = Some (offset', domain')"
      using 1(2) False c by (subst (asm) qname_loop.simps) (simp add: Let_def)
    from 1(1) [OF _ _ refl refl _ _ _ _ this] False c show ?thesis by (auto split: if_splits)
  qed
qed

lemma encode_loop_bound:
  "encode_loop p out outlen = Some r \<Longrightarrow> length r \<le> outlen"
proof (induction p out outlen rule: encode_loop.induct)
  case (1 p out outlen)
  show ?case
    using 1(2) by (subst (asm) encode_loop.simps) (auto simp: Let_def split: if_splits dest: 1(1) [OF _ refl refl])
qed

section \<open>The frame of an answer\<close>

lemma nth_put:
  assumes "off + length xs \<le> length buf" "i < length buf"
  shows "put off xs buf ! i = (if i < off then buf ! i else if i < off + length xs then xs ! (i - off) else buf ! i)"
  using assms by (auto simp: put_def nth_append)

text \<open>What a step that writes answers leaves of the buffer \<open>b\<close>.\<close>

definition resp_frame :: "nat \<Rightarrow> bytes \<Rightarrow> nat \<Rightarrow> bytes \<Rightarrow> bool" where
  "resp_frame resp_len b n b' \<longleftrightarrow>
     length b' = length b \<and> n \<le> length b \<and> (n = 0 \<or> resp_len \<le> n) \<and>
     (\<forall>i < length b. i < 2 \<or> 12 \<le> i \<and> i < resp_len \<or> resp_len \<le> i \<and> n \<le> i \<longrightarrow> b' ! i = b ! i)"

lemma resp_frame_zero [simp]: "resp_frame resp_len b 0 b"
  by (simp add: resp_frame_def)

lemma resp_frame_flags:
  "12 \<le> resp_len \<Longrightarrow> resp_len \<le> length b \<Longrightarrow> resp_frame resp_len b resp_len (put_flags f b)"
  "12 \<le> resp_len \<Longrightarrow> resp_len \<le> length b \<Longrightarrow> resp_frame resp_len b resp_len (put_header f b)"
  by (auto simp: resp_frame_def put_flags_def put_header_def nth_list_update)

lemma resp_frame_put:
  assumes "12 \<le> resp_len" "resp_len + length xs \<le> length b"
  shows "resp_frame resp_len b (resp_len + length xs) ((put resp_len xs b)[7 := v])"
  using assms by (auto simp: resp_frame_def nth_list_update nth_put)

lemma resp_frame_trans:
  assumes "resp_frame resp_len b k b'" "k \<noteq> 0" "resp_frame resp_len b' n b''" "k \<le> resp_len"
  shows "resp_frame resp_len b n b''"
  using assms by (auto simp: resp_frame_def)

lemma query_a_frame:
  assumes "query_a xxh mem now domain f resp_len b st = (n, b', st')" "12 \<le> resp_len" "resp_len \<le> length b"
  shows "resp_frame resp_len b n b'" "st' = snd (fakedns_lookup_domain xxh mem now domain st)"
proof -
  obtain ip st1 where lk: "fakedns_lookup_domain xxh mem now domain st = (ip, st1)" by fastforce
  show "st' = snd (fakedns_lookup_domain xxh mem now domain st)"
    using assms(1) lk by (auto simp: query_a_def split: if_splits)
  show "resp_frame resp_len b n b'"
    using assms lk resp_frame_put [of resp_len "answer_a ip" b 1]
    by (auto simp: query_a_def resp_frame_flags(1) split: if_splits)
qed

lemma query_ptr_frame:
  assumes "query_ptr domain resp_len b st m = (n, b', m')" "12 \<le> resp_len" "resp_len \<le> length b"
  shows "resp_frame resp_len b n b'" 
    "m' = m \<or> (\<exists>ip. m' = snd (fakedns_reverse_lookup st ip FAKEDNS_MAX_DOMAIN_LEN m))"
proof -
  have same: "resp_frame resp_len b resp_len b" using assms(3) by (simp add: resp_frame_def)
  show "resp_frame resp_len b n b'"
    using assms same
    by (auto simp: query_ptr_def resp_frame_put [where xs = "answer_ptr _", simplified] add.assoc
        split: option.splits prod.splits if_splits)
  show "m' = m \<or> (\<exists>ip. m' = snd (fakedns_reverse_lookup st ip FAKEDNS_MAX_DOMAIN_LEN m))"
    using assms(1) by (auto simp: query_ptr_def split: option.splits prod.splits if_splits) (metis snd_conv)+
qed

text \<open>The question that a query asks, when it is one the server answers.\<close>

definition asks :: "bytes \<Rightarrow> nat \<Rightarrow> bytes \<Rightarrow> bool" where
  "asks query offset domain \<longleftrightarrow>
     12 \<le> length query \<and> mk16 (query ! 2) (query ! 3) AND 0xF800 = 0 \<and> mk16 (query ! 4) (query ! 5) = 1 \<and>
     qname_loop query 12 [] 0 = Some (offset, domain) \<and> domain \<noteq> [] \<and> offset + 4 \<le> length query"

definition copied :: "bool \<Rightarrow> bytes \<Rightarrow> nat \<Rightarrow> bytes \<Rightarrow> bytes" where
  "copied inplace query offset buffer = (if inplace then buffer else put 0 (take (offset + 4) query) buffer)"

definition resp_flags_of :: "bytes \<Rightarrow> u16" where
  "resp_flags_of query = 0x8180 OR (mk16 (query ! 2) (query ! 3) AND 0x0100)"

definition qfield :: "bytes \<Rightarrow> nat \<Rightarrow> u16" where
  "qfield query offset = mk16 (query ! offset) (query ! (offset + 1))"

lemma process_query_asks:
  assumes "asks query offset domain" "length query \<le> length buffer"
  shows "fakedns_process_query xxh mem now inplace query buffer st m =
    (let c = copied inplace query offset buffer; f = resp_flags_of query in
     if qfield query (offset + 2) \<noteq> 1 then (offset + 4, put_header (f OR 0x0005) c, st, m)
     else if qfield query offset = 1
     then (case query_a xxh mem now domain f (offset + 4) (put_header f c) st of (n, b, st) \<Rightarrow> (n, b, st, m))
     else if qfield query offset = 12
     then (case query_ptr domain (offset + 4) (put_header f c) st m of (n, b, m) \<Rightarrow> (n, b, st, m))
     else (offset + 4, put_header f c, st, m))"
  using assms
  by (simp add: fakedns_process_query_def asks_def copied_def resp_flags_of_def qfield_def Let_def
      numeral_eq_Suc)

lemma process_query_refuses:
  assumes "\<nexists>offset domain. asks query offset domain \<and> length query \<le> length buffer"
  shows "fakedns_process_query xxh mem now inplace query buffer st m = (0, buffer, st, m)"
proof (cases "length query < 12 \<or> length buffer < length query \<or>
    mk16 (query ! 2) (query ! 3) AND 0xF800 \<noteq> 0 \<or> mk16 (query ! 4) (query ! 5) \<noteq> 1")
  case True
  then show ?thesis by (auto simp: fakedns_process_query_def Let_def)
next
  case False
  show ?thesis
  proof (cases "qname_loop query 12 [] 0")
    case None
    then show ?thesis by (simp add: fakedns_process_query_def Let_def)
  next
    case (Some r)
    obtain a b where r: "r = (a, b)" by (cases r)
    have "b = [] \<or> length query < a + 4"
      using assms False Some r by (auto simp: asks_def not_less)
    then show ?thesis using Some r by (auto simp: fakedns_process_query_def Let_def)
  qed
qed

lemma asks_bounds:
  assumes "asks query offset domain" shows "12 \<le> offset" "length domain < FAKEDNS_MAX_DOMAIN_LEN" "offset + 4 \<le> length query"
  using assms qname_loop_bounds [of query 12 "[]" 0 offset domain] 
  by (auto simp: asks_def FAKEDNS_MAX_DOMAIN_LEN_def)

lemma length_copied:
  "asks query offset domain \<Longrightarrow> length query \<le> length buffer \<Longrightarrow> length (copied inplace query offset buffer) = length buffer"
  by (simp add: copied_def asks_def)


lemma process_query_resp_frame:
  assumes a: "asks query offset domain" and len: "length query \<le> length buffer"
    and run: "fakedns_process_query xxh mem now inplace query buffer st m = (n, b', st', m')"
  shows "resp_frame (offset + 4) (copied inplace query offset buffer) n b'"
proof -
  let ?c = "copied inplace query offset buffer" and ?f = "resp_flags_of query"
  note b = asks_bounds [OF a]
  have lc: "length ?c = length buffer" by (rule length_copied [OF a len])
  have hd: "resp_frame (offset + 4) ?c (offset + 4) (put_header f ?c)" for f
    using resp_frame_flags(2) [of "offset + 4" ?c] lc b len by simp
  have qa: "resp_frame (offset + 4) ?c k b''"
    if "query_a xxh mem now domain f (offset + 4) (put_header f ?c) st = (k, b'', st'')" for f k b'' st''
    using resp_frame_trans [OF hd _ query_a_frame(1) [OF that]] b lc len by simp
  have qp: "resp_frame (offset + 4) ?c k b''"
    if "query_ptr domain (offset + 4) (put_header f ?c) st m = (k, b'', m'')" for f k b'' m''
    using resp_frame_trans [OF hd _ query_ptr_frame(1) [OF that]] b lc len by simp
  show ?thesis
    using run hd qa qp
    by (auto simp: process_query_asks [OF a len] Let_def split: if_splits prod.splits)
qed

lemma process_query_length:
  assumes "fakedns_process_query xxh mem now inplace query buffer st m = (n, b', st', m')"
  shows "length b' = length buffer"
proof (cases "\<exists>offset domain. asks query offset domain \<and> length query \<le> length buffer")
  case True
  then show ?thesis
    using process_query_resp_frame [OF _ _ assms] length_copied by (fastforce simp: resp_frame_def)
next
  case False
  then show ?thesis using process_query_refuses [OF False] assms by simp
qed

lemma process_query_frame:
  assumes "fakedns_process_query xxh mem now inplace query buffer st m = (n, b', st', m')"
    "inplace \<longrightarrow> take (length query) buffer = query" "n \<noteq> 0"
  obtains offset domain where "asks query offset domain" "length query \<le> length buffer"
    "resp_frame (offset + 4) (copied inplace query offset buffer) n b'"
    "\<forall>i < offset + 4. copied inplace query offset buffer ! i = query ! i"
    "\<forall>i < length buffer. offset + 4 \<le> i \<longrightarrow> copied inplace query offset buffer ! i = buffer ! i"
proof -
  obtain offset domain where a: "asks query offset domain" and len: "length query \<le> length buffer"
    using process_query_refuses assms(1,3) by (metis prod.inject)
  let ?c = "copied inplace query offset buffer"
  note b = asks_bounds [OF a]
  have "resp_frame (offset + 4) ?c n b'" by (rule process_query_resp_frame [OF a len assms(1)])
  moreover have "\<forall>i < offset + 4. ?c ! i = query ! i"
    using assms(2) b len by (auto simp: copied_def nth_put) (metis le_trans nth_take not_le)
  moreover have "\<forall>i < length buffer. offset + 4 \<le> i \<longrightarrow> ?c ! i = buffer ! i"
    using b len by (auto simp: copied_def nth_put)
  ultimately show ?thesis using that a len by blast
qed

lemma process_query_answered:
  assumes "fakedns_process_query xxh mem now inplace query buffer st m = (n, b', st', m')" "n \<noteq> 0"
    "inplace \<longrightarrow> take (length query) buffer = query"
  shows "take 2 b' = take 2 query \<and> drop n b' = drop n buffer \<and>
    (\<exists>offset domain. qname_loop query 12 [] 0 = Some (offset, domain) \<and> 12 \<le> offset \<and> offset + 4 \<le> n \<and>
       take (offset + 4 - 12) (drop 12 b') = take (offset + 4 - 12) (drop 12 query))"
proof -
  obtain offset domain where a: "asks query offset domain" and len: "length query \<le> length buffer"
    and r: "resp_frame (offset + 4) (copied inplace query offset buffer) n b'"
    and q: "\<forall>i < offset + 4. copied inplace query offset buffer ! i = query ! i"
    and t: "\<forall>i < length buffer. offset + 4 \<le> i \<longrightarrow> copied inplace query offset buffer ! i = buffer ! i"
    using process_query_frame [OF assms(1,3,2)] by blast
  note b = asks_bounds [OF a] length_copied [OF a len, of inplace]
  have f: "length b' = length buffer" "n \<le> length buffer" "offset + 4 \<le> n"
    "\<forall>i < length buffer. i < 2 \<or> 12 \<le> i \<and> i < offset + 4 \<or> n \<le> i \<longrightarrow> b' ! i = copied inplace query offset buffer ! i"
    using r b(4) assms(2) by (auto simp: resp_frame_def)
  have "take 2 b' = take 2 query"
    using f q b len by (intro nth_equalityI) auto
  moreover have "drop n b' = drop n buffer"
    using f t by (intro nth_equalityI) auto
  moreover have "take (offset + 4 - 12) (drop 12 b') = take (offset + 4 - 12) (drop 12 query)"
    using f q b len by (intro nth_equalityI) auto
  ultimately show ?thesis using f b a by (auto simp: asks_def)
qed

section \<open>Encoding and parsing are inverse\<close>

text \<open>The dotted name after the labels of \<open>p\<close> have been appended to \<open>nm\<close>.\<close>

definition qname_join :: "bytes \<Rightarrow> bytes \<Rightarrow> bytes" where
  "qname_join nm p =
     (if p = [] then nm else nm @ (if nm \<noteq> [] then [ch CHR ''.''] else []) @ map qname_lower p)"

text \<open>One label read back.\<close>

lemma qname_loop_label:
  assumes "label \<noteq> []" "length label \<le> 63" "cnt < 128"
    "length (qname_join nm label) < FAKEDNS_MAX_DOMAIN_LEN"
  shows "qname_loop (pre @ of_nat (length label) # label @ rest) (length pre) nm cnt =
    qname_loop (pre @ of_nat (length label) # label @ rest) (length (pre @ of_nat (length label) # label))
      (qname_join nm label) (cnt + 1)"
proof -
  have u: "unat (of_nat (length label) :: u8) = length label"
    using assms(2) by (simp add: unat_of_nat)
  have j: "qname_join nm label = nm @ (if nm \<noteq> [] then [ch CHR ''.''] else []) @ map qname_lower label"
    using assms(1) by (simp add: qname_join_def)
  show ?thesis
    using assms unfolding j
    by (subst qname_loop.simps) (auto simp: Let_def nth_append u split: if_splits)
qed

lemma qname_join_step:
  assumes "label \<noteq> []"
  shows "qname_join (qname_join nm label) p = qname_join nm (label @ (if p = [] then [] else ch CHR ''.'' # p))"
  using assms by (simp add: qname_join_def qname_lower_def ch_def)

lemma split_label:
  fixes p :: bytes
  assumes "p \<noteq> []" "last p \<noteq> c"
  defines "label \<equiv> takeWhile (\<lambda>x. x \<noteq> c) p" and "p' \<equiv> drop (length (takeWhile (\<lambda>x. x \<noteq> c) p) + 1) p"
  shows "p = label @ (if p' = [] then [] else c # p')" "p' = [] \<or> last p' \<noteq> c"
proof -
  have d: "p = label @ dropWhile (\<lambda>x. x \<noteq> c) p" by (simp add: label_def)
  have p': "p' = tl (dropWhile (\<lambda>x. x \<noteq> c) p)"
    by (simp add: p'_def dropWhile_eq_drop drop_Suc tl_drop)
  show "p = label @ (if p' = [] then [] else c # p')"
  proof (cases "dropWhile (\<lambda>x. x \<noteq> c) p")
    case Nil
    then show ?thesis using d p' by (metis append_Nil2 list.sel(2))
  next
    case (Cons x xs)
    then have "x = c" using hd_dropWhile [of "\<lambda>x. x \<noteq> c" p] by simp
    moreover have "xs \<noteq> []" using d Cons assms(2) \<open>x = c\<close> by auto
    ultimately show ?thesis using d Cons p' by simp
  qed
  then show "p' = [] \<or> last p' \<noteq> c" using assms(2) by (auto split: if_splits)
qed

lemma encode_loop_qname:
  assumes "encode_loop p out outlen = Some full" "p = [] \<or> last p \<noteq> ch CHR ''.''"
  shows "\<exists>w. full = out @ w \<and> length w = (if p = [] then 1 else length p + 2) \<and>
    (\<forall>pre nm cnt rest. length (qname_join nm p) < FAKEDNS_MAX_DOMAIN_LEN \<longrightarrow> 2 * cnt \<le> length nm + 1 \<longrightarrow>
      qname_loop (pre @ w @ rest) (length pre) nm cnt = Some (length pre + length w, qname_join nm p))"
  using assms
proof (induction p out outlen rule: encode_loop.induct)
  case (1 p out outlen)
  show ?case
  proof (cases "p = []")
    case True
    then have "full = out @ [0]"
      using 1(2) by (subst (asm) encode_loop.simps) (simp split: if_splits)
    moreover have "qname_loop (pre @ [0] @ rest) (length pre) nm cnt = Some (length pre + 1, nm)"
      if "length nm < FAKEDNS_MAX_DOMAIN_LEN" "2 * cnt \<le> length nm + 1" for pre nm cnt rest
      using that by (subst qname_loop.simps) (simp add: nth_append FAKEDNS_MAX_DOMAIN_LEN_def)
    ultimately show ?thesis using True by (auto simp: qname_join_def)
  next
    case False
    obtain label p' where defs: "label = takeWhile (\<lambda>c. c \<noteq> ch CHR ''.'') p" "p' = drop (length label + 1) p"
      by blast
    have last: "last p \<noteq> ch CHR ''.''" using 1(3) False by simp
    note split = split_label [OF False last, folded defs(1), folded defs(2)]
    have l: "label \<noteq> []" "length label \<le> 63"
      and rec: "encode_loop p' (out @ of_nat (length label) # label) outlen = Some full"
      and c: "\<not> (length label = 0 \<or> length label > 63)" "\<not> length out + 1 + length label + 1 > outlen"
      using 1(2) False by (subst (asm) encode_loop.simps, simp add: Let_def defs split: if_splits)+
    obtain w where w: "full = (out @ of_nat (length label) # label) @ w"
        "length w = (if p' = [] then 1 else length p' + 2)"
      and IH: "\<And>pre nm cnt rest. length (qname_join nm p') < FAKEDNS_MAX_DOMAIN_LEN \<Longrightarrow> 2 * cnt \<le> length nm + 1 \<Longrightarrow>
        qname_loop (pre @ w @ rest) (length pre) nm cnt = Some (length pre + length w, qname_join nm p')"
      using 1(1) [OF False defs(1) refl c, folded defs(2), OF rec split(2)] by blast
    let ?w = "of_nat (length label) # label @ w"
    have "length p = length label + (if p' = [] then 0 else 1 + length p')"
      using arg_cong [OF split(1), of length] by simp
    then have lw: "length ?w = length p + 2" using w(2) by (auto split: if_splits)
    have join: "qname_join (qname_join nm label) p' = qname_join nm p" for nm
      using qname_join_step [OF l(1)] split(1) by metis
    have "qname_loop (pre @ ?w @ rest) (length pre) nm cnt = Some (length pre + length ?w, qname_join nm p)"
      if d: "length (qname_join nm p) < FAKEDNS_MAX_DOMAIN_LEN" "2 * cnt \<le> length nm + 1" for pre nm cnt rest
    proof -
      have shorter: "length d \<le> length (qname_join d q)" for d q by (simp add: qname_join_def)
      have len: "length (qname_join nm label) < FAKEDNS_MAX_DOMAIN_LEN"
        using d(1) shorter [of "qname_join nm label" p'] unfolding join by linarith
      have cnt: "cnt < 128" using d(2) shorter [of nm p] d(1) by (simp add: FAKEDNS_MAX_DOMAIN_LEN_def)
      have cnt': "2 * (cnt + 1) \<le> length (qname_join nm label) + 1"
      proof (cases "nm = []")
        case True
        then have "cnt = 0" using d(2) by simp
        then show ?thesis using l(1) by (simp add: qname_join_def Suc_le_eq)
      next
        case False
        have "1 \<le> length label" using l(1) by (simp add: Suc_le_eq)
        then show ?thesis using d(2) l(1) False by (simp add: qname_join_def)
      qed
      show ?thesis
        using qname_loop_label [OF l cnt len, of pre "w @ rest"]
          IH [of "qname_join nm label" "cnt + 1" "pre @ of_nat (length label) # label" rest] d(1) cnt'
        by (simp add: join)
    qed
    then show ?thesis using w(1) lw False by (intro exI [of _ ?w]) simp
  qed
qed

section \<open>Messages\<close>

definition be16 :: "u16 \<Rightarrow> bytes" where
  "be16 w = [byte16 1 w, byte16 0 w]"

lemma length_be16 [simp]: "length (be16 w) = 2"
  by (simp add: be16_def)

text \<open>A query with one question of class IN; \<open>counts\<close> are the three other section counts and
  \<open>rest\<close> what follows the question.\<close>

definition dns_query :: "u16 \<Rightarrow> u16 \<Rightarrow> bytes \<Rightarrow> bytes \<Rightarrow> u16 \<Rightarrow> bytes \<Rightarrow> bytes" where
  "dns_query qid flags counts w qtype rest =
     be16 qid @ be16 flags @ [0, 1] @ counts @ w @ be16 qtype @ [0, 1] @ rest"

definition dns_response :: "u16 \<Rightarrow> u16 \<Rightarrow> u8 \<Rightarrow> bytes \<Rightarrow> u16 \<Rightarrow> bytes \<Rightarrow> bytes" where
  "dns_response qid flags ancount w qtype answers =
     be16 qid @ be16 flags @ [0, 1, 0, ancount, 0, 0, 0, 0] @ w @ be16 qtype @ [0, 1] @ answers"

lemma mk16_be16 [simp]: "mk16 (byte16 (Suc 0) w) (byte16 0 w) = w"
  by simp

lemma length_dns [simp]:
  "length counts = 6 \<Longrightarrow> length (dns_query qid flags counts w qtype rest) = 16 + length w + length rest"
  "length (dns_response qid flags an w qtype ans) = 16 + length w + length ans"
  by (simp_all add: dns_query_def dns_response_def be16_def)

lemma dns_prefix:
  "NO_MATCH [] rest \<Longrightarrow> dns_query qid flags counts w qtype rest = dns_query qid flags counts w qtype [] @ rest"
  "NO_MATCH [] rest \<Longrightarrow> dns_response qid flags an w qtype rest = dns_response qid flags an w qtype [] @ rest"
  by (simp_all add: dns_query_def dns_response_def)

lemma put_append: "off = length pre \<Longrightarrow> put off xs (pre @ buf) = pre @ xs @ drop (length xs) buf"
  by (simp add: put_def)

text \<open>A name a client can ask for: what the encoder accepts, without NUL bytes and final dot.\<close>

definition dns_name :: "bytes \<Rightarrow> bytes \<Rightarrow> bool" where
  "dns_name name w \<longleftrightarrow>
     fakedns_encode_dns_name name (FAKEDNS_MAX_DOMAIN_LEN + 2) = Some w \<and> name \<noteq> [] \<and> 0 \<notin> set name \<and>
     last name \<noteq> ch CHR ''.'' \<and> length name < FAKEDNS_MAX_DOMAIN_LEN"

lemma dns_name_length: "dns_name name w \<Longrightarrow> length w = length name + 2"
  using encode_loop_qname [of name "[]" "FAKEDNS_MAX_DOMAIN_LEN + 2" w]
  by (auto simp: dns_name_def fakedns_encode_dns_name_def cstr_id)

lemma dns_name_qname:
  assumes "dns_name name w"
  shows "qname_loop (pre @ w @ rest) (length pre) [] 0 = Some (length pre + length w, map qname_lower name)"
  using encode_loop_qname [of name "[]" "FAKEDNS_MAX_DOMAIN_LEN + 2" w] assms
  by (auto simp: dns_name_def fakedns_encode_dns_name_def cstr_id qname_join_def)

lemma qfield_append:
  "qfield (pre @ be16 t @ rest) (length pre) = t"
  by (simp add: qfield_def be16_def nth_append)

lemma asks_dns_query:
  assumes "dns_name name w" "flags AND 0xF800 = 0" "length counts = 6"
  shows "asks (dns_query qid flags counts w qtype rest) (12 + length w) (map qname_lower name)"
    "qfield (dns_query qid flags counts w qtype rest) (12 + length w) = qtype"
    "qfield (dns_query qid flags counts w qtype rest) (12 + length w + 2) = 1"
    "resp_flags_of (dns_query qid flags counts w qtype rest) = 0x8180 OR (flags AND 0x0100)"
proof -
  let ?q = "dns_query qid flags counts w qtype rest"
  let ?pre = "be16 qid @ be16 flags @ [0, 1] @ counts"
  have pre: "length ?pre = 12" using assms(3) by (simp add: be16_def)
  have q: "?q = ?pre @ w @ be16 qtype @ [0, 1] @ rest" by (simp add: dns_query_def)
  have nth: "?q ! 2 = byte16 (Suc 0) flags" "?q ! 3 = byte16 0 flags" "?q ! 4 = 0" "?q ! 5 = 1"
    by (simp_all add: dns_query_def be16_def)
  have one: "[0, 1] = be16 1" by (simp add: be16_def) code_simp
  have "mk16 0 1 = 1" by code_simp
  then show "asks ?q (12 + length w) (map qname_lower name)"
    using dns_name_qname [OF assms(1), of ?pre "be16 qtype @ [0, 1] @ rest"] assms nth
    unfolding pre q [symmetric] by (simp add: asks_def dns_name_def)
  show "qfield ?q (12 + length w) = qtype"
    using qfield_append [of "?pre @ w" qtype "[0, 1] @ rest"] assms(3) by (simp add: q)
  show "qfield ?q (12 + length w + 2) = 1"
    using qfield_append [of "?pre @ w @ be16 qtype" 1 rest] assms(3) by (simp add: q one add.commute)
  show "resp_flags_of ?q = 0x8180 OR (flags AND 0x0100)"
    by (simp add: resp_flags_of_def nth)
qed

lemma copied_dns_query:
  assumes "length counts = 6" "inplace \<longrightarrow> take (length q) buffer = q" "length q \<le> length buffer"
    "q = dns_query qid flags counts w qtype rest"
  shows "\<exists>tail. copied inplace q (12 + length w) buffer = dns_query qid flags counts w qtype tail \<and>
    16 + length w + length tail = length buffer"
proof (cases inplace)
  case True
  then have "buffer = q @ drop (length q) buffer" using assms(2) by (metis append_take_drop_id)
  then have "buffer = dns_query qid flags counts w qtype (rest @ drop (length q) buffer)"
    using assms(4) by (simp add: dns_query_def)
  then show ?thesis using True assms(1) length_dns(1) by (metis copied_def)
next
  case False
  have "take (12 + length w + 4) q = dns_query qid flags counts w qtype []"
    using assms(1) unfolding assms(4) by (subst dns_prefix) simp_all
  then have "copied inplace q (12 + length w) buffer = dns_query qid flags counts w qtype (drop (16 + length w) buffer)"
    using False assms(1) by (subst dns_prefix) (simp_all add: copied_def put_def add.commute)
  then show ?thesis using assms(1,3,4) by auto
qed

lemma list6E: 
  assumes "length xs = 6" obtains a b c d e f where "xs = [a, b, c, d, e, f]"
  using assms by (auto simp: length_Suc_conv numeral_eq_Suc)

lemma put_header_dns_query:
  "length counts = 6 \<Longrightarrow> put_header f (dns_query qid flags counts w qtype tail) = dns_response qid f 0 w qtype tail"
  by (erule list6E) (simp add: put_header_def dns_query_def dns_response_def be16_def)

lemma put_flags_dns_response:
  "put_flags f (dns_response qid f' an w qtype tail) = dns_response qid f an w qtype tail"
  by (simp add: put_flags_def dns_response_def be16_def)

lemma put_dns_response:
  assumes "length ans \<le> length tail"
  shows "(put (12 + length w + 4) ans (dns_response qid f an w qtype tail))[7 := v] =
    dns_response qid f v w qtype (ans @ drop (length ans) tail)"
proof -
  have "put (12 + length w + 4) ans (dns_response qid f an w qtype [] @ tail) =
      dns_response qid f an w qtype [] @ ans @ drop (length ans) tail"
    by (rule put_append) simp
  then show ?thesis by (simp add: dns_response_def be16_def)
qed

lemma take_dns_response:
  "take (16 + length w + k) (dns_response qid f an w qtype tail) = dns_response qid f an w qtype (take k tail)"
proof -
  have "take (16 + length w + k) (dns_response qid f an w qtype [] @ tail) = dns_response qid f an w qtype [] @ take k tail"
    by simp
  then show ?thesis by (metis append_assoc append_Nil dns_response_def)
qed

section \<open>The message that answers a query\<close>

text \<open>The buffers a query may come with: its own, or another one as long.\<close>

definition dns_buffer :: "bool \<Rightarrow> bytes \<Rightarrow> bytes \<Rightarrow> bool" where
  "dns_buffer inplace query buffer \<longleftrightarrow>
     length query \<le> length buffer \<and> 512 \<le> length buffer \<and> (inplace \<longrightarrow> take (length query) buffer = query)"

definition dns_flags :: "u16 \<Rightarrow> u16" where
  "dns_flags flags = 0x8180 OR (flags AND 0x0100)"

text \<open>The recursion-desired bit of the query makes no difference: the constant has it already.\<close>

lemma dns_flags_always: "dns_flags flags = 0x8180"
proof (rule bit_word_eqI)
  fix n
  have "bit (0x8180 :: u16) n" if "bit (0x0100 :: u16) n"
  proof -
    have "(0x0100 :: u16) = 2 ^ 8" by simp
    then have "n = 8" using that by (simp only: bit_exp_iff)
    then show ?thesis by simp
  qed
  then show "bit (dns_flags flags) n = bit (0x8180 :: u16) n" by (auto simp: dns_flags_def bit_or_iff bit_and_iff)
qed

lemma process_dns_query:
  assumes "dns_name name w" "flags AND 0xF800 = 0" "length counts = 6"
    "q = dns_query qid flags counts w qtype rest" "dns_buffer inplace q buffer"
  obtains tail where "16 + length w + length tail = length buffer"
    "fakedns_process_query xxh mem now inplace q buffer st m =
    (let b = dns_response qid (dns_flags flags) 0 w qtype tail; n = 12 + length w + 4; name = map qname_lower name in
     if qtype = 1 then (case query_a xxh mem now name (dns_flags flags) n b st of (n, b, st) \<Rightarrow> (n, b, st, m))
     else if qtype = 12 then (case query_ptr name n b st m of (n, b, m) \<Rightarrow> (n, b, st, m))
     else (n, b, st, m))"
proof -
  note buf = assms(5) [unfolded dns_buffer_def]
  note a = asks_dns_query [OF assms(1-3), where qid = qid and qtype = qtype and rest = rest, folded assms(4)]
  obtain tail where t: "copied inplace q (12 + length w) buffer = dns_query qid flags counts w qtype tail"
      "16 + length w + length tail = length buffer"
    using copied_dns_query [OF assms(3) _ _ assms(4)] buf by blast
  show thesis
    using that [OF t(2)] process_query_asks [OF a(1), where buffer = buffer] buf t(1) a(2-4) put_header_dns_query [OF assms(3)]
    by (simp add: Let_def dns_flags_def)
qed

lemma dns_name_room:
  assumes "dns_name name w" "16 + length w + length tail = length buffer" "dns_buffer inplace q buffer"
  shows "16 \<le> length tail" "length name \<le> 28 \<Longrightarrow> 260 \<le> length tail"
  using assms dns_name_length [OF assms(1)] by (auto simp: dns_name_def dns_buffer_def FAKEDNS_MAX_DOMAIN_LEN_def)

lemma fakedns_answers_a_aux:
  assumes "dns_name name w" "flags AND 0xF800 = 0" "length counts = 6"
    "q = dns_query qid flags counts w 1 rest" "dns_buffer inplace q buffer"
    "fakedns_lookup_domain xxh mem now (map qname_lower name) st = (ip, st')"
    "fakedns_process_query xxh mem now inplace q buffer st m = (n, b', st'', m')"
  shows "st'' = st' \<and> m' = m \<and> take n b' =
    (if ip = 0 then dns_response qid (dns_flags flags OR 0x0002) 0 w 1 []
     else dns_response qid (dns_flags flags) 1 w 1 (answer_a ip))"
proof -
  obtain tail where t: "16 + length w + length tail = length buffer"
    and run: "fakedns_process_query xxh mem now inplace q buffer st m =
      (case query_a xxh mem now (map qname_lower name) (dns_flags flags) (12 + length w + 4)
              (dns_response qid (dns_flags flags) 0 w 1 tail) st of (n, b, st) \<Rightarrow> (n, b, st, m))"
    using process_dns_query [OF assms(1-5), where xxh = xxh and mem = mem and now = now and st = st and m = m]
    by (auto simp: Let_def)
  note room = dns_name_room(1) [OF assms(1) t assms(5)]
  show ?thesis
  proof (cases "ip = 0")
    case True
    have "take (16 + length w + 0) (dns_response qid f 0 w 1 tail) = dns_response qid f 0 w 1 []" for f
      by (subst take_dns_response) simp
    then show ?thesis using assms(7) run True by (auto simp: query_a_def assms(6) put_flags_dns_response)
  next
    case False
    have "take (16 + length w + 16) (dns_response qid f 1 w 1 (answer_a ip @ drop 16 tail)) = dns_response qid f 1 w 1 (answer_a ip)" for f
      by (subst take_dns_response) simp
    then show ?thesis
      using assms(7) run False room put_dns_response [of "answer_a ip" tail w qid "dns_flags flags" 0 1 1]
      by (simp add: query_a_def assms(6))
  qed
qed

lemma fakedns_answers_ptr_aux:
  assumes "dns_name (ptr_name ip) w" "flags AND 0xF800 = 0" "length counts = 6"
    "q = dns_query qid flags counts w 12 rest" "dns_buffer inplace q buffer"
    "fst (fakedns_reverse_lookup st ip FAKEDNS_MAX_DOMAIN_LEN m) = Some domain"
    "fakedns_encode_dns_name domain (FAKEDNS_MAX_DOMAIN_LEN + 2) = Some rdata" "map qname_lower (ptr_name ip) = ptr_name ip"
    "length (ptr_name ip) \<le> 28"
    "fakedns_process_query xxh mem now inplace q buffer st m = (n, b', st'', m')"
  shows "st'' = st \<and> take n b' = dns_response qid (dns_flags flags) 1 w 12 (answer_ptr rdata)"
proof -
  obtain tail where t: "16 + length w + length tail = length buffer"
    and run: "fakedns_process_query xxh mem now inplace q buffer st m =
      (case query_ptr (ptr_name ip) (12 + length w + 4)
              (dns_response qid (dns_flags flags) 0 w 12 tail) st m of (n, b, m) \<Rightarrow> (n, b, st, m))"
    using process_dns_query [OF assms(1-5), where xxh = xxh and mem = mem and now = now and st = st and m = m]
    by (auto simp: Let_def assms(8))
  obtain m1 where lk: "fakedns_reverse_lookup st ip FAKEDNS_MAX_DOMAIN_LEN m = (Some domain, m1)"
    using assms(6) by (cases "fakedns_reverse_lookup st ip FAKEDNS_MAX_DOMAIN_LEN m") auto
  have "length rdata \<le> 246"
    using encode_loop_bound [of _ "[]" "FAKEDNS_MAX_DOMAIN_LEN + 2" rdata] assms(7)
    by (auto simp: fakedns_encode_dns_name_def FAKEDNS_MAX_DOMAIN_LEN_def)
  then have room: "length (answer_ptr rdata) \<le> length tail"
    using dns_name_room(2) [OF assms(1) t assms(5,9)] by simp
  have "(put (length w + 16) (answer_ptr rdata) (dns_response qid (dns_flags flags) 0 w 12 tail))[7 := 1] =
      dns_response qid (dns_flags flags) 1 w 12 (answer_ptr rdata @ drop (length (answer_ptr rdata)) tail)"
    using put_dns_response [OF room, of w qid "dns_flags flags" 0 12 1] by (simp add: add.commute)
  then have res: "(n, b', st'', m') = (16 + length w + length (answer_ptr rdata),
      dns_response qid (dns_flags flags) 1 w 12 (answer_ptr rdata @ drop (length (answer_ptr rdata)) tail), st, m1)"
    using assms(10) run room
    by (simp add: query_ptr_def lk parse_ptr_name_ptr_name assms(7) [simplified] ac_simps)
  have "take (16 + length w + length (answer_ptr rdata))
      (dns_response qid (dns_flags flags) 1 w 12 (answer_ptr rdata @ drop (length (answer_ptr rdata)) tail)) =
    dns_response qid (dns_flags flags) 1 w 12 (answer_ptr rdata)"
    by (subst take_dns_response) simp
  with res show ?thesis by simp
qed

lemma qname_lower_dot: "qname_lower c = 46 \<longleftrightarrow> c = 46" "qname_lower c = 0 \<longleftrightarrow> c = 0"
proof -
  have "c OR 0x20 \<noteq> 46 \<and> c OR 0x20 \<noteq> 0" if c: "65 \<le> c" "c \<le> 90"
  proof -
    have "65 \<le> unat c" "unat c \<le> 90" using c by (simp_all add: word_le_nat_alt)
    then have "unat c div 2 ^ 6 = 1" by simp
    then have "bit (unat c) 6" by (simp add: bit_iff_odd)
    then have "bit (c OR 0x20) 6" by (simp add: bit_simps)
    moreover have "\<not> bit (46 :: u8) 6" "\<not> bit (0 :: u8) 6" by simp_all
    ultimately show ?thesis by metis
  qed
  then show "qname_lower c = 46 \<longleftrightarrow> c = 46" "qname_lower c = 0 \<longleftrightarrow> c = 0"
    by (auto simp: qname_lower_def)
qed

lemma encode_loop_cong:
  assumes "encode_loop p out outlen \<noteq> None" "length out' = length out"
  shows "encode_loop (map qname_lower p) out' outlen \<noteq> None"
  using assms
proof (induction p out outlen arbitrary: out' rule: encode_loop.induct)
  case (1 p out outlen)
  show ?case
  proof (cases "p = []")
    case True
    then show ?thesis using 1(2,3)
      by (subst encode_loop.simps, subst (asm) encode_loop.simps) (simp split: if_splits)
  next
    case False
    let ?t = "\<lambda>p. takeWhile (\<lambda>c. c \<noteq> ch CHR ''.'') p"
    have t: "?t (map qname_lower p) = map qname_lower (?t p)"
      by (induction p) (simp_all add: qname_lower_dot ch_def)
    have l: "\<not> (length (?t p) = 0 \<or> length (?t p) > 63)" "\<not> length out + 1 + length (?t p) + 1 > outlen"
      and rec: "encode_loop (drop (length (?t p) + 1) p) (out @ of_nat (length (?t p)) # ?t p) outlen \<noteq> None"
      using 1(2) False by (subst (asm) encode_loop.simps, simp add: Let_def split: if_splits)+
    have "encode_loop (map qname_lower (drop (length (?t p) + 1) p)) (out' @ of_nat (length (?t p)) # map qname_lower (?t p)) outlen \<noteq> None"
      by (rule 1(1) [OF False refl refl l rec]) (simp add: 1(3))
    then show ?thesis
      using False l by (subst encode_loop.simps) (simp add: Let_def t 1(3) drop_map)
  qed
qed

lemma dns_name_lower:
  assumes "dns_name name w"
  shows "\<exists>w'. dns_name (map qname_lower name) w'"
proof -
  have "0 \<notin> set (map qname_lower name)" using assms by (auto simp: dns_name_def qname_lower_dot)
  moreover have "last (map qname_lower name) \<noteq> ch CHR ''.''"
    using assms by (auto simp: dns_name_def last_map qname_lower_dot ch_def)
  moreover have "cstr name = name" using assms by (simp add: dns_name_def cstr_id)
  then have "encode_loop (map qname_lower name) [] (FAKEDNS_MAX_DOMAIN_LEN + 2) \<noteq> None"
    using assms encode_loop_cong [of name "[]" "FAKEDNS_MAX_DOMAIN_LEN + 2" "[]"]
    by (simp add: dns_name_def fakedns_encode_dns_name_def)
  ultimately show ?thesis using assms by (auto simp: dns_name_def fakedns_encode_dns_name_def cstr_id)
qed

lemma encode_loop_label:
  assumes "ch CHR ''.'' \<notin> set label" "label \<noteq> []" "length label \<le> 63" "length out + length label + 2 \<le> outlen"
  shows "encode_loop (label @ ch CHR ''.'' # p) out outlen = encode_loop p (out @ of_nat (length label) # label) outlen"
    "encode_loop label out outlen = encode_loop [] (out @ of_nat (length label) # label) outlen"
proof -
  have t: "takeWhile (\<lambda>c. c \<noteq> ch CHR ''.'') label = label"
    "takeWhile (\<lambda>c. c \<noteq> ch CHR ''.'') (label @ ch CHR ''.'' # p) = label"
    using assms(1) by (auto simp: takeWhile_eq_all_conv takeWhile_append)
  show "encode_loop (label @ ch CHR ''.'' # p) out outlen = encode_loop p (out @ of_nat (length label) # label) outlen"
    using assms by (subst encode_loop.simps) (simp add: Let_def t)
  show "encode_loop label out outlen = encode_loop [] (out @ of_nat (length label) # label) outlen"
    using assms by (subst encode_loop.simps) (simp add: Let_def t)
qed

lemma digits_lower: "map qname_lower (dec8 b) = dec8 b"
  using dec8_digits [of b]
  by (intro map_idI) (auto simp: list_all_iff isdigit_def qname_lower_def word_le_nat_alt)

lemma ptr_name_facts:
  "map qname_lower (ptr_name ip) = ptr_name ip" "length (ptr_name ip) \<le> 28" "\<exists>w. dns_name (ptr_name ip) w"
proof -
  define h where "h = ntohl ip"
  have dot: "ch CHR ''.'' = 46" by (simp add: ch_def)
  have name: "ptr_name ip = dec8 (byte32 0 h) @ 46 # dec8 (byte32 1 h) @ 46 # dec8 (byte32 2 h) @ 46 #
      dec8 (byte32 3 h) @ 46 # ascii ''in-addr'' @ 46 # ascii ''arpa''"
    by (simp add: ptr_name_def h_def dot Let_def ascii_def)
  note len = dec8_length [of "byte32 0 h"] dec8_length [of "byte32 (Suc 0) h"]
     dec8_length [of "byte32 2 h"] dec8_length [of "byte32 3 h"]
  show low: "map qname_lower (ptr_name ip) = ptr_name ip"
    unfolding name by (simp add: digits_lower) (simp add: qname_lower_def ascii_def)
  show l28: "length (ptr_name ip) \<le> 28"
    unfolding name using len by (simp add: ascii_def del: dec8_simps)
  have "cstr (ptr_name ip) = ptr_name ip"
    unfolding name by (rule cstr_id) (simp add: ascii_def)
  moreover have "encode_loop (ptr_name ip) [] (FAKEDNS_MAX_DOMAIN_LEN + 2) \<noteq> None"
  proof -
    have sz: "length (ascii ''in-addr'') = 7" "length (ascii ''arpa'') = 4" "46 \<notin> set (ascii ''in-addr'')"
      "46 \<notin> set (ascii ''arpa'')" "ascii ''in-addr'' \<noteq> []" "ascii ''arpa'' \<noteq> []"
      by (simp_all add: ascii_def)
    have m: "length (dec8 b) \<le> 63" for b using dec8_length [of b] by linarith
    show ?thesis
      unfolding name using len
      by (simp add: encode_loop_label [unfolded dot] sz m FAKEDNS_MAX_DOMAIN_LEN_def del: dec8_simps(3))
        (simp add: encode_loop.simps sz del: dec8_simps(3))
  qed
  ultimately show "\<exists>w. dns_name (ptr_name ip) w"
    using l28 unfolding dns_name_def fakedns_encode_dns_name_def
    by (simp add: name ascii_def dot FAKEDNS_MAX_DOMAIN_LEN_def)
qed

section \<open>Queries keep the invariant\<close>

lemma fakedns_inv_mono: "fakedns_inv n st ms \<Longrightarrow> n \<le> k \<Longrightarrow> fakedns_inv k st ms"
  by (fastforce simp: fakedns_inv_def versions_le_def)

lemma process_query_state:
  assumes "fakedns_process_query xxh mem now inplace query buffer st m = (n, b', st', m')"
  shows "st' = st \<and> m' = m \<or> (\<exists>d. st' = snd (fakedns_lookup_domain xxh mem now d st)) \<and> m' = m \<or>
    st' = st \<and> (\<exists>ip. m' = snd (fakedns_reverse_lookup st ip FAKEDNS_MAX_DOMAIN_LEN m))"
proof (cases "\<exists>offset domain. asks query offset domain \<and> length query \<le> length buffer")
  case False
  then show ?thesis using process_query_refuses [OF False] assms by simp
next
  case True
  then obtain offset domain where a: "asks query offset domain" and len: "length query \<le> length buffer" by blast
  let ?c = "copied inplace query offset buffer" and ?f = "resp_flags_of query"
  note b = asks_bounds [OF a] length_copied [OF a len]
  have qa: "st'' = snd (fakedns_lookup_domain xxh mem now domain st)"
    if "query_a xxh mem now domain f (offset + 4) (put_header f ?c) st = (k, b'', st'')" for f k b'' st''
    using query_a_frame(2) [OF that] b len by simp
  have qp: "m'' = m \<or> (\<exists>ip. m'' = snd (fakedns_reverse_lookup st ip FAKEDNS_MAX_DOMAIN_LEN m))"
    if "query_ptr domain (offset + 4) (put_header f ?c) st m = (k, b'', m'')" for f k b'' m''
    using query_ptr_frame(2) [OF that] b len by simp
  show ?thesis
    using assms
    by (auto simp: process_query_asks [OF a len] Let_def split: if_splits prod.splits dest!: qa) (metis qp)+
qed

lemma process_query_inv:
  assumes "fakedns_inv k st ms" "k + 1 < 2 ^ 32"
    "fakedns_process_query xxh mem now inplace query buffer st (ms t) = (n, b', st', m')"
  shows "fakedns_inv (Suc k) st' (ms(t := m'))"
  using process_query_state [OF assms(3)]
proof (elim disjE conjE exE)
  assume "st' = st" "m' = ms t"
  then show ?thesis using fakedns_inv_mono [OF assms(1), of "Suc k"] by simp
next
  fix d assume "st' = snd (fakedns_lookup_domain xxh mem now d st)" "m' = ms t"
  then show ?thesis using fakedns_inv_lookup [OF assms(1,2), of xxh mem now d "fst (fakedns_lookup_domain xxh mem now d st)" st'] by simp
next
  fix ip assume "st' = st" "m' = snd (fakedns_reverse_lookup st ip FAKEDNS_MAX_DOMAIN_LEN (ms t))"
  then have "fakedns_inv k st' (ms(t := m'))"
    using fakedns_inv_reverse [OF assms(1), of ip FAKEDNS_MAX_DOMAIN_LEN t "fst (fakedns_reverse_lookup st ip FAKEDNS_MAX_DOMAIN_LEN (ms t))" m'] by simp
  then show ?thesis by (rule fakedns_inv_mono) simp
qed

section \<open>A concrete query\<close>

definition demo_query :: bytes where
  "demo_query = dns_query 7 0x0100 (replicate 6 0) [1, 97, 1, 98, 0] 1 []"

lemma demo_name: "dns_name (ascii ''a.b'') [1, 97, 1, 98, 0]"
proof -
  have "fakedns_encode_dns_name (ascii ''a.b'') (FAKEDNS_MAX_DOMAIN_LEN + 2) = Some [1, 97, 1, 98, 0]" by code_simp
  then show ?thesis by (simp add: dns_name_def ascii_def ch_def FAKEDNS_MAX_DOMAIN_LEN_def)
qed

lemma demo_buffer: "dns_buffer False demo_query (replicate 512 0)"
  by (simp add: dns_buffer_def demo_query_def)

lemma demo_lower: "map qname_lower (ascii ''a.b'') = ascii ''a.b''"
  by (simp add: ascii_def qname_lower_def)

lemma demo_query_run:
  "\<exists>n b'. fakedns_process_query demo_hash True 100 False demo_query (replicate 512 0) demo_pool m =
     (n, b', demo_pool1, m) \<and> n \<noteq> 0"
proof -
  obtain n b' st' m' where run: "fakedns_process_query demo_hash True 100 False demo_query (replicate 512 0) demo_pool m =
      (n, b', st', m')" by (metis prod_cases4)
  have "fakedns_lookup_domain demo_hash True 100 (map qname_lower (ascii ''a.b'')) demo_pool = (htonl 0x0A000061, demo_pool1)"
    unfolding demo_lower by (rule demo_lookup)
  from fakedns_answers_a_aux [OF demo_name _ _ demo_query_def demo_buffer this run]
  have "st' = demo_pool1 \<and> m' = m \<and> take n b' = dns_response 7 (dns_flags 0x0100) 1 [1, 97, 1, 98, 0] 1 (answer_a (htonl 0x0A000061))"
    by (simp add: htonl_eq_0_iff)
  moreover have "n \<noteq> 0"
  proof
    assume "n = 0"
    then have "take n b' = []" by simp
    with calculation show False by (simp add: dns_response_def be16_def)
  qed
  ultimately show ?thesis using run by blast
qed

section \<open>Properties\<close>

text \<open>Every address can be asked for: the pointer name of an address is read back as that address.\<close>

theorem fakedns_parse_ptr_name_roundtrip: "fakedns_parse_ptr_name (ptr_name ip) = Some ip"
  by (rule parse_ptr_name_ptr_name)

text \<open>Whatever name the encoder accepts, without NUL byte and final dot and short enough for the pool, the
  query parser reads back from the labels, in lower case, wherever the labels stand in the message.\<close>

theorem fakedns_name_roundtrip:
  assumes "fakedns_encode_dns_name name (FAKEDNS_MAX_DOMAIN_LEN + 2) = Some w" "name \<noteq> []" "0 \<notin> set name"
    "last name \<noteq> ch CHR ''.''" "length name < FAKEDNS_MAX_DOMAIN_LEN"
  shows "qname_loop (pre @ w @ rest) (length pre) [] 0 = Some (length pre + length w, map qname_lower name)"
  using dns_name_qname assms by (simp add: dns_name_def)

theorem fakedns_name_roundtrip_witness:
  "qname_loop [1, 97, 2, 66, 67, 0, 7] 0 [] 0 = Some (6, ascii ''a.bc'')"
proof -
  have "fakedns_encode_dns_name (ascii ''a.BC'') (FAKEDNS_MAX_DOMAIN_LEN + 2) = Some [1, 97, 2, 66, 67, 0]" by code_simp
  from fakedns_name_roundtrip [OF this, of "[]" "[7]"]
  show ?thesis by (simp add: ascii_def ch_def FAKEDNS_MAX_DOMAIN_LEN_def qname_lower_def)
qed

text \<open>C31. No write leaves the response buffer, whatever the query is and whether it is answered or not: a write that did would
  lengthen the list, and what lies behind both the query's length and the answer is as it was. An answer is not longer than the
  buffer, echoes the identifier and the question, and leaves the buffer behind it as it was; the query may be answered in place.\<close>

theorem fakedns_process_query_bounds:
  assumes "fakedns_process_query xxh mem now inplace query buffer st m = (n, b', st', m')"
    "inplace \<longrightarrow> take (length query) buffer = query"
  shows "length b' = length buffer \<and> n \<le> length buffer \<and> drop (max n (length query)) b' = drop (max n (length query)) buffer \<and>
    (n \<noteq> 0 \<longrightarrow> take 2 b' = take 2 query \<and> drop n b' = drop n buffer \<and>
      (\<exists>offset domain. qname_loop query 12 [] 0 = Some (offset, domain) \<and> 12 \<le> offset \<and> offset + 4 \<le> n \<and>
         take (offset + 4 - 12) (drop 12 b') = take (offset + 4 - 12) (drop 12 query)))"
proof -
  have len: "length b' = length buffer" by (rule process_query_length [OF assms(1)])
  have rest: "n \<le> length buffer \<and> drop (max n (length query)) b' = drop (max n (length query)) buffer"
  proof (cases "\<exists>offset domain. asks query offset domain \<and> length query \<le> length buffer")
    case True
    then obtain offset domain where a: "asks query offset domain" "length query \<le> length buffer" by blast
    have "copied inplace query offset buffer ! i = buffer ! i" if "i < length buffer" "length query \<le> i" for i
      using that asks_bounds [OF a(1)] a(2) by (simp add: copied_def nth_put)
    then show ?thesis
      using process_query_resp_frame [OF a assms(1)] asks_bounds [OF a(1)] length_copied [OF a, of inplace] len
      by (auto simp: resp_frame_def max_def intro!: nth_equalityI)
  next
    case False
    then show ?thesis using process_query_refuses [OF False] assms(1) by simp
  qed
  show ?thesis using len rest process_query_answered [OF assms(1) _ assms(2)] by blast
qed

theorem fakedns_process_query_bounds_witness:
  "\<exists>n b'. fakedns_process_query demo_hash True 100 False demo_query (replicate 512 0) demo_pool fakedns_mru_static =
     (n, b', demo_pool1, fakedns_mru_static) \<and> n \<le> 512 \<and> take 2 b' = [0, 7]"
proof -
  obtain n b' where run: "fakedns_process_query demo_hash True 100 False demo_query (replicate 512 0) demo_pool fakedns_mru_static =
     (n, b', demo_pool1, fakedns_mru_static)" "n \<noteq> 0" using demo_query_run by blast
  have "take 2 demo_query = [0, 7]" by (simp add: demo_query_def dns_query_def be16_def byte16_def)
  then show ?thesis using fakedns_process_query_bounds [OF run(1)] run by (intro exI [of _ n] exI [of _ b']) simp
qed

text \<open>C30. The answer to an address query is exactly this message, in place or not: the query's identifier and
  question, one address record for one hour with the address the pool gives for the name in lower case; or a server failure
  without a record when the pool gives none. Both recursion bits of the flags are set, the desired one too, whether or
  not the query had it (the comment beside the code says that it is taken from the query).\<close>

theorem fakedns_answers_a:
  assumes "dns_name name w" "flags AND 0xF800 = 0" "length counts = 6"
    "q = dns_query qid flags counts w 1 rest" "dns_buffer inplace q buffer"
    "fakedns_lookup_domain xxh memalign_ok now (map qname_lower name) st = (ip, st')"
    "fakedns_process_query xxh memalign_ok now inplace q buffer st m = (n, b', st'', m')"
  shows "st'' = st' \<and> m' = m \<and> take n b' =
    (if ip = 0 then dns_response qid 0x8182 0 w 1 [] else dns_response qid 0x8180 1 w 1 (answer_a ip))"
  using fakedns_answers_a_aux [OF assms] by (simp add: dns_flags_always)

theorem fakedns_answers_a_witness:
  "\<exists>n b'. fakedns_process_query demo_hash True 100 False demo_query (replicate 512 0) demo_pool fakedns_mru_static =
     (n, b', demo_pool1, fakedns_mru_static) \<and>
     take n b' = dns_response 7 0x8180 1 [1, 97, 1, 98, 0] 1 (answer_a (htonl 0x0A000061))"
proof -
  obtain n b' where run: "fakedns_process_query demo_hash True 100 False demo_query (replicate 512 0) demo_pool fakedns_mru_static =
     (n, b', demo_pool1, fakedns_mru_static)" using demo_query_run by blast
  have "fakedns_lookup_domain demo_hash True 100 (map qname_lower (ascii ''a.b'')) demo_pool = (htonl 0x0A000061, demo_pool1)"
    unfolding demo_lower by (rule demo_lookup)
  from fakedns_answers_a [OF demo_name _ _ demo_query_def demo_buffer this run]
  show ?thesis using run by (simp add: htonl_eq_0_iff)
qed

text \<open>C21. Forward, then back: after an address query for a name was answered with an address, the pointer query
  for that address, sent by anyone, is answered with the same name in lower case.\<close>

theorem fakedns_forward_then_reverse:
  assumes "fakedns_reach xxh k st ms" "k + 1 < 2 ^ 32"
    and "dns_name name w" "flags AND 0xF800 = 0" "length counts = 6"
    "q = dns_query qid flags counts w 1 rest" "dns_buffer inplace q buffer"
    "fst (fakedns_lookup_domain xxh memalign_ok now (map qname_lower name) st) = ip" "ip \<noteq> 0"
    "fakedns_process_query xxh memalign_ok now inplace q buffer st (ms t) = (n, b', st', m')"
    and "dns_name (ptr_name ip) w2" "flags2 AND 0xF800 = 0" "length counts2 = 6"
    "q2 = dns_query qid2 flags2 counts2 w2 12 rest2" "dns_buffer inplace2 q2 buffer2"
    "fakedns_process_query xxh memalign_ok2 now2 inplace2 q2 buffer2 st' m' = (n2, b2, st2, m2)"
  shows "\<exists>w3. dns_name (map qname_lower name) w3 \<and>
    take n2 b2 = dns_response qid2 (dns_flags flags2) 1 w2 12 (answer_ptr w3)"
proof -
  obtain st1 where lk: "fakedns_lookup_domain xxh memalign_ok now (map qname_lower name) st = (ip, st1)"
    using assms(8) by (cases "fakedns_lookup_domain xxh memalign_ok now (map qname_lower name) st") auto
  have st': "st' = st1" "m' = ms t" using fakedns_answers_a_aux [OF assms(3-7) lk assms(10)] by auto
  have inv: "fakedns_inv k st ms" using fakedns_inv_reach [OF assms(1)] assms(2) by simp
  note inv1 = fakedns_inv_lookup [OF inv assms(2) lk]
  obtain w3 where w3: "dns_name (map qname_lower name) w3" using dns_name_lower [OF assms(3)] by blast
  then have short: "length (map qname_lower name) < FAKEDNS_MAX_DOMAIN_LEN" and c: "cstr (map qname_lower name) = map qname_lower name"
    and enc: "fakedns_encode_dns_name (map qname_lower name) (FAKEDNS_MAX_DOMAIN_LEN + 2) = Some w3"
    by (auto simp: dns_name_def cstr_id)
  have res: "fakedns_resolve st1 ip = Some (map qname_lower name)"
    using fakedns_lookup_resolves [OF _ short lk assms(9)] inv c by (simp add: fakedns_inv_def)
  have "take (FAKEDNS_MAX_DOMAIN_LEN - 1) (map qname_lower name) = map qname_lower name"
    using short by (intro take_all) simp
  then have "fst (fakedns_reverse_lookup st' ip FAKEDNS_MAX_DOMAIN_LEN m') = Some (map qname_lower name)"
    using fakedns_reverse_lookup_ok(1) [of st1 "ms t" FAKEDNS_MAX_DOMAIN_LEN ip] inv1 res st'
    by (simp add: fakedns_inv_def FAKEDNS_MAX_DOMAIN_LEN_def)
  from fakedns_answers_ptr_aux [OF assms(11-15) this enc ptr_name_facts(1,2) assms(16)]
  show ?thesis using w3 by blast
qed

theorem fakedns_forward_then_reverse_witness:
  "\<exists>w2 n2 b2 r. fakedns_process_query demo_hash True 200 False (dns_query 8 0 (replicate 6 0) w2 12 []) (replicate 512 0)
      demo_pool1 fakedns_mru_static = (n2, b2, r) \<and>
    take n2 b2 = dns_response 8 (dns_flags 0) 1 w2 12 (answer_ptr [1, 97, 1, 98, 0])"
proof -
  obtain n b' where run: "fakedns_process_query demo_hash True 100 False demo_query (replicate 512 0) demo_pool (demo_ms ()) =
     (n, b', demo_pool1, fakedns_mru_static)" using demo_query_run by blast
  obtain w2 where w2: "dns_name (ptr_name (htonl 0x0A000061)) w2" using ptr_name_facts(3) by blast
  define q2 where "q2 = dns_query 8 0 (replicate 6 0) w2 12 []"
  have l2: "length w2 \<le> 30" using dns_name_length [OF w2] ptr_name_facts(2) [of "htonl 0x0A000061"] by simp
  have buf2: "dns_buffer False q2 (replicate 512 0)" using l2 by (simp add: dns_buffer_def q2_def)
  obtain n2 b2 st2 m2 where run2: "fakedns_process_query demo_hash True 200 False q2 (replicate 512 0) demo_pool1 fakedns_mru_static =
      (n2, b2, st2, m2)" by (metis prod_cases4)
  have ip: "fst (fakedns_lookup_domain demo_hash True 100 (map qname_lower (ascii ''a.b'')) demo_pool) = htonl 0x0A000061"
    unfolding demo_lower demo_lookup by simp
  from fakedns_forward_then_reverse [OF demo_reach0 _ demo_name _ _ demo_query_def demo_buffer ip _ run w2 _ _ q2_def buf2 run2]
  obtain w3 where "dns_name (ascii ''a.b'') w3" "take n2 b2 = dns_response 8 (dns_flags 0) 1 w2 12 (answer_ptr w3)"
    unfolding demo_lower by (auto simp: htonl_eq_0_iff)
  moreover from this(1) have "w3 = [1, 97, 1, 98, 0]" using demo_name by (simp add: dns_name_def)
  ultimately show ?thesis using run2 unfolding q2_def by blast
qed

end
