(* ===== verification/FakednsServer.thy ===== *)
theory FakednsServer
  imports FakednsWire
begin

text \<open>
  The DNS server callback of \<^verbatim>\<open>src/src/fakedns_server.c\<close>: one
  \<^verbatim>\<open>recvmmsg\<close> of at most sixteen datagrams into static buffers, each query answered in
  place in its own buffer, one \<^verbatim>\<open>sendmmsg\<close> of the answers. The vector lengths that
  the send path overwrites and the receive path resets are part of the state.

  What \<^verbatim>\<open>recvmmsg\<close> delivers is an argument: the datagrams with their source addresses, or
  an error. The kernel stores at most as many bytes of a datagram as the vector holds, and at most as many
  of an address as the name buffer.
\<close>

section \<open>State\<close>

definition FAKEDNS_BATCH_SIZE :: nat where "FAKEDNS_BATCH_SIZE = 16"
definition FAKEDNS_MAX_UDP_SIZE :: nat where "FAKEDNS_MAX_UDP_SIZE = 512"
definition sizeof_sockaddr_storage :: nat where "sizeof_sockaddr_storage = 128"

record fakedns_server =
  g_fakedns_batch_packets :: "bytes list"
  s_iov_len :: "nat list"
  s_namelen :: "nat list"
  s_addrs :: "bytes list"
  s_initialized :: bool

definition fakedns_server_static :: fakedns_server where
  "fakedns_server_static =
     \<lparr>g_fakedns_batch_packets = replicate FAKEDNS_BATCH_SIZE (replicate FAKEDNS_MAX_UDP_SIZE 0),
      s_iov_len = replicate FAKEDNS_BATCH_SIZE 0, s_namelen = replicate FAKEDNS_BATCH_SIZE 0,
      s_addrs = replicate FAKEDNS_BATCH_SIZE (replicate sizeof_sockaddr_storage 0), s_initialized = False\<rparr>"

text \<open>A datagram that arrives, with the outcome of an allocation and the time while it is answered.\<close>

record datagram =
  dg_from :: bytes
  dg_data :: bytes
  dg_memalign_ok :: bool
  dg_now :: u32

section \<open>The callback\<close>

definition server_init :: "fakedns_server \<Rightarrow> fakedns_server" where
  "server_init srv =
     (if s_initialized srv then srv
      else srv\<lparr>s_iov_len := replicate FAKEDNS_BATCH_SIZE FAKEDNS_MAX_UDP_SIZE, s_initialized := True\<rparr>)"

definition server_reset :: "fakedns_server \<Rightarrow> fakedns_server" where
  "server_reset srv =
     srv\<lparr>s_namelen := map (\<lambda>_. sizeof_sockaddr_storage) (s_namelen srv),
         s_iov_len := map (\<lambda>_. FAKEDNS_MAX_UDP_SIZE) (s_iov_len srv)\<rparr>"

text \<open>The kernel stores the datagrams; the result carries the received lengths.\<close>

fun kernel_recv :: "nat \<Rightarrow> datagram list \<Rightarrow> fakedns_server \<Rightarrow> nat list \<times> fakedns_server" where
  "kernel_recv i [] srv = ([], srv)"
| "kernel_recv i (d # ds) srv =
     (let stored = take (s_iov_len srv ! i) (dg_data d); name = take (s_namelen srv ! i) (dg_from d);
          srv = srv\<lparr>g_fakedns_batch_packets :=
                     (g_fakedns_batch_packets srv)[i := put 0 stored (g_fakedns_batch_packets srv ! i)],
                    s_addrs := (s_addrs srv)[i := put 0 name (s_addrs srv ! i)],
                    s_namelen := (s_namelen srv)[i := length (dg_from d)]\<rparr>
      in case kernel_recv (i + 1) ds srv of (lens, srv) \<Rightarrow> (length stored # lens, srv))"

text \<open>The loop over the received messages; the result lists the indices to send.\<close>

fun answer_loop ::
  "(bytes \<Rightarrow> u64) \<Rightarrow> nat \<Rightarrow> (nat \<times> datagram) list \<Rightarrow> fakedns_server \<Rightarrow> fakedns \<Rightarrow> fakedns_mru \<Rightarrow>
   nat list \<times> fakedns_server \<times> fakedns \<times> fakedns_mru" where
  "answer_loop xxh i [] srv st m = ([], srv, st, m)"
| "answer_loop xxh i ((len, d) # ds) srv st m =
     (let buf = g_fakedns_batch_packets srv ! i in
      case fakedns_process_query xxh (dg_memalign_ok d) (dg_now d) True (take len buf) buf st m of
        (nresp, buf, st, m) \<Rightarrow>
          (let srv = srv\<lparr>g_fakedns_batch_packets := (g_fakedns_batch_packets srv)[i := buf]\<rparr>;
               srv = (if nresp > 0 then srv\<lparr>s_iov_len := (s_iov_len srv)[i := nresp]\<rparr> else srv)
           in case answer_loop xxh (i + 1) ds srv st m of
                (sends, r) \<Rightarrow> ((if nresp > 0 then i # sends else sends), r)))"

text \<open>The messages \<^verbatim>\<open>sendmmsg\<close> is given: destination and payload.\<close>

definition send_msgs :: "fakedns_server \<Rightarrow> nat list \<Rightarrow> (bytes \<times> bytes) list" where
  "send_msgs srv sends =
     map (\<lambda>i. (take (s_namelen srv ! i) (s_addrs srv ! i), take (s_iov_len srv ! i) (g_fakedns_batch_packets srv ! i))) sends"

definition fakedns_server_recv_cb ::
  "(bytes \<Rightarrow> u64) \<Rightarrow> datagram list option \<Rightarrow> fakedns_server \<Rightarrow> fakedns \<Rightarrow> fakedns_mru \<Rightarrow>
   (bytes \<times> bytes) list \<times> fakedns_server \<times> fakedns \<times> fakedns_mru" where
  "fakedns_server_recv_cb xxh received srv st m =
     (let srv = server_reset (server_init srv) in
      case received of
        None \<Rightarrow> ([], srv, st, m)
      | Some ds \<Rightarrow>
          (case kernel_recv 0 ds srv of
             (lens, srv) \<Rightarrow>
               (case answer_loop xxh 0 (zip lens ds) srv st m of
                  (sends, srv, st, m) \<Rightarrow> (send_msgs srv sends, srv, st, m))))"

section \<open>A query's answer does not depend on its buffer\<close>

text \<open>The answer computed in a buffer that holds nothing but the query.\<close>

definition fakedns_reply ::
  "(bytes \<Rightarrow> u64) \<Rightarrow> datagram \<Rightarrow> fakedns \<times> fakedns_mru \<Rightarrow> bytes \<times> fakedns \<times> fakedns_mru" where
  "fakedns_reply xxh d s =
     (case s of (st, m) \<Rightarrow>
        (let query = take FAKEDNS_MAX_UDP_SIZE (dg_data d) in
         case fakedns_process_query xxh (dg_memalign_ok d) (dg_now d) True query
                (query @ replicate (FAKEDNS_MAX_UDP_SIZE - length query) 0) st m of
           (n, b, r) \<Rightarrow> (take n b, r)))"

lemma put_header_append: "12 \<le> length p \<Longrightarrow> put_header f (p @ t) = put_header f p @ t"
  by (simp add: put_header_def list_update_append)

lemma put_flags_append: "12 \<le> length p \<Longrightarrow> put_flags f (p @ t) = put_flags f p @ t"
  by (simp add: put_flags_def list_update_append)

lemma put_at_end: "length p = n \<Longrightarrow> put n xs (p @ t) = p @ xs @ drop (length xs) t"
  by (simp add: put_def)

lemma query_a_append:
  assumes "length p = resp_len" "12 \<le> resp_len" "length t = length t'"
    "query_a xxh mem now domain f resp_len (p @ t) st = (n, b, st1)"
    "query_a xxh mem now domain f resp_len (p @ t') st = (n', b', st1')"
  shows "n' = n \<and> st1' = st1 \<and> take n b' = take n b"
  using assms
  by (auto simp: query_a_def put_at_end put_flags_append list_update_append split: prod.splits if_splits)

lemma query_ptr_append:
  assumes "length p = resp_len" "12 \<le> resp_len" "length t = length t'"
    "query_ptr domain resp_len (p @ t) st m = (n, b, m1)"
    "query_ptr domain resp_len (p @ t') st m = (n', b', m1')"
  shows "n' = n \<and> m1' = m1 \<and> take n b' = take n b"
  using assms
  by (auto simp: query_ptr_def put_at_end list_update_append split: prod.splits if_splits option.splits)

lemma process_query_tail:
  assumes "fakedns_process_query xxh mem now True q (q @ u) st m = (n, b, st1, m1)"
    "fakedns_process_query xxh mem now True q (q @ u') st m = (n', b', st1', m1')" "length u = length u'"
  shows "n' = n \<and> st1' = st1 \<and> m1' = m1 \<and> take n b' = take n b"
proof (cases "\<exists>offset domain. asks q offset domain")
  case False
  then show ?thesis using assms(1,2) process_query_refuses [of q] by simp
next
  case True
  then obtain offset domain where a: "asks q offset domain" by blast
  let ?f = "resp_flags_of q" and ?p = "take (offset + 4) q" and ?t = "drop (offset + 4) q"
  note b = asks_bounds [OF a]
  have p: "length ?p = offset + 4" "12 \<le> offset + 4" "12 \<le> length ?p" using b by simp_all
  have c: "copied True q offset (q @ v) = ?p @ (?t @ v)" for v by (simp add: copied_def)
  have len: "length (put_header f ?p) = offset + 4" "length (?t @ u) = length (?t @ u')" for f
    using p assms(3) by simp_all
  have E: "put_header f (copied True q offset (q @ v)) = put_header f ?p @ (?t @ v)" for f v
    unfolding c by (rule put_header_append [OF p(3)])
  note qa = query_a_append [OF len(1) p(2) len(2)]
  note qp = query_ptr_append [OF len(1) p(2) len(2)]
  have l: "length q \<le> length (q @ v)" for v by simp
  show ?thesis
    using assms(1,2) len(1) unfolding process_query_asks [OF a l] Let_def E
    by (auto split: if_splits prod.splits dest: qa qp)
qed

text \<open>Serving a list of requests one after the other.\<close>

fun serve :: "('q \<Rightarrow> 's \<Rightarrow> 'r \<times> 's) \<Rightarrow> 'q list \<Rightarrow> 's \<Rightarrow> 'r list \<times> 's" where
  "serve reply [] s = ([], s)"
| "serve reply (q # qs) s =
     (case reply q s of (r, s) \<Rightarrow> (case serve reply qs s of (rs, s) \<Rightarrow> (r # rs, s)))"

lemma process_query_reply:
  assumes "fakedns_process_query xxh (dg_memalign_ok d) (dg_now d) True (take len buf) buf st m = (n, b, st1, m1)"
    "length buf = FAKEDNS_MAX_UDP_SIZE" "take len buf = take FAKEDNS_MAX_UDP_SIZE (dg_data d)"
  shows "fakedns_reply xxh d (st, m) = (take n b, st1, m1)"
    "length b = FAKEDNS_MAX_UDP_SIZE" "n > 0 \<longleftrightarrow> take n b \<noteq> []"
proof -
  let ?q = "take FAKEDNS_MAX_UDP_SIZE (dg_data d)"
  have buf: "buf = ?q @ drop len buf" using assms(3) by (metis append_take_drop_id)
  have l: "length (drop len buf) = length (replicate (FAKEDNS_MAX_UDP_SIZE - length ?q) 0)"
    using arg_cong [OF buf, of length] assms(2) by simp
  obtain n' b' st1' m1' where r: "fakedns_process_query xxh (dg_memalign_ok d) (dg_now d) True ?q
      (?q @ replicate (FAKEDNS_MAX_UDP_SIZE - length ?q) 0) st m = (n', b', st1', m1')" by (metis prod_cases4)
  have run: "fakedns_process_query xxh (dg_memalign_ok d) (dg_now d) True ?q (?q @ drop len buf) st m = (n, b, st1, m1)"
    using assms(1,3) buf by simp
  have "n' = n \<and> st1' = st1 \<and> m1' = m1 \<and> take n b' = take n b"
    by (rule process_query_tail [OF run r]) (simp only: l)
  then show "fakedns_reply xxh d (st, m) = (take n b, st1, m1)"
    using r by (simp add: fakedns_reply_def Let_def)
  have frame: "length b = FAKEDNS_MAX_UDP_SIZE \<and> n \<le> length b"
  proof (cases "n = 0")
    case True
    show ?thesis using process_query_length [OF assms(1)] True assms(2) by simp
  next
    case False
    have "take (length (take len buf)) buf = take len buf" by (simp add: min_def)
    then obtain offset where "resp_frame (offset + 4) (copied True (take len buf) offset buf) n b"
      using process_query_frame [OF assms(1) _ False] by metis
    then show ?thesis using assms(2) by (simp add: resp_frame_def copied_def)
  qed
  then show "length b = FAKEDNS_MAX_UDP_SIZE" "n > 0 \<longleftrightarrow> take n b \<noteq> []"
    by (auto simp: FAKEDNS_MAX_UDP_SIZE_def)
qed


section \<open>The batch\<close>

definition server_ok :: "fakedns_server \<Rightarrow> bool" where
  "server_ok srv \<longleftrightarrow>
     length (g_fakedns_batch_packets srv) = FAKEDNS_BATCH_SIZE \<and> length (s_iov_len srv) = FAKEDNS_BATCH_SIZE \<and>
     length (s_namelen srv) = FAKEDNS_BATCH_SIZE \<and> length (s_addrs srv) = FAKEDNS_BATCH_SIZE \<and>
     (\<forall>b \<in> set (g_fakedns_batch_packets srv). length b = FAKEDNS_MAX_UDP_SIZE) \<and>
     (\<forall>a \<in> set (s_addrs srv). length a = sizeof_sockaddr_storage)"

lemma server_reset_ok:
  assumes "server_ok srv"
  shows "server_ok (server_reset (server_init srv))"
    "k < FAKEDNS_BATCH_SIZE \<Longrightarrow> s_iov_len (server_reset (server_init srv)) ! k = FAKEDNS_MAX_UDP_SIZE"
    "k < FAKEDNS_BATCH_SIZE \<Longrightarrow> s_namelen (server_reset (server_init srv)) ! k = sizeof_sockaddr_storage"
  using assms by (auto simp: server_ok_def server_reset_def server_init_def)

lemma server_okI_update:
  assumes "server_ok srv" "length b = FAKEDNS_MAX_UDP_SIZE" "length a = sizeof_sockaddr_storage"
  shows "server_ok (srv\<lparr>g_fakedns_batch_packets := (g_fakedns_batch_packets srv)[i := b],
     s_addrs := (s_addrs srv)[i := a], s_namelen := (s_namelen srv)[i := n]\<rparr>)"
    "server_ok (srv\<lparr>g_fakedns_batch_packets := (g_fakedns_batch_packets srv)[i := b]\<rparr>)"
    "server_ok (srv\<lparr>s_iov_len := (s_iov_len srv)[i := n]\<rparr>)"
  using assms set_update_subset_insert [of "g_fakedns_batch_packets srv" i b]
    set_update_subset_insert [of "s_addrs srv" i a]
  by (auto simp: server_ok_def)

text \<open>What is stored for datagram \<open>d\<close> in place \<open>k\<close>.\<close>

definition stored_at :: "fakedns_server \<Rightarrow> nat \<Rightarrow> nat \<Rightarrow> datagram \<Rightarrow> bool" where
  "stored_at srv k len d \<longleftrightarrow>
     take len (g_fakedns_batch_packets srv ! k) = take FAKEDNS_MAX_UDP_SIZE (dg_data d) \<and>
     take (s_namelen srv ! k) (s_addrs srv ! k) = dg_from d"

lemma kernel_recv_spec:
  assumes "kernel_recv i ds srv = (lens, srv')" "server_ok srv" "i + length ds \<le> FAKEDNS_BATCH_SIZE"
    "\<forall>k < FAKEDNS_BATCH_SIZE. i \<le> k \<longrightarrow> s_iov_len srv ! k = FAKEDNS_MAX_UDP_SIZE \<and> s_namelen srv ! k = sizeof_sockaddr_storage"
    "\<forall>d \<in> set ds. length (dg_from d) \<le> sizeof_sockaddr_storage"
  shows "length lens = length ds \<and> server_ok srv' \<and> (\<forall>j < length ds. stored_at srv' (i + j) (lens ! j) (ds ! j)) \<and>
    (\<forall>k < i. g_fakedns_batch_packets srv' ! k = g_fakedns_batch_packets srv ! k \<and> s_addrs srv' ! k = s_addrs srv ! k \<and>
       s_namelen srv' ! k = s_namelen srv ! k)"
  using assms
proof (induction ds arbitrary: i srv lens)
  case Nil
  then show ?case by simp
next
  case (Cons d ds)
  let ?stored = "take FAKEDNS_MAX_UDP_SIZE (dg_data d)"
  let ?b = "put 0 ?stored (g_fakedns_batch_packets srv ! i)" and ?a = "put 0 (dg_from d) (s_addrs srv ! i)"
  let ?srv = "srv\<lparr>g_fakedns_batch_packets := (g_fakedns_batch_packets srv)[i := ?b],
     s_addrs := (s_addrs srv)[i := ?a], s_namelen := (s_namelen srv)[i := length (dg_from d)]\<rparr>"
  have i: "i < FAKEDNS_BATCH_SIZE" using Cons.prems(3) by simp
  then have old: "length (g_fakedns_batch_packets srv ! i) = FAKEDNS_MAX_UDP_SIZE" "length (s_addrs srv ! i) = sizeof_sockaddr_storage"
    "length (g_fakedns_batch_packets srv) = FAKEDNS_BATCH_SIZE" "length (s_addrs srv) = FAKEDNS_BATCH_SIZE"
    "length (s_namelen srv) = FAKEDNS_BATCH_SIZE"
    using Cons.prems(2) by (auto simp: server_ok_def)
  have la: "length (dg_from d) \<le> sizeof_sockaddr_storage" using Cons.prems(5) by simp
  obtain lens' where rec: "kernel_recv (i + 1) ds ?srv = (lens', srv')" and lens: "lens = length ?stored # lens'"
    using Cons.prems(1,4) i la by (auto simp: Let_def split: prod.splits)
  have ok: "server_ok ?srv"
    using old la by (intro server_okI_update(1) [OF Cons.prems(2)]) simp_all
  have "\<forall>k < FAKEDNS_BATCH_SIZE. i + 1 \<le> k \<longrightarrow> s_iov_len ?srv ! k = FAKEDNS_MAX_UDP_SIZE \<and> s_namelen ?srv ! k = sizeof_sockaddr_storage"
    using Cons.prems(4) by simp
  note IH = Cons.IH [OF rec ok _ this]
  have IH': "length lens' = length ds" "server_ok srv'" "\<forall>j < length ds. stored_at srv' (i + 1 + j) (lens' ! j) (ds ! j)"
    "\<forall>k < i + 1. g_fakedns_batch_packets srv' ! k = g_fakedns_batch_packets ?srv ! k \<and> s_addrs srv' ! k = s_addrs ?srv ! k \<and>
       s_namelen srv' ! k = s_namelen ?srv ! k"
    using IH Cons.prems(3,5) by auto
  have "stored_at srv' i (length ?stored) d"
    using IH'(4) i old la by (simp add: stored_at_def put_def) (simp add: min_def)
  then have "\<forall>j < length (d # ds). stored_at srv' (i + j) (lens ! j) ((d # ds) ! j)"
    using IH'(3) lens by (auto simp: nth_Cons split: nat.splits)
  then show ?case using IH' lens by simp
qed

lemma answer_loop_spec:
  assumes "answer_loop xxh i ds srv st m = (sends, srv', st', m')" "server_ok srv" "i + length ds \<le> FAKEDNS_BATCH_SIZE"
    "\<forall>j < length ds. stored_at srv (i + j) (fst (ds ! j)) (snd (ds ! j))"
  shows "server_ok srv' \<and> s_namelen srv' = s_namelen srv \<and> s_addrs srv' = s_addrs srv \<and>
    (\<forall>k < i. g_fakedns_batch_packets srv' ! k = g_fakedns_batch_packets srv ! k \<and> s_iov_len srv' ! k = s_iov_len srv ! k) \<and>
    (\<exists>rs. serve (fakedns_reply xxh) (map snd ds) (st, m) = (rs, st', m') \<and>
       send_msgs srv' sends = map (\<lambda>(d, r). (dg_from d, r)) (filter (\<lambda>(d, r). r \<noteq> []) (zip (map snd ds) rs)))"
  using assms
proof (induction ds arbitrary: i srv st m sends)
  case Nil
  then show ?case by (simp add: send_msgs_def)
next
  case (Cons p ds)
  obtain len d where p: "p = (len, d)" by (cases p)
  let ?buf = "g_fakedns_batch_packets srv ! i"
  have i: "i < FAKEDNS_BATCH_SIZE" using Cons.prems(3) by simp
  have at: "stored_at srv i len d" using Cons.prems(4) p by force
  obtain n b st1 m1 where q: "fakedns_process_query xxh (dg_memalign_ok d) (dg_now d) True (take len ?buf) ?buf st m = (n, b, st1, m1)"
    by (metis prod_cases4)
  have lb: "length ?buf = FAKEDNS_MAX_UDP_SIZE" "length (g_fakedns_batch_packets srv) = FAKEDNS_BATCH_SIZE"
    "length (s_iov_len srv) = FAKEDNS_BATCH_SIZE"
    using Cons.prems(2) i by (auto simp: server_ok_def)
  note r = process_query_reply [OF q lb(1) at [unfolded stored_at_def, THEN conjunct1]]
  let ?srv1 = "srv\<lparr>g_fakedns_batch_packets := (g_fakedns_batch_packets srv)[i := b]\<rparr>"
  let ?srv2 = "if n > 0 then ?srv1\<lparr>s_iov_len := (s_iov_len srv)[i := n]\<rparr> else ?srv1"
  obtain sends' where rec: "answer_loop xxh (i + 1) ds ?srv2 st1 m1 = (sends', srv', st', m')"
      and sends: "sends = (if n > 0 then i # sends' else sends')"
    using Cons.prems(1) unfolding p by (auto simp: q Let_def split: prod.splits if_splits)
  have some_addr: "length (replicate sizeof_sockaddr_storage (0 :: u8)) = sizeof_sockaddr_storage" by simp
  have ok1: "server_ok ?srv1" by (rule server_okI_update(2) [OF Cons.prems(2) r(2) some_addr])
  then have ok2: "server_ok ?srv2" using server_okI_update(3) [OF ok1 r(2) some_addr, of i n] by simp
  have "\<forall>j < length ds. stored_at ?srv2 (i + 1 + j) (fst (ds ! j)) (snd (ds ! j))"
    using Cons.prems(4) by (force simp: stored_at_def)
  note IH = Cons.IH [OF rec ok2 _ this]
  obtain rs where IH': "server_ok srv'" "s_namelen srv' = s_namelen srv" "s_addrs srv' = s_addrs srv"
    "\<forall>k < i + 1. g_fakedns_batch_packets srv' ! k = g_fakedns_batch_packets ?srv2 ! k \<and> s_iov_len srv' ! k = s_iov_len ?srv2 ! k"
    "serve (fakedns_reply xxh) (map snd ds) (st1, m1) = (rs, st', m')"
    "send_msgs srv' sends' = map (\<lambda>(d, r). (dg_from d, r)) (filter (\<lambda>(d, r). r \<noteq> []) (zip (map snd ds) rs))"
    using IH Cons.prems(3) by auto
  have "n > 0 \<Longrightarrow> send_msgs srv' [i] = [(dg_from d, take n b)]"
    using IH'(2-4) i lb at by (simp add: send_msgs_def stored_at_def)
  moreover have "send_msgs srv' (i # sends') = send_msgs srv' [i] @ send_msgs srv' sends'" by (simp add: send_msgs_def)
  ultimately have msgs: "send_msgs srv' sends = (if take n b \<noteq> [] then [(dg_from d, take n b)] else []) @ send_msgs srv' sends'"
    using sends r(3) by (cases "n > 0") simp_all
  have "serve (fakedns_reply xxh) (map snd (p # ds)) (st, m) = (take n b # rs, st', m')"
    using p r(1) IH'(5) by simp
  then show ?case
    using IH' msgs p by auto
qed

section \<open>Requests served one after the other\<close>

text \<open>The contract a batch rests on: every request advances the invariant by one.\<close>

locale responder =
  fixes reply :: "'q \<Rightarrow> 's \<Rightarrow> 'r \<times> 's" and inv :: "nat \<Rightarrow> 's \<Rightarrow> bool"
  assumes step: "inv n s \<Longrightarrow> reply q s = (r, s') \<Longrightarrow> inv (Suc n) s'"
begin

lemma serve_inv: "inv n s \<Longrightarrow> serve reply qs s = (rs, s') \<Longrightarrow> inv (n + length qs) s'"
proof (induction qs arbitrary: n s rs)
  case (Cons q qs)
  obtain r s1 where r: "reply q s = (r, s1)" by fastforce
  then show ?case using Cons.IH [of "Suc n" s1] Cons.prems step [OF Cons.prems(1) r]
    by (auto split: prod.splits)
qed simp

lemma serve_length: "serve reply qs s = (rs, s') \<Longrightarrow> length rs = length qs"
  by (induction qs arbitrary: s rs) (auto split: prod.splits)

text \<open>The \<open>j\<close>-th answer is given in a state that satisfies the invariant.\<close>

lemma serve_nth:
  assumes "inv n s" "serve reply qs s = (rs, s')" "j < length qs"
  shows "\<exists>sj. inv (n + j) sj \<and> fst (reply (qs ! j) sj) = rs ! j"
  using assms
proof (induction qs arbitrary: n s rs j)
  case (Cons q qs)
  obtain r s1 where r: "reply q s = (r, s1)" by fastforce
  obtain rs' where rs': "serve reply qs s1 = (rs', s')" "rs = r # rs'"
    using Cons.prems(2) r by (auto split: prod.splits)
  show ?case
  proof (cases j)
    case 0
    then show ?thesis using Cons.prems(1) r rs' by (intro exI [of _ s]) simp
  next
    case (Suc j')
    then show ?thesis using Cons.IH [OF step [OF Cons.prems(1) r] rs'(1)] Cons.prems(3) rs'(2) by simp
  qed
qed simp

end

definition dns_inv :: "nat \<Rightarrow> fakedns \<times> fakedns_mru \<Rightarrow> bool" where
  "dns_inv n s \<longleftrightarrow> (n < 2 ^ 32 \<longrightarrow> fakedns_inv n (fst s) (\<lambda>_ :: unit. snd s))"

lemma dns_reply_inv:
  assumes "dns_inv n s" "fakedns_reply xxh d s = (r, s')"
  shows "dns_inv (Suc n) s'"
proof -
  obtain st m where s: "s = (st, m)" by (cases s)
  let ?q = "take FAKEDNS_MAX_UDP_SIZE (dg_data d)"
  obtain k b st1 m1 where run: "fakedns_process_query xxh (dg_memalign_ok d) (dg_now d) True ?q
      (?q @ replicate (FAKEDNS_MAX_UDP_SIZE - length ?q) 0) st m = (k, b, st1, m1)" by (metis prod_cases4)
  then have s': "s' = (st1, m1)" using assms(2) by (simp add: fakedns_reply_def s Let_def)
  show ?thesis
    unfolding dns_inv_def
  proof
    assume "Suc n < 2 ^ 32"
    then have "fakedns_inv (Suc n) st1 ((\<lambda>_ :: unit. m)(() := m1))"
      using process_query_inv [where ms = "\<lambda>_ :: unit. m" and t = "()", OF _ _ run, of n] assms(1) by (simp add: dns_inv_def s)
    moreover have "(\<lambda>_ :: unit. m)(() := m1) = (\<lambda>_. m1)" by auto
    ultimately show "fakedns_inv (Suc n) (fst s') (\<lambda>_ :: unit. snd s')" by (simp add: s')
  qed
qed

interpretation dns: responder "fakedns_reply xxh" dns_inv for xxh
  by unfold_locales (rule dns_reply_inv)

section \<open>Runs of the callback\<close>

lemma fakedns_server_batch_aux:
  assumes "server_ok srv" "length ds \<le> FAKEDNS_BATCH_SIZE" "\<forall>d \<in> set ds. length (dg_from d) \<le> sizeof_sockaddr_storage"
    "fakedns_server_recv_cb xxh (Some ds) srv st m = (msgs, srv', st', m')"
  shows "server_ok srv' \<and> (\<exists>rs. serve (fakedns_reply xxh) ds (st, m) = (rs, st', m') \<and>
    msgs = map (\<lambda>(d, r). (dg_from d, r)) (filter (\<lambda>(d, r). r \<noteq> []) (zip ds rs)))"
proof -
  let ?srv = "server_reset (server_init srv)"
  note reset = server_reset_ok [OF assms(1)]
  obtain lens srv1 where k: "kernel_recv 0 ds ?srv = (lens, srv1)" by fastforce
  have "\<forall>k < FAKEDNS_BATCH_SIZE. 0 \<le> k \<longrightarrow> s_iov_len ?srv ! k = FAKEDNS_MAX_UDP_SIZE \<and> s_namelen ?srv ! k = sizeof_sockaddr_storage"
    using reset by simp
  then have k1: "length lens = length ds" "server_ok srv1" "\<forall>j < length ds. stored_at srv1 j (lens ! j) (ds ! j)"
    using kernel_recv_spec [OF k reset(1) _ _ assms(3)] assms(2) by simp_all
  obtain sends srv2 st2 m2 where a: "answer_loop xxh 0 (zip lens ds) srv1 st m = (sends, srv2, st2, m2)"
    by (metis prod_cases4)
  have "fakedns_server_recv_cb xxh (Some ds) srv st m = (send_msgs srv2 sends, srv2, st2, m2)"
    by (simp add: fakedns_server_recv_cb_def k a)
  then have msgs: "msgs = send_msgs srv2 sends" "srv' = srv2" "st' = st2" "m' = m2"
    using assms(4) by simp_all
  have snd: "map snd (zip lens ds) = ds" using k1(1) by simp
  have len: "0 + length (zip lens ds) \<le> FAKEDNS_BATCH_SIZE" using k1(1) assms(2) by simp
  have stored: "\<forall>j < length (zip lens ds). stored_at srv1 (0 + j) (fst (zip lens ds ! j)) (snd (zip lens ds ! j))"
    using k1(1,3) by simp
  show ?thesis
    using answer_loop_spec [OF a k1(2) len stored] unfolding snd msgs by blast
qed

inductive server_run :: "(bytes \<Rightarrow> u64) \<Rightarrow> nat \<Rightarrow> fakedns_server \<Rightarrow> fakedns \<Rightarrow> fakedns_mru \<Rightarrow> bool" for xxh where
  run_start: "fakedns_started v st \<Longrightarrow> server_run xxh v fakedns_server_static st fakedns_mru_static"
| run_batch: "server_run xxh n srv st m \<Longrightarrow> length ds \<le> FAKEDNS_BATCH_SIZE \<Longrightarrow>
    \<forall>d \<in> set ds. length (dg_from d) \<le> sizeof_sockaddr_storage \<Longrightarrow>
    fakedns_server_recv_cb xxh (Some ds) srv st m = (msgs, srv', st', m') \<Longrightarrow> server_run xxh (n + length ds) srv' st' m'"
| run_error: "server_run xxh n srv st m \<Longrightarrow>
    fakedns_server_recv_cb xxh None srv st m = (msgs, srv', st', m') \<Longrightarrow> server_run xxh n srv' st' m'"

lemma server_static_ok: "server_ok fakedns_server_static"
  by (simp add: server_ok_def fakedns_server_static_def)

lemma server_run_inv: "server_run xxh n srv st m \<Longrightarrow> server_ok srv \<and> dns_inv n (st, m)"
proof (induction rule: server_run.induct)
  case (run_start v st)
  then show ?case by (simp add: dns_inv_def server_static_ok fakedns_inv_started [OF run_start])
next
  case (run_batch n srv st m ds msgs srv' st' m')
  then obtain rs where rs: "server_ok srv'" "serve (fakedns_reply xxh) ds (st, m) = (rs, st', m')"
    using fakedns_server_batch_aux [OF _ run_batch.hyps(2-4)] by blast
  then show ?case using dns.serve_inv [OF _ rs(2)] run_batch.IH by blast
next
  case (run_error n srv st m msgs srv' st' m')
  then show ?case using server_reset_ok(1) by (auto simp: fakedns_server_recv_cb_def Let_def)
qed

section \<open>A concrete batch\<close>

definition demo_datagram :: datagram where
  "demo_datagram = \<lparr>dg_from = [10, 0, 0, 7], dg_data = demo_query, dg_memalign_ok = True, dg_now = 100\<rparr>"

lemma demo_server_start: "server_run demo_hash 0 fakedns_server_static demo_pool fakedns_mru_static"
  by (rule run_start [OF demo_started])

lemma demo_reply:
  "fakedns_reply demo_hash demo_datagram (demo_pool, fakedns_mru_static) =
   (dns_response 7 (dns_flags 0x0100) 1 [1, 97, 1, 98, 0] 1 (answer_a (htonl 0x0A000061)), demo_pool1, fakedns_mru_static)"
proof -
  have l: "length demo_query = 21" by (simp add: demo_query_def)
  then have q: "take FAKEDNS_MAX_UDP_SIZE (dg_data demo_datagram) = demo_query"
    by (simp add: demo_datagram_def FAKEDNS_MAX_UDP_SIZE_def)
  let ?b = "demo_query @ replicate (FAKEDNS_MAX_UDP_SIZE - length demo_query) 0"
  obtain n b' st' m' where run: "fakedns_process_query demo_hash True 100 True demo_query ?b demo_pool fakedns_mru_static =
      (n, b', st', m')" by (metis prod_cases4)
  have buf: "dns_buffer True demo_query ?b" using l by (simp add: dns_buffer_def FAKEDNS_MAX_UDP_SIZE_def)
  have "fakedns_lookup_domain demo_hash True 100 (map qname_lower (ascii ''a.b'')) demo_pool = (htonl 0x0A000061, demo_pool1)"
    unfolding demo_lower by (rule demo_lookup)
  from fakedns_answers_a_aux [OF demo_name _ _ demo_query_def buf this run]
  show ?thesis using run q by (simp add: fakedns_reply_def htonl_eq_0_iff demo_datagram_def)
qed

section \<open>Properties\<close>

text \<open>C22. One callback answers a batch as if its queries came alone, in order, each in a clean buffer: every
  answer goes to the address its query came from, a refused query sends nothing, no byte of an earlier packet
  in a buffer reaches an answer, and what an earlier callback left in the vectors makes no difference.\<close>

theorem fakedns_server_batch:
  assumes "server_run xxh n srv st m" "length ds \<le> FAKEDNS_BATCH_SIZE"
    "\<forall>d \<in> set ds. length (dg_from d) \<le> sizeof_sockaddr_storage"
    "fakedns_server_recv_cb xxh (Some ds) srv st m = (msgs, srv', st', m')"
  shows "\<exists>rs. serve (fakedns_reply xxh) ds (st, m) = (rs, st', m') \<and>
    msgs = map (\<lambda>(d, r). (dg_from d, r)) (filter (\<lambda>(d, r). r \<noteq> []) (zip ds rs))"
  using fakedns_server_batch_aux [OF _ assms(2-4)] server_run_inv [OF assms(1)] by blast

theorem fakedns_server_batch_witness:
  "\<exists>srv'. fakedns_server_recv_cb demo_hash (Some [demo_datagram]) fakedns_server_static demo_pool fakedns_mru_static =
    ([([10, 0, 0, 7], dns_response 7 (dns_flags 0x0100) 1 [1, 97, 1, 98, 0] 1 (answer_a (htonl 0x0A000061)))],
     srv', demo_pool1, fakedns_mru_static)"
proof -
  obtain msgs srv' st' m' where run: "fakedns_server_recv_cb demo_hash (Some [demo_datagram]) fakedns_server_static
      demo_pool fakedns_mru_static = (msgs, srv', st', m')" by (metis prod_cases4)
  from fakedns_server_batch [OF demo_server_start _ _ run] show ?thesis
    using run by (simp add: demo_reply FAKEDNS_BATCH_SIZE_def sizeof_sockaddr_storage_def dns_response_def be16_def)
      (simp add: demo_datagram_def)
qed

text \<open>C23. However many batches the server has answered, below \<open>2 ^ 32\<close> queries, the pool is well formed and
  the cache of the DNS thread agrees with it.\<close>

theorem fakedns_server_run_ok:
  assumes "server_run xxh n srv st m" "n < 2 ^ 32"
  shows "fakedns_wf st \<and> mru_ok st m \<and> server_ok srv"
  using server_run_inv [OF assms(1)] assms(2) by (simp add: dns_inv_def fakedns_inv_def)

theorem fakedns_server_run_ok_witness: "fakedns_wf demo_pool \<and> mru_ok demo_pool fakedns_mru_static"
  using fakedns_server_run_ok [OF demo_server_start] by simp

end
