(* ===== verification/Mempool.thy ===== *)
theory Mempool
  imports Prelude
begin

text \<open>
  The fixed-size block pool of \<^verbatim>\<open>src/src/mempool.c\<close>, from which the TCP and UDP sessions
  are allocated. Addresses are natural numbers below \<open>2 ^ 64\<close>. The store maps the address of a block
  header to its contents, so the free list is what it is in the code: a chain of
  \<^verbatim>\<open>next_free\<close> pointers through the headers. The list of slabs is a list of address and
  block count, the newest first; \<open>None\<close> is a NULL pointer.

  \<^verbatim>\<open>posix_memalign\<close> is an argument, the address it returns for a size; what is relied on of
  it is stated as \<open>posix_memalign_ok\<close>. The log is left out. Counters that can grow without bound wrap at
  \<open>2 ^ 64\<close>.
\<close>

section \<open>State\<close>

definition MEMPOOL_MAGIC_POOL :: u32 where "MEMPOOL_MAGIC_POOL = 0xDEADBEEF"
definition MEMPOOL_MAGIC_FREE :: u32 where "MEMPOOL_MAGIC_FREE = 0x00000000"
definition CACHELINE_SIZE :: nat where "CACHELINE_SIZE = 64"
definition EXPAND_BATCH_SIZE :: nat where "EXPAND_BATCH_SIZE = 32"
definition SIZE_T_MAX :: nat where "SIZE_T_MAX = 2 ^ 64 - 1"

lemmas mempool_consts =
  MEMPOOL_MAGIC_POOL_def MEMPOOL_MAGIC_FREE_def CACHELINE_SIZE_def EXPAND_BATCH_SIZE_def SIZE_T_MAX_def

record block_header =
  bh_magic :: u32
  bh_next_free :: "nat option"

record memory_pool =
  mp_slab_list :: "(nat \<times> nat) list"
  mp_last_freed_slab :: "(nat \<times> nat) option"
  mp_free_list :: "nat option"
  mp_block_size :: nat
  mp_total_size :: nat
  mp_pool_blocks :: nat
  mp_max_blocks :: nat
  mp_free_count :: nat
  mp_pool_allocs :: nat
  mp_pool_frees :: nat
  mp_warn_counter :: nat

type_synonym heap = "nat \<rightharpoonup> block_header"
type_synonym mempool_state = "memory_pool \<times> heap"

definition block_to_data :: "nat \<Rightarrow> nat" where
  "block_to_data header = header + CACHELINE_SIZE"

definition data_to_header :: "nat \<Rightarrow> nat" where
  "data_to_header ptr = (ptr + 2 ^ 64 - CACHELINE_SIZE) mod 2 ^ 64"

definition mempool_physical_size :: "memory_pool \<Rightarrow> nat" where
  "mempool_physical_size pool =
     (88 + (\<Sum>(a, n) \<leftarrow> mp_slab_list pool. CACHELINE_SIZE + n * mp_total_size pool)) mod 2 ^ 64"

section \<open>Operations\<close>

text \<open>The loop that links the \<open>n\<close> new blocks from \<open>cur\<close> on, the last one to the old free list.\<close>

fun link_blocks :: "nat \<Rightarrow> nat \<Rightarrow> nat \<Rightarrow> nat option \<Rightarrow> heap \<Rightarrow> heap" where
  "link_blocks stride 0 cur tail h = h"
| "link_blocks stride (Suc n) cur tail h =
     link_blocks stride n (cur + stride) tail
       (h(cur \<mapsto> \<lparr>bh_magic = MEMPOOL_MAGIC_FREE, bh_next_free = (if n > 0 then Some (cur + stride) else tail)\<rparr>))"

definition expand_pool_batch :: "(nat \<Rightarrow> nat option) \<Rightarrow> nat \<Rightarrow> mempool_state \<Rightarrow> nat \<times> mempool_state" where
  "expand_pool_batch memalign batch_count s =
     (case s of (pool, h) \<Rightarrow>
        if batch_count = 0 then (0, s)
        else if batch_count > (SIZE_T_MAX - CACHELINE_SIZE) div mp_total_size pool then (0, s)
        else (case memalign (CACHELINE_SIZE + batch_count * mp_total_size pool) of
                None \<Rightarrow> (0, s)
              | Some slab_raw \<Rightarrow>
                  (let first_block = slab_raw + CACHELINE_SIZE;
                       h = link_blocks (mp_total_size pool) batch_count first_block (mp_free_list pool) h
                   in (batch_count,
                       (pool\<lparr>mp_slab_list := (slab_raw, batch_count) # mp_slab_list pool,
                             mp_free_list := Some first_block,
                             mp_pool_blocks := mp_pool_blocks pool + batch_count,
                             mp_free_count := mp_free_count pool + batch_count\<rparr>, h)))))"

definition round_up_cacheline :: "nat \<Rightarrow> nat" where
  "round_up_cacheline n = (n + CACHELINE_SIZE - 1) mod 2 ^ 64 div CACHELINE_SIZE * CACHELINE_SIZE"

definition mempool_create ::
  "bool \<Rightarrow> (nat \<Rightarrow> nat option) \<Rightarrow> nat \<Rightarrow> nat \<Rightarrow> nat \<Rightarrow> heap \<Rightarrow> mempool_state option" where
  "mempool_create calloc_ok memalign block_size initial_blocks max_blocks h =
     (if \<not> calloc_ok then None
      else
        (let pool = \<lparr>mp_slab_list = [], mp_last_freed_slab = None, mp_free_list = None, mp_block_size = block_size,
                     mp_total_size = round_up_cacheline ((CACHELINE_SIZE + block_size) mod 2 ^ 64), mp_pool_blocks = 0,
                     mp_max_blocks = (if max_blocks = 0 then SIZE_T_MAX else max_blocks),
                     mp_free_count = 0, mp_pool_allocs = 0, mp_pool_frees = 0, mp_warn_counter = 0\<rparr>
         in if initial_blocks > 0
            then (let want = min initial_blocks (mp_max_blocks pool) in
                  case expand_pool_batch memalign want (pool, h) of
                    (got, s) \<Rightarrow> if got < want then None else Some s)
            else Some (pool, h)))"

definition mempool_alloc_sized :: "(nat \<Rightarrow> nat option) \<Rightarrow> nat \<Rightarrow> mempool_state \<Rightarrow> nat option \<times> mempool_state" where
  "mempool_alloc_sized memalign sz s =
     (if sz > mp_block_size (fst s) then (None, s)
      else
        (let s = (if mp_free_list (fst s) = None \<and> mp_pool_blocks (fst s) < mp_max_blocks (fst s)
                  then snd (expand_pool_batch memalign
                              (min EXPAND_BATCH_SIZE (mp_max_blocks (fst s) - mp_pool_blocks (fst s))) s)
                  else s)
         in case s of (pool, h) \<Rightarrow>
              (case mp_free_list pool of
                 Some header \<Rightarrow>
                   (Some (block_to_data header),
                    (pool\<lparr>mp_free_list := bh_next_free (the (h header)),
                          mp_free_count := mp_free_count pool - 1,
                          mp_pool_allocs := (mp_pool_allocs pool + 1) mod 2 ^ 64\<rparr>,
                     h(header \<mapsto> \<lparr>bh_magic = MEMPOOL_MAGIC_POOL, bh_next_free = None\<rparr>)))
               | None \<Rightarrow> (None, (pool\<lparr>mp_warn_counter := (mp_warn_counter pool + 1) mod 2 ^ 64\<rparr>, h)))))"

text \<open>The bytes of memory, for the zeroing of \<^verbatim>\<open>mempool_calloc_sized\<close>.\<close>

definition mempool_calloc_sized ::
  "(nat \<Rightarrow> nat option) \<Rightarrow> nat \<Rightarrow> mempool_state \<Rightarrow> (nat \<Rightarrow> u8) \<Rightarrow> nat option \<times> mempool_state \<times> (nat \<Rightarrow> u8)" where
  "mempool_calloc_sized memalign sz s mem =
     (case mempool_alloc_sized memalign sz s of
        (None, s) \<Rightarrow> (None, s, mem)
      | (Some ptr, s) \<Rightarrow>
          (Some ptr, s, \<lambda>a. if ptr \<le> a \<and> a < ptr + mp_block_size (fst s) then 0 else mem a))"

definition verify_boundary :: "memory_pool \<Rightarrow> (nat \<times> nat) option \<Rightarrow> nat \<Rightarrow> bool" where
  "verify_boundary pool slab addr =
     (case slab of
        None \<Rightarrow> False
      | Some (a, n) \<Rightarrow>
          (let slab_start = a + CACHELINE_SIZE; slab_end = slab_start + n * mp_total_size pool
           in addr \<ge> slab_start \<and> addr < slab_end \<and> (addr - slab_start) mod mp_total_size pool = 0))"

fun find_slab :: "memory_pool \<Rightarrow> (nat \<times> nat) list \<Rightarrow> nat \<Rightarrow> (nat \<times> nat) option" where
  "find_slab pool [] addr = None"
| "find_slab pool (slab # slabs) addr =
     (if verify_boundary pool (Some slab) addr then Some slab else find_slab pool slabs addr)"

text \<open>The part after the boundary check: the state of the block decides.\<close>

definition free_block :: "nat \<Rightarrow> mempool_state \<Rightarrow> mempool_state" where
  "free_block header s =
     (case s of (pool, h) \<Rightarrow>
        (case h header of
           None \<Rightarrow> s
         | Some b \<Rightarrow>
             if bh_magic b = MEMPOOL_MAGIC_FREE then s
             else if bh_magic b \<noteq> MEMPOOL_MAGIC_POOL then s
             else (pool\<lparr>mp_free_list := Some header,
                        mp_free_count := mp_free_count pool + 1,
                        mp_pool_frees := (mp_pool_frees pool + 1) mod 2 ^ 64\<rparr>,
                   h(header \<mapsto> \<lparr>bh_magic = MEMPOOL_MAGIC_FREE, bh_next_free = mp_free_list pool\<rparr>))))"

definition internal_free :: "nat \<Rightarrow> mempool_state \<Rightarrow> mempool_state" where
  "internal_free ptr s =
     (if ptr = 0 then s
      else
        (case s of (pool, h) \<Rightarrow>
           (let hdr = data_to_header ptr in
            if verify_boundary pool (mp_last_freed_slab pool) hdr then free_block hdr s
            else (case find_slab pool (mp_slab_list pool) hdr of
                    None \<Rightarrow> s
                  | Some slab \<Rightarrow> free_block hdr (pool\<lparr>mp_last_freed_slab := Some slab\<rparr>, h)))))"

definition mempool_free_sized :: "nat \<Rightarrow> nat \<Rightarrow> mempool_state \<Rightarrow> mempool_state" where
  "mempool_free_sized ptr sz s = internal_free ptr s"

definition mempool_destroy :: "mempool_state \<Rightarrow> nat" where
  "mempool_destroy s =
     (if mp_free_count (fst s) \<le> mp_pool_blocks (fst s)
      then mp_pool_blocks (fst s) - mp_free_count (fst s) else 0)"

section \<open>Invariant\<close>

definition slab_blocks :: "nat \<Rightarrow> nat \<times> nat \<Rightarrow> nat set" where
  "slab_blocks stride slab = (\<lambda>i. fst slab + CACHELINE_SIZE + i * stride) ` {..<snd slab}"

definition pool_blocks :: "memory_pool \<Rightarrow> nat set" where
  "pool_blocks pool = (\<Union>slab \<in> set (mp_slab_list pool). slab_blocks (mp_total_size pool) slab)"

definition slab_range :: "nat \<Rightarrow> nat \<times> nat \<Rightarrow> nat set" where
  "slab_range stride slab = {fst slab ..< fst slab + CACHELINE_SIZE + snd slab * stride}"

definition slab_ok :: "nat \<Rightarrow> nat \<times> nat \<Rightarrow> bool" where
  "slab_ok stride slab \<longleftrightarrow>
     0 < snd slab \<and> 0 < fst slab \<and> fst slab mod CACHELINE_SIZE = 0 \<and> fst slab + CACHELINE_SIZE + snd slab * stride \<le> 2 ^ 64"

text \<open>The free list as the chain it is in the store.\<close>

fun free_chain :: "heap \<Rightarrow> nat option \<Rightarrow> nat list \<Rightarrow> bool" where
  "free_chain h p [] \<longleftrightarrow> p = None"
| "free_chain h p (b # bs) \<longleftrightarrow> p = Some b \<and> (\<exists>x. h b = Some x \<and> free_chain h (bh_next_free x) bs)"

definition block_magic :: "heap \<Rightarrow> nat \<Rightarrow> u32 option" where
  "block_magic h b = map_option bh_magic (h b)"

definition pool_ok :: "mempool_state \<Rightarrow> bool" where
  "pool_ok s \<longleftrightarrow>
     (case s of (pool, h) \<Rightarrow>
        CACHELINE_SIZE + mp_block_size pool \<le> mp_total_size pool \<and> mp_total_size pool mod CACHELINE_SIZE = 0 \<and>
        (\<forall>slab \<in> set (mp_slab_list pool). slab_ok (mp_total_size pool) slab) \<and>
        pairwise (\<lambda>a b. disjnt (slab_range (mp_total_size pool) a) (slab_range (mp_total_size pool) b)) (set (mp_slab_list pool)) \<and>
        distinct (mp_slab_list pool) \<and>
        mp_pool_blocks pool = sum_list (map snd (mp_slab_list pool)) \<and> mp_pool_blocks pool \<le> mp_max_blocks pool \<and>
        (\<forall>b \<in> pool_blocks pool. block_magic h b \<in> {Some MEMPOOL_MAGIC_POOL, Some MEMPOOL_MAGIC_FREE}) \<and>
        (\<forall>slab. mp_last_freed_slab pool = Some slab \<longrightarrow> slab \<in> set (mp_slab_list pool)) \<and>
        (\<exists>bs. free_chain h (mp_free_list pool) bs \<and> distinct bs \<and>
              set bs = {b \<in> pool_blocks pool. block_magic h b = Some MEMPOOL_MAGIC_FREE} \<and>
              mp_free_count pool = length bs))"

text \<open>The pointers handed out and not given back.\<close>

definition pool_live :: "mempool_state \<Rightarrow> nat set" where
  "pool_live s = block_to_data ` {b \<in> pool_blocks (fst s). block_magic (snd s) b = Some MEMPOOL_MAGIC_POOL}"

text \<open>What \<^verbatim>\<open>posix_memalign\<close> promises: an aligned range inside the address space that overlaps
  no slab in use.\<close>

definition posix_memalign_ok :: "(nat \<Rightarrow> nat option) \<Rightarrow> mempool_state \<Rightarrow> bool" where
  "posix_memalign_ok memalign s \<longleftrightarrow>
     (\<forall>sz a. memalign sz = Some a \<longrightarrow>
        0 < a \<and> a mod CACHELINE_SIZE = 0 \<and> a + sz \<le> 2 ^ 64 \<and>
        (\<forall>slab \<in> set (mp_slab_list (fst s)). disjnt {a ..< a + sz} (slab_range (mp_total_size (fst s)) slab)))"

section \<open>Chains and blocks\<close>

lemma free_chain_upd [simp]: "b \<notin> set bs \<Longrightarrow> free_chain (h(b := x)) p bs = free_chain h p bs"
  by (induction bs arbitrary: p) auto

lemma free_chain_cong: "(\<forall>b \<in> set bs. h' b = h b) \<Longrightarrow> free_chain h' p bs = free_chain h p bs"
  by (induction bs arbitrary: p) auto

lemma free_chain_dom: "free_chain h p bs \<Longrightarrow> b \<in> set bs \<Longrightarrow> h b \<noteq> None"
  by (induction bs arbitrary: p) auto

lemma link_blocks_outside:
  "a \<notin> (\<lambda>i. cur + i * stride) ` {..<n} \<Longrightarrow> link_blocks stride n cur tail h a = h a"
proof (induction n arbitrary: cur h)
  case (Suc n)
  have "a \<notin> (\<lambda>i. cur + stride + i * stride) ` {..<n}"
  proof
    assume "a \<in> (\<lambda>i. cur + stride + i * stride) ` {..<n}"
    then obtain i where "i < n" "a = cur + Suc i * stride" by auto
    then show False using Suc.prems by (metis Suc_mono imageI lessThan_iff)
  qed
  moreover have "a \<noteq> cur" using Suc.prems by force
  ultimately show ?case using Suc.IH by simp
qed simp

lemma link_blocks_chain:
  assumes "0 < stride" "free_chain h tail bs" "set bs \<inter> (\<lambda>i. cur + i * stride) ` {..<n} = {}" "0 < n"
  shows "free_chain (link_blocks stride n cur tail h) (Some cur) (map (\<lambda>i. cur + i * stride) [0..<n] @ bs)"
    "i < n \<Longrightarrow> block_magic (link_blocks stride n cur tail h) (cur + i * stride) = Some MEMPOOL_MAGIC_FREE"
proof -
  have "free_chain (link_blocks stride n cur tail h) (Some cur) (map (\<lambda>i. cur + i * stride) [0..<n] @ bs) \<and>
    (\<forall>i < n. block_magic (link_blocks stride n cur tail h) (cur + i * stride) = Some MEMPOOL_MAGIC_FREE)"
    using assms(2-4)
  proof (induction n arbitrary: cur h)
    case (Suc n)
    let ?hd = "\<lparr>bh_magic = MEMPOOL_MAGIC_FREE, bh_next_free = (if n > 0 then Some (cur + stride) else tail)\<rparr>"
    let ?h = "h(cur \<mapsto> ?hd)"
    have cur: "cur \<notin> set bs" using Suc.prems(2) by force
    have sub: "(\<lambda>i. cur + stride + i * stride) ` {..<n} \<subseteq> (\<lambda>i. cur + i * stride) ` {..<Suc n}"
    proof
      fix a assume "a \<in> (\<lambda>i. cur + stride + i * stride) ` {..<n}"
      then obtain i where "i < n" "a = cur + Suc i * stride" by auto
      then show "a \<in> (\<lambda>i. cur + i * stride) ` {..<Suc n}" by (metis Suc_mono imageI lessThan_iff)
    qed
    have "cur \<notin> (\<lambda>i. cur + stride + i * stride) ` {..<n}" using assms(1) by auto
    from link_blocks_outside [OF this] have hd: "link_blocks stride n (cur + stride) tail ?h cur = Some ?hd" by simp
    have ch: "free_chain ?h tail bs" using cur Suc.prems(1) by simp
    have list: "map (\<lambda>i. cur + i * stride) [0..<Suc n] = cur # map (\<lambda>i. cur + stride + i * stride) [0..<n]"
      by (subst upt_conv_Cons) (simp_all add: map_Suc_upt [symmetric] comp_def del: upt_Suc map_Suc_upt)
    show ?case
    proof (cases "n = 0")
      case True
      have e: "link_blocks stride (Suc n) cur tail h = ?h" using True by simp
      have "free_chain ?h (Some cur) (cur # bs)" using ch True cur by simp
      moreover have "block_magic ?h cur = Some MEMPOOL_MAGIC_FREE" by (simp add: block_magic_def)
      moreover have "map (\<lambda>i. cur + i * stride) [0..<Suc n] @ bs = cur # bs" using True by simp
      moreover have "i < Suc n \<Longrightarrow> cur + i * stride = cur" for i using True by simp
      ultimately show ?thesis unfolding e by metis
    next
      case False
      have IH: "free_chain (link_blocks stride n (cur + stride) tail ?h) (Some (cur + stride))
          (map (\<lambda>i. cur + stride + i * stride) [0..<n] @ bs)"
        "\<forall>i < n. block_magic (link_blocks stride n (cur + stride) tail ?h) (cur + stride + i * stride) = Some MEMPOOL_MAGIC_FREE"
        using Suc.IH [OF ch, of "cur + stride"] Suc.prems(2) sub False by blast+
      have "block_magic (link_blocks stride n (cur + stride) tail ?h) (cur + i * stride) = Some MEMPOOL_MAGIC_FREE" if "i < Suc n" for i
      proof (cases i)
        case 0
        then show ?thesis using hd by (simp add: block_magic_def)
      next
        case (Suc j)
        then show ?thesis using IH(2) that by (auto simp: algebra_simps)
      qed
      then show ?thesis using IH(1) hd False unfolding list by simp
    qed
  qed simp
  then show "free_chain (link_blocks stride n cur tail h) (Some cur) (map (\<lambda>i. cur + i * stride) [0..<n] @ bs)"
    "i < n \<Longrightarrow> block_magic (link_blocks stride n cur tail h) (cur + i * stride) = Some MEMPOOL_MAGIC_FREE" by auto
qed

lemma slab_blocks_range: "CACHELINE_SIZE \<le> stride \<Longrightarrow> b \<in> slab_blocks stride slab \<Longrightarrow> b \<in> slab_range stride slab \<and> b + stride \<le> fst slab + CACHELINE_SIZE + snd slab * stride"
proof -
  assume "CACHELINE_SIZE \<le> stride" "b \<in> slab_blocks stride slab"
  then obtain i where i: "i < snd slab" "b = fst slab + CACHELINE_SIZE + i * stride" by (auto simp: slab_blocks_def)
  then have "Suc i * stride \<le> snd slab * stride" by (intro mult_le_mono1) simp
  then show ?thesis using i \<open>CACHELINE_SIZE \<le> stride\<close> by (auto simp: slab_range_def CACHELINE_SIZE_def)
qed

lemma card_slab_blocks: "0 < stride \<Longrightarrow> finite (slab_blocks stride slab) \<and> card (slab_blocks stride slab) = snd slab"
  unfolding slab_blocks_def by (subst card_image) (auto simp: inj_on_def)

lemma slab_blocks_disjoint:
  assumes "CACHELINE_SIZE \<le> stride" "disjnt (slab_range stride a) (slab_range stride b)"
  shows "slab_blocks stride a \<inter> slab_blocks stride b = {}"
  using assms(2) by (auto simp: disjnt_iff dest: slab_blocks_range [OF assms(1)])

lemma card_blocks:
  assumes "CACHELINE_SIZE \<le> stride" "distinct slabs" "pairwise (\<lambda>a b. disjnt (slab_range stride a) (slab_range stride b)) (set slabs)"
  shows "finite (\<Union>slab \<in> set slabs. slab_blocks stride slab) \<and>
    card (\<Union>slab \<in> set slabs. slab_blocks stride slab) = sum_list (map snd slabs)"
  using assms(2,3)
proof (induction slabs)
  case (Cons slab slabs)
  have pos: "0 < stride" using assms(1) by (simp add: CACHELINE_SIZE_def)
  have "slab_blocks stride slab \<inter> (\<Union>x \<in> set slabs. slab_blocks stride x) = {}"
  proof -
    have "slab_blocks stride slab \<inter> slab_blocks stride x = {}" if "x \<in> set slabs" for x
      using Cons.prems that by (intro slab_blocks_disjoint [OF assms(1)]) (auto simp: pairwise_def)
    then show ?thesis by blast
  qed
  then show ?case
    using Cons card_slab_blocks [OF pos] by (auto simp: card_Un_disjoint pairwise_insert)
qed simp

definition free_blocks :: "memory_pool \<Rightarrow> heap \<Rightarrow> nat set" where
  "free_blocks pool h = {b \<in> pool_blocks pool. block_magic h b = Some MEMPOOL_MAGIC_FREE}"

definition live_blocks :: "memory_pool \<Rightarrow> heap \<Rightarrow> nat set" where
  "live_blocks pool h = {b \<in> pool_blocks pool. block_magic h b = Some MEMPOOL_MAGIC_POOL}"

text \<open>The part of the invariant that concerns the slabs alone.\<close>

definition slabs_ok :: "memory_pool \<Rightarrow> bool" where
  "slabs_ok pool \<longleftrightarrow>
     CACHELINE_SIZE + mp_block_size pool \<le> mp_total_size pool \<and> mp_total_size pool mod CACHELINE_SIZE = 0 \<and>
     (\<forall>slab \<in> set (mp_slab_list pool). slab_ok (mp_total_size pool) slab) \<and>
     pairwise (\<lambda>a b. disjnt (slab_range (mp_total_size pool) a) (slab_range (mp_total_size pool) b)) (set (mp_slab_list pool)) \<and>
     distinct (mp_slab_list pool) \<and>
     mp_pool_blocks pool = sum_list (map snd (mp_slab_list pool)) \<and> mp_pool_blocks pool \<le> mp_max_blocks pool \<and>
     (\<forall>slab. mp_last_freed_slab pool = Some slab \<longrightarrow> slab \<in> set (mp_slab_list pool))"

lemma pool_ok_alt:
  "pool_ok (pool, h) \<longleftrightarrow> slabs_ok pool \<and>
     (\<forall>b \<in> pool_blocks pool. block_magic h b \<in> {Some MEMPOOL_MAGIC_POOL, Some MEMPOOL_MAGIC_FREE}) \<and>
     (\<exists>bs. free_chain h (mp_free_list pool) bs \<and> distinct bs \<and> set bs = free_blocks pool h \<and> mp_free_count pool = length bs)"
  unfolding pool_ok_def slabs_ok_def free_blocks_def by auto

lemma pool_live_alt: "pool_live (pool, h) = block_to_data ` live_blocks pool h"
  by (simp add: pool_live_def live_blocks_def)

lemma slabs_ok_pos: "slabs_ok pool \<Longrightarrow> CACHELINE_SIZE \<le> mp_total_size pool \<and> 0 < mp_total_size pool"
  by (simp add: slabs_ok_def CACHELINE_SIZE_def)

lemma magic_neq [simp]: "MEMPOOL_MAGIC_POOL \<noteq> MEMPOOL_MAGIC_FREE" "MEMPOOL_MAGIC_FREE \<noteq> MEMPOOL_MAGIC_POOL"
  by (simp_all add: mempool_consts)

lemma block_magic_upd [simp]: "block_magic (h(a \<mapsto> x)) b = (if b = a then Some (bh_magic x) else block_magic h b)"
  by (simp add: block_magic_def)

lemma slabs_ok_cards:
  assumes "slabs_ok pool"
  shows "finite (pool_blocks pool)" "card (pool_blocks pool) = mp_pool_blocks pool"
  using card_blocks [of "mp_total_size pool" "mp_slab_list pool"] assms slabs_ok_pos [OF assms]
  by (auto simp: pool_blocks_def slabs_ok_def)

lemma pool_ok_cards:
  assumes "pool_ok (pool, h)"
  shows "card (live_blocks pool h) + mp_free_count pool = mp_pool_blocks pool" "finite (live_blocks pool h)"
proof -
  obtain bs where bs: "slabs_ok pool" "distinct bs" "set bs = free_blocks pool h" "mp_free_count pool = length bs"
    "\<forall>b \<in> pool_blocks pool. block_magic h b \<in> {Some MEMPOOL_MAGIC_POOL, Some MEMPOOL_MAGIC_FREE}"
    using assms by (auto simp: pool_ok_alt)
  note c = slabs_ok_cards [OF bs(1)]
  have "pool_blocks pool = live_blocks pool h \<union> free_blocks pool h" "live_blocks pool h \<inter> free_blocks pool h = {}"
    using bs(5) by (auto simp: live_blocks_def free_blocks_def)
  then have "card (pool_blocks pool) = card (live_blocks pool h) + card (free_blocks pool h)"
    using c(1) by (metis card_Un_disjoint finite_Un)
  moreover have "card (free_blocks pool h) = length bs" using bs(2,3) distinct_card by metis
  ultimately show "card (live_blocks pool h) + mp_free_count pool = mp_pool_blocks pool" using c(2) bs(4) by simp
  show "finite (live_blocks pool h)" using c(1) by (simp add: live_blocks_def)
qed

text \<open>Fields that the steps may change without touching the blocks.\<close>

lemma pool_ok_counters [simp]:
  "pool_blocks (pool\<lparr>mp_free_list := x\<rparr>) = pool_blocks pool" "pool_blocks (pool\<lparr>mp_free_count := n\<rparr>) = pool_blocks pool"
  "pool_blocks (pool\<lparr>mp_pool_allocs := n\<rparr>) = pool_blocks pool" "pool_blocks (pool\<lparr>mp_pool_frees := n\<rparr>) = pool_blocks pool"
  "pool_blocks (pool\<lparr>mp_warn_counter := n\<rparr>) = pool_blocks pool" "pool_blocks (pool\<lparr>mp_last_freed_slab := l\<rparr>) = pool_blocks pool"
  "slabs_ok (pool\<lparr>mp_free_list := x\<rparr>) = slabs_ok pool" "slabs_ok (pool\<lparr>mp_free_count := n\<rparr>) = slabs_ok pool"
  "slabs_ok (pool\<lparr>mp_pool_allocs := n\<rparr>) = slabs_ok pool" "slabs_ok (pool\<lparr>mp_pool_frees := n\<rparr>) = slabs_ok pool"
  "slabs_ok (pool\<lparr>mp_warn_counter := n\<rparr>) = slabs_ok pool"
  by (simp_all add: pool_blocks_def slabs_ok_def)

section \<open>Expansion\<close>

lemma expand_ok:
  assumes "pool_ok (pool, h)" "posix_memalign_ok m (pool, h)" "mp_pool_blocks pool + n \<le> mp_max_blocks pool"
    "expand_pool_batch m n (pool, h) = (got, s')"
  shows "pool_ok s' \<and> pool_live s' = pool_live (pool, h) \<and> mp_block_size (fst s') = mp_block_size pool \<and>
    mp_max_blocks (fst s') = mp_max_blocks pool \<and>
    (got = 0 \<and> s' = (pool, h) \<or> got = n \<and> 0 < n \<and> mp_free_list (fst s') \<noteq> None \<and> mp_pool_blocks (fst s') = mp_pool_blocks pool + n)"
proof (cases "n = 0 \<or> n > (SIZE_T_MAX - CACHELINE_SIZE) div mp_total_size pool \<or> m (CACHELINE_SIZE + n * mp_total_size pool) = None")
  case True
  then have "got = 0 \<and> s' = (pool, h)" using assms(4) by (auto simp: expand_pool_batch_def split: if_splits)
  then show ?thesis using assms(1) by simp
next
  case False
  then obtain a where a: "m (CACHELINE_SIZE + n * mp_total_size pool) = Some a" and n: "0 < n" by auto
  let ?t = "mp_total_size pool" and ?h = "link_blocks (mp_total_size pool) n (a + CACHELINE_SIZE) (mp_free_list pool) h"
  let ?pool = "pool\<lparr>mp_slab_list := (a, n) # mp_slab_list pool, mp_free_list := Some (a + CACHELINE_SIZE),
     mp_pool_blocks := mp_pool_blocks pool + n, mp_free_count := mp_free_count pool + n\<rparr>"
  have res: "got = n" "s' = (?pool, ?h)" using assms(4) False a by (auto simp: expand_pool_batch_def Let_def)
  obtain bs where bs: "slabs_ok pool" "free_chain h (mp_free_list pool) bs" "distinct bs" "set bs = free_blocks pool h"
    "mp_free_count pool = length bs"
    and magic: "\<forall>b \<in> pool_blocks pool. block_magic h b \<in> {Some MEMPOOL_MAGIC_POOL, Some MEMPOOL_MAGIC_FREE}"
    using assms(1) by (auto simp: pool_ok_alt)
  note pos = slabs_ok_pos [OF bs(1)]
  let ?new = "(\<lambda>i. a + CACHELINE_SIZE + i * ?t) ` {..<n}"
  have range: "slab_range ?t (a, n) = {a ..< a + (CACHELINE_SIZE + n * ?t)}" by (simp add: slab_range_def add.assoc)
  have al: "0 < a" "a mod CACHELINE_SIZE = 0" "a + (CACHELINE_SIZE + n * ?t) \<le> 2 ^ 64"
    "\<forall>slab \<in> set (mp_slab_list pool). disjnt (slab_range ?t (a, n)) (slab_range ?t slab)"
    using assms(2) a unfolding posix_memalign_ok_def range by auto
  have new: "slab_blocks ?t (a, n) = ?new" by (simp add: slab_blocks_def)
  have nonempty: "slab_range ?t slab \<noteq> {}" if "slab \<in> set (mp_slab_list pool)" for slab
    by (simp add: slab_range_def CACHELINE_SIZE_def)
  have notin: "(a, n) \<notin> set (mp_slab_list pool)"
    using al(4) nonempty by (auto simp: disjnt_def)
  have dis: "?new \<inter> pool_blocks pool = {}"
    using al(4) slab_blocks_disjoint [OF conjunct1 [OF pos], of "(a, n)"] unfolding pool_blocks_def new [symmetric] by blast
  have blocks: "pool_blocks ?pool = ?new \<union> pool_blocks pool" by (simp add: pool_blocks_def new)
  have slabs: "slabs_ok ?pool"
    using bs(1) al n notin assms(3)
    by (auto simp: slabs_ok_def slab_ok_def pairwise_insert disjnt_sym add.assoc)
  have out: "?h b = h b" if "b \<in> pool_blocks pool" for b
    using link_blocks_outside [of b "a + CACHELINE_SIZE" ?t n] that dis by blast
  have old: "block_magic ?h b = block_magic h b" if "b \<in> pool_blocks pool" for b
    using out [OF that] by (simp add: block_magic_def)
  have sub: "set bs \<subseteq> pool_blocks pool" using bs(4) by (auto simp: free_blocks_def)
  have bsnew: "set bs \<inter> ?new = {}" using sub dis by blast
  note chain = link_blocks_chain [OF conjunct2 [OF pos] bs(2) bsnew n]
  have fresh: "block_magic ?h b = Some MEMPOOL_MAGIC_FREE" if "b \<in> ?new" for b using chain(2) that by auto
  have fb: "free_blocks ?pool ?h = ?new \<union> free_blocks pool h"
    unfolding free_blocks_def blocks using old fresh by auto
  have lb: "live_blocks ?pool ?h = live_blocks pool h"
    unfolding live_blocks_def blocks using old chain(2) by auto
  let ?bs = "map (\<lambda>i. a + CACHELINE_SIZE + i * ?t) [0..<n] @ bs"
  have set_new: "set (map (\<lambda>i. a + CACHELINE_SIZE + i * ?t) [0..<n]) = ?new" by auto
  have "distinct ?bs" using bs(3) bsnew pos set_new by (simp add: distinct_map inj_on_def Int_commute)
  moreover have "set ?bs = free_blocks ?pool ?h" using fb bs(4) set_new by simp
  moreover have "mp_free_count ?pool = length ?bs" using bs(5) by simp
  moreover have "\<forall>b \<in> pool_blocks ?pool. block_magic ?h b \<in> {Some MEMPOOL_MAGIC_POOL, Some MEMPOOL_MAGIC_FREE}"
    unfolding blocks using magic old fresh by auto
  ultimately have "pool_ok (?pool, ?h)"
    unfolding pool_ok_alt using slabs chain(1) by (intro conjI exI [of _ ?bs]) simp_all
  then show ?thesis using res n lb by (simp add: pool_live_alt)
qed


section \<open>Allocation\<close>

lemma alloc_take_ok:
  assumes "pool_ok (pool, h)" "mp_free_list pool = Some hdr"
  defines "pool' \<equiv> pool\<lparr>mp_free_list := bh_next_free (the (h hdr)), mp_free_count := mp_free_count pool - 1,
      mp_pool_allocs := (mp_pool_allocs pool + 1) mod 2 ^ 64\<rparr>"
    and "h' \<equiv> h(hdr \<mapsto> \<lparr>bh_magic = MEMPOOL_MAGIC_POOL, bh_next_free = None\<rparr>)"
  shows "pool_ok (pool', h')" "hdr \<in> pool_blocks pool" "hdr \<notin> live_blocks pool h"
    "live_blocks pool' h' = insert hdr (live_blocks pool h)"
proof -
  obtain bs where bs: "slabs_ok pool" "free_chain h (mp_free_list pool) bs" "distinct bs" "set bs = free_blocks pool h"
    "mp_free_count pool = length bs"
    and magic: "\<forall>b \<in> pool_blocks pool. block_magic h b \<in> {Some MEMPOOL_MAGIC_POOL, Some MEMPOOL_MAGIC_FREE}"
    using assms(1) by (auto simp: pool_ok_alt)
  obtain bs' x where b: "bs = hdr # bs'" "h hdr = Some x" "free_chain h (bh_next_free x) bs'"
    using bs(2) assms(2) by (cases bs) auto
  then have free: "hdr \<in> free_blocks pool h" using bs(4) by auto
  then show hdr: "hdr \<in> pool_blocks pool" "hdr \<notin> live_blocks pool h" by (auto simp: free_blocks_def live_blocks_def)
  have pb: "pool_blocks pool' = pool_blocks pool" "slabs_ok pool' = slabs_ok pool" by (simp_all add: pool'_def)
  show "live_blocks pool' h' = insert hdr (live_blocks pool h)"
    using hdr(1) pb by (auto simp: live_blocks_def h'_def)
  have "free_blocks pool' h' = free_blocks pool h - {hdr}"
    using pb by (auto simp: free_blocks_def h'_def)
  then have fb: "set bs' = free_blocks pool' h'" using b(1) bs(3,4) by auto
  have "free_chain h' (mp_free_list pool') bs'" using b bs(3) by (simp add: pool'_def h'_def)
  moreover have "mp_free_count pool' = length bs'" using bs(5) b(1) by (simp add: pool'_def)
  moreover have "\<forall>b \<in> pool_blocks pool'. block_magic h' b \<in> {Some MEMPOOL_MAGIC_POOL, Some MEMPOOL_MAGIC_FREE}"
    using magic pb by (simp add: h'_def)
  ultimately show "pool_ok (pool', h')"
    unfolding pool_ok_alt using bs(1,3) b(1) fb pb by (intro conjI exI [of _ bs']) simp_all
qed

lemma mempool_alloc_ok:
  assumes "pool_ok s" "posix_memalign_ok m s" "mempool_alloc_sized m n s = (r, s')"
  shows "pool_ok s' \<and> mp_block_size (fst s') = mp_block_size (fst s) \<and> mp_max_blocks (fst s') = mp_max_blocks (fst s) \<and>
    (case r of
       None \<Rightarrow> pool_live s' = pool_live s
     | Some p \<Rightarrow> p \<notin> pool_live s \<and> pool_live s' = insert p (pool_live s) \<and> n \<le> mp_block_size (fst s))"
proof (cases "n > mp_block_size (fst s)")
  case True
  then show ?thesis using assms(1,3) by (auto simp: mempool_alloc_sized_def)
next
  case False
  define s1 where "s1 = (if mp_free_list (fst s) = None \<and> mp_pool_blocks (fst s) < mp_max_blocks (fst s)
      then snd (expand_pool_batch m (min EXPAND_BATCH_SIZE (mp_max_blocks (fst s) - mp_pool_blocks (fst s))) s) else s)"
  obtain pool h where s: "s = (pool, h)" by (cases s)
  have s1: "pool_ok s1 \<and> pool_live s1 = pool_live s \<and> mp_block_size (fst s1) = mp_block_size pool \<and>
      mp_max_blocks (fst s1) = mp_max_blocks pool"
  proof (cases "mp_free_list pool = None \<and> mp_pool_blocks pool < mp_max_blocks pool")
    case True
    let ?n = "min EXPAND_BATCH_SIZE (mp_max_blocks pool - mp_pool_blocks pool)"
    obtain got s2 where e: "expand_pool_batch m ?n (pool, h) = (got, s2)" by (metis surj_pair)
    have room: "mp_pool_blocks pool + ?n \<le> mp_max_blocks pool" using True by linarith
    have "s1 = s2" using True e by (simp add: s1_def s)
    then show ?thesis
      using expand_ok [OF assms(1) [unfolded s] assms(2) [unfolded s] room e] by (simp add: s)
  qed (use assms(1) s in \<open>auto simp: s1_def\<close>)
  obtain pool1 h1 where p1: "s1 = (pool1, h1)" by (cases s1)
  have run: "mempool_alloc_sized m n s = (case mp_free_list pool1 of
      Some header \<Rightarrow>
        (Some (block_to_data header),
         (pool1\<lparr>mp_free_list := bh_next_free (the (h1 header)), mp_free_count := mp_free_count pool1 - 1,
                mp_pool_allocs := (mp_pool_allocs pool1 + 1) mod 2 ^ 64\<rparr>,
          h1(header \<mapsto> \<lparr>bh_magic = MEMPOOL_MAGIC_POOL, bh_next_free = None\<rparr>)))
    | None \<Rightarrow> (None, (pool1\<lparr>mp_warn_counter := (mp_warn_counter pool1 + 1) mod 2 ^ 64\<rparr>, h1)))"
    using False p1 unfolding s1_def by (simp add: mempool_alloc_sized_def Let_def)
  have ok1: "pool_ok (pool1, h1)" using s1 p1 by simp
  show ?thesis
  proof (cases "mp_free_list pool1")
    case None
    have "pool_ok (pool1\<lparr>mp_warn_counter := w\<rparr>, h1) \<and> pool_live (pool1\<lparr>mp_warn_counter := w\<rparr>, h1) = pool_live (pool1, h1)" for w
      using ok1 by (simp add: pool_ok_alt free_blocks_def pool_live_alt live_blocks_def)
    then show ?thesis using None run assms(3) s1 p1 s by auto
  next
    case (Some hdr)
    note t = alloc_take_ok [OF ok1 Some]
    have inj: "block_to_data hdr \<notin> block_to_data ` live_blocks pool1 h1"
      using t(3) by (auto simp: block_to_data_def)
    have "pool_live (pool1, h1) = pool_live s" using s1 p1 by simp
    then have live: "block_to_data ` live_blocks pool1 h1 = pool_live s" by (simp add: pool_live_alt)
    show ?thesis
      using Some run assms(3) t(1,4) s1 p1 s False inj unfolding live by (auto simp: pool_live_alt live)
  qed
qed

section \<open>Release\<close>

lemma verify_boundary_iff:
  assumes "0 < mp_total_size pool"
  shows "verify_boundary pool (Some slab) addr \<longleftrightarrow> addr \<in> slab_blocks (mp_total_size pool) slab"
proof
  let ?t = "mp_total_size pool" and ?start = "fst slab + CACHELINE_SIZE"
  assume v: "verify_boundary pool (Some slab) addr"
  then have v: "?start \<le> addr" "addr < ?start + snd slab * ?t" "(addr - ?start) mod ?t = 0"
    by (auto simp: verify_boundary_def Let_def split: prod.splits)
  let ?i = "(addr - ?start) div ?t"
  have "addr - ?start = ?i * ?t" using v(3) by (metis mult_div_mod_eq add_0_right mult.commute)
  then have "addr = ?start + ?i * ?t" using v(1) by linarith
  moreover have "?i < snd slab" using v by (intro less_mult_imp_div_less) linarith
  ultimately show "addr \<in> slab_blocks ?t slab" unfolding slab_blocks_def by blast
next
  assume "addr \<in> slab_blocks (mp_total_size pool) slab"
  then obtain i where "i < snd slab" "addr = fst slab + CACHELINE_SIZE + i * mp_total_size pool" by (auto simp: slab_blocks_def)
  then show "verify_boundary pool (Some slab) addr"
    using assms by (auto simp: verify_boundary_def Let_def split: prod.splits)
qed

lemma find_slab_SomeD:
  "find_slab pool slabs addr = Some slab \<Longrightarrow> slab \<in> set slabs \<and> verify_boundary pool (Some slab) addr"
  by (induction slabs) (auto split: if_splits)

lemma find_slab_NoneD: "find_slab pool slabs addr = None \<Longrightarrow> slab \<in> set slabs \<Longrightarrow> \<not> verify_boundary pool (Some slab) addr"
  by (induction slabs) (auto split: if_splits)

lemma internal_free_cases:
  assumes "slabs_ok pool"
  shows "internal_free ptr (pool, h) =
    (if ptr = 0 \<or> data_to_header ptr \<notin> pool_blocks pool then (pool, h)
     else free_block (data_to_header ptr)
       (pool\<lparr>mp_last_freed_slab :=
          (if verify_boundary pool (mp_last_freed_slab pool) (data_to_header ptr) then mp_last_freed_slab pool
           else find_slab pool (mp_slab_list pool) (data_to_header ptr))\<rparr>, h))"
proof -
  let ?a = "data_to_header ptr"
  note pos = conjunct2 [OF slabs_ok_pos [OF assms]]
  have last: "verify_boundary pool (mp_last_freed_slab pool) ?a \<Longrightarrow> ?a \<in> pool_blocks pool"
    using assms verify_boundary_iff [OF pos]
    by (cases "mp_last_freed_slab pool") (auto simp: slabs_ok_def pool_blocks_def verify_boundary_def [of _ None])
  have iff: "find_slab pool (mp_slab_list pool) ?a \<noteq> None \<longleftrightarrow> ?a \<in> pool_blocks pool"
    using find_slab_SomeD [of pool "mp_slab_list pool" ?a] find_slab_NoneD [of pool "mp_slab_list pool" ?a]
      verify_boundary_iff [OF pos] by (fastforce simp: pool_blocks_def)
  have same: "pool\<lparr>mp_last_freed_slab := mp_last_freed_slab pool\<rparr> = pool" by simp
  show ?thesis
    using last iff by (auto simp: internal_free_def Let_def split: option.splits)
qed

lemma find_slab_mem: "slabs_ok pool \<Longrightarrow> slabs_ok (pool\<lparr>mp_last_freed_slab :=
    (if verify_boundary pool (mp_last_freed_slab pool) a then mp_last_freed_slab pool else find_slab pool (mp_slab_list pool) a)\<rparr>)"
  using find_slab_SomeD [of pool "mp_slab_list pool" a] by (auto simp: slabs_ok_def split: if_splits)

lemma block_below:
  assumes "slabs_ok pool" "b \<in> pool_blocks pool"
  shows "b + mp_total_size pool \<le> 2 ^ 64 \<and> 0 < b \<and> b + CACHELINE_SIZE \<le> 2 ^ 64 \<and> b < 2 ^ 64"
proof -
  let ?t = "mp_total_size pool"
  obtain slab where s: "slab \<in> set (mp_slab_list pool)" "b \<in> slab_blocks ?t slab" using assms(2) by (auto simp: pool_blocks_def)
  then have "slab_ok ?t slab" using assms(1) by (simp add: slabs_ok_def)
  then show ?thesis
    using slab_blocks_range [OF conjunct1 [OF slabs_ok_pos [OF assms(1)]] s(2)] slabs_ok_pos [OF assms(1)]
    by (simp add: slab_ok_def slab_range_def CACHELINE_SIZE_def)
qed

lemma data_header:
  assumes "slabs_ok pool" "0 < ptr" "ptr < 2 ^ 64"
  shows "data_to_header ptr \<in> pool_blocks pool \<longleftrightarrow> ptr \<in> block_to_data ` pool_blocks pool"
    "b \<in> pool_blocks pool \<Longrightarrow> data_to_header (block_to_data b) = b \<and> 0 < block_to_data b"
    "data_to_header ptr \<in> pool_blocks pool \<Longrightarrow> block_to_data (data_to_header ptr) = ptr"
proof -
  let ?t = "mp_total_size pool"
  note upper = block_below [OF assms(1)]
  have t: "64 \<le> ?t" using slabs_ok_pos [OF assms(1)] by (simp add: CACHELINE_SIZE_def)
  show redo: "data_to_header (block_to_data b) = b \<and> 0 < block_to_data b" if "b \<in> pool_blocks pool" for b
    using upper [OF that] t by (simp add: data_to_header_def block_to_data_def CACHELINE_SIZE_def)
  show undo: "block_to_data (data_to_header ptr) = ptr" if m: "data_to_header ptr \<in> pool_blocks pool"
  proof (cases "ptr < 64")
    case True
    then have "data_to_header ptr = ptr + 2 ^ 64 - 64"
      by (simp add: data_to_header_def CACHELINE_SIZE_def)
    then show ?thesis using upper [OF m] t True assms(2) by simp
  next
    case False
    then have shift: "ptr + 2 ^ 64 - CACHELINE_SIZE = (ptr - 64) + 2 ^ 64" by (simp add: CACHELINE_SIZE_def)
    have "data_to_header ptr = ptr - 64"
      using assms(3) unfolding data_to_header_def shift mod_add_self2 by simp
    then show ?thesis using False by (simp add: block_to_data_def CACHELINE_SIZE_def)
  qed
  show "data_to_header ptr \<in> pool_blocks pool \<longleftrightarrow> ptr \<in> block_to_data ` pool_blocks pool"
    using redo undo by (metis imageE imageI)
qed

lemma free_block_ok:
  assumes "pool_ok (pool, h)" "b \<in> pool_blocks pool"
  shows "pool_ok (free_block b (pool, h)) \<and> live_blocks (fst (free_block b (pool, h))) (snd (free_block b (pool, h))) = live_blocks pool h - {b}"
    "b \<notin> live_blocks pool h \<Longrightarrow> free_block b (pool, h) = (pool, h)"
    "b \<in> live_blocks pool h \<Longrightarrow> mp_free_list (fst (free_block b (pool, h))) = Some b"
proof -
  obtain bs where bs: "slabs_ok pool" "free_chain h (mp_free_list pool) bs" "distinct bs" "set bs = free_blocks pool h"
    "mp_free_count pool = length bs"
    and magic: "\<forall>b \<in> pool_blocks pool. block_magic h b \<in> {Some MEMPOOL_MAGIC_POOL, Some MEMPOOL_MAGIC_FREE}"
    using assms(1) by (auto simp: pool_ok_alt)
  obtain x where x: "h b = Some x" "bh_magic x = MEMPOOL_MAGIC_POOL \<or> bh_magic x = MEMPOOL_MAGIC_FREE"
    using magic assms(2) by (force simp: block_magic_def)
  have live: "b \<in> live_blocks pool h \<longleftrightarrow> bh_magic x = MEMPOOL_MAGIC_POOL"
    using x(1) assms(2) by (simp add: live_blocks_def block_magic_def)
  let ?pool = "pool\<lparr>mp_free_list := Some b, mp_free_count := mp_free_count pool + 1,
     mp_pool_frees := (mp_pool_frees pool + 1) mod 2 ^ 64\<rparr>"
  let ?h = "h(b \<mapsto> \<lparr>bh_magic = MEMPOOL_MAGIC_FREE, bh_next_free = mp_free_list pool\<rparr>)"
  show dead: "free_block b (pool, h) = (pool, h)" if "b \<notin> live_blocks pool h"
    using that live x by (auto simp: free_block_def)
  have run: "free_block b (pool, h) = (?pool, ?h)" if "b \<in> live_blocks pool h"
    using that live x by (simp add: free_block_def)
  then show "b \<in> live_blocks pool h \<Longrightarrow> mp_free_list (fst (free_block b (pool, h))) = Some b" by simp
  show "pool_ok (free_block b (pool, h)) \<and> live_blocks (fst (free_block b (pool, h))) (snd (free_block b (pool, h))) = live_blocks pool h - {b}"
  proof (cases "b \<in> live_blocks pool h")
    case False
    then show ?thesis using dead assms(1) by simp
  next
    case True
    have b: "b \<notin> set bs" using True bs(4) by (auto simp: free_blocks_def live_blocks_def)
    have lb: "live_blocks ?pool ?h = live_blocks pool h - {b}" by (auto simp: live_blocks_def)
    have fb: "set (b # bs) = free_blocks ?pool ?h" using bs(4) assms(2) by (auto simp: free_blocks_def)
    have "pool_ok (?pool, ?h)"
      unfolding pool_ok_alt
    proof (intro conjI exI [of _ "b # bs"])
      show "free_chain ?h (mp_free_list ?pool) (b # bs)" using bs(2) b by simp
    qed (use bs b fb magic in simp_all)
    then show ?thesis using run [OF True] lb by simp
  qed
qed

lemma mempool_free_ok:
  assumes "pool_ok s" "ptr < 2 ^ 64"
  shows "pool_ok (internal_free ptr s)" "pool_live (internal_free ptr s) = pool_live s - {ptr}"
    "ptr \<notin> pool_live s \<Longrightarrow> snd (internal_free ptr s) = snd s \<and> mp_free_list (fst (internal_free ptr s)) = mp_free_list (fst s) \<and>
       mp_free_count (fst (internal_free ptr s)) = mp_free_count (fst s)"
    "ptr \<in> pool_live s \<Longrightarrow> mp_free_list (fst (internal_free ptr s)) = Some (data_to_header ptr)"
    "mp_block_size (fst (internal_free ptr s)) = mp_block_size (fst s)" "mp_max_blocks (fst (internal_free ptr s)) = mp_max_blocks (fst s)"
proof -
  obtain pool h where s: "s = (pool, h)" by (cases s)
  let ?a = "data_to_header ptr"
  define lf where "lf = (if verify_boundary pool (mp_last_freed_slab pool) ?a then mp_last_freed_slab pool
           else find_slab pool (mp_slab_list pool) ?a)"
  let ?pool = "pool\<lparr>mp_last_freed_slab := lf\<rparr>"
  have slabs: "slabs_ok pool" using assms(1) s by (simp add: pool_ok_alt)
  have ok: "pool_ok (?pool, h)"
    using assms(1) find_slab_mem [OF slabs] by (simp add: s pool_ok_alt free_blocks_def lf_def)
  have lb: "live_blocks ?pool h = live_blocks pool h" by (simp add: live_blocks_def)
  have live_sub: "live_blocks pool h \<subseteq> pool_blocks pool" by (auto simp: live_blocks_def)
  have all: "pool_ok (internal_free ptr s) \<and> pool_live (internal_free ptr s) = pool_live s - {ptr} \<and>
    (ptr \<notin> pool_live s \<longrightarrow> snd (internal_free ptr s) = snd s \<and> mp_free_list (fst (internal_free ptr s)) = mp_free_list (fst s) \<and>
       mp_free_count (fst (internal_free ptr s)) = mp_free_count (fst s)) \<and>
    (ptr \<in> pool_live s \<longrightarrow> mp_free_list (fst (internal_free ptr s)) = Some ?a)"
  proof (cases "ptr = 0 \<or> ?a \<notin> pool_blocks pool")
    case True
    have "internal_free ptr s = s" unfolding s by (subst internal_free_cases [OF slabs]) (use True in simp)
    moreover have "ptr \<notin> pool_live s"
    proof
      assume "ptr \<in> pool_live s"
      then obtain b where "b \<in> pool_blocks pool" "ptr = block_to_data b" using live_sub by (auto simp: s pool_live_alt)
      then show False using True block_below [OF slabs, of b]
        by (auto simp: block_to_data_def data_to_header_def CACHELINE_SIZE_def)
    qed
    ultimately show ?thesis using assms(1) by simp
  next
    case False
    then have p: "0 < ptr" "?a \<in> pool_blocks pool" by auto
    note dh = data_header [OF slabs p(1) assms(2)]
    have run: "internal_free ptr s = free_block ?a (?pool, h)"
      unfolding s by (subst internal_free_cases [OF slabs]) (use p in \<open>simp add: lf_def\<close>)
    have a: "?a \<in> pool_blocks ?pool" using p(2) by simp
    note fb = free_block_ok [OF ok a]
    obtain pool' h' where r: "free_block ?a (?pool, h) = (pool', h')" by (metis surj_pair)
    have "block_to_data ` (live_blocks pool h - {?a}) = block_to_data ` live_blocks pool h - {ptr}"
      using dh(3) [OF p(2)] by (auto simp: block_to_data_def)
    moreover have "ptr \<in> block_to_data ` live_blocks pool h \<longleftrightarrow> ?a \<in> live_blocks pool h"
      using dh(2,3) p(2) live_sub by (metis imageE imageI subsetD)
    ultimately show ?thesis using fb r lb unfolding run by (auto simp: s pool_live_alt)
  qed
  then show "pool_ok (internal_free ptr s)" "pool_live (internal_free ptr s) = pool_live s - {ptr}"
    "ptr \<notin> pool_live s \<Longrightarrow> snd (internal_free ptr s) = snd s \<and> mp_free_list (fst (internal_free ptr s)) = mp_free_list (fst s) \<and>
       mp_free_count (fst (internal_free ptr s)) = mp_free_count (fst s)"
    "ptr \<in> pool_live s \<Longrightarrow> mp_free_list (fst (internal_free ptr s)) = Some ?a" by auto
  show "mp_block_size (fst (internal_free ptr s)) = mp_block_size (fst s)" "mp_max_blocks (fst (internal_free ptr s)) = mp_max_blocks (fst s)"
    by (auto simp: s internal_free_def free_block_def Let_def split: option.splits)
qed

section \<open>Creation, exhaustion, destruction and layout\<close>

lemma round_up_cacheline:
  assumes "n + 63 < 2 ^ 64"
  shows "n \<le> round_up_cacheline n" "round_up_cacheline n mod CACHELINE_SIZE = 0" "round_up_cacheline n < n + 64"
proof -
  have "(n + CACHELINE_SIZE - 1) mod 2 ^ 64 = n + 63" using assms by (simp add: CACHELINE_SIZE_def)
  then have r: "round_up_cacheline n = (n + 63) div 64 * 64"
    unfolding round_up_cacheline_def by (simp add: CACHELINE_SIZE_def)
  show "n \<le> round_up_cacheline n" "round_up_cacheline n < n + 64"
    unfolding r using div_mult_mod_eq [of "n + 63" 64] mod_less_divisor [of 64 "n + 63"] by linarith+
  show "round_up_cacheline n mod CACHELINE_SIZE = 0" unfolding r by (simp add: CACHELINE_SIZE_def)
qed

text \<open>A freshly cleared pool structure.\<close>

definition mempool_cleared :: "nat \<Rightarrow> nat \<Rightarrow> memory_pool" where
  "mempool_cleared block_size max_blocks =
     \<lparr>mp_slab_list = [], mp_last_freed_slab = None, mp_free_list = None, mp_block_size = block_size,
      mp_total_size = round_up_cacheline ((CACHELINE_SIZE + block_size) mod 2 ^ 64), mp_pool_blocks = 0,
      mp_max_blocks = (if max_blocks = 0 then SIZE_T_MAX else max_blocks),
      mp_free_count = 0, mp_pool_allocs = 0, mp_pool_frees = 0, mp_warn_counter = 0\<rparr>"

lemma mempool_create_ok:
  assumes "mempool_create calloc_ok m bs ib mb h = Some s" "bs + 127 < 2 ^ 64"
    "posix_memalign_ok m (mempool_cleared bs mb, h)"
  shows "pool_ok s \<and> pool_live s = {} \<and> mp_block_size (fst s) = bs \<and>
    mp_max_blocks (fst s) = (if mb = 0 then SIZE_T_MAX else mb) \<and> mp_pool_blocks (fst s) = min ib (mp_max_blocks (fst s))"
proof -
  let ?p = "mempool_cleared bs mb"
  have t: "CACHELINE_SIZE + bs \<le> mp_total_size ?p" "mp_total_size ?p mod CACHELINE_SIZE = 0"
    using assms(2) round_up_cacheline [of "CACHELINE_SIZE + bs"] by (simp_all add: mempool_cleared_def CACHELINE_SIZE_def)
  then have "slabs_ok ?p" by (simp add: slabs_ok_def) (simp add: mempool_cleared_def)
  moreover have "pool_blocks ?p = {}" by (simp add: mempool_cleared_def pool_blocks_def)
  ultimately have ok: "pool_ok (?p, h)" "pool_live (?p, h) = {}"
    by (auto simp: pool_ok_alt free_blocks_def pool_live_alt live_blocks_def mempool_cleared_def intro!: exI [of _ "[]"])
  let ?want = "min ib (mp_max_blocks ?p)"
  obtain got s' where e: "expand_pool_batch m ?want (?p, h) = (got, s')" by (metis surj_pair)
  have res: "if ib > 0 then got \<ge> ?want \<and> s = s' else s = (?p, h)"
    using assms(1) e by (auto simp: mempool_create_def Let_def mempool_cleared_def split: if_splits)
  have max: "mp_max_blocks ?p = (if mb = 0 then SIZE_T_MAX else mb)" "mp_block_size ?p = bs" "mp_pool_blocks ?p = 0"
    by (simp_all add: mempool_cleared_def)
  show ?thesis
  proof (cases "ib > 0")
    case False
    then show ?thesis using res ok max by simp
  next
    case True
    have "mp_pool_blocks ?p + ?want \<le> mp_max_blocks ?p" using max by simp
    from expand_ok [OF ok(1) assms(3) this e] show ?thesis using True res ok(2) max by (auto simp: SIZE_T_MAX_def)
  qed
qed

lemma mempool_alloc_None:
  assumes "pool_ok s" "mempool_alloc_sized m n s = (None, s')" "n \<le> mp_block_size (fst s)"
  shows "card (pool_live s) = mp_max_blocks (fst s) \<or>
    (\<exists>k \<le> EXPAND_BATCH_SIZE. 0 < k \<and> m (CACHELINE_SIZE + k * mp_total_size (fst s)) = None) \<or>
    EXPAND_BATCH_SIZE > (SIZE_T_MAX - CACHELINE_SIZE) div mp_total_size (fst s)"
proof -
  obtain pool h where s: "s = (pool, h)" by (cases s)
  let ?n = "min EXPAND_BATCH_SIZE (mp_max_blocks pool - mp_pool_blocks pool)"
  have fl: "mp_free_list pool = None"
    using assms(2,3) by (cases "mp_free_list pool") (simp_all add: s mempool_alloc_sized_def)
  have inj: "inj_on block_to_data A" for A by (auto simp: inj_on_def block_to_data_def)
  show ?thesis
  proof (cases "mp_pool_blocks pool < mp_max_blocks pool")
    case False
    obtain bs where bs: "free_chain h (mp_free_list pool) bs" "mp_free_count pool = length bs" "slabs_ok pool"
      using assms(1) by (auto simp: s pool_ok_alt)
    then have "mp_free_count pool = 0" using fl by (cases bs) auto
    then have "card (live_blocks pool h) = mp_max_blocks pool"
      using pool_ok_cards(1) [of pool h] assms(1) False bs(3) by (simp add: s slabs_ok_def)
    then show ?thesis by (simp add: s pool_live_alt card_image inj)
  next
    case True
    obtain got s1 where e: "expand_pool_batch m ?n (pool, h) = (got, s1)" by (metis surj_pair)
    have "mp_free_list (fst s1) = None"
      using assms(2,3) True fl e by (auto simp: s mempool_alloc_sized_def Let_def split: option.splits prod.splits)
    then have "?n = 0 \<or> ?n > (SIZE_T_MAX - CACHELINE_SIZE) div mp_total_size pool \<or> m (CACHELINE_SIZE + ?n * mp_total_size pool) = None"
      using e by (auto simp: expand_pool_batch_def Let_def split: if_splits option.splits)
    moreover have "0 < ?n" using True by (simp add: EXPAND_BATCH_SIZE_def)
    moreover have "?n \<le> EXPAND_BATCH_SIZE" by simp
    ultimately show ?thesis unfolding s fst_conv by (metis less_le_trans less_numeral_extra(3))
  qed
qed

lemma blocks_apart:
  assumes "slabs_ok pool" "b \<in> pool_blocks pool" "c \<in> pool_blocks pool" "b \<noteq> c"
  shows "b + mp_total_size pool \<le> c \<or> c + mp_total_size pool \<le> b"
proof -
  let ?t = "mp_total_size pool"
  note pos = slabs_ok_pos [OF assms(1)]
  obtain x y where xy: "x \<in> set (mp_slab_list pool)" "b \<in> slab_blocks ?t x" "y \<in> set (mp_slab_list pool)" "c \<in> slab_blocks ?t y"
    using assms(2,3) by (auto simp: pool_blocks_def)
  show ?thesis
  proof (cases "x = y")
    case True
    obtain i j where ij: "b = fst x + CACHELINE_SIZE + i * ?t" "c = fst x + CACHELINE_SIZE + j * ?t"
      using xy True by (auto simp: slab_blocks_def)
    then have "i \<noteq> j" using assms(4) by auto
    then have "Suc i * ?t \<le> j * ?t \<or> Suc j * ?t \<le> i * ?t" by (metis Suc_leI linorder_neqE_nat mult_le_mono1)
    then show ?thesis using ij by auto
  next
    case False
    then have d: "disjnt (slab_range ?t x) (slab_range ?t y)" using assms(1) xy by (auto simp: slabs_ok_def pairwise_def)
    have r: "b \<in> slab_range ?t x" "b + ?t \<le> fst x + CACHELINE_SIZE + snd x * ?t" "c \<in> slab_range ?t y"
      "c + ?t \<le> fst y + CACHELINE_SIZE + snd y * ?t"
      using slab_blocks_range [OF conjunct1 [OF pos]] xy by blast+
    show ?thesis
    proof (rule ccontr)
      assume "\<not> (b + ?t \<le> c \<or> c + ?t \<le> b)"
      then have "c \<in> slab_range ?t x \<or> b \<in> slab_range ?t y" using r by (auto simp: slab_range_def)
      then show False using d r(1,3) by (auto simp: disjnt_iff)
    qed
  qed
qed

lemma block_aligned:
  assumes "slabs_ok pool" "b \<in> pool_blocks pool" shows "b mod CACHELINE_SIZE = 0"
proof -
  obtain x i where x: "x \<in> set (mp_slab_list pool)" "b = fst x + CACHELINE_SIZE + i * mp_total_size pool"
    using assms(2) by (auto simp: pool_blocks_def slab_blocks_def)
  have "CACHELINE_SIZE dvd fst x" "CACHELINE_SIZE dvd mp_total_size pool"
    using assms(1) x(1) by (auto simp: slabs_ok_def slab_ok_def)
  then show ?thesis using x(2) by auto
qed

lemma pool_live_layout:
  assumes "pool_ok s" "p \<in> pool_live s"
  shows "p mod CACHELINE_SIZE = 0" "CACHELINE_SIZE \<le> p" "p + mp_block_size (fst s) \<le> 2 ^ 64"
    "q \<in> pool_live s \<Longrightarrow> q \<noteq> p \<Longrightarrow> p + mp_block_size (fst s) \<le> q - CACHELINE_SIZE \<or> q + mp_block_size (fst s) \<le> p - CACHELINE_SIZE"
proof -
  obtain pool h where s: "s = (pool, h)" by (cases s)
  have slabs: "slabs_ok pool" using assms(1) s by (simp add: pool_ok_alt)
  then have t: "CACHELINE_SIZE + mp_block_size pool \<le> mp_total_size pool" by (simp add: slabs_ok_def)
  obtain b where b: "b \<in> pool_blocks pool" "p = b + CACHELINE_SIZE"
    using assms(2) by (auto simp: s pool_live_alt live_blocks_def block_to_data_def)
  show "p mod CACHELINE_SIZE = 0" using block_aligned [OF slabs b(1)] b(2) by simp
  show "CACHELINE_SIZE \<le> p" using b(2) by simp
  show "p + mp_block_size (fst s) \<le> 2 ^ 64" using block_below [OF slabs b(1)] b(2) t s by simp
  assume "q \<in> pool_live s" "q \<noteq> p"
  then obtain c where c: "c \<in> pool_blocks pool" "q = c + CACHELINE_SIZE" "b \<noteq> c"
    using b(2) by (auto simp: s pool_live_alt live_blocks_def block_to_data_def)
  show "p + mp_block_size (fst s) \<le> q - CACHELINE_SIZE \<or> q + mp_block_size (fst s) \<le> p - CACHELINE_SIZE"
    using blocks_apart [OF slabs b(1) c(1,3)] b(2) c(2) t s by auto
qed

lemma mempool_destroy_ok:
  assumes "pool_ok s" shows "mempool_destroy s = card (pool_live s)"
proof -
  obtain pool h where s: "s = (pool, h)" by (cases s)
  have "inj_on block_to_data (live_blocks pool h)" by (auto simp: inj_on_def block_to_data_def)
  then show ?thesis
    using pool_ok_cards(1) [of pool h] assms by (auto simp: s mempool_destroy_def pool_live_alt card_image)
qed

section \<open>The contract of an allocator\<close>

text \<open>
  What the sessions rely on: an object handed out is one that nobody holds, and giving back makes it free.
  A client that gives back only what it holds is a run of \<open>client_run\<close> with the list of the
  objects it holds.
\<close>

inductive client_run ::
  "('e \<Rightarrow> 's \<Rightarrow> 'p option \<times> 's) \<Rightarrow> ('p \<Rightarrow> 's \<Rightarrow> 's) \<Rightarrow> ('e \<Rightarrow> 's \<Rightarrow> bool) \<Rightarrow> 's \<Rightarrow> 's \<Rightarrow> 'p list \<Rightarrow> bool"
  for alloc dealloc env_ok s0 where
  client_start: "client_run alloc dealloc env_ok s0 s0 []"
| client_take: "client_run alloc dealloc env_ok s0 s held \<Longrightarrow> env_ok e s \<Longrightarrow> alloc e s = (Some p, s') \<Longrightarrow>
    client_run alloc dealloc env_ok s0 s' (p # held)"
| client_fail: "client_run alloc dealloc env_ok s0 s held \<Longrightarrow> env_ok e s \<Longrightarrow> alloc e s = (None, s') \<Longrightarrow>
    client_run alloc dealloc env_ok s0 s' held"
| client_give: "client_run alloc dealloc env_ok s0 s held \<Longrightarrow> p \<in> set held \<Longrightarrow>
    client_run alloc dealloc env_ok s0 (dealloc p s) (remove1 p held)"

inductive_cases client_run_emptyE: "client_run alloc dealloc env_ok s0 s []"

locale allocator =
  fixes inv :: "'s \<Rightarrow> bool" and live :: "'s \<Rightarrow> 'p set" and alloc :: "'e \<Rightarrow> 's \<Rightarrow> 'p option \<times> 's"
    and dealloc :: "'p \<Rightarrow> 's \<Rightarrow> 's" and env_ok :: "'e \<Rightarrow> 's \<Rightarrow> bool"
  assumes alloc_some: "inv s \<Longrightarrow> env_ok e s \<Longrightarrow> alloc e s = (Some p, s') \<Longrightarrow> inv s' \<and> p \<notin> live s \<and> live s' = insert p (live s)"
    and alloc_none: "inv s \<Longrightarrow> env_ok e s \<Longrightarrow> alloc e s = (None, s') \<Longrightarrow> inv s' \<and> live s' = live s"
    and dealloc_live: "inv s \<Longrightarrow> p \<in> live s \<Longrightarrow> inv (dealloc p s) \<and> live (dealloc p s) = live s - {p}"
begin

lemma client_holds_live:
  assumes "client_run alloc dealloc env_ok s0 s held" "inv s0" "live s0 = {}"
  shows "inv s \<and> live s = set held \<and> distinct held"
  using assms
proof (induction rule: client_run.induct)
  case (client_take s held e p s')
  then show ?case using alloc_some [OF _ client_take.hyps(2,3)] by simp
next
  case (client_fail s held e s')
  then show ?case using alloc_none [OF _ client_fail.hyps(2,3)] by simp
next
  case (client_give s held p)
  then show ?case using dealloc_live [of s p] by (simp add: set_remove1_eq)
qed simp

lemma client_returns_all:
  "client_run alloc dealloc env_ok s0 s [] \<Longrightarrow> inv s0 \<Longrightarrow> live s0 = {} \<Longrightarrow> live s = {}"
  using client_holds_live by fastforce

lemma next_is_unheld:
  assumes "client_run alloc dealloc env_ok s0 s held" "inv s0" "live s0 = {}" "env_ok e s" "alloc e s = (Some p, s')"
  shows "p \<notin> set held"
  using client_holds_live [OF assms(1-3)] alloc_some [OF _ assms(4,5)] by blast

end

definition mempool_inv :: "mempool_state \<Rightarrow> bool" where
  "mempool_inv s \<longleftrightarrow> pool_ok s \<and> 0 < mp_block_size (fst s)"

definition mempool_take :: "(nat \<Rightarrow> nat option) \<times> nat \<Rightarrow> mempool_state \<Rightarrow> nat option \<times> mempool_state" where
  "mempool_take e s = mempool_alloc_sized (fst e) (snd e) s"

definition mempool_env_ok :: "(nat \<Rightarrow> nat option) \<times> nat \<Rightarrow> mempool_state \<Rightarrow> bool" where
  "mempool_env_ok e s \<longleftrightarrow> posix_memalign_ok (fst e) s"

lemma pool_live_below: "mempool_inv s \<Longrightarrow> p \<in> pool_live s \<Longrightarrow> p < 2 ^ 64"
  using pool_live_layout(3) [of s p] by (simp add: mempool_inv_def)

interpretation mempool: allocator mempool_inv pool_live mempool_take internal_free mempool_env_ok
proof
  fix s e p s' assume "mempool_inv s" "mempool_env_ok e s" "mempool_take e s = (Some p, s')"
  then show "mempool_inv s' \<and> p \<notin> pool_live s \<and> pool_live s' = insert p (pool_live s)"
    using mempool_alloc_ok [of s "fst e" "snd e" "Some p" s'] by (simp add: mempool_inv_def mempool_env_ok_def mempool_take_def)
next
  fix s e s' assume "mempool_inv s" "mempool_env_ok e s" "mempool_take e s = (None, s')"
  then show "mempool_inv s' \<and> pool_live s' = pool_live s"
    using mempool_alloc_ok [of s "fst e" "snd e" None s'] by (simp add: mempool_inv_def mempool_env_ok_def mempool_take_def)
next
  fix s p assume "mempool_inv s" "p \<in> pool_live s"
  then show "mempool_inv (internal_free p s) \<and> pool_live (internal_free p s) = pool_live s - {p}"
    using mempool_free_ok [of s p] pool_live_below by (simp add: mempool_inv_def)
qed

section \<open>A concrete pool of blocks\<close>

definition demo_memalign :: "nat \<Rightarrow> nat option" where
  "demo_memalign sz = (if sz \<le> 100000 then Some 4096 else None)"

definition demo_mempool :: mempool_state where
  "demo_mempool =
     (\<lparr>mp_slab_list = [(4096, 2)], mp_last_freed_slab = None, mp_free_list = Some 4160, mp_block_size = 100,
       mp_total_size = 192, mp_pool_blocks = 2, mp_max_blocks = 2, mp_free_count = 2, mp_pool_allocs = 0,
       mp_pool_frees = 0, mp_warn_counter = 0\<rparr>,
      [4160 \<mapsto> \<lparr>bh_magic = MEMPOOL_MAGIC_FREE, bh_next_free = Some 4352\<rparr>,
       4352 \<mapsto> \<lparr>bh_magic = MEMPOOL_MAGIC_FREE, bh_next_free = None\<rparr>])"

lemma link_two_blocks:
  "link_blocks stride 2 cur tail h = h
     (cur \<mapsto> \<lparr>bh_magic = MEMPOOL_MAGIC_FREE, bh_next_free = Some (cur + stride)\<rparr>,
      cur + stride \<mapsto> \<lparr>bh_magic = MEMPOOL_MAGIC_FREE, bh_next_free = tail\<rparr>)"
  by (simp add: numeral_2_eq_2)

lemma demo_mempool_create: "mempool_create True demo_memalign 100 2 2 Map.empty = Some demo_mempool"
  by (simp add: mempool_create_def expand_pool_batch_def demo_memalign_def demo_mempool_def round_up_cacheline_def
      CACHELINE_SIZE_def SIZE_T_MAX_def link_two_blocks Let_def)

lemma demo_memalign_ok: "posix_memalign_ok demo_memalign (mempool_cleared bs mb, h)" "posix_memalign_ok (\<lambda>_. None) s"
  by (auto simp: posix_memalign_ok_def mempool_cleared_def demo_memalign_def CACHELINE_SIZE_def)

lemma demo_mempool_ok: "pool_ok demo_mempool" "pool_live demo_mempool = {}"
  using mempool_create_ok [OF demo_mempool_create _ demo_memalign_ok(1)] by simp_all

definition demo_mempool1 :: mempool_state where
  "demo_mempool1 = snd (mempool_alloc_sized (\<lambda>_. None) 80 demo_mempool)"

lemma demo_mempool_alloc: "mempool_alloc_sized (\<lambda>_. None) 80 demo_mempool = (Some 4224, demo_mempool1)"
  by (simp add: demo_mempool1_def mempool_alloc_sized_def demo_mempool_def block_to_data_def CACHELINE_SIZE_def)

lemma demo_mempool1_ok: "pool_ok demo_mempool1" "pool_live demo_mempool1 = {4224}" "mp_block_size (fst demo_mempool1) = 100"
  using mempool_alloc_ok [OF demo_mempool_ok(1) demo_memalign_ok(2) demo_mempool_alloc] demo_mempool_ok(2)
  by (simp_all add: demo_mempool_def)

definition demo_mempool2 :: mempool_state where
  "demo_mempool2 = snd (mempool_alloc_sized (\<lambda>_. None) 80 demo_mempool1)"

lemma demo_mempool2_fields: "mp_max_blocks (fst demo_mempool2) = 2" "mp_block_size (fst demo_mempool2) = 100"
  "mp_total_size (fst demo_mempool2) = 192" "mp_free_list (fst demo_mempool2) = None" "mp_pool_blocks (fst demo_mempool2) = 2"
  "fst (mempool_alloc_sized (\<lambda>_. None) 80 demo_mempool1) = Some 4416"
  by (simp_all add: demo_mempool2_def demo_mempool1_def mempool_alloc_sized_def demo_mempool_def block_to_data_def CACHELINE_SIZE_def)

lemma demo_mempool2_ok: "pool_ok demo_mempool2"
  using mempool_alloc_ok [OF demo_mempool1_ok(1) demo_memalign_ok(2), of 80 "Some 4416" demo_mempool2] demo_mempool2_fields(6)
  by (cases "mempool_alloc_sized (\<lambda>_. None) 80 demo_mempool1") (simp add: demo_mempool2_def)

lemma demo_mempool2_alloc:
  "mempool_alloc_sized (\<lambda>_. Some 8192) 80 demo_mempool2 =
   (None, (fst demo_mempool2)\<lparr>mp_warn_counter := (mp_warn_counter (fst demo_mempool2) + 1) mod 2 ^ 64\<rparr>, snd demo_mempool2)"
proof -
  obtain pool h where s: "demo_mempool2 = (pool, h)" by (cases demo_mempool2)
  show ?thesis
    unfolding s using demo_mempool2_fields(1,2,4,5) [unfolded s fst_conv] by (simp add: mempool_alloc_sized_def)
qed

section \<open>Properties\<close>

text \<open>C23. Whatever sequence of allocations and releases the sessions make, giving back only what they hold, the
  blocks in use are exactly the ones held, no block is held twice, and destroying the pool reports exactly
  the number of blocks still held as leaks.\<close>

theorem mempool_sessions:
  assumes "mempool_create calloc_ok memalign bs ib mb h = Some s0" "0 < bs" "bs + 127 < 2 ^ 64"
    "posix_memalign_ok memalign (mempool_cleared bs mb, h)"
    "client_run mempool_take internal_free mempool_env_ok s0 s held"
  shows "pool_live s = set held \<and> distinct held \<and> mempool_destroy s = length held"
proof -
  note c = mempool_create_ok [OF assms(1,3,4)]
  have "mempool_inv s0" using c assms(2) by (simp add: mempool_inv_def)
  then have r: "mempool_inv s \<and> pool_live s = set held \<and> distinct held"
    using mempool.client_holds_live [OF assms(5)] c by blast
  then have "mempool_destroy s = card (set held)" using mempool_destroy_ok [of s] by (simp add: mempool_inv_def)
  then show ?thesis using r by (simp add: distinct_card)
qed

theorem mempool_sessions_witness: "pool_live demo_mempool1 = {4224} \<and> mempool_destroy demo_mempool1 = 1"
proof -
  have "client_run mempool_take internal_free mempool_env_ok demo_mempool demo_mempool1 [4224]"
    by (rule client_take [OF client_start, where e = "(\<lambda>_. None, 80)"])
      (simp_all add: mempool_env_ok_def demo_memalign_ok mempool_take_def demo_mempool_alloc)
  from mempool_sessions [OF demo_mempool_create _ _ demo_memalign_ok(1) this] show ?thesis by simp
qed

text \<open>A block handed out was free, is at least as large as asked for, starts on a cache line and overlaps neither
  the payload nor the header of any other block in use.\<close>

theorem mempool_alloc_fresh:
  assumes "pool_ok s" "posix_memalign_ok memalign s" "mempool_alloc_sized memalign n s = (Some p, s')"
  shows "pool_ok s' \<and> p \<notin> pool_live s \<and> pool_live s' = insert p (pool_live s) \<and> n \<le> mp_block_size (fst s') \<and>
    p mod CACHELINE_SIZE = 0 \<and> p + n \<le> 2 ^ 64 \<and>
    (\<forall>q \<in> pool_live s. p + n \<le> q - CACHELINE_SIZE \<or> q + mp_block_size (fst s') \<le> p - CACHELINE_SIZE)"
proof -
  note a = mempool_alloc_ok [OF assms]
  then have "p \<in> pool_live s'" "pool_ok s'" by simp_all
  note l = pool_live_layout [OF this(2,1)]
  show ?thesis using a l by (fastforce simp: CACHELINE_SIZE_def)
qed

theorem mempool_alloc_fresh_witness: "4224 mod CACHELINE_SIZE = 0 \<and> pool_live demo_mempool1 = {4224}"
  using mempool_alloc_fresh [OF demo_mempool_ok(1) demo_memalign_ok(2) demo_mempool_alloc] demo_mempool_ok(2) by simp

text \<open>C24. Only a block in use can be released. Any other pointer, foreign, inside a block, or released before,
  changes neither the free list nor any header; a block in use leaves the set of blocks in use.\<close>

theorem mempool_free_guarded:
  assumes "pool_ok s" "p < 2 ^ 64"
  shows "pool_ok (mempool_free_sized p n s) \<and> pool_live (mempool_free_sized p n s) = pool_live s - {p} \<and>
    (p \<notin> pool_live s \<longrightarrow> snd (mempool_free_sized p n s) = snd s \<and>
       mp_free_list (fst (mempool_free_sized p n s)) = mp_free_list (fst s) \<and>
       mp_free_count (fst (mempool_free_sized p n s)) = mp_free_count (fst s))"
  using mempool_free_ok [OF assms] by (simp add: mempool_free_sized_def)

theorem mempool_free_guarded_witness:
  "snd (mempool_free_sized 4232 8 demo_mempool1) = snd demo_mempool1 \<and> pool_live (mempool_free_sized 4224 80 demo_mempool1) = {}"
  using mempool_free_guarded [OF demo_mempool1_ok(1), of 4232 8] mempool_free_guarded [OF demo_mempool1_ok(1), of 4224 80]
    demo_mempool1_ok(2) by simp

text \<open>The pool is exhausted only when it is: a request that fits a block and fails means that the maximum
  number of blocks is in use, or that the system had no memory for another slab.\<close>

theorem mempool_exhausted:
  assumes "pool_ok s" "mempool_alloc_sized memalign n s = (None, s')" "n \<le> mp_block_size (fst s)"
    "mp_total_size (fst s) \<le> 2 ^ 32"
  shows "card (pool_live s) = mp_max_blocks (fst s) \<or>
    (\<exists>k \<le> EXPAND_BATCH_SIZE. 0 < k \<and> memalign (CACHELINE_SIZE + k * mp_total_size (fst s)) = None)"
proof -
  have "0 < mp_total_size (fst s)" using assms(1) slabs_ok_pos by (cases s) (auto simp: pool_ok_alt)
  then have "(SIZE_T_MAX - CACHELINE_SIZE) div 2 ^ 32 \<le> (SIZE_T_MAX - CACHELINE_SIZE) div mp_total_size (fst s)"
    using assms(4) by (intro div_le_mono2)
  then have "\<not> EXPAND_BATCH_SIZE > (SIZE_T_MAX - CACHELINE_SIZE) div mp_total_size (fst s)"
    by (simp add: EXPAND_BATCH_SIZE_def SIZE_T_MAX_def CACHELINE_SIZE_def)
  then show ?thesis using mempool_alloc_None [OF assms(1-3)] by blast
qed

theorem mempool_exhausted_witness: "card (pool_live demo_mempool2) = 2"
  using mempool_exhausted [OF demo_mempool2_ok demo_mempool2_alloc] by (simp add: demo_mempool2_fields)

text \<open>The last block released is the next one handed out.\<close>

theorem mempool_lifo:
  assumes "pool_ok s" "p < 2 ^ 64" "p \<in> pool_live s" "n \<le> mp_block_size (fst s)"
  shows "fst (mempool_alloc_sized memalign n (mempool_free_sized p k s)) = Some p"
proof -
  obtain pool h where s: "s = (pool, h)" by (cases s)
  have slabs: "slabs_ok pool" using assms(1) s by (simp add: pool_ok_alt)
  obtain b where b: "b \<in> pool_blocks pool" "p = block_to_data b"
    using assms(3) by (auto simp: s pool_live_alt live_blocks_def)
  have "0 < p" using b(2) by (simp add: block_to_data_def CACHELINE_SIZE_def)
  then have "block_to_data (data_to_header p) = p"
    using data_header(2) [OF slabs _ assms(2) b(1)] b(2) by simp
  then show ?thesis
    using mempool_free_ok(4,5) [OF assms(1,2)] assms(3,4)
    by (auto simp: mempool_alloc_sized_def mempool_free_sized_def split: prod.splits)
qed

theorem mempool_lifo_witness: "fst (mempool_alloc_sized (\<lambda>_. None) 50 (mempool_free_sized 4224 80 demo_mempool1)) = Some 4224"
  using mempool_lifo [OF demo_mempool1_ok(1), of 4224 50 "\<lambda>_. None" 80] demo_mempool1_ok by simp

end
