(* ===== verification/Double.thy ===== *)
theory Double
  imports Complex_Main
begin

text \<open>
  Double-precision arithmetic for the times (\<^verbatim>\<open>ev_tstamp\<close>) and the scores. A finite
  double is a rational number; every operation is the exact one followed by rounding to the nearest
  number with a mantissa of 53 bits, ties to even. The magnitudes in the program are far from the limits
  of the exponent, so overflow and subnormal numbers are left out.
\<close>

type_synonym ev_tstamp = rat

section \<open>Rounding\<close>

text \<open>The position of the highest bit of a positive integer.\<close>

function high_bit :: "int \<Rightarrow> int" where
  "high_bit n = (if n \<le> 1 then 0 else 1 + high_bit (n div 2))"
  by auto
termination by (relation "measure nat") auto

declare high_bit.simps [simp del]

text \<open>The exponent of a positive number: the \<open>k\<close> with \<open>2 ^ k \<le> x < 2 ^ (k + 1)\<close>.\<close>

definition exponent_of :: "rat \<Rightarrow> int" where
  "exponent_of x =
     (case quotient_of x of (n, d) \<Rightarrow>
        (let k = high_bit n - high_bit d
         in if 2 powi k \<le> x then k else k - 1))"

definition round_even :: "rat \<Rightarrow> int" where
  "round_even q =
     (let f = floor q; r = q - of_int f
      in if r < 1 / 2 then f else if r > 1 / 2 then f + 1 else if even f then f else f + 1)"

definition round_pos :: "rat \<Rightarrow> rat" where
  "round_pos x = (let u = 2 powi (exponent_of x - 52) in of_int (round_even (x / u)) * u)"

definition rnd :: "rat \<Rightarrow> rat" where
  "rnd x = (if x = 0 then 0 else if x > 0 then round_pos x else - round_pos (- x))"

definition fadd :: "rat \<Rightarrow> rat \<Rightarrow> rat" where "fadd x y = rnd (x + y)"
definition fsub :: "rat \<Rightarrow> rat \<Rightarrow> rat" where "fsub x y = rnd (x - y)"
definition fmul :: "rat \<Rightarrow> rat \<Rightarrow> rat" where "fmul x y = rnd (x * y)"
definition fdiv :: "rat \<Rightarrow> rat \<Rightarrow> rat" where "fdiv x y = rnd (x / y)"

lemmas float_ops = fadd_def fsub_def fmul_def fdiv_def

section \<open>The exponent\<close>

lemma high_bit_bounds:
  "0 < n \<Longrightarrow> 0 \<le> high_bit n \<and> 2 ^ nat (high_bit n) \<le> n \<and> n < 2 * 2 ^ nat (high_bit n)"
proof (induction n rule: high_bit.induct)
  case (1 n)
  show ?case
  proof (cases "n \<le> 1")
    case True then show ?thesis using 1(2) by (simp add: high_bit.simps)
  next
    case False
    then have "0 \<le> high_bit (n div 2) \<and> 2 ^ nat (high_bit (n div 2)) \<le> n div 2 \<and> n div 2 < 2 * 2 ^ nat (high_bit (n div 2))"
      using 1(1) by simp
    then show ?thesis using False by (subst (1 2 3) high_bit.simps) (auto simp: nat_add_distrib)
  qed
qed

lemma exponent_bounds:
  assumes "0 < x" shows "2 powi exponent_of x \<le> x" "x < 2 powi (exponent_of x + 1)"
proof -
  obtain n d where q: "quotient_of x = (n, d)" by fastforce
  have d: "0 < d" using quotient_of_denom_pos [OF q] .
  have x: "x = of_int n / of_int d" using quotient_of_div [OF q] .
  have n: "0 < n" using assms d unfolding x by (simp add: zero_less_divide_iff)
  let ?a = "high_bit n" and ?b = "high_bit d"
  have cast: "(2::rat) powi high_bit i \<le> of_int i \<and> of_int i < 2 * (2::rat) powi high_bit i" if "0 < i" for i
  proof -
    note h = high_bit_bounds [OF that]
    have "of_int (2 ^ nat (high_bit i)) \<le> (of_int i :: rat) \<and> of_int i < (of_int (2 * 2 ^ nat (high_bit i)) :: rat)"
      unfolding of_int_le_iff of_int_less_iff using h by simp
    then show ?thesis using h by (simp add: power_int_def)
  qed
  let ?k = "?a - ?b"
  have dp: "(0::rat) < of_int d" "(0::rat) < of_int n" using d n by simp_all
  have low: "2 powi (?k - 1) \<le> x"
  proof -
    have "2 powi (?k - 1) = (2::rat) powi ?a / (2 * 2 powi ?b)" by (simp add: power_int_diff)
    also have "\<dots> \<le> x" unfolding x using cast [OF n] cast [OF d] dp by (intro frac_le) simp_all
    finally show ?thesis .
  qed
  have high: "x < 2 powi (?k + 1)"
  proof -
    have "x < 2 * 2 powi ?a / 2 powi ?b" unfolding x using cast [OF n] cast [OF d] dp by (intro frac_less) simp_all
    also have "\<dots> = 2 powi (?k + 1)" by (simp add: power_int_add power_int_diff)
    finally show ?thesis .
  qed
  show "2 powi exponent_of x \<le> x" "x < 2 powi (exponent_of x + 1)"
    using low high by (auto simp: exponent_of_def q Let_def)
qed


lemma pow2_lessD: "(2::rat) powi a < 2 powi b \<Longrightarrow> a < b"
  using power_int_increasing [of b a "2::rat"] by (meson linorder_not_le one_le_numeral)

lemma exponent_unique:
  assumes "2 powi k \<le> x" "x < 2 powi (k + 1)" shows "exponent_of x = k"
proof -
  have p: "(0::rat) < 2 powi k" by simp
  then have x: "0 < x" using assms(1) by linarith
  note b = exponent_bounds [OF x]
  have "(2::rat) powi exponent_of x < 2 powi (k + 1)" "(2::rat) powi k < 2 powi (exponent_of x + 1)"
    using assms b by linarith+
  then have "exponent_of x < k + 1" "k < exponent_of x + 1" by (auto dest: pow2_lessD)
  then show ?thesis by linarith
qed

lemma exponent_mono:
  assumes "0 < x" "x \<le> y" shows "exponent_of x \<le> exponent_of y"
proof -
  have "0 < y" using assms by linarith
  have "(2::rat) powi exponent_of x < 2 powi (exponent_of y + 1)"
    using exponent_bounds(1) [OF assms(1)] exponent_bounds(2) [OF \<open>0 < y\<close>] assms(2) by linarith
  then show ?thesis by (auto dest: pow2_lessD)
qed

section \<open>Rounding is monotone and exact on doubles\<close>

lemma round_even_mono: "q \<le> r \<Longrightarrow> round_even q \<le> round_even r"
proof -
  assume qr: "q \<le> r"
  have f: "floor q \<le> floor r" using qr by (rule floor_mono)
  show "round_even q \<le> round_even r"
  proof (cases "floor q = floor r")
    case True
    then show ?thesis using qr by (auto simp: round_even_def Let_def)
  next
    case False
    then have "floor q + 1 \<le> floor r" using f by simp
    then show ?thesis by (auto simp: round_even_def Let_def)
  qed
qed

lemma round_even_of_int [simp]: "round_even (of_int i) = i"
  by (simp add: round_even_def)

lemma unit_pos: "(0::rat) < 2 powi k" by simp

lemma round_pos_le_pow:
  assumes "0 < x" shows "round_pos x \<le> 2 powi (exponent_of x + 1)" "2 powi exponent_of x \<le> round_pos x"
proof -
  let ?e = "exponent_of x" and ?u = "2 powi (exponent_of x - 52) :: rat"
  have s: "2 powi (?e + 1) = 2 ^ 53 * ?u" "2 powi ?e = 2 ^ 52 * ?u"
    by (simp_all add: power_int_add power_int_diff)
  have "x / ?u \<le> of_int (2 ^ 53)" "of_int (2 ^ 52) \<le> x / ?u"
    using exponent_bounds [OF assms] unfolding s by (simp_all add: pos_divide_le_eq pos_le_divide_eq)
  then have "round_even (x / ?u) \<le> 2 ^ 53" "2 ^ 52 \<le> round_even (x / ?u)"
    by (metis round_even_mono round_even_of_int)+
  then have "of_int (round_even (x / ?u)) \<le> (of_int (2 ^ 53) :: rat)" "(of_int (2 ^ 52) :: rat) \<le> of_int (round_even (x / ?u))"
    by (simp_all only: of_int_le_iff)
  then have m: "of_int (round_even (x / ?u)) * ?u \<le> of_int (2 ^ 53) * ?u" "of_int (2 ^ 52) * ?u \<le> of_int (round_even (x / ?u)) * ?u"
    by (intro mult_right_mono; simp)+
  then show "round_pos x \<le> 2 powi (?e + 1)" "2 powi ?e \<le> round_pos x"
    unfolding s by (simp_all add: round_pos_def Let_def)
qed

lemma round_pos_mono:
  assumes "0 < x" "x \<le> y" shows "round_pos x \<le> round_pos y"
proof (cases "exponent_of x = exponent_of y")
  case True
  let ?u = "2 powi (exponent_of y - 52) :: rat"
  have "x / ?u \<le> y / ?u" using assms(2) by (intro divide_right_mono) simp_all
  then have "of_int (round_even (x / ?u)) * ?u \<le> of_int (round_even (y / ?u)) * ?u"
    using round_even_mono by (intro mult_right_mono) simp_all
  then show ?thesis by (simp add: round_pos_def Let_def True)
next
  case False
  then have "exponent_of x + 1 \<le> exponent_of y" using exponent_mono [OF assms] by simp
  then have "(2::rat) powi (exponent_of x + 1) \<le> 2 powi exponent_of y" by (intro power_int_increasing) simp_all
  moreover have "0 < y" using assms by linarith
  ultimately show ?thesis
    using round_pos_le_pow(1) [OF assms(1)] round_pos_le_pow(2) [of y] by linarith
qed

lemma round_pos_pos: "0 < x \<Longrightarrow> 0 < round_pos x"
  using round_pos_le_pow(2) [of x] unit_pos [of "exponent_of x"] by linarith

lemma rnd_mono: "x \<le> y \<Longrightarrow> rnd x \<le> rnd y"
proof -
  assume le: "x \<le> y"
  consider "0 < x" | "x \<le> 0" "0 \<le> y" | "y < 0" by linarith
  then show "rnd x \<le> rnd y"
  proof cases
    case 1 then show ?thesis using le round_pos_mono [OF 1 le] by (simp add: rnd_def)
  next
    case 2
    then have "rnd x \<le> 0" "0 \<le> rnd y"
      using round_pos_pos [of "- x"] round_pos_pos [of y] by (auto simp: rnd_def)
    then show ?thesis by linarith
  next
    case 3
    then show ?thesis using le round_pos_mono [of "- y" "- x"] by (simp add: rnd_def)
  qed
qed

lemma rnd_nonneg [simp]: "0 \<le> x \<Longrightarrow> 0 \<le> rnd x"
  using rnd_mono [of 0 x] by (simp add: rnd_def)

text \<open>A number with a mantissa of at most 53 bits is not changed, so neither is a small integer.\<close>

lemma round_pos_exact:
  assumes "0 < m" "m < 2 ^ 53" "x = of_int m * 2 powi e"
  shows "round_pos x = x"
proof -
  have x: "0 < x" using assms by simp
  let ?k = "exponent_of x"
  have "x < 2 ^ 53 * 2 powi e" using assms by (simp add: mult_strict_right_mono) 
  then have "(2::rat) powi ?k < 2 powi (53 + e)" using exponent_bounds(1) [OF x] by (simp add: power_int_add)
  then have k: "?k - 52 \<le> e" by (auto dest: pow2_lessD)
  have "x / 2 powi (?k - 52) = of_int (m * 2 ^ nat (e - (?k - 52)))"
  proof -
    have "(2::rat) powi e = 2 powi (e - (?k - 52)) * 2 powi (?k - 52)"
      by (simp flip: power_int_add)
    also have "(2::rat) powi (e - (?k - 52)) = 2 ^ nat (e - (?k - 52))" using k by (simp add: power_int_def)
    finally have e: "(2::rat) powi e = 2 ^ nat (e - (?k - 52)) * 2 powi (?k - 52)" .
    have "x = of_int m * 2 ^ nat (e - (?k - 52)) * 2 powi (?k - 52)" unfolding assms(3) [folded e] using assms(3) e by simp
    then show ?thesis by (simp add: divide_eq_eq)
  qed
  then show ?thesis unfolding round_pos_def Let_def by (simp only: round_even_of_int) (simp add: divide_eq_eq)
qed

lemma rnd_of_int:
  assumes "\<bar>i\<bar> < 2 ^ 53" shows "rnd (of_int i) = of_int i"
proof -
  consider "i = 0" | "0 < i" | "i < 0" by linarith
  then show ?thesis
  proof cases
    case 2 then show ?thesis using assms round_pos_exact [of i _ 0] by (simp add: rnd_def)
  next
    case 3 then show ?thesis using assms round_pos_exact [of "- i" _ 0] by (simp add: rnd_def)
  qed (simp add: rnd_def)
qed

lemma rnd_numeral [simp]: "(numeral n :: int) < 2 ^ 53 \<Longrightarrow> rnd (numeral n) = numeral n" "rnd 1 = 1" "rnd 0 = 0"
  using rnd_of_int [of "numeral n"] rnd_of_int [of 1] by (simp_all add: rnd_def)

lemma rnd_le: "x \<le> of_int i \<Longrightarrow> \<bar>i\<bar> < 2 ^ 53 \<Longrightarrow> rnd x \<le> of_int i"
  using rnd_mono [of x "of_int i"] rnd_of_int [of i] by simp

lemma rnd_ge: "of_int i \<le> x \<Longrightarrow> \<bar>i\<bar> < 2 ^ 53 \<Longrightarrow> of_int i \<le> rnd x"
  using rnd_mono [of "of_int i" x] rnd_of_int [of i] by simp

end
