(* ===== verification/ServerSelector.thy ===== *)
theory ServerSelector
  imports Prelude Double "HOL-Library.Multiset" "HOL-Library.Signed_Division"
begin

text \<open>
  The ranking of the servers in \<^verbatim>\<open>src/src/server_selector.c\<close>: the ring buffer of
  probe results, the score computed from it, the health of a server, and the published best server of
  each protocol. The probes that feed it are in theory \<open>SelectorProbe\<close>.

  A selector's record stands for one of the two \<^verbatim>\<open>ss_selector_t\<close>; the index its field
  \<^verbatim>\<open>best_idx\<close> points to is kept in the record. Every operation takes the selector's lock for its
  whole effect on the ranking, so it is one atomic step; readers of the index take no lock and see it
  between steps. Log output is left out.
\<close>

section \<open>State\<close>

definition SS_MAX_SERVERS :: nat where "SS_MAX_SERVERS = 8"
definition SS_WINDOW_SLOTS :: int where "SS_WINDOW_SLOTS = 67"
definition SS_CHECK_INTERVAL :: rat where "SS_CHECK_INTERVAL = 60"
definition SS_CHECK_TIMEOUT :: rat where "SS_CHECK_TIMEOUT = 5"
definition SS_MAX_RTT_MS :: u32 where "SS_MAX_RTT_MS = 5000"
definition SS_WINDOW_SEC :: rat where "SS_WINDOW_SEC = SS_CHECK_INTERVAL * of_int SS_WINDOW_SLOTS"
definition SS_SWITCH_THRESHOLD :: u32 where "SS_SWITCH_THRESHOLD = 6"

lemmas ss_consts =
  SS_MAX_SERVERS_def SS_WINDOW_SLOTS_def SS_CHECK_INTERVAL_def SS_CHECK_TIMEOUT_def SS_MAX_RTT_MS_def
  SS_SWITCH_THRESHOLD_def

record ss_sample =
  latency_ms :: u32
  errored :: bool
  sample_ts :: ev_tstamp

record ss_window =
  win_samples :: "ss_sample list"
  win_head :: int
  win_count :: int

record ss_server =
  srv_ipstr :: bytes
  srv_portno :: u16
  srv_skaddr :: bytes
  srv_method :: nat
  srv_psk :: bytes
  srv_salt_len :: u8
  tcp_window :: ss_window
  udp_window :: ss_window
  tcp_score :: u32
  udp_score :: u32

datatype ss_health = SS_HEALTH_UNKNOWN | SS_HEALTH_OK | SS_HEALTH_FAILED

record 'x ss_selector =
  sel_is_tcp :: bool
  sel_best_idx :: int
  sel_health :: "ss_health list"
  sel_failure_epoch :: "u64 list"
  sel_probes_remaining :: int
  sel_check_timer :: bool
  sel_ctx :: "'x option list" \<comment> \<open>\<open>Some\<close> when \<^verbatim>\<open>ctx_ready\<close>\<close>

section \<open>The score\<close>

text \<open>The conversion of a non-negative double to \<^verbatim>\<open>uint32_t\<close>.\<close>

definition u32_of_double :: "rat \<Rightarrow> u32" where
  "u32_of_double x = word_of_int (floor x)"

definition window_slot :: "int \<Rightarrow> int \<Rightarrow> int \<Rightarrow> nat" where
  "window_slot head cnt i = nat ((head - cnt + i + SS_WINDOW_SLOTS) smod SS_WINDOW_SLOTS)"

definition too_old :: "ev_tstamp \<Rightarrow> ss_sample \<Rightarrow> bool" where
  "too_old now s \<longleftrightarrow> fsub now (sample_ts s) > SS_WINDOW_SEC"

definition clamp_latency :: "u32 \<Rightarrow> u32" where
  "clamp_latency l = (if l < SS_MAX_RTT_MS then l else SS_MAX_RTT_MS)"

text \<open>The loop over the window: the latencies of the successful probes and the number of failed ones.\<close>

fun window_scan :: "ev_tstamp \<Rightarrow> ss_sample list \<Rightarrow> u32 list \<Rightarrow> nat \<Rightarrow> u32 list \<times> nat" where
  "window_scan now [] latencies fail = (latencies, fail)"
| "window_scan now (s # ss) latencies fail =
     (if too_old now s then window_scan now ss latencies fail
      else if errored s then window_scan now ss latencies (fail + 1)
      else window_scan now ss (latencies @ [clamp_latency (latency_ms s)]) fail)"

definition median_of :: "u32 list \<Rightarrow> u32" where
  "median_of xs = sort xs ! (length xs div 2)"

definition deviation :: "u32 \<Rightarrow> u32 \<Rightarrow> u32" where
  "deviation m x = (if x > m then x - m else m - x)"

definition score_formula :: "rat \<Rightarrow> rat \<Rightarrow> rat \<Rightarrow> u32" where
  "score_formula nrtt fail_rate nmad =
     u32_of_double (fmul (fdiv (fadd (fadd nrtt (fmul fail_rate 3)) nmad) 5) 10000)"

definition score_of :: "u32 list \<Rightarrow> nat \<Rightarrow> u32" where
  "score_of latencies fail =
     (let n = length latencies; total = n + fail in
      if total = 0 then UINT32_MAX
      else
        (let fail_rate = fdiv (of_nat fail) (of_nat total) in
         if n = 0 then score_formula 1 fail_rate 1
         else
           (let median = median_of latencies;
                mad = median_of (map (deviation median) (sort latencies));
                nrtt = fdiv (of_nat (unat median)) (of_nat (unat SS_MAX_RTT_MS));
                nmad = fdiv (of_nat (unat mad)) (of_nat (unat SS_MAX_RTT_MS));
                nrtt = (if nrtt > 1 then 1 else nrtt);
                nmad = (if nmad > 1 then 1 else nmad)
            in score_formula nrtt fail_rate nmad)))"

definition ss_compute_score :: "ss_window \<Rightarrow> ev_tstamp \<Rightarrow> u32" where
  "ss_compute_score w now =
     (case window_scan now
             (map (\<lambda>i. win_samples w ! window_slot (win_head w) (win_count w) (int i)) [0..<nat (win_count w)]) [] 0 of
        (latencies, fail) \<Rightarrow> score_of latencies fail)"

section \<open>Ranking\<close>

definition ss_health_rank :: "ss_health \<Rightarrow> int" where
  "ss_health_rank h = (case h of SS_HEALTH_OK \<Rightarrow> 0 | SS_HEALTH_UNKNOWN \<Rightarrow> 1 | SS_HEALTH_FAILED \<Rightarrow> 2)"

definition ss_score :: "ss_server list \<Rightarrow> 'x ss_selector \<Rightarrow> int \<Rightarrow> u32" where
  "ss_score servers sel idx =
     (if sel_is_tcp sel then tcp_score (servers ! nat idx) else udp_score (servers ! nat idx))"

definition ss_better_locked :: "ss_server list \<Rightarrow> 'x ss_selector \<Rightarrow> int \<Rightarrow> int \<Rightarrow> bool" where
  "ss_better_locked servers sel a b =
     (let ar = ss_health_rank (sel_health sel ! nat a); br = ss_health_rank (sel_health sel ! nat b)
      in ar < br \<or> (ar = br \<and> ss_score servers sel a < ss_score servers sel b))"

definition tried :: "u32 \<Rightarrow> int \<Rightarrow> bool" where
  "tried tried_mask i \<longleftrightarrow> tried_mask AND push_bit (nat i) 1 \<noteq> 0"

definition ss_candidate_locked :: "ss_server list \<Rightarrow> nat \<Rightarrow> 'x ss_selector \<Rightarrow> u32 \<Rightarrow> int" where
  "ss_candidate_locked servers n sel tried_mask =
     (let best = sel_best_idx sel;
          best = (if best < 0 \<or> best \<ge> int n \<or> tried tried_mask best then -1 else best)
      in fold (\<lambda>i best. if tried tried_mask (int i) then best
                        else if best < 0 \<or> ss_better_locked servers sel (int i) best then int i else best)
           [0..<n] best)"

definition ss_update_best_locked ::
  "ss_server list \<Rightarrow> nat \<Rightarrow> int \<Rightarrow> bool \<Rightarrow> 'x ss_selector \<Rightarrow> 'x ss_selector" where
  "ss_update_best_locked servers n failed_idx allow_score_switch sel =
     (let prev = sel_best_idx sel; best = ss_candidate_locked servers n sel 0
      in if best < 0 then sel
         else
           (let force = (failed_idx = prev \<and> n > 1);
                best = (if force \<and> best = prev
                        then ss_candidate_locked servers n sel (push_bit (nat prev) 1) else best)
            in if best = prev then sel
               else if \<not> force \<and> \<not> allow_score_switch \<and> sel_health sel ! nat best = sel_health sel ! nat prev then sel
               else
                 (let score = ss_score servers sel best; prev_score = ss_score servers sel prev
                  in if \<not> force \<and> sel_health sel ! nat best = sel_health sel ! nat prev \<and>
                        (score \<ge> prev_score \<or> prev_score - score \<le> SS_SWITCH_THRESHOLD)
                     then sel
                     else sel\<lparr>sel_best_idx := best\<rparr>)))"

section \<open>The selectors\<close>

record 'x selectors =
  g_ss_servers :: "ss_server list"
  g_ss_server_count :: nat
  g_tcp_selector :: "'x ss_selector"
  g_udp_selector :: "'x ss_selector"

definition get_selector :: "bool \<Rightarrow> 'x selectors \<Rightarrow> 'x ss_selector" where
  "get_selector is_tcp S = (if is_tcp then g_tcp_selector S else g_udp_selector S)"

definition put_selector :: "bool \<Rightarrow> 'x ss_selector \<Rightarrow> 'x selectors \<Rightarrow> 'x selectors" where
  "put_selector is_tcp sel S =
     (if is_tcp then S\<lparr>g_tcp_selector := sel\<rparr> else S\<lparr>g_udp_selector := sel\<rparr>)"

definition ss_attempt_epoch :: "'x ss_selector \<Rightarrow> int \<Rightarrow> u64" where
  "ss_attempt_epoch sel idx = sel_failure_epoch sel ! nat idx"

definition server_selector_tcp_attempt :: "int \<Rightarrow> 'x selectors \<Rightarrow> u64" where
  "server_selector_tcp_attempt server_idx S = ss_attempt_epoch (g_tcp_selector S) server_idx"

definition server_selector_next_best_tcp :: "u32 \<Rightarrow> 'x selectors \<Rightarrow> int" where
  "server_selector_next_best_tcp tried_mask S =
     ss_candidate_locked (g_ss_servers S) (g_ss_server_count S) (g_tcp_selector S) tried_mask"

definition server_selector_udp_replacement :: "int \<Rightarrow> 'x selectors \<Rightarrow> int" where
  "server_selector_udp_replacement server_idx S =
     (let sel = g_udp_selector S; best = sel_best_idx sel; n = int (g_ss_server_count S)
      in if server_idx \<ge> 0 \<and> server_idx < n \<and> best \<ge> 0 \<and> best < n \<and> best \<noteq> server_idx \<and>
            sel_health sel ! nat server_idx = SS_HEALTH_FAILED \<and> sel_health sel ! nat best = SS_HEALTH_OK
         then best else -1)"

definition server_selector_best_tcp :: "'x selectors \<Rightarrow> int" where
  "server_selector_best_tcp S = sel_best_idx (g_tcp_selector S)"

definition server_selector_best_udp :: "'x selectors \<Rightarrow> int" where
  "server_selector_best_udp S = sel_best_idx (g_udp_selector S)"

text \<open>The update of one server's health and epoch by a failure and by a success.\<close>

definition mark_failed :: "int \<Rightarrow> 'x ss_selector \<Rightarrow> 'x ss_selector" where
  "mark_failed idx sel =
     sel\<lparr>sel_failure_epoch := (sel_failure_epoch sel)[nat idx := sel_failure_epoch sel ! nat idx + 1],
         sel_health := (sel_health sel)[nat idx := SS_HEALTH_FAILED]\<rparr>"

definition mark_ok :: "int \<Rightarrow> 'x ss_selector \<Rightarrow> 'x ss_selector" where
  "mark_ok idx sel = sel\<lparr>sel_health := (sel_health sel)[nat idx := SS_HEALTH_OK]\<rparr>"

definition server_selector_report_tcp_failure :: "int \<Rightarrow> 'x selectors \<Rightarrow> 'x selectors" where
  "server_selector_report_tcp_failure server_idx S =
     (if server_idx < 0 \<or> server_idx \<ge> int (g_ss_server_count S) then S
      else S\<lparr>g_tcp_selector :=
               ss_update_best_locked (g_ss_servers S) (g_ss_server_count S) server_idx False
                 (mark_failed server_idx (g_tcp_selector S))\<rparr>)"

definition server_selector_report_tcp_success :: "int \<Rightarrow> u64 \<Rightarrow> 'x selectors \<Rightarrow> 'x selectors" where
  "server_selector_report_tcp_success server_idx attempt_epoch S =
     (if server_idx < 0 \<or> server_idx \<ge> int (g_ss_server_count S) then S
      else if attempt_epoch = sel_failure_epoch (g_tcp_selector S) ! nat server_idx
      then S\<lparr>g_tcp_selector :=
               ss_update_best_locked (g_ss_servers S) (g_ss_server_count S) (-1) False
                 (mark_ok server_idx (g_tcp_selector S))\<rparr>
      else S)"

text \<open>The write of a sample into the ring.\<close>

definition window_push :: "ss_sample \<Rightarrow> ss_window \<Rightarrow> ss_window" where
  "window_push s w =
     w\<lparr>win_samples := (win_samples w)[nat (win_head w) := s],
       win_head := (win_head w + 1) smod SS_WINDOW_SLOTS,
       win_count := (if win_count w < SS_WINDOW_SLOTS then win_count w + 1 else win_count w)\<rparr>"

definition server_push :: "bool \<Rightarrow> ss_sample \<Rightarrow> ev_tstamp \<Rightarrow> ss_server \<Rightarrow> ss_server" where
  "server_push is_tcp s now srv =
     (if is_tcp
      then (let w = window_push s (tcp_window srv) in srv\<lparr>tcp_window := w, tcp_score := ss_compute_score w now\<rparr>)
      else (let w = window_push s (udp_window srv) in srv\<lparr>udp_window := w, udp_score := ss_compute_score w now\<rparr>))"

definition ss_record_probe ::
  "bool \<Rightarrow> int \<Rightarrow> u32 \<Rightarrow> bool \<Rightarrow> u64 \<Rightarrow> ev_tstamp \<Rightarrow> 'x selectors \<Rightarrow> 'x selectors" where
  "ss_record_probe is_tcp idx latency err attempt_epoch now S =
     (let servers = (g_ss_servers S)[nat idx :=
            server_push is_tcp \<lparr>latency_ms = latency, errored = err, sample_ts = now\<rparr> now (g_ss_servers S ! nat idx)];
          S = S\<lparr>g_ss_servers := servers\<rparr>;
          sel = get_selector is_tcp S;
          sel = (if err then mark_failed idx sel
                 else if attempt_epoch = sel_failure_epoch sel ! nat idx then mark_ok idx sel else sel)
      in put_selector is_tcp
           (ss_update_best_locked servers (g_ss_server_count S) (if err then idx else -1) False sel) S)"

definition ss_probe_done :: "bool \<Rightarrow> 'x selectors \<Rightarrow> 'x selectors" where
  "ss_probe_done is_tcp S =
     (let sel = get_selector is_tcp S; sel = sel\<lparr>sel_probes_remaining := sel_probes_remaining sel - 1\<rparr>
      in put_selector is_tcp
           (if sel_probes_remaining sel = 0
            then ss_update_best_locked (g_ss_servers S) (g_ss_server_count S) (-1) True sel else sel) S)"

definition ss_probe_skip :: "bool \<Rightarrow> 'x selectors \<Rightarrow> 'x selectors" where
  "ss_probe_skip is_tcp S = ss_probe_done is_tcp S"

text \<open>
  The initialisation: scores, heads and counts of the configured servers only; the health and epochs of all.
\<close>

definition selector_reset :: "'x ss_selector \<Rightarrow> 'x ss_selector" where
  "selector_reset sel =
     sel\<lparr>sel_probes_remaining := 0, sel_health := replicate SS_MAX_SERVERS SS_HEALTH_UNKNOWN,
         sel_failure_epoch := replicate SS_MAX_SERVERS 0, sel_best_idx := 0\<rparr>"

definition ss_server_reset :: "ss_server \<Rightarrow> ss_server" where
  "ss_server_reset srv =
     srv\<lparr>tcp_score := UINT32_MAX, udp_score := UINT32_MAX,
         tcp_window := (tcp_window srv)\<lparr>win_head := 0, win_count := 0\<rparr>,
         udp_window := (udp_window srv)\<lparr>win_head := 0, win_count := 0\<rparr>\<rparr>"

definition server_selector_init :: "'x selectors \<Rightarrow> 'x selectors" where
  "server_selector_init S =
     S\<lparr>g_tcp_selector := selector_reset (g_tcp_selector S), g_udp_selector := selector_reset (g_udp_selector S),
       g_ss_servers := map ss_server_reset (take (g_ss_server_count S) (g_ss_servers S)) @
                       drop (g_ss_server_count S) (g_ss_servers S)\<rparr>"

section \<open>The score is bounded\<close>

lemma fadd_le: "x \<le> of_int i \<Longrightarrow> y \<le> of_int j \<Longrightarrow> \<bar>i + j\<bar> < 2 ^ 53 \<Longrightarrow> fadd x y \<le> of_int (i + j)"
  unfolding fadd_def by (rule rnd_le) simp_all

lemma fdiv_unit: "0 \<le> x \<Longrightarrow> x \<le> y \<Longrightarrow> 0 < y \<Longrightarrow> 0 \<le> fdiv x y \<and> fdiv x y \<le> 1"
  using rnd_le [of "x / y" 1] by (simp add: fdiv_def)

lemma score_formula_bound:
  assumes "0 \<le> a" "a \<le> 1" "0 \<le> f" "f \<le> 1" "0 \<le> b" "b \<le> 1"
  shows "unat (score_formula a f b) \<le> 10000"
proof -
  have "fmul f 3 \<le> of_int 3" unfolding fmul_def by (rule rnd_le) (use assms in simp_all)
  with assms(2) have "fadd a (fmul f 3) \<le> of_int (1 + 3)" by (rule fadd_le [where i = 1, simplified of_int_1]) simp
  from fadd_le [OF this, of b 1] assms(6) have "fadd (fadd a (fmul f 3)) b \<le> of_int (1 + 3 + 1)" by simp
  then have "fdiv (fadd (fadd a (fmul f 3)) b) 5 \<le> of_int 1"
    unfolding fdiv_def by (intro rnd_le) simp_all
  then have le: "fmul (fdiv (fadd (fadd a (fmul f 3)) b) 5) 10000 \<le> of_int 10000" (is "?v \<le> _")
    unfolding fmul_def by (intro rnd_le) simp_all
  have "0 \<le> ?v" using assms by (simp add: float_ops)
  then have "0 \<le> floor ?v" "floor ?v \<le> 10000" using le by (simp_all add: floor_le_iff)
  then show ?thesis
    by (simp add: score_formula_def u32_of_double_def unat_eq_nat_uint uint_word_of_int_eq take_bit_int_eq_self nat_le_iff)
qed

lemma score_of_bound:
  assumes "latencies \<noteq> [] \<or> fail \<noteq> 0" shows "unat (score_of latencies fail) \<le> 10000"
proof -
  let ?n = "length latencies"
  let ?f = "fdiv (of_nat fail) (of_nat (?n + fail))"
  have "(0::rat) < of_nat (?n + fail)" using assms by (simp only: of_nat_0_less_iff) auto
  from fdiv_unit [OF _ _ this] have f: "0 \<le> ?f" "?f \<le> 1" by simp_all
  have cap: "0 \<le> x \<Longrightarrow> 0 \<le> (if x > 1 then 1 else x) \<and> (if x > 1 then 1 else x) \<le> (1::rat)" for x by simp
  have t: "?n + fail \<noteq> 0" using assms by auto
  show ?thesis
  proof (cases "?n = 0")
    case True
    then show ?thesis using score_formula_bound [of 1 ?f 1] f t by (simp add: score_of_def Let_def)
  next
    case False
    define m where "m = median_of latencies"
    define d where "d = median_of (map (deviation m) (sort latencies))"
    let ?a = "fdiv (of_nat (unat m)) (of_nat (unat SS_MAX_RTT_MS))"
    let ?b = "fdiv (of_nat (unat d)) (of_nat (unat SS_MAX_RTT_MS))"
    have "score_of latencies fail = score_formula (if ?a > 1 then 1 else ?a) ?f (if ?b > 1 then 1 else ?b)"
      unfolding score_of_def Let_def m_def [symmetric] d_def [symmetric] using False by (simp only: t if_False)
    moreover have "0 \<le> ?a" "0 \<le> ?b" unfolding fdiv_def by (intro rnd_nonneg divide_nonneg_nonneg of_nat_0_le_iff)+
    note cap [OF this(1)] cap [OF this(2)]
    ultimately show ?thesis using f by (simp only: score_formula_bound)
  qed
qed

lemma score_of_none: "score_of [] 0 = UINT32_MAX"
  by (simp add: score_of_def)

lemma score_all_failed: "0 < k \<Longrightarrow> score_of [] k = 10000"
  by (simp add: score_of_def score_formula_def float_ops u32_of_double_def)

lemma sort_perm: "mset xs = mset ys \<Longrightarrow> sort xs = sort ys"
  by (rule properties_for_sort) simp_all

lemma median_perm: "mset xs = mset ys \<Longrightarrow> median_of xs = median_of ys"
  using sort_perm [of xs ys] mset_eq_length [of xs ys] by (simp add: median_of_def)

lemma score_of_perm: "mset xs = mset ys \<Longrightarrow> score_of xs k = score_of ys k"
  unfolding score_of_def Let_def by (simp only: sort_perm [of xs ys] mset_eq_length [of xs ys] median_perm [of xs ys])

section \<open>The window holds the last samples\<close>

definition window_ok :: "ss_window \<Rightarrow> bool" where
  "window_ok w \<longleftrightarrow> length (win_samples w) = 67 \<and> 0 \<le> win_head w \<and> win_head w < 67 \<and> 0 \<le> win_count w \<and> win_count w \<le> 67"

text \<open>The samples in the window, the oldest first.\<close>

definition window_list :: "ss_window \<Rightarrow> ss_sample list" where
  "window_list w = map (\<lambda>i. win_samples w ! window_slot (win_head w) (win_count w) (int i)) [0..<nat (win_count w)]"

lemma smod_nonneg: "0 \<le> x \<Longrightarrow> x smod 67 = x mod (67::int)"
  by (cases "x = 0") (simp_all add: signed_modulo_int_def)

lemma mod_shift: "(a mod m - c + i) mod m = (a - c + i) mod (m::int)"
  by (metis mod_add_left_eq mod_diff_left_eq)

lemma window_slot_mod:
  assumes "0 \<le> h" "0 \<le> c" "c \<le> 67" "0 \<le> i"
  shows "window_slot h c i = nat ((h - c + i) mod 67)"
proof -
  have "h - c + i + 67 \<ge> 0" using assms by simp
  from smod_nonneg [OF this] show ?thesis by (simp add: window_slot_def SS_WINDOW_SLOTS_def)
qed

lemma window_scan_list:
  "window_scan now ss ls k =
     (ls @ map (\<lambda>s. clamp_latency (latency_ms s)) (filter (\<lambda>s. \<not> too_old now s \<and> \<not> errored s) ss),
      k + length (filter (\<lambda>s. \<not> too_old now s \<and> errored s) ss))"
  by (induction ss arbitrary: ls k) simp_all

definition score_of_samples :: "ev_tstamp \<Rightarrow> ss_sample list \<Rightarrow> u32" where
  "score_of_samples now ss =
     score_of (map (\<lambda>s. clamp_latency (latency_ms s)) (filter (\<lambda>s. \<not> too_old now s \<and> \<not> errored s) ss))
              (length (filter (\<lambda>s. \<not> too_old now s \<and> errored s) ss))"

lemma ss_compute_score_list: "ss_compute_score w now = score_of_samples now (window_list w)"
  unfolding ss_compute_score_def window_list_def [symmetric] window_scan_list score_of_samples_def by simp

lemma score_of_samples_perm: "mset xs = mset ys \<Longrightarrow> score_of_samples now xs = score_of_samples now ys"
proof -
  assume m: "mset xs = mset ys"
  have "mset (map f (filter P xs)) = mset (map f (filter P ys))" for f :: "ss_sample \<Rightarrow> u32" and P using m by simp
  note perm = score_of_perm [OF this]
  have len: "length (filter P xs) = length (filter P ys)" for P
    using mset_eq_length [of "filter P xs" "filter P ys"] m by simp
  show ?thesis
    unfolding score_of_samples_def len [of "\<lambda>s. \<not> too_old now s \<and> errored s"] by (rule perm)
qed

lemma window_push_ok: "window_ok w \<Longrightarrow> window_ok (window_push s w)"
proof -
  assume w: "window_ok w"
  have h: "(win_head w + 1) smod 67 = (win_head w + 1) mod 67" using w by (intro smod_nonneg) (simp add: window_ok_def)
  have "0 \<le> (win_head w + 1) mod 67" "(win_head w + 1) mod 67 < 67" by simp_all
  then show ?thesis using w unfolding window_ok_def window_push_def SS_WINDOW_SLOTS_def h by simp
qed

lemma window_push_list:
  assumes "window_ok w"
  shows "window_list (window_push s w) =
    (if length (window_list w) = 67 then tl (window_list w) @ [s] else window_list w @ [s])"
proof -
  note w = assms [unfolded window_ok_def]
  let ?c = "win_count w" and ?h = "win_head w"
  have hs: "(?h + 1) smod 67 = (?h + 1) mod 67" using w by (intro smod_nonneg) simp
  let ?c' = "if ?c < 67 then ?c + 1 else ?c" and ?h' = "(?h + 1) mod 67"
  have push: "window_push s w = w\<lparr>win_samples := (win_samples w)[nat ?h := s], win_head := ?h', win_count := ?c'\<rparr>"
    by (simp add: window_push_def SS_WINDOW_SLOTS_def hs)
  have len: "length (window_list w) = nat ?c" by (simp add: window_list_def)
  define d where "d = (if ?c < 67 then 0 else 1 :: int)"
  have cd: "?c' = ?c + 1 - d" by (simp add: d_def)
  have nth': "window_list (window_push s w) ! i = (if int i = ?c' - 1 then s else window_list w ! nat (int i + d))"
    if i: "int i < ?c'" for i
  proof -
    have b: "0 \<le> ?h'" "0 \<le> ?c'" "?c' \<le> 67" using w by auto
    have slot: "window_slot ?h' ?c' (int i) = nat ((?h + 1 - ?c' + int i) mod 67)"
    proof -
      have "((?h + 1) mod 67 - ?c' + int i) mod 67 = (?h + 1 - ?c' + int i) mod 67" by (rule mod_shift)
      then show ?thesis using window_slot_mod [OF b, of "int i"] by simp
    qed
    have l: "window_list (window_push s w) ! i = (win_samples w)[nat ?h := s] ! nat ((?h + 1 - ?c' + int i) mod 67)"
      using i by (simp add: push window_list_def slot [symmetric])
    show ?thesis
    proof (cases "int i = ?c' - 1")
      case True
      then have "(?h + 1 - ?c' + int i) mod 67 = ?h" using w by simp
      moreover have "nat ?h < length (win_samples w)" using w by (simp add: nat_less_iff)
      ultimately show ?thesis using l True by simp
    next
      case False
      then have lt: "int i + d < ?c" using i cd by linarith
      have e: "?h + 1 - ?c' + int i = ?h - ?c + (int i + d)" using cd by linarith
      have ne: "(?h - ?c + (int i + d)) mod 67 \<noteq> ?h"
      proof
        assume "(?h - ?c + (int i + d)) mod 67 = ?h"
        then have "(?h - ?c + (int i + d)) mod 67 = ?h mod 67" using w by simp
        then have "67 dvd (?h - ?c + (int i + d)) - ?h" by (metis mod_eq_dvd_iff)
        then have "67 dvd ?c - (int i + d)" by (metis add_diff_cancel_left' dvd_minus_iff minus_diff_eq diff_add_eq uminus_add_conv_diff add_uminus_conv_diff)
        then show False using lt w cd by (auto simp: d_def split: if_splits dest!: zdvd_imp_le)
      qed
      have "window_list w ! nat (int i + d) = win_samples w ! nat ((?h - ?c + (int i + d)) mod 67)"
      proof -
        define j where "j = nat (int i + d)"
        have j: "j < nat ?c" "int j = int i + d" using lt by (auto simp: j_def d_def split: if_splits)
        have "window_list w ! j = win_samples w ! window_slot ?h ?c (int j)" using j(1) by (simp add: window_list_def)
        moreover have "0 \<le> int i + d" by (simp add: d_def)
        ultimately show ?thesis using w by (simp add: window_slot_mod j_def [symmetric] j(2))
      qed
      moreover have "nat ?h \<noteq> nat ((?h - ?c + (int i + d)) mod 67)" using ne w by (simp add: eq_nat_nat_iff)
      ultimately show ?thesis using l False unfolding e by simp
    qed
  qed
  show ?thesis
  proof (rule nth_equalityI)
    show "length (window_list (window_push s w)) = length (if length (window_list w) = 67 then tl (window_list w) @ [s] else window_list w @ [s])"
      using w len by (auto simp: push window_list_def)
  next
    fix i assume "i < length (window_list (window_push s w))"
    then have i: "int i < ?c'" by (simp add: push window_list_def)
    show "window_list (window_push s w) ! i = (if length (window_list w) = 67 then tl (window_list w) @ [s] else window_list w @ [s]) ! i"
    proof (cases "?c < 67")
      case True
      then show ?thesis using nth' [OF i] i w len by (auto simp: nth_append d_def)
    next
      case False
      then have "?c = 67" "length (window_list w) = 67" using w len by auto
      then show ?thesis using nth' [OF i] i by (cases "i = 66") (simp_all add: nth_append nth_tl d_def nat_add_distrib)
    qed
  qed
qed

end
