(* ===== verification/SelectorRanking.thy ===== *)
theory SelectorRanking
  imports ServerSelector
begin

text \<open>
  What the ranking of \<open>ServerSelector\<close> guarantees: the published index is always a configured server, a
  failed best server is left at once, scores alone move the best server only at the end of a round and by
  more than the threshold, and a report from an attempt older than a failure changes nothing. The reports of
  the connections and the results of the probes are events; a run is any sequence of them.
\<close>

section \<open>The candidate is a minimum\<close>

text \<open>Rank and score in one number: \<open>ss_better_locked\<close> is \<open><\<close> on it.\<close>

definition sel_key :: "ss_server list \<Rightarrow> 'x ss_selector \<Rightarrow> int \<Rightarrow> int" where
  "sel_key servers sel i =
     ss_health_rank (sel_health sel ! nat i) * 2 ^ 32 + uint (ss_score servers sel i)"

lemma better_key: "ss_better_locked servers sel a b \<longleftrightarrow> sel_key servers sel a < sel_key servers sel b"
proof -
  have b: "0 \<le> uint (ss_score servers sel x) \<and> uint (ss_score servers sel x) < 2 ^ 32" for x
    using uint_bounded [of "ss_score servers sel x"] by simp
  define x y where "x = uint (ss_score servers sel a)" and "y = uint (ss_score servers sel b)"
  have "0 \<le> x \<and> x < 4294967296" "0 \<le> y \<and> y < 4294967296" using b [of a] b [of b] by (simp_all add: x_def y_def)
  then show ?thesis
    by (cases "sel_health sel ! nat a"; cases "sel_health sel ! nat b")
      (simp_all add: ss_better_locked_def Let_def sel_key_def word_less_def ss_health_rank_def flip: x_def y_def)
qed

lemma tried_bit: "i < 32 \<Longrightarrow> tried m (int i) \<longleftrightarrow> bit m i"
  by (simp only: tried_def nat_int bit_iff_and_push_bit_not_eq_0)

lemma tried_zero [simp]: "\<not> tried 0 i"
  by (simp add: tried_def)

lemma tried_single: "i < 32 \<Longrightarrow> j < 32 \<Longrightarrow> tried (push_bit i 1) (int j) \<longleftrightarrow> j = i"
  by (auto simp: tried_bit bit_simps)

lemma cand_fold:
  fixes servers :: "ss_server list" and sel :: "'x ss_selector"
  assumes "b = -1 \<or> (0 \<le> b \<and> b < int N \<and> \<not> tried m b)" "n \<le> N"
  defines "step \<equiv> (\<lambda>i best. if tried m (int i) then best
      else if best < 0 \<or> ss_better_locked servers sel (int i) best then int i else best)"
  shows "(fold step [0..<n] b = -1 \<and> b = -1 \<or>
     0 \<le> fold step [0..<n] b \<and> fold step [0..<n] b < int N \<and> \<not> tried m (fold step [0..<n] b)) \<and>
     (fold step [0..<n] b = -1 \<longrightarrow> (\<forall>i<n. tried m (int i))) \<and>
     (\<forall>i<n. \<not> tried m (int i) \<longrightarrow> \<not> ss_better_locked servers sel (int i) (fold step [0..<n] b)) \<and>
     (0 \<le> b \<longrightarrow> \<not> ss_better_locked servers sel b (fold step [0..<n] b) \<and>
        ((\<forall>i<n. \<not> tried m (int i) \<longrightarrow> \<not> ss_better_locked servers sel (int i) b) \<longrightarrow> fold step [0..<n] b = b))"
  using assms(2)
proof (induction n)
  case 0
  then show ?case using assms(1) by (auto simp: better_key)
next
  case (Suc n)
  let ?c = "fold step [0..<n] b"
  have IH: "(?c = -1 \<and> b = -1 \<or> 0 \<le> ?c \<and> ?c < int N \<and> \<not> tried m ?c)"
    "?c = -1 \<Longrightarrow> i < n \<Longrightarrow> tried m (int i)"
    "i < n \<Longrightarrow> \<not> tried m (int i) \<Longrightarrow> \<not> ss_better_locked servers sel (int i) ?c"
    "0 \<le> b \<Longrightarrow> \<not> ss_better_locked servers sel b ?c"
    "0 \<le> b \<Longrightarrow> (\<forall>i<n. \<not> tried m (int i) \<longrightarrow> \<not> ss_better_locked servers sel (int i) b) \<Longrightarrow> ?c = b" for i
    using Suc by auto
  have u: "fold step [0..<Suc n] b = step n ?c" by simp
  consider "tried m (int n)" | "\<not> tried m (int n)" "?c < 0 \<or> ss_better_locked servers sel (int n) ?c"
    | "\<not> tried m (int n)" "\<not> (?c < 0 \<or> ss_better_locked servers sel (int n) ?c)" by blast
  then show ?case
  proof cases
    case 1
    then have "step n ?c = ?c" by (simp add: step_def)
    then show ?thesis unfolding u using IH 1 by (auto simp: less_Suc_eq)
  next
    case 2
    have s: "step n ?c = int n" using 2 by (simp add: step_def)
    have low: "\<not> ss_better_locked servers sel x (int n)" if "\<not> ss_better_locked servers sel x ?c" "0 \<le> ?c" for x
      using that 2 by (auto simp: better_key)
    have neg: "i < n \<Longrightarrow> ?c < 0 \<Longrightarrow> tried m (int i)" for i using IH(1,2) by auto
    show ?thesis unfolding u s
    proof (intro conjI allI impI)
      show "int n = - 1 \<and> b = - 1 \<or> 0 \<le> int n \<and> int n < int N \<and> \<not> tried m (int n)" using 2 Suc.prems by simp
    next
      fix i assume "i < Suc n" "\<not> tried m (int i)"
      then show "\<not> ss_better_locked servers sel (int i) (int n)"
        using IH(3) [of i] low [of "int i"] neg [of i] by (cases "i = n"; cases "?c < 0") (auto simp: better_key)
    next
      assume b: "0 \<le> b"
      then have "0 \<le> ?c" using IH(1) by auto
      then show "\<not> ss_better_locked servers sel b (int n)" using IH(4) [OF b] low by blast
      assume all: "\<forall>i<Suc n. \<not> tried m (int i) \<longrightarrow> \<not> ss_better_locked servers sel (int i) b"
      then have "?c = b" using IH(5) [OF b] by simp
      then show "int n = b" using 2 all b by auto
    qed simp
  next
    case 3
    then have "step n ?c = ?c" by (simp add: step_def)
    then show ?thesis unfolding u using IH 3 by (auto simp: less_Suc_eq)
  qed
qed

lemma ss_candidate_spec:
  fixes n :: nat and servers :: "ss_server list" and sel :: "'x ss_selector" and m :: u32
  defines "c \<equiv> ss_candidate_locked servers n sel m"
  shows "c = -1 \<and> (\<forall>i<n. tried m (int i)) \<or>
    0 \<le> c \<and> c < int n \<and> \<not> tried m c \<and> (\<forall>i<n. \<not> tried m (int i) \<longrightarrow> \<not> ss_better_locked servers sel (int i) c)"
    "0 \<le> sel_best_idx sel \<Longrightarrow> sel_best_idx sel < int n \<Longrightarrow> \<not> tried m (sel_best_idx sel) \<Longrightarrow>
      (\<forall>i<n. \<not> tried m (int i) \<longrightarrow> \<not> ss_better_locked servers sel (int i) (sel_best_idx sel)) \<Longrightarrow> c = sel_best_idx sel"
proof -
  define b where "b = (if sel_best_idx sel < 0 \<or> sel_best_idx sel \<ge> int n \<or> tried m (sel_best_idx sel) then -1 else sel_best_idx sel)"
  have b: "b = -1 \<or> (0 \<le> b \<and> b < int n \<and> \<not> tried m b)" by (auto simp: b_def)
  have c: "c = fold (\<lambda>i best. if tried m (int i) then best
                        else if best < 0 \<or> ss_better_locked servers sel (int i) best then int i else best) [0..<n] b"
    by (simp add: c_def ss_candidate_locked_def Let_def b_def)
  note f = cand_fold [OF b order_refl, of servers sel, folded c]
  show "c = -1 \<and> (\<forall>i<n. tried m (int i)) \<or>
    0 \<le> c \<and> c < int n \<and> \<not> tried m c \<and> (\<forall>i<n. \<not> tried m (int i) \<longrightarrow> \<not> ss_better_locked servers sel (int i) c)"
    using f by blast
  assume "0 \<le> sel_best_idx sel" "sel_best_idx sel < int n" "\<not> tried m (sel_best_idx sel)"
    "\<forall>i<n. \<not> tried m (int i) \<longrightarrow> \<not> ss_better_locked servers sel (int i) (sel_best_idx sel)"
  moreover from this have "b = sel_best_idx sel" by (simp add: b_def)
  ultimately show "c = sel_best_idx sel" using f by auto
qed

section \<open>Publication\<close>

lemma update_best_fields:
  "sel_health (ss_update_best_locked servers n f a sel) = sel_health sel"
  "sel_failure_epoch (ss_update_best_locked servers n f a sel) = sel_failure_epoch sel"
  "sel_probes_remaining (ss_update_best_locked servers n f a sel) = sel_probes_remaining sel"
  "sel_is_tcp (ss_update_best_locked servers n f a sel) = sel_is_tcp sel"
  "sel_ctx (ss_update_best_locked servers n f a sel) = sel_ctx sel"
  "sel_check_timer (ss_update_best_locked servers n f a sel) = sel_check_timer sel"
  by (simp_all add: ss_update_best_locked_def Let_def)

lemma update_best_cases:
  fixes servers :: "ss_server list" and sel :: "'x ss_selector" and f :: int and allow :: bool
  assumes "0 \<le> sel_best_idx sel" "sel_best_idx sel < int n" "n \<le> 32"
  defines "b \<equiv> sel_best_idx sel" and "b' \<equiv> sel_best_idx (ss_update_best_locked servers n f allow sel)"
  shows "b' = b \<and> (f = b \<longrightarrow> n \<le> 1) \<or>
    0 \<le> b' \<and> b' < int n \<and> b' \<noteq> b \<and>
    (f = b \<and> (\<forall>i<n. int i \<noteq> b \<longrightarrow> \<not> ss_better_locked servers sel (int i) b') \<or>
     f \<noteq> b \<and> (\<forall>i<n. \<not> ss_better_locked servers sel (int i) b') \<and>
       (ss_health_rank (sel_health sel ! nat b') < ss_health_rank (sel_health sel ! nat b) \<or>
        allow \<and> sel_health sel ! nat b' = sel_health sel ! nat b \<and>
        ss_score servers sel b' + SS_SWITCH_THRESHOLD < ss_score servers sel b \<and>
        ss_score servers sel b' < ss_score servers sel b))"
proof -
  let ?c0 = "ss_candidate_locked servers n sel 0" and ?c1 = "ss_candidate_locked servers n sel (push_bit (nat b) 1)"
  have n: "0 < n" "nat b < 32" using assms by linarith+
  have c0: "0 \<le> ?c0" "?c0 < int n" "i < n \<Longrightarrow> \<not> ss_better_locked servers sel (int i) ?c0" for i
    using ss_candidate_spec(1) [of servers n sel 0] n(1) by auto
  note c1 = ss_candidate_spec(1) [of servers n sel "push_bit (nat b) 1"]
  have single: "i < n \<Longrightarrow> tried (push_bit (nat b) 1) (int i) \<longleftrightarrow> int i = b" for i
    using tried_single [OF n(2), of i] assms(1-3) by (auto simp: b_def)
  have thr: "\<not> prev - s \<le> SS_SWITCH_THRESHOLD \<Longrightarrow> s < prev \<Longrightarrow> s + SS_SWITCH_THRESHOLD < prev" for s prev :: u32
  proof -
    assume *: "\<not> prev - s \<le> SS_SWITCH_THRESHOLD" "s < prev"
    have "unat (prev - s) = unat prev - unat s" using * by (intro unat_sub) simp
    moreover have "unat prev < 4294967296" using unsigned_less [of prev] by simp
    then have "unat (s + 6) = unat s + 6" if "unat s + 6 < unat prev"
      using that by (subst unat_word_ariths) simp
    ultimately show ?thesis using * by (simp add: word_less_nat_alt word_le_nat_alt SS_SWITCH_THRESHOLD_def)
  qed
  show ?thesis
  proof (cases "f = b \<and> n > 1")
    case True
    let ?best = "if ?c0 = b then ?c1 else ?c0"
    have "\<exists>i<n. int i \<noteq> b" using True by (intro exI [of _ "if b = 0 then 1 else 0"]) auto
    moreover have "tried (push_bit (nat b) 1) b" using single [of "nat b"] assms(1,2) by (simp add: b_def)
    ultimately have best: "0 \<le> ?best" "?best < int n" "?best \<noteq> b" "\<forall>i<n. int i \<noteq> b \<longrightarrow> \<not> ss_better_locked servers sel (int i) ?best"
      using c0 c1 single assms(1-3) by (auto simp: b_def)
    have "b' = ?best"
      using True best(3) c0(1) by (simp add: b'_def ss_update_best_locked_def Let_def b_def)
    then show ?thesis using best True by simp
  next
    case False
    show ?thesis
    proof (cases "?c0 = b")
      case True
      then have "b' = b" using False c0(1) by (auto simp: b'_def ss_update_best_locked_def Let_def b_def)
      then show ?thesis using False by auto
    next
      case c0b: False
      then have "n > 1" using c0 assms(1,2) by (auto simp: b_def)
      then have fb: "f \<noteq> b" using False by simp
      have ge: "\<not> ss_better_locked servers sel b ?c0" using c0(3) [of "nat b"] assms(1,2) by (simp add: b_def)
      have run: "b' = (if \<not> allow \<and> sel_health sel ! nat ?c0 = sel_health sel ! nat b then b
          else if sel_health sel ! nat ?c0 = sel_health sel ! nat b \<and>
             (ss_score servers sel ?c0 \<ge> ss_score servers sel b \<or>
              ss_score servers sel b - ss_score servers sel ?c0 \<le> SS_SWITCH_THRESHOLD) then b else ?c0)"
        using fb c0b c0(1) by (auto simp: b'_def ss_update_best_locked_def Let_def b_def)
      have "ss_health_rank (sel_health sel ! nat ?c0) \<le> ss_health_rank (sel_health sel ! nat b)"
        using ge by (auto simp: ss_better_locked_def Let_def)
      moreover have "ss_health_rank x = ss_health_rank y \<longleftrightarrow> x = y" for x y by (cases x; cases y) (simp_all add: ss_health_rank_def)
      ultimately have rank: "sel_health sel ! nat ?c0 \<noteq> sel_health sel ! nat b \<Longrightarrow>
          ss_health_rank (sel_health sel ! nat ?c0) < ss_health_rank (sel_health sel ! nat b)"
        by (simp add: order_less_le)
      show ?thesis
      proof (cases "b' = b")
        case True
        then show ?thesis using fb by simp
      next
        case False
        then have "b' = ?c0" using run by (auto split: if_splits)
        have "ss_health_rank (sel_health sel ! nat b') < ss_health_rank (sel_health sel ! nat b) \<or>
          allow \<and> sel_health sel ! nat b' = sel_health sel ! nat b \<and>
          ss_score servers sel b' + SS_SWITCH_THRESHOLD < ss_score servers sel b \<and> ss_score servers sel b' < ss_score servers sel b"
        proof (cases "sel_health sel ! nat ?c0 = sel_health sel ! nat b")
          case True
          then have "allow" "ss_score servers sel ?c0 < ss_score servers sel b"
            "\<not> ss_score servers sel b - ss_score servers sel ?c0 \<le> SS_SWITCH_THRESHOLD"
            using run False c0b by (simp_all add: not_le split: if_splits)
          then show ?thesis using True thr \<open>b' = ?c0\<close> by simp
        qed (use rank \<open>b' = ?c0\<close> in simp)
        then show ?thesis using False fb c0 \<open>b' = ?c0\<close> by simp
      qed
    qed
  qed
qed

section \<open>Runs of events\<close>

datatype selector_event =
    Tcp_failure int
  | Tcp_success int u64
  | Probe_result bool int u32 bool u64 ev_tstamp
  | Probe_done bool

fun selector_step :: "selector_event \<Rightarrow> 'x selectors \<Rightarrow> 'x selectors" where
  "selector_step (Tcp_failure i) S = server_selector_report_tcp_failure i S"
| "selector_step (Tcp_success i e) S = server_selector_report_tcp_success i e S"
| "selector_step (Probe_result is_tcp i l err e now) S = ss_record_probe is_tcp i l err e now S"
| "selector_step (Probe_done is_tcp) S = ss_probe_done is_tcp S"

text \<open>A probe runs for a configured server only.\<close>

definition event_ok :: "nat \<Rightarrow> selector_event \<Rightarrow> bool" where
  "event_ok n e \<longleftrightarrow> (case e of Probe_result _ i _ _ _ _ \<Rightarrow> 0 \<le> i \<and> i < int n | _ \<Rightarrow> True)"

definition selector_run :: "selector_event list \<Rightarrow> 'x selectors \<Rightarrow> 'x selectors" where
  "selector_run es S = fold selector_step es S"

definition selector_ok :: "nat \<Rightarrow> 'x ss_selector \<Rightarrow> bool" where
  "selector_ok n sel \<longleftrightarrow>
     length (sel_health sel) = SS_MAX_SERVERS \<and> length (sel_failure_epoch sel) = SS_MAX_SERVERS \<and>
     0 \<le> sel_best_idx sel \<and> sel_best_idx sel < int n"

definition srv_windows_ok :: "ss_server \<Rightarrow> bool" where
  "srv_windows_ok srv \<longleftrightarrow> window_ok (tcp_window srv) \<and> window_ok (udp_window srv)"

definition selectors_ok :: "'x selectors \<Rightarrow> bool" where
  "selectors_ok S \<longleftrightarrow>
     0 < g_ss_server_count S \<and> g_ss_server_count S \<le> SS_MAX_SERVERS \<and> length (g_ss_servers S) = SS_MAX_SERVERS \<and>
     (\<forall>srv \<in> set (g_ss_servers S). srv_windows_ok srv) \<and>
     selector_ok (g_ss_server_count S) (g_tcp_selector S) \<and> selector_ok (g_ss_server_count S) (g_udp_selector S)"

lemma mark_fields [simp]:
  "sel_best_idx (mark_failed i sel) = sel_best_idx sel" "sel_best_idx (mark_ok i sel) = sel_best_idx sel"
  "length (sel_health (mark_failed i sel)) = length (sel_health sel)" "length (sel_health (mark_ok i sel)) = length (sel_health sel)"
  "length (sel_failure_epoch (mark_failed i sel)) = length (sel_failure_epoch sel)"
  "sel_failure_epoch (mark_ok i sel) = sel_failure_epoch sel"
  "sel_is_tcp (mark_failed i sel) = sel_is_tcp sel" "sel_is_tcp (mark_ok i sel) = sel_is_tcp sel"
  by (simp_all add: mark_failed_def mark_ok_def)

lemma get_put_selector [simp]:
  "get_selector t (put_selector t' sel S) = (if t = t' then sel else get_selector t S)"
  "g_ss_servers (put_selector t sel S) = g_ss_servers S" "g_ss_server_count (put_selector t sel S) = g_ss_server_count S"
  "get_selector t (S\<lparr>g_ss_servers := x\<rparr>) = get_selector t S"
  by (simp_all add: get_selector_def put_selector_def)

lemma get_selector_sel [simp]: "get_selector True S = g_tcp_selector S" "get_selector False S = g_udp_selector S"
  by (simp_all add: get_selector_def)

lemma selectors_ok_get:
  "selectors_ok S \<longleftrightarrow>
     0 < g_ss_server_count S \<and> g_ss_server_count S \<le> SS_MAX_SERVERS \<and> length (g_ss_servers S) = SS_MAX_SERVERS \<and>
     (\<forall>srv \<in> set (g_ss_servers S). srv_windows_ok srv) \<and> (\<forall>t. selector_ok (g_ss_server_count S) (get_selector t S))"
  by (auto simp: selectors_ok_def get_selector_def)

lemma update_best_ok:
  assumes "selector_ok n sel" "n \<le> SS_MAX_SERVERS"
  shows "selector_ok n (ss_update_best_locked servers n f allow sel)"
  using assms update_best_cases [of sel n servers f allow]
  by (auto simp: selector_ok_def update_best_fields ss_consts)

lemma put_selector_ok:
  "selectors_ok S \<Longrightarrow> selector_ok (g_ss_server_count S) sel \<Longrightarrow> selectors_ok (put_selector t sel S)"
  by (simp add: selectors_ok_get)

lemma srv_push_ok: "srv_windows_ok srv \<Longrightarrow> srv_windows_ok (server_push t s now srv)"
  by (simp add: srv_windows_ok_def server_push_def Let_def window_push_ok)

lemma report_put:
  "S\<lparr>g_tcp_selector := sel\<rparr> = put_selector True sel S"
  by (simp add: put_selector_def)

lemmas selector_steps = server_selector_report_tcp_failure_def server_selector_report_tcp_success_def
  ss_record_probe_def ss_probe_done_def Let_def report_put

text \<open>Every event is a change of marks followed by an update of the best server, or nothing.\<close>

lemma selector_step_ok:
  assumes "selectors_ok S" "event_ok (g_ss_server_count S) e"
  shows "selectors_ok (selector_step e S) \<and> g_ss_server_count (selector_step e S) = g_ss_server_count S"
proof -
  note n = assms(1) [unfolded selectors_ok_get]
  have mark: "selector_ok (g_ss_server_count S) sel \<Longrightarrow> selector_ok (g_ss_server_count S) (mark_failed i sel) \<and>
      selector_ok (g_ss_server_count S) (mark_ok i sel)" for i and sel :: "'a ss_selector"
    by (simp add: selector_ok_def)
  have sel: "selector_ok (g_ss_server_count S) (get_selector t S)" for t using n by blast
  show ?thesis
  proof (cases e)
    case (Tcp_failure i)
    then show ?thesis using assms(1) sel [of True] mark n
      by (auto simp: selector_steps intro!: put_selector_ok update_best_ok)
  next
    case (Tcp_success i ep)
    then show ?thesis using assms(1) sel [of True] mark n
      by (auto simp: selector_steps intro!: put_selector_ok update_best_ok)
  next
    case (Probe_result t i l err ep now)
    let ?sv = "(g_ss_servers S)[nat i := server_push t \<lparr>latency_ms = l, errored = err, sample_ts = now\<rparr> now (g_ss_servers S ! nat i)]"
    have "nat i < length (g_ss_servers S)" using assms(2) n Probe_result by (auto simp: event_ok_def)
    then have "srv_windows_ok (g_ss_servers S ! nat i)" using n by simp
    then have "\<forall>srv \<in> set ?sv. srv_windows_ok srv"
      using n srv_push_ok set_update_subset_insert [of "g_ss_servers S" "nat i"] by blast
    then have "selectors_ok (S\<lparr>g_ss_servers := ?sv\<rparr>)" using n by (simp add: selectors_ok_get)
    then show ?thesis using sel [of t] mark n unfolding Probe_result
      by (auto simp: selector_steps intro!: put_selector_ok update_best_ok)
  next
    case (Probe_done t)
    have "selector_ok (g_ss_server_count S) ((get_selector t S)\<lparr>sel_probes_remaining := x\<rparr>)" for x
      using sel [of t] by (simp add: selector_ok_def)
    then show ?thesis using assms(1) n unfolding Probe_done
      by (auto simp: selector_steps intro!: put_selector_ok update_best_ok)
  qed
qed

lemma selector_run_ok:
  assumes "selectors_ok S" "\<forall>e \<in> set es. event_ok (g_ss_server_count S) e"
  shows "selectors_ok (selector_run es S) \<and> g_ss_server_count (selector_run es S) = g_ss_server_count S"
  using assms
proof (induction es arbitrary: S)
  case (Cons e es)
  then show ?case using selector_step_ok [of S e] by (simp add: selector_run_def)
qed (simp add: selector_run_def)

lemma put_tcp [simp]:
  "g_tcp_selector (put_selector t sel S) = (if t then sel else g_tcp_selector S)"
  "g_udp_selector (put_selector t sel S) = (if t then g_udp_selector S else sel)"
  by (simp_all add: put_selector_def)

text \<open>The shape of a step, for the selector of protocol \<open>t\<close>.\<close>

lemma selector_step_shape:
  assumes "selectors_ok S"
  shows "sel_best_idx (get_selector t (selector_step e S)) = sel_best_idx (get_selector t S) \<or>
    (\<exists>sv f allow sel. get_selector t (selector_step e S) = ss_update_best_locked sv (g_ss_server_count S) f allow sel \<and>
       sel_best_idx sel = sel_best_idx (get_selector t S) \<and>
       (f = sel_best_idx sel \<longrightarrow> t \<and> e = Tcp_failure f \<or> (\<exists>l ep now. e = Probe_result t f l True ep now)) \<and>
       (allow \<longrightarrow> e = Probe_done t \<and> sel_probes_remaining sel = 0 \<and> sv = g_ss_servers S))"
proof -
  have b: "0 \<le> sel_best_idx (get_selector t S)" using assms by (simp add: selectors_ok_get selector_ok_def)
  note wit = exI [of _ "g_ss_servers S"]
  show ?thesis
  proof (cases e)
    case (Tcp_failure i)
    then show ?thesis
      by (cases t) (auto simp: selector_steps intro!: wit exI [of _ i] exI [of _ False] exI [of _ "mark_failed i (g_tcp_selector S)"])
  next
    case (Tcp_success i ep)
    then show ?thesis using b
      by (cases t) (auto simp: selector_steps intro!: wit exI [of _ "-1"] exI [of _ False] exI [of _ "mark_ok i (g_tcp_selector S)"])
  next
    case (Probe_done t')
    let ?sel = "(get_selector t S)\<lparr>sel_probes_remaining := sel_probes_remaining (get_selector t S) - 1\<rparr>"
    show ?thesis using b unfolding Probe_done
      by (auto simp: selector_steps intro!: wit exI [of _ "-1"] exI [of _ True] exI [of _ ?sel])
  next
    case (Probe_result t' i l err ep now)
    let ?sv = "(g_ss_servers S)[nat i := server_push t' \<lparr>latency_ms = l, errored = err, sample_ts = now\<rparr> now (g_ss_servers S ! nat i)]"
    let ?sel = "if err then mark_failed i (get_selector t S)
      else if ep = sel_failure_epoch (get_selector t S) ! nat i then mark_ok i (get_selector t S) else get_selector t S"
    show ?thesis
    proof (cases "t = t'")
      case False
      then show ?thesis by (simp add: Probe_result selector_steps)
    next
      case True
      have "get_selector t (selector_step e S) = ss_update_best_locked ?sv (g_ss_server_count S) (if err then i else -1) False ?sel"
        using True by (simp add: Probe_result selector_steps)
      moreover have "sel_best_idx ?sel = sel_best_idx (get_selector t S)" by simp
      moreover have "(if err then i else -1) = sel_best_idx ?sel \<longrightarrow> e = Probe_result t (if err then i else -1) l True ep now"
        using b True Probe_result by auto
      ultimately show ?thesis
        by (intro disjI2 exI [of _ ?sv] exI [of _ "if err then i else -1"] exI [of _ False] exI [of _ ?sel]) auto
    qed
  qed
qed

section \<open>Epochs count failures\<close>

definition fails_tcp :: "int \<Rightarrow> selector_event \<Rightarrow> bool" where
  "fails_tcp i e \<longleftrightarrow>
     (case e of Tcp_failure j \<Rightarrow> j = i | Probe_result t j _ err _ _ \<Rightarrow> t \<and> err \<and> j = i | _ \<Rightarrow> False)"

lemma mark_epoch:
  "length (sel_failure_epoch sel) = SS_MAX_SERVERS \<Longrightarrow> 0 \<le> i \<Longrightarrow> i < 8 \<Longrightarrow> 0 \<le> j \<Longrightarrow>
   sel_failure_epoch (mark_failed j sel) ! nat i = sel_failure_epoch sel ! nat i + (if j = i then 1 else 0)"
  by (auto simp: mark_failed_def SS_MAX_SERVERS_def nth_list_update eq_nat_nat_iff)

lemma selector_step_epoch:
  assumes "selectors_ok S" "event_ok (g_ss_server_count S) e" "0 \<le> i" "i < int (g_ss_server_count S)"
  shows "server_selector_tcp_attempt i (selector_step e S) =
    server_selector_tcp_attempt i S + (if fails_tcp i e then 1 else 0)"
proof -
  have len: "length (sel_failure_epoch (g_tcp_selector S)) = SS_MAX_SERVERS" "i < 8"
    using assms by (simp_all add: selectors_ok_def selector_ok_def SS_MAX_SERVERS_def)
  show ?thesis
    using assms len mark_epoch [OF len(1) assms(3) len(2)]
    by (cases e) (auto simp: server_selector_tcp_attempt_def ss_attempt_epoch_def selector_steps update_best_fields
        fails_tcp_def event_ok_def get_selector_def)
qed

lemma selector_run_epoch:
  assumes "selectors_ok S" "\<forall>e \<in> set es. event_ok (g_ss_server_count S) e" "0 \<le> i" "i < int (g_ss_server_count S)"
  shows "server_selector_tcp_attempt i (selector_run es S) =
    server_selector_tcp_attempt i S + of_nat (length (filter (fails_tcp i) es))"
  using assms
proof (induction es arbitrary: S)
  case (Cons e es)
  have run: "selector_run (e # es) S = selector_run es (selector_step e S)" by (simp add: selector_run_def)
  have ok: "selectors_ok (selector_step e S)" "g_ss_server_count (selector_step e S) = g_ss_server_count S"
    using selector_step_ok [of S e] Cons.prems by simp_all
  show ?case
    unfolding run using Cons.IH [OF ok(1)] ok(2) Cons.prems selector_step_epoch [of S e i] by simp
qed (simp add: selector_run_def)

section \<open>A sequence of samples\<close>

lemma window_fold_list:
  "window_ok w \<Longrightarrow> window_list (fold window_push ss w) =
     drop (length (window_list w) + length ss - 67) (window_list w @ ss)"
proof (induction ss arbitrary: w)
  case Nil
  then show ?case by (auto simp: window_ok_def window_list_def)
next
  case (Cons s ss)
  have len: "length (window_list w) \<le> 67" using Cons.prems by (auto simp: window_ok_def window_list_def)
  show ?case
  proof (cases "length (window_list w) = 67")
    case True
    then obtain a l where l: "window_list w = a # l" by (cases "window_list w") auto
    then show ?thesis using Cons.IH [OF window_push_ok [OF Cons.prems, of s]] window_push_list [OF Cons.prems, of s] True
      by (simp del: drop_append)
  next
    case False
    then show ?thesis using Cons.IH [OF window_push_ok [OF Cons.prems, of s]] window_push_list [OF Cons.prems, of s] len
      by simp
  qed
qed

section \<open>A concrete selector\<close>

definition demo_window :: ss_window where
  "demo_window = \<lparr>win_samples = replicate 67 \<lparr>latency_ms = 0, errored = False, sample_ts = 0\<rparr>, win_head = 0, win_count = 0\<rparr>"

definition demo_server :: "u32 \<Rightarrow> ss_server" where
  "demo_server score =
     \<lparr>srv_ipstr = [], srv_portno = 0, srv_skaddr = [], srv_method = 0, srv_psk = [], srv_salt_len = 0,
      tcp_window = demo_window, udp_window = demo_window, tcp_score = score, udp_score = score\<rparr>"

definition demo_selector :: "bool \<Rightarrow> unit ss_selector" where
  "demo_selector is_tcp =
     \<lparr>sel_is_tcp = is_tcp, sel_best_idx = 0, sel_health = replicate 8 SS_HEALTH_OK,
      sel_failure_epoch = replicate 8 0, sel_probes_remaining = 1, sel_check_timer = True, sel_ctx = replicate 8 None\<rparr>"

text \<open>Three healthy servers with the scores 500, 700 and 300.\<close>

definition demo_selectors :: "unit selectors" where
  "demo_selectors =
     \<lparr>g_ss_servers = [demo_server 500, demo_server 700, demo_server 300] @ replicate 5 (demo_server 0),
      g_ss_server_count = 3, g_tcp_selector = demo_selector True, g_udp_selector = demo_selector False\<rparr>"

lemma demo_selectors_ok: "selectors_ok demo_selectors"
  by (simp add: selectors_ok_def demo_selectors_def selector_ok_def demo_selector_def srv_windows_ok_def window_ok_def
      demo_window_def demo_server_def SS_MAX_SERVERS_def)

section \<open>Properties\<close>

text \<open>C33. Whatever connections report and probes find, in whatever order, the index that the proxies read without a lock
  is always that of a configured server.\<close>

theorem selector_index_valid:
  assumes "selectors_ok S" "\<forall>e \<in> set es. event_ok (g_ss_server_count S) e"
  shows "0 \<le> server_selector_best_tcp (selector_run es S) \<and> server_selector_best_tcp (selector_run es S) < int (g_ss_server_count S) \<and>
    0 \<le> server_selector_best_udp (selector_run es S) \<and> server_selector_best_udp (selector_run es S) < int (g_ss_server_count S)"
  using selector_run_ok [OF assms]
  by (auto simp: selectors_ok_def selector_ok_def server_selector_best_tcp_def server_selector_best_udp_def)

theorem selector_index_valid_witness:
  "0 \<le> server_selector_best_tcp (selector_run [Tcp_failure 0, Probe_done True] demo_selectors)"
  using selector_index_valid [OF demo_selectors_ok, of "[Tcp_failure 0, Probe_done True]"] by (simp add: event_ok_def)

text \<open>C18. When the best TCP server fails a connection and there is another one, the selector leaves it at once, for a
  server that no other remaining server beats in health or score.\<close>

theorem selector_failover:
  assumes "selectors_ok S" "server_selector_best_tcp S = b" "1 < g_ss_server_count S"
  defines "S' \<equiv> server_selector_report_tcp_failure b S"
  shows "server_selector_best_tcp S' \<noteq> b \<and>
    (\<forall>i < g_ss_server_count S. int i \<noteq> b \<longrightarrow>
       \<not> ss_better_locked (g_ss_servers S') (g_tcp_selector S') (int i) (server_selector_best_tcp S'))"
proof -
  let ?sel = "mark_failed b (g_tcp_selector S)"
  have b: "0 \<le> b" "b < int (g_ss_server_count S)" "g_ss_server_count S \<le> 32"
    using assms by (auto simp: selectors_ok_def selector_ok_def server_selector_best_tcp_def SS_MAX_SERVERS_def)
  have run: "S' = put_selector True (ss_update_best_locked (g_ss_servers S) (g_ss_server_count S) b False ?sel) S"
    using b by (simp add: S'_def selector_steps)
  have idx: "sel_best_idx ?sel = b" using assms(2) by (simp add: server_selector_best_tcp_def)
  have better: "ss_better_locked sv (ss_update_best_locked sv n f a ?sel) x y = ss_better_locked sv ?sel x y" for sv n f a x y
    by (simp add: ss_better_locked_def ss_score_def update_best_fields)
  show ?thesis
    using update_best_cases [of ?sel "g_ss_server_count S" "g_ss_servers S" b False] b assms(3)
    unfolding run idx by (auto simp: server_selector_best_tcp_def better)
qed

theorem selector_failover_witness:
  "server_selector_best_tcp (server_selector_report_tcp_failure 0 demo_selectors) \<noteq> 0"
  using selector_failover [OF demo_selectors_ok, of 0]
  by (simp add: server_selector_best_tcp_def demo_selectors_def demo_selector_def)

text \<open>C19. The best server of a protocol changes for one of three reasons only: it failed just now; the new one is in better
  health; or a round of probes has just ended and the new one, in the same health, has a score lower by
  more than the threshold.\<close>

theorem selector_switch_reason:
  assumes "selectors_ok S" "event_ok (g_ss_server_count S) e"
    "b = sel_best_idx (get_selector t S)" "sel' = get_selector t (selector_step e S)" "sel_best_idx sel' \<noteq> b"
  shows "(t \<and> e = Tcp_failure b \<or> (\<exists>l ep now. e = Probe_result t b l True ep now)) \<or>
    ss_health_rank (sel_health sel' ! nat (sel_best_idx sel')) < ss_health_rank (sel_health sel' ! nat b) \<or>
    e = Probe_done t \<and> sel_probes_remaining sel' = 0 \<and> sel_health sel' ! nat (sel_best_idx sel') = sel_health sel' ! nat b \<and>
    ss_score (g_ss_servers S) sel' (sel_best_idx sel') + SS_SWITCH_THRESHOLD < ss_score (g_ss_servers S) sel' b"
proof -
  obtain sv f allow sel where s: "sel' = ss_update_best_locked sv (g_ss_server_count S) f allow sel" "sel_best_idx sel = b"
    "f = b \<Longrightarrow> t \<and> e = Tcp_failure b \<or> (\<exists>l ep now. e = Probe_result t b l True ep now)"
    "allow \<Longrightarrow> e = Probe_done t \<and> sel_probes_remaining sel = 0 \<and> sv = g_ss_servers S"
    by (rule disjE [OF selector_step_shape [OF assms(1), of t e]])
      (use assms(3-5) in simp, elim exE conjE, simp add: assms(3,4))
  have n: "g_ss_server_count S \<le> 32" "0 \<le> b" "b < int (g_ss_server_count S)"
    using assms(1,3) by (auto simp: selectors_ok_get selector_ok_def SS_MAX_SERVERS_def)
  have score: "ss_score sv (ss_update_best_locked sv n f a sel) x = ss_score sv sel x" for sv n f a x
    by (simp add: ss_score_def update_best_fields)
  show ?thesis
    using update_best_cases [of sel "g_ss_server_count S" sv f allow] n s(2-4) assms(5)
    unfolding s(1) update_best_fields by (auto simp: score)
qed

theorem selector_switch_reason_witness:
  "sel_best_idx (g_tcp_selector (selector_step (Probe_done True) demo_selectors)) = 2 \<and>
   ss_score (g_ss_servers demo_selectors) (g_tcp_selector demo_selectors) 2 + SS_SWITCH_THRESHOLD <
   ss_score (g_ss_servers demo_selectors) (g_tcp_selector demo_selectors) 0"
proof -
  let ?sel = "g_tcp_selector (selector_step (Probe_done True) demo_selectors)"
  have r: "sel_best_idx ?sel = 2" "sel_is_tcp ?sel = True" "sel_health ?sel = replicate 8 SS_HEALTH_OK"
    "sel_is_tcp (g_tcp_selector demo_selectors) = True" by code_simp+
  have b: "sel_best_idx (get_selector True demo_selectors) = 0" by (simp add: demo_selectors_def demo_selector_def)
  show ?thesis
    using selector_switch_reason [OF demo_selectors_ok, of "Probe_done True" 0 True ?sel] r b
    by (simp add: event_ok_def ss_score_def ss_health_rank_def)
qed

text \<open>C32. A success reported by an attempt that began before a failure of the same server changes nothing; without a
  failure in between it makes the server healthy.\<close>

theorem selector_stale_success:
  assumes "selectors_ok S" "\<forall>e \<in> set es. event_ok (g_ss_server_count S) e" "0 \<le> i" "i < int (g_ss_server_count S)"
    "length es < 2 ^ 64"
  defines "S' \<equiv> selector_run es S"
  defines "S'' \<equiv> server_selector_report_tcp_success i (server_selector_tcp_attempt i S) S'"
  shows "if \<exists>e \<in> set es. fails_tcp i e then S'' = S' else sel_health (g_tcp_selector S'') ! nat i = SS_HEALTH_OK"
proof -
  let ?k = "length (filter (fails_tcp i) es)"
  have k: "?k < 2 ^ 64" using assms(5) by (rule le_less_trans [OF length_filter_le])
  have ep: "server_selector_tcp_attempt i S' = server_selector_tcp_attempt i S + of_nat ?k"
    unfolding S'_def by (rule selector_run_epoch [OF assms(1-4)])
  have ok: "selectors_ok S'" "g_ss_server_count S' = g_ss_server_count S"
    using selector_run_ok [OF assms(1,2)] by (simp_all add: S'_def)
  have len: "nat i < length (sel_health (g_tcp_selector S'))"
    using ok assms(3,4) by (auto simp: selectors_ok_def selector_ok_def)
  show ?thesis
  proof (cases "\<exists>e \<in> set es. fails_tcp i e")
    case True
    then have "0 < ?k" by (auto simp: filter_empty_conv)
    then have "(of_nat ?k :: u64) \<noteq> 0" using k by (simp add: word_of_nat_eq_0_iff nat_dvd_not_less)
    then show ?thesis
      using True ep ok(2) by (simp add: S''_def server_selector_report_tcp_success_def server_selector_tcp_attempt_def ss_attempt_epoch_def)
  next
    case False
    then have "?k = 0" by (simp add: filter_empty_conv)
    then show ?thesis
      using False ep ok(2) assms(3,4) len
      by (auto simp: S''_def selector_steps server_selector_tcp_attempt_def ss_attempt_epoch_def update_best_fields mark_ok_def)
  qed
qed

theorem selector_stale_success_witness:
  "server_selector_report_tcp_success 0 (server_selector_tcp_attempt 0 demo_selectors)
     (server_selector_report_tcp_failure 0 demo_selectors) = server_selector_report_tcp_failure 0 demo_selectors"
  using selector_stale_success [OF demo_selectors_ok, of "[Tcp_failure 0]" 0]
  by (simp add: event_ok_def fails_tcp_def selector_run_def demo_selectors_def)

text \<open>C36. The score after any sequence of probes is the one computed from the last 67 of them, whatever their order, and
  wherever the ring buffer has wrapped.\<close>

theorem selector_score_window:
  assumes "window_ok w" "win_count w = 0" "mset xs = mset (drop (length ss - 67) ss)"
  shows "ss_compute_score (fold window_push ss w) now = score_of_samples now xs"
  using window_fold_list [OF assms(1), of ss] assms(2) score_of_samples_perm [OF assms(3)]
  by (simp add: ss_compute_score_list window_list_def [of w])

theorem selector_score_window_witness:
  "ss_compute_score (fold window_push [\<lparr>latency_ms = 20, errored = False, sample_ts = 1\<rparr>, \<lparr>latency_ms = 5, errored = True, sample_ts = 2\<rparr>] demo_window) 3 =
   score_of_samples 3 [\<lparr>latency_ms = 5, errored = True, sample_ts = 2\<rparr>, \<lparr>latency_ms = 20, errored = False, sample_ts = 1\<rparr>]"
  by (rule selector_score_window) (simp_all add: window_ok_def demo_window_def)

text \<open>C30. The score of a window is \<^verbatim>\<open>UINT32_MAX\<close> when no probe in it is recent enough and at most
  10000 otherwise; it is exactly 10000, the worst, when every recent probe failed.\<close>

theorem selector_score_bounds:
  "(case filter (\<lambda>s. \<not> too_old now s) (window_list w) of
      [] \<Rightarrow> ss_compute_score w now = UINT32_MAX
    | ss \<Rightarrow> unat (ss_compute_score w now) \<le> 10000 \<and> (list_all errored ss \<longrightarrow> ss_compute_score w now = 10000))"
proof -
  let ?recent = "filter (\<lambda>s. \<not> too_old now s) (window_list w)"
  let ?good = "filter (\<lambda>s. \<not> too_old now s \<and> \<not> errored s) (window_list w)"
  let ?bad = "filter (\<lambda>s. \<not> too_old now s \<and> errored s) (window_list w)"
  have sc: "ss_compute_score w now = score_of (map (\<lambda>s. clamp_latency (latency_ms s)) ?good) (length ?bad)"
    by (simp add: ss_compute_score_list score_of_samples_def)
  show ?thesis
  proof (cases "?recent")
    case Nil
    then have "?good = []" "?bad = []" by (auto simp: filter_empty_conv)
    then show ?thesis using Nil sc score_of_none by simp
  next
    case (Cons a l)
    then have "?good \<noteq> [] \<or> ?bad \<noteq> []" by (metis (mono_tags, lifting) filter_empty_conv list.distinct(1))
    then have "unat (ss_compute_score w now) \<le> 10000" unfolding sc by (intro score_of_bound) auto
    moreover have "ss_compute_score w now = 10000" if "list_all errored (a # l)"
    proof -
      have "?good = []" using that unfolding Cons [symmetric] by (auto simp: filter_empty_conv list_all_iff)
      then show ?thesis using \<open>?good \<noteq> [] \<or> ?bad \<noteq> []\<close> unfolding sc by (simp add: score_all_failed)
    qed
    ultimately show ?thesis using Cons by simp
  qed
qed

theorem selector_score_bounds_witness:
  "ss_compute_score (window_push \<lparr>latency_ms = 5, errored = True, sample_ts = 0\<rparr> demo_window) 0 = 10000"
  using selector_score_bounds [of "window_push \<lparr>latency_ms = 5, errored = True, sample_ts = 0\<rparr> demo_window" 0]
  by (simp add: window_list_def window_push_def demo_window_def window_slot_def SS_WINDOW_SLOTS_def signed_modulo_int_def
      too_old_def fsub_def SS_WINDOW_SEC_def SS_CHECK_INTERVAL_def)

end
