(* ===== verification/Netutils.thy ===== *)
theory Netutils
  imports Libc
begin

text \<open>
  The socket helpers of \<^verbatim>\<open>src/src/netutils.c\<close>: socket addresses as the byte images of
  \<^verbatim>\<open>struct sockaddr_in\<close> and \<^verbatim>\<open>sockaddr_in6\<close>, the set-up of
  sockets, connecting with TCP Fast Open and its fallback, the original destination of a datagram, and
  the classification of errors.

  The result of a system call is an argument: a value or an error number. A loop that repeats a call while it is
  interrupted is represented by the result of its last repetition. The calls that have an effect outside
  the process (options set, descriptors closed) are listed in the order they are made.
\<close>

section \<open>System calls\<close>

datatype errno =
    EINTR | EAGAIN | EINPROGRESS | ENOMEM | ENOBUFS | EMFILE | ENFILE | EACCES | EPERM | EAFNOSUPPORT
  | EPROTONOSUPPORT | EADDRNOTAVAIL | EINVAL | ENOPROTOOPT | EOPNOTSUPP | EPIPE | ECONNRESET | EOTHER nat

datatype 'a io = IoOk 'a | IoErr errno

text \<open>The loop that repeats a call that a signal interrupted; a list that has run out would block.\<close>

fun retry_eintr :: "'a io list \<Rightarrow> 'a io \<times> 'a io list" where
  "retry_eintr [] = (IoErr EAGAIN, [])"
| "retry_eintr (r # rs) = (if r = IoErr EINTR then retry_eintr rs else (r, rs))"

definition AF_INET :: u16 where "AF_INET = 2"
definition AF_INET6 :: u16 where "AF_INET6 = 10"

definition socket_error_is_local :: "errno \<Rightarrow> bool" where
  "socket_error_is_local err \<longleftrightarrow>
     err = ENOMEM \<or> err = ENOBUFS \<or> err = EMFILE \<or> err = ENFILE \<or> err = EACCES \<or> err = EPERM \<or>
     err = EAFNOSUPPORT \<or> err = EPROTONOSUPPORT \<or> err = EADDRNOTAVAIL \<or> err = EINVAL"

text \<open>\<^verbatim>\<open>SO_ERROR\<close> of the socket: \<open>None\<close> when nothing is pending.\<close>

definition tcp_has_error :: "errno option io \<Rightarrow> bool" where
  "tcp_has_error r \<longleftrightarrow> (case r of IoErr _ \<Rightarrow> True | IoOk e \<Rightarrow> e \<noteq> None)"

section \<open>Connecting\<close>

datatype tcp_connect_result = TCP_CONNECT_FAILED | TCP_CONNECT_IN_PROGRESS | TCP_CONNECT_CONNECTED

definition should_fallback_from_tfo :: "errno \<Rightarrow> bool" where
  "should_fallback_from_tfo err \<longleftrightarrow> err = EINVAL \<or> err = ENOPROTOOPT \<or> err = EOPNOTSUPP \<or> err = EPROTONOSUPPORT"

text \<open>The error number is that left by the failing call; it is used when the result is failure.\<close>

definition tcp_plain_connect :: "unit io \<Rightarrow> tcp_connect_result \<times> errno" where
  "tcp_plain_connect connect =
     (case connect of
        IoOk _ \<Rightarrow> (TCP_CONNECT_CONNECTED, EOTHER 0)
      | IoErr err \<Rightarrow> (if err = EINPROGRESS then TCP_CONNECT_IN_PROGRESS else TCP_CONNECT_FAILED, err))"

text \<open>
  The data for the SYN segment is \<open>None\<close> for a NULL pointer. The result has the bytes queued by
  \<^verbatim>\<open>sendto\<close>, \<open>None\<close> for a negative count.
\<close>

definition tcp_connect ::
  "nat io \<Rightarrow> unit io \<Rightarrow> bytes option \<Rightarrow> tcp_connect_result \<times> nat option \<times> errno" where
  "tcp_connect sendto connect tfo_data =
     (case tfo_data of
        Some d \<Rightarrow>
          if d \<noteq> [] then
            (case sendto of
               IoOk n \<Rightarrow> (TCP_CONNECT_IN_PROGRESS, Some n, EOTHER 0)
             | IoErr err \<Rightarrow>
                 if err = EINPROGRESS then (TCP_CONNECT_IN_PROGRESS, None, err)
                 else if \<not> should_fallback_from_tfo err then (TCP_CONNECT_FAILED, None, err)
                 else (case tcp_plain_connect connect of (r, e) \<Rightarrow> (r, None, e)))
          else (case tcp_plain_connect connect of (r, e) \<Rightarrow> (r, None, e))
      | None \<Rightarrow> (case tcp_plain_connect connect of (r, e) \<Rightarrow> (r, None, e)))"

lemma tcp_connect_queued:
  assumes "tcp_connect sendto connect d = (r, Some n, e)" shows "r = TCP_CONNECT_IN_PROGRESS \<and> sendto = IoOk n"
  using assms by (auto simp: tcp_connect_def split: option.splits io.splits if_splits prod.splits)

section \<open>Setting up sockets\<close>

datatype sockopt =
    Set_nonblock | Ipv6_v6only | So_reuseaddr | So_reuseport | Tcp_fastopen | Tcp_syncnt u8 | Tcp_nodelay
  | Tcp_quickack | So_linger0 | So_keepalive | Tcp_keepidle | Tcp_keepcnt | Tcp_keepintvl | Ip_transparent
  | Ipv6_transparent | Ip_recvorigdstaddr | Ipv6_recvorigdstaddr

datatype sockcall = Set_option int sockopt | Close_fd int

text \<open>An option whose failure is only logged.\<close>

definition set_tcp_keepalive :: "(sockopt \<Rightarrow> bool) \<Rightarrow> int \<Rightarrow> sockcall list" where
  "set_tcp_keepalive ok fd =
     (if \<not> ok So_keepalive then [Set_option fd So_keepalive]
      else if \<not> ok Tcp_keepidle then [Set_option fd So_keepalive, Set_option fd Tcp_keepidle]
      else if \<not> ok Tcp_keepcnt then map (Set_option fd) [So_keepalive, Tcp_keepidle, Tcp_keepcnt]
      else map (Set_option fd) [So_keepalive, Tcp_keepidle, Tcp_keepcnt, Tcp_keepintvl])"

definition setup_accepted_sockfd :: "(sockopt \<Rightarrow> bool) \<Rightarrow> int \<Rightarrow> sockcall list" where
  "setup_accepted_sockfd ok fd =
     [Set_option fd Set_nonblock, Set_option fd Tcp_nodelay, Set_option fd Tcp_quickack] @ set_tcp_keepalive ok fd"

definition set_ip_transparent :: "u16 \<Rightarrow> sockopt" where
  "set_ip_transparent family = (if family = AF_INET then Ip_transparent else Ipv6_transparent)"

definition set_recv_origdstaddr :: "u16 \<Rightarrow> sockopt" where
  "set_recv_origdstaddr family = (if family = AF_INET then Ip_recvorigdstaddr else Ipv6_recvorigdstaddr)"

definition new_nonblock_sockfd :: "int \<Rightarrow> u16 \<Rightarrow> int \<times> sockcall list" where
  "new_nonblock_sockfd socket family =
     (if socket < 0 then (-1, [])
      else (socket, [Set_option socket Set_nonblock] @
                    (if family = AF_INET6 then [Set_option socket Ipv6_v6only] else []) @
                    [Set_option socket So_reuseaddr]))"

text \<open>A list of options that must succeed: at the first failure the socket is closed and \<open>-1\<close> returned.\<close>

fun require_options :: "(sockopt \<Rightarrow> bool) \<Rightarrow> int \<Rightarrow> sockopt list \<Rightarrow> int \<times> sockcall list" where
  "require_options ok fd [] = (fd, [])"
| "require_options ok fd (opt # opts) =
     (if \<not> ok opt then (-1, [Set_option fd opt, Close_fd fd])
      else (case require_options ok fd opts of (r, calls) \<Rightarrow> (r, Set_option fd opt # calls)))"

definition new_tcp_listen_sockfd ::
  "(sockopt \<Rightarrow> bool) \<Rightarrow> int \<Rightarrow> u16 \<Rightarrow> bool \<Rightarrow> bool \<Rightarrow> int \<times> sockcall list" where
  "new_tcp_listen_sockfd ok socket family is_reuse_port is_tfo_accept =
     (case new_nonblock_sockfd socket family of
        (fd, calls) \<Rightarrow>
          if fd < 0 then (fd, calls)
          else (case require_options ok fd [set_ip_transparent family] of
                  (r, req) \<Rightarrow>
                    if r < 0 then (r, calls @ req)
                    else (fd, calls @ req @
                              (if is_reuse_port then [Set_option fd So_reuseport] else []) @
                              (if is_tfo_accept then [Set_option fd Tcp_fastopen] else []))))"

definition new_tcp_connect_sockfd ::
  "(sockopt \<Rightarrow> bool) \<Rightarrow> int \<Rightarrow> u16 \<Rightarrow> u8 \<Rightarrow> int \<times> sockcall list" where
  "new_tcp_connect_sockfd ok socket family tcp_syncnt =
     (case new_nonblock_sockfd socket family of
        (fd, calls) \<Rightarrow>
          if fd < 0 then (fd, calls)
          else (fd, calls @ [Set_option fd Tcp_nodelay, Set_option fd Tcp_quickack] @ set_tcp_keepalive ok fd @
                    (if tcp_syncnt \<noteq> 0 then [Set_option fd (Tcp_syncnt tcp_syncnt)] else [])))"

definition new_udp_tprecv_sockfd ::
  "(sockopt \<Rightarrow> bool) \<Rightarrow> int \<Rightarrow> u16 \<Rightarrow> bool \<Rightarrow> int \<times> sockcall list" where
  "new_udp_tprecv_sockfd ok socket family is_reuse_port =
     (case new_nonblock_sockfd socket family of
        (fd, calls) \<Rightarrow>
          if fd < 0 then (fd, calls)
          else (case require_options ok fd [set_ip_transparent family, set_recv_origdstaddr family] of
                  (r, req) \<Rightarrow>
                    if r < 0 then (r, calls @ req)
                    else (fd, calls @ req @ (if is_reuse_port then [Set_option fd So_reuseport] else []))))"

definition new_udp_tpsend_sockfd :: "(sockopt \<Rightarrow> bool) \<Rightarrow> int \<Rightarrow> u16 \<Rightarrow> int \<times> sockcall list" where
  "new_udp_tpsend_sockfd ok socket family =
     (case new_nonblock_sockfd socket family of
        (fd, calls) \<Rightarrow>
          if fd < 0 then (fd, calls)
          else (case require_options ok fd [set_ip_transparent family] of (r, req) \<Rightarrow> (r, calls @ req)))"

definition new_udp_normal_sockfd :: "int \<Rightarrow> u16 \<Rightarrow> int \<times> sockcall list" where
  "new_udp_normal_sockfd socket family = new_nonblock_sockfd socket family"

definition tcp_accept :: "(sockopt \<Rightarrow> bool) \<Rightarrow> int \<Rightarrow> int \<times> sockcall list" where
  "tcp_accept ok newsockfd =
     (newsockfd, if newsockfd \<ge> 0 then setup_accepted_sockfd ok newsockfd else [])"

definition tcp_close_by_rst :: "int \<Rightarrow> sockcall list" where
  "tcp_close_by_rst fd = [Set_option fd So_linger0, Close_fd fd]"

section \<open>Socket addresses\<close>

text \<open>
  The memory image on a little-endian host: the family in host order, the port in network order, the address;
  \<^verbatim>\<open>sockaddr_in\<close> has 16 bytes, \<^verbatim>\<open>sockaddr_in6\<close> 28 with the flow information
  before and the scope after the address.
\<close>

definition SIZEOF_SKADDR4 :: nat where "SIZEOF_SKADDR4 = 16"
definition SIZEOF_SKADDR6 :: nat where "SIZEOF_SKADDR6 = 28"

definition sa_family :: "bytes \<Rightarrow> u16" where
  "sa_family sk = mk16 (sk ! 1) (sk ! 0)"

text \<open>The port as the field holds it, in network byte order.\<close>

definition sa_port :: "bytes \<Rightarrow> u16" where
  "sa_port sk = mk16 (sk ! 3) (sk ! 2)"

definition sin_addr :: "bytes \<Rightarrow> bytes" where
  "sin_addr sk = take 4 (drop 4 sk)"

definition sin_s_addr :: "bytes \<Rightarrow> u32" where
  "sin_s_addr sk = mk32 (sk ! 7) (sk ! 6) (sk ! 5) (sk ! 4)"

definition sin6_addr :: "bytes \<Rightarrow> bytes" where
  "sin6_addr sk = take 16 (drop 8 sk)"

text \<open>The original destination of a redirected connection is its local address; \<open>None\<close> when
  \<^verbatim>\<open>getsockname\<close> fails. It is written into a buffer for the larger kind.\<close>

definition get_tcp_orig_dstaddr :: "u16 \<Rightarrow> bytes io \<Rightarrow> bytes option" where
  "get_tcp_orig_dstaddr family getsockname =
     (case getsockname of
        IoErr _ \<Rightarrow> None
      | IoOk a \<Rightarrow> Some (take (if family = AF_INET then SIZEOF_SKADDR4 else SIZEOF_SKADDR6) a))"

text \<open>A control message: level and type name the option, the data follows.\<close>

datatype cmsg_kind = Cmsg_origdst4 | Cmsg_origdst6 | Cmsg_other

fun get_udp_orig_dstaddr :: "u16 \<Rightarrow> (cmsg_kind \<times> bytes) list \<Rightarrow> bytes option" where
  "get_udp_orig_dstaddr family [] = None"
| "get_udp_orig_dstaddr family ((kind, d) # cmsgs) =
     (if family = AF_INET
      then (if kind = Cmsg_origdst4 then Some (take SIZEOF_SKADDR4 d) else get_udp_orig_dstaddr family cmsgs)
      else (if kind = Cmsg_origdst6 then Some (take SIZEOF_SKADDR6 d) else get_udp_orig_dstaddr family cmsgs))"

section \<open>Descriptors do not leak\<close>

lemma require_options_result:
  "require_options ok fd opts = (r, calls) \<Longrightarrow>
     (r = fd \<and> list_all ok opts \<and> calls = map (Set_option fd) opts) \<or>
     (r = -1 \<and> \<not> list_all ok opts \<and> last calls = Close_fd fd \<and> calls \<noteq> [] \<and>
      Close_fd fd \<notin> set (butlast calls))"
  by (induction opts arbitrary: r calls) (fastforce split: prod.splits if_splits)+

lemmas new_sockfd_defs = new_nonblock_sockfd_def new_tcp_listen_sockfd_def new_tcp_connect_sockfd_def
  new_udp_tprecv_sockfd_def new_udp_tpsend_sockfd_def new_udp_normal_sockfd_def

lemma set_tcp_keepalive_calls: "c \<in> set (set_tcp_keepalive ok fd) \<Longrightarrow> \<exists>opt. c = Set_option fd opt"
  by (auto simp: set_tcp_keepalive_def split: if_splits)

section \<open>Properties\<close>

text \<open>C38. The receiving UDP socket is returned only with transparency and the original destination enabled; if either
  option fails, it is closed, exactly once and as the last call, and \<open>-1\<close> is returned.\<close>

theorem new_udp_tprecv_sockfd_safe:
  assumes "new_udp_tprecv_sockfd ok socket family reuse = (r, calls)" "0 \<le> socket"
  shows "if ok (set_ip_transparent family) \<and> ok (set_recv_origdstaddr family)
    then r = socket \<and> Set_option socket (set_ip_transparent family) \<in> set calls \<and>
      Set_option socket (set_recv_origdstaddr family) \<in> set calls \<and> Set_option socket Set_nonblock \<in> set calls \<and>
      Close_fd socket \<notin> set calls
    else r = -1 \<and> last calls = Close_fd socket \<and> Close_fd socket \<notin> set (butlast calls)"
  using assms by (auto simp: new_sockfd_defs butlast_append split: if_splits)

theorem new_udp_tprecv_sockfd_safe_witness:
  "new_udp_tprecv_sockfd (\<lambda>opt. opt \<noteq> Ip_recvorigdstaddr) 7 AF_INET True =
     (-1, [Set_option 7 Set_nonblock, Set_option 7 So_reuseaddr, Set_option 7 Ip_transparent,
           Set_option 7 Ip_recvorigdstaddr, Close_fd 7]) \<and>
   fst (new_udp_tprecv_sockfd (\<lambda>opt. opt \<noteq> Ip_recvorigdstaddr) 7 AF_INET True) = -1"
proof -
  have run: "new_udp_tprecv_sockfd (\<lambda>opt. opt \<noteq> Ip_recvorigdstaddr) 7 AF_INET True =
     (-1, [Set_option 7 Set_nonblock, Set_option 7 So_reuseaddr, Set_option 7 Ip_transparent,
           Set_option 7 Ip_recvorigdstaddr, Close_fd 7])"
    by (simp add: new_sockfd_defs set_ip_transparent_def set_recv_origdstaddr_def AF_INET_def AF_INET6_def)
  show ?thesis using new_udp_tprecv_sockfd_safe [OF run] run
    by (simp add: set_ip_transparent_def set_recv_origdstaddr_def)
qed

end
