(* ===== verification/Ss2022.thy ===== *)
theory Ss2022
  imports Prelude
begin

text \<open>
  The interface of \<^verbatim>\<open>libss2022-client\<close>, a submodule whose sources are not part of
  the repository. Its functions are the fields of two records that the proxies and the probes are given;
  the states of its clients are type variables. A function that can fail returns an option. A
  function with an output buffer is given its size. What is relied on is stated in
  \<open>ss2022_tcp_ok\<close> and \<open>ss2022_udp_ok\<close>: nothing is written beyond the size given.
\<close>

datatype ss2022_host = SS2022_ADDR_IPV4 bytes | SS2022_ADDR_IPV6 bytes | SS2022_ADDR_DOMAIN bytes

record ss2022_addr =
  addr_port :: u16 \<comment> \<open>host byte order\<close>
  addr_host :: ss2022_host

record 'c ss2022_tcp =
  tcp_response_header_size :: "'c \<Rightarrow> nat"
  tcp_build_request_header :: "'c \<Rightarrow> ss2022_addr \<Rightarrow> bytes \<Rightarrow> nat \<Rightarrow> (bytes \<times> 'c) option"
  tcp_open_response_header :: "'c \<Rightarrow> bytes \<Rightarrow> (u16 \<times> 'c) option"
  tcp_open_length :: "'c \<Rightarrow> bytes \<Rightarrow> (u16 \<times> 'c) option"
  tcp_open_payload :: "'c \<Rightarrow> bytes \<Rightarrow> nat \<Rightarrow> (bytes \<times> 'c) option"
  tcp_seal_payload :: "'c \<Rightarrow> bytes \<Rightarrow> nat \<Rightarrow> (bytes \<times> 'c) option"

text \<open>A datagram that does not open leaves a session that goes on being used.\<close>

record 'u ss2022_udp =
  udp_client_open :: "'u \<Rightarrow> bytes \<Rightarrow> nat \<Rightarrow> (ss2022_addr \<times> bytes) option \<times> 'u"
  udp_client_seal :: "'u \<Rightarrow> ss2022_addr \<Rightarrow> bytes \<Rightarrow> nat \<Rightarrow> bytes option \<times> 'u"

definition ss2022_tcp_ok :: "'c ss2022_tcp \<Rightarrow> bool" where
  "ss2022_tcp_ok lib \<longleftrightarrow>
     (\<forall>c a p n b c'. tcp_build_request_header lib c a p n = Some (b, c') \<longrightarrow> length b \<le> n) \<and>
     (\<forall>c e n b c'. tcp_open_payload lib c e n = Some (b, c') \<longrightarrow> length b \<le> n) \<and>
     (\<forall>c p n b c'. tcp_seal_payload lib c p n = Some (b, c') \<longrightarrow> length b \<le> n)"

definition ss2022_udp_ok :: "'u ss2022_udp \<Rightarrow> bool" where
  "ss2022_udp_ok lib \<longleftrightarrow>
     (\<forall>u e n a p u'. udp_client_open lib u e n = (Some (a, p), u') \<longrightarrow> length p \<le> n) \<and>
     (\<forall>u a p n b u'. udp_client_seal lib u a p n = (Some b, u') \<longrightarrow> length b \<le> n)"

text \<open>The number of bytes by which sealing grows a chunk and by which a tag lengthens it.\<close>

definition SS2022_TAG_LEN :: nat where "SS2022_TAG_LEN = 16"
definition SS2022_LENGTH_CHUNK_LEN :: nat where "SS2022_LENGTH_CHUNK_LEN = 18"

end
