(* ===== verification/SelectorProbe.thy ===== *)
theory SelectorProbe
  imports SelectorRanking Netutils Ss2022
begin

text \<open>
  The probes of \<^verbatim>\<open>src/src/server_selector.c\<close>: one TCP probe and one UDP probe per server, each a
  small state machine driven by the callbacks of the event loop, the rounds that start them, and the
  start and stop of the selector. The ranking they feed is in \<open>ServerSelector\<close>.

  A callback is a function of the world that also takes the results of the system calls it makes and the loop's time.
  A probe's watcher is represented by its callback and whether it is active. A list of results of
  \<^verbatim>\<open>send\<close> that has run out stands for a socket that would block.
\<close>

section \<open>State\<close>

definition TCP_PROBE_SEND_BUF_SIZE :: nat where "TCP_PROBE_SEND_BUF_SIZE = 1024"
definition TCP_PROBE_RECV_BUF_SIZE :: nat where "TCP_PROBE_RECV_BUF_SIZE = 65535 + 2 + 16"
definition TCP_PROBE_STATUS_LEN :: nat where "TCP_PROBE_STATUS_LEN = 12"
definition TCP_PROBE_LENGTH_LEN :: nat where "TCP_PROBE_LENGTH_LEN = 2 + 16"

lemmas probe_consts = TCP_PROBE_SEND_BUF_SIZE_def TCP_PROBE_RECV_BUF_SIZE_def TCP_PROBE_STATUS_LEN_def TCP_PROBE_LENGTH_LEN_def

definition CRLF :: bytes where "CRLF = [13, 10]"

definition TCP_PROBE_REQUEST :: bytes where
  "TCP_PROBE_REQUEST =
     ascii ''GET /generate_204 HTTP/1.1'' @ CRLF @ ascii ''Host: google.com'' @ CRLF @
     ascii ''Connection: close'' @ CRLF @ CRLF"

datatype tcp_probe_state =
    TCP_PROBE_CONNECTING | TCP_PROBE_SENDING | TCP_PROBE_RECV_RESP_HDR | TCP_PROBE_RECV_PAYLOAD | TCP_PROBE_RECV_LENGTH

datatype tcp_probe_cb = Tcp_probe_on_connected | Tcp_probe_on_send | Tcp_probe_on_recv

record 'c ss_tcp_probe =
  tp_client :: "'c option"
  tp_start_ts :: ev_tstamp
  tp_attempt_epoch :: u64
  tp_send_buf :: bytes \<comment> \<open>its length is \<^verbatim>\<open>send_len\<close>\<close>
  tp_send_off :: nat
  tp_buf :: bytes \<comment> \<open>its length is \<^verbatim>\<open>buf_len\<close>\<close>
  tp_buf_need :: nat
  tp_status :: bytes \<comment> \<open>its length is \<^verbatim>\<open>status_len\<close>\<close>
  tp_cb :: tcp_probe_cb
  tp_io_active :: bool
  tp_timer_active :: bool
  tp_server_idx :: int
  tp_sockfd :: int
  tp_state :: tcp_probe_state
  tp_response_payload_len :: u16

record 'u ss_udp_probe =
  up_session :: "'u option"
  up_start_ts :: ev_tstamp
  up_attempt_epoch :: u64
  up_io_active :: bool
  up_timer_active :: bool
  up_server_idx :: int
  up_sockfd :: int
  up_dns_txid :: u16

record ('x, 'c, 'u) probe_world =
  pw_sel :: "'x selectors"
  g_tcp_probes :: "'c ss_tcp_probe list"
  g_udp_probes :: "'u ss_udp_probe list"
  g_dns_txid_seq :: u16
  open_fds :: "int list" \<comment> \<open>the descriptors the probes have opened and not closed\<close>

definition fd_open :: "int \<Rightarrow> ('x, 'c, 'u) probe_world \<Rightarrow> ('x, 'c, 'u) probe_world" where
  "fd_open fd w = w\<lparr>open_fds := fd # open_fds w\<rparr>"

definition fd_close :: "int \<Rightarrow> ('x, 'c, 'u) probe_world \<Rightarrow> ('x, 'c, 'u) probe_world" where
  "fd_close fd w = w\<lparr>open_fds := remove1 fd (open_fds w)\<rparr>"

definition put_tcp_probe :: "int \<Rightarrow> 'c ss_tcp_probe \<Rightarrow> ('x, 'c, 'u) probe_world \<Rightarrow> ('x, 'c, 'u) probe_world" where
  "put_tcp_probe i p w = w\<lparr>g_tcp_probes := (g_tcp_probes w)[nat i := p]\<rparr>"

definition put_udp_probe :: "int \<Rightarrow> 'u ss_udp_probe \<Rightarrow> ('x, 'c, 'u) probe_world \<Rightarrow> ('x, 'c, 'u) probe_world" where
  "put_udp_probe i p w = w\<lparr>g_udp_probes := (g_udp_probes w)[nat i := p]\<rparr>"

definition ss_ctx_get :: "'x option \<Rightarrow> int \<Rightarrow> 'x ss_selector \<Rightarrow> 'x option \<times> 'x ss_selector" where
  "ss_ctx_get init idx sel =
     (case sel_ctx sel ! nat idx of
        Some c \<Rightarrow> (Some c, sel)
      | None \<Rightarrow> (case init of
                   None \<Rightarrow> (None, sel)
                 | Some c \<Rightarrow> (Some c, sel\<lparr>sel_ctx := (sel_ctx sel)[nat idx := Some c]\<rparr>)))"

section \<open>The TCP probe\<close>

text \<open>The milliseconds since the probe's start, \<^verbatim>\<open>(uint32_t)((ev_now - start_ts) * 1000.0)\<close>.\<close>

definition elapsed_ms :: "ev_tstamp \<Rightarrow> ev_tstamp \<Rightarrow> u32" where
  "elapsed_ms now start = u32_of_double (fmul (fsub now start) 1000)"

definition tcp_probe_consume :: "nat \<Rightarrow> 'c ss_tcp_probe \<Rightarrow> 'c ss_tcp_probe" where
  "tcp_probe_consume n p = p\<lparr>tp_buf := drop n (tp_buf p)\<rparr>"

definition tcp_probe_release :: "'c ss_tcp_probe \<Rightarrow> 'c ss_tcp_probe" where
  "tcp_probe_release p = p\<lparr>tp_io_active := False, tp_timer_active := False, tp_sockfd := -1, tp_client := None\<rparr>"

definition tcp_probe_finish ::
  "int \<Rightarrow> u32 \<Rightarrow> bool \<Rightarrow> ev_tstamp \<Rightarrow> ('x, 'c, 'u) probe_world \<Rightarrow> ('x, 'c, 'u) probe_world" where
  "tcp_probe_finish i latency err now w =
     (let p = g_tcp_probes w ! nat i; w = fd_close (tp_sockfd p) (put_tcp_probe i (tcp_probe_release p) w)
      in w\<lparr>pw_sel := ss_probe_done True
             (ss_record_probe True (tp_server_idx p) latency err (tp_attempt_epoch p) now (pw_sel w))\<rparr>)"

definition tcp_probe_socket_error ::
  "int \<Rightarrow> errno \<Rightarrow> ev_tstamp \<Rightarrow> ('x, 'c, 'u) probe_world \<Rightarrow> ('x, 'c, 'u) probe_world" where
  "tcp_probe_socket_error i err now w =
     (let p = g_tcp_probes w ! nat i in
      if \<not> socket_error_is_local err then tcp_probe_finish i (elapsed_ms now (tp_start_ts p)) True now w
      else (fd_close (tp_sockfd p) (put_tcp_probe i (tcp_probe_release p) w))\<lparr>pw_sel := ss_probe_skip True (pw_sel w)\<rparr>)"

text \<open>
  The loop over the complete pieces in the buffer. The result is \<open>None\<close> to wait for more data, or
  whether the probe finishes with an error.
\<close>

definition http_204 :: "bytes \<Rightarrow> bool" where
  "http_204 status \<longleftrightarrow> status = ascii ''HTTP/1.1 204'' \<or> status = ascii ''HTTP/1.0 204''"

definition probe_expect_payload :: "u16 \<Rightarrow> 'c ss_tcp_probe \<Rightarrow> 'c ss_tcp_probe" where
  "probe_expect_payload plen p =
     p\<lparr>tp_response_payload_len := plen, tp_state := TCP_PROBE_RECV_PAYLOAD, tp_buf_need := unat plen + 16\<rparr>"

function tcp_probe_process :: "'c ss2022_tcp \<Rightarrow> 'c ss_tcp_probe \<Rightarrow> 'c ss_tcp_probe \<times> bool option" where
  "tcp_probe_process lib p =
     (if length (tp_buf p) < tp_buf_need p then (p, None)
      else
        (case tp_state p of
           TCP_PROBE_RECV_RESP_HDR \<Rightarrow>
             (case tcp_open_response_header lib (the (tp_client p)) (take (tp_buf_need p) (tp_buf p)) of
                None \<Rightarrow> (p, Some True)
              | Some (plen, c) \<Rightarrow>
                  (let p = probe_expect_payload plen (tcp_probe_consume (tp_buf_need p) (p\<lparr>tp_client := Some c\<rparr>))
                   in if tp_buf_need p > TCP_PROBE_RECV_BUF_SIZE then (p, Some True) else tcp_probe_process lib p))
         | TCP_PROBE_RECV_LENGTH \<Rightarrow>
             (case tcp_open_length lib (the (tp_client p)) (take TCP_PROBE_LENGTH_LEN (tp_buf p)) of
                None \<Rightarrow> (p, Some True)
              | Some (plen, c) \<Rightarrow>
                  (let p = probe_expect_payload plen (tcp_probe_consume TCP_PROBE_LENGTH_LEN (p\<lparr>tp_client := Some c\<rparr>))
                   in if tp_buf_need p > TCP_PROBE_RECV_BUF_SIZE then (p, Some True) else tcp_probe_process lib p))
         | TCP_PROBE_RECV_PAYLOAD \<Rightarrow>
             (case tcp_open_payload lib (the (tp_client p)) (take (tp_buf_need p) (tp_buf p)) (tp_buf_need p - 16) of
                None \<Rightarrow> (p, Some True)
              | Some (plain, c) \<Rightarrow>
                  (let copy_len = min (TCP_PROBE_STATUS_LEN - length (tp_status p)) (length plain);
                       p = tcp_probe_consume (tp_buf_need p)
                             (p\<lparr>tp_client := Some c, tp_status := tp_status p @ take copy_len plain\<rparr>)
                   in if length (tp_status p) \<ge> TCP_PROBE_STATUS_LEN then (p, Some (\<not> http_204 (tp_status p)))
                      else tcp_probe_process lib
                             (p\<lparr>tp_state := TCP_PROBE_RECV_LENGTH, tp_buf_need := TCP_PROBE_LENGTH_LEN\<rparr>)))
         | _ \<Rightarrow> (p, None)))"
  by pat_completeness auto

text \<open>Every turn but the first consumes a piece of at least 16 bytes.\<close>

termination
  by (relation "measure (\<lambda>(lib, p). 2 * length (tp_buf p) + (if tp_buf_need p = 0 then 1 else 0) +
        (if tp_state p = TCP_PROBE_RECV_LENGTH \<and> tp_buf_need p = 0 then 1 else 0))")
    (auto simp: tcp_probe_consume_def probe_expect_payload_def probe_consts split: if_splits)

declare tcp_probe_process.simps [simp del]

definition tcp_probe_on_recv ::
  "'c ss2022_tcp \<Rightarrow> int \<Rightarrow> bytes io \<Rightarrow> ev_tstamp \<Rightarrow> ('x, 'c, 'u) probe_world \<Rightarrow> ('x, 'c, 'u) probe_world" where
  "tcp_probe_on_recv lib i recv now w =
     (let p = g_tcp_probes w ! nat i; elapsed = elapsed_ms now (tp_start_ts p)
      in if length (tp_buf p) = TCP_PROBE_RECV_BUF_SIZE then tcp_probe_finish i elapsed True now w
         else (case recv of
                 IoErr err \<Rightarrow>
                   if err = EINTR then w else if err = EAGAIN then w else tcp_probe_socket_error i err now w
               | IoOk d \<Rightarrow>
                   if d = [] then tcp_probe_finish i elapsed True now w
                   else (case tcp_probe_process lib (p\<lparr>tp_buf := tp_buf p @ d\<rparr>) of
                           (p, None) \<Rightarrow> put_tcp_probe i p w
                         | (p, Some err) \<Rightarrow> tcp_probe_finish i elapsed err now (put_tcp_probe i p w))))"

datatype send_result = Send_blocked | Send_failed errno | Send_zero | Send_done

fun probe_send_loop :: "nat io list \<Rightarrow> 'c ss_tcp_probe \<Rightarrow> 'c ss_tcp_probe \<times> send_result" where
  "probe_send_loop sends p =
     (if tp_send_off p \<ge> length (tp_send_buf p) then (p, Send_done)
      else (case sends of
              [] \<Rightarrow> (p, Send_blocked)
            | IoErr err # sends \<Rightarrow>
                if err = EINTR then probe_send_loop sends p
                else if err = EAGAIN then (p, Send_blocked) else (p, Send_failed err)
            | IoOk n # sends \<Rightarrow>
                if n = 0 then (p, Send_zero)
                else probe_send_loop sends (p\<lparr>tp_send_off := tp_send_off p + n\<rparr>)))"

declare probe_send_loop.simps [simp del]

definition tcp_probe_on_send ::
  "'c ss2022_tcp \<Rightarrow> int \<Rightarrow> nat io list \<Rightarrow> ev_tstamp \<Rightarrow> ('x, 'c, 'u) probe_world \<Rightarrow> ('x, 'c, 'u) probe_world" where
  "tcp_probe_on_send lib i sends now w =
     (case probe_send_loop sends (g_tcp_probes w ! nat i) of
        (p, Send_blocked) \<Rightarrow> put_tcp_probe i (p\<lparr>tp_io_active := True\<rparr>) w
      | (p, Send_failed err) \<Rightarrow> tcp_probe_socket_error i err now (put_tcp_probe i p w)
      | (p, Send_zero) \<Rightarrow> tcp_probe_finish i (elapsed_ms now (tp_start_ts p)) True now (put_tcp_probe i p w)
      | (p, Send_done) \<Rightarrow>
          (let need = tcp_response_header_size lib (the (tp_client p));
               p = p\<lparr>tp_io_active := False, tp_state := TCP_PROBE_RECV_RESP_HDR, tp_buf := [], tp_status := [],
                     tp_buf_need := need\<rparr>
           in if need = 0 \<or> need > TCP_PROBE_RECV_BUF_SIZE
              then tcp_probe_finish i (elapsed_ms now (tp_start_ts p)) True now (put_tcp_probe i p w)
              else put_tcp_probe i (p\<lparr>tp_cb := Tcp_probe_on_recv, tp_io_active := True\<rparr>) w))"

definition tcp_probe_on_connected ::
  "'c ss2022_tcp \<Rightarrow> int \<Rightarrow> errno option io \<Rightarrow> nat io list \<Rightarrow> ev_tstamp \<Rightarrow> ('x, 'c, 'u) probe_world \<Rightarrow>
   ('x, 'c, 'u) probe_world" where
  "tcp_probe_on_connected lib i so_error sends now w =
     (case so_error of
        IoErr err \<Rightarrow> tcp_probe_socket_error i err now w
      | IoOk (Some err) \<Rightarrow> tcp_probe_socket_error i err now w
      | IoOk None \<Rightarrow>
          tcp_probe_on_send lib i sends now
            (put_tcp_probe i ((g_tcp_probes w ! nat i)\<lparr>tp_state := TCP_PROBE_SENDING, tp_cb := Tcp_probe_on_send\<rparr>) w))"

definition tcp_probe_on_timeout :: "int \<Rightarrow> ev_tstamp \<Rightarrow> ('x, 'c, 'u) probe_world \<Rightarrow> ('x, 'c, 'u) probe_world" where
  "tcp_probe_on_timeout i now w = tcp_probe_finish i SS_MAX_RTT_MS True now w"

record ('x, 'c) tcp_start_env =
  tse_ctx :: "'x option"
  tse_client :: "'c option"
  tse_fd :: int
  tse_tfo :: bool
  tse_sendto :: "nat io"
  tse_connect :: "unit io"
  tse_so_error :: "errno option io"
  tse_sends :: "nat io list"

definition probe_target :: ss2022_addr where
  "probe_target = \<lparr>addr_port = 80, addr_host = SS2022_ADDR_DOMAIN (ascii ''google.com'')\<rparr>"

definition tcp_probe_start ::
  "'c ss2022_tcp \<Rightarrow> ('x, 'c) tcp_start_env \<Rightarrow> ev_tstamp \<Rightarrow> int \<Rightarrow> ('x, 'c, 'u) probe_world \<Rightarrow> ('x, 'c, 'u) probe_world" where
  "tcp_probe_start lib env now i w =
     (let p = (g_tcp_probes w ! nat i)\<lparr>tp_attempt_epoch := ss_attempt_epoch (g_tcp_selector (pw_sel w)) i\<rparr>;
          w = put_tcp_probe i p w
      in case ss_ctx_get (tse_ctx env) i (g_tcp_selector (pw_sel w)) of
           (ctx, sel) \<Rightarrow>
             (let w = w\<lparr>pw_sel := (pw_sel w)\<lparr>g_tcp_selector := sel\<rparr>\<rparr>;
                  skip = (\<lambda>w. w\<lparr>pw_sel := ss_probe_skip True (pw_sel w)\<rparr>)
              in case (ctx, tse_client env) of
                   (Some x, Some c) \<Rightarrow>
                     (case tcp_build_request_header lib c probe_target TCP_PROBE_REQUEST TCP_PROBE_SEND_BUF_SIZE of
                        None \<Rightarrow> skip w
                      | Some (req, c) \<Rightarrow>
                          if tse_fd env < 0 then skip w
                          else
                            (let w = fd_open (tse_fd env) w in case tcp_connect (tse_sendto env) (tse_connect env) (if tse_tfo env then Some req else None) of
                               (conn, nsend, err) \<Rightarrow>
                                 (let p = p\<lparr>tp_client := Some c, tp_send_buf := req, tp_send_off := 0, tp_server_idx := i,
                                          tp_sockfd := tse_fd env, tp_start_ts := now, tp_state := TCP_PROBE_CONNECTING,
                                          tp_cb := Tcp_probe_on_connected, tp_io_active := False, tp_timer_active := True\<rparr>
                                  in if conn = TCP_CONNECT_FAILED then tcp_probe_socket_error i err now (put_tcp_probe i p w)
                                     else
                                       (let p = (case nsend of Some n \<Rightarrow> if n > 0 then p\<lparr>tp_send_off := n\<rparr> else p | None \<Rightarrow> p)
                                        in if conn = TCP_CONNECT_CONNECTED
                                           then tcp_probe_on_connected lib i (tse_so_error env) (tse_sends env) now (put_tcp_probe i p w)
                                           else put_tcp_probe i (p\<lparr>tp_io_active := True\<rparr>) w))))
                 | _ \<Rightarrow> skip w))"

section \<open>The UDP probe\<close>

definition UDP_PROBE_TARGET :: ss2022_addr where
  "UDP_PROBE_TARGET = \<lparr>addr_port = 53, addr_host = SS2022_ADDR_IPV4 [8, 8, 4, 4]\<rparr>"

text \<open>The bytes written to a buffer of size \<open>cap\<close>; none when it is too small.\<close>

definition build_dns_query :: "nat \<Rightarrow> u16 \<Rightarrow> bytes" where
  "build_dns_query cap txid =
     (let qname_and_type = [6] @ ascii ''google'' @ [3] @ ascii ''com'' @ [0, 0, 1, 0, 1]
      in if cap < 12 + length qname_and_type then []
         else [byte16 1 txid, byte16 0 txid, 1, 0, 0, 1, 0, 0, 0, 0, 0, 0] @ qname_and_type)"

definition udp_probe_release :: "'u ss_udp_probe \<Rightarrow> 'u ss_udp_probe" where
  "udp_probe_release p = p\<lparr>up_io_active := False, up_timer_active := False, up_sockfd := -1, up_session := None\<rparr>"

definition udp_probe_finish ::
  "int \<Rightarrow> u32 \<Rightarrow> bool \<Rightarrow> ev_tstamp \<Rightarrow> ('x, 'c, 'u) probe_world \<Rightarrow> ('x, 'c, 'u) probe_world" where
  "udp_probe_finish i latency err now w =
     (let p = g_udp_probes w ! nat i; w = fd_close (up_sockfd p) (put_udp_probe i (udp_probe_release p) w)
      in w\<lparr>pw_sel := ss_probe_done False
             (ss_record_probe False (up_server_idx p) latency err (up_attempt_epoch p) now (pw_sel w))\<rparr>)"

definition dns_answer_ok :: "u16 \<Rightarrow> bytes \<Rightarrow> bool" where
  "dns_answer_ok txid payload \<longleftrightarrow>
     length payload \<ge> 4 \<and> mk16 (payload ! 0) (payload ! 1) = txid \<and>
     payload ! 2 AND 0x80 \<noteq> 0 \<and> payload ! 3 AND 0x0F = 0"

definition udp_probe_on_recv ::
  "'u ss2022_udp \<Rightarrow> int \<Rightarrow> bytes io \<Rightarrow> ev_tstamp \<Rightarrow> ('x, 'c, 'u) probe_world \<Rightarrow> ('x, 'c, 'u) probe_world" where
  "udp_probe_on_recv lib i recv now w =
     (let p = g_udp_probes w ! nat i; elapsed = elapsed_ms now (up_start_ts p)
      in case recv of
           IoErr err \<Rightarrow>
             if err = EINTR then w else if err = EAGAIN then w else udp_probe_finish i elapsed True now w
         | IoOk pkt \<Rightarrow>
             (case udp_client_open lib (the (up_session p)) (take 4096 pkt) 4096 of
                (None, u) \<Rightarrow> put_udp_probe i (p\<lparr>up_session := Some u\<rparr>) w
              | (Some (source_addr, payload), u) \<Rightarrow>
                  udp_probe_finish i elapsed (\<not> dns_answer_ok (up_dns_txid p) payload) now
                    (put_udp_probe i (p\<lparr>up_session := Some u\<rparr>) w)))"

definition udp_probe_on_timeout :: "int \<Rightarrow> ev_tstamp \<Rightarrow> ('x, 'c, 'u) probe_world \<Rightarrow> ('x, 'c, 'u) probe_world" where
  "udp_probe_on_timeout i now w = udp_probe_finish i SS_MAX_RTT_MS True now w"

record ('x, 'u) udp_start_env =
  use_ctx :: "'x option"
  use_session :: "'u option"
  use_fd :: int
  use_sendto :: "unit io"

text \<open>The next transaction identifier; zero is skipped.\<close>

definition next_txid :: "u16 \<Rightarrow> u16" where
  "next_txid seq = (if seq + 1 \<noteq> 0 then seq + 1 else seq + 1 + 1)"

definition udp_probe_start ::
  "'u ss2022_udp \<Rightarrow> ('x, 'u) udp_start_env \<Rightarrow> ev_tstamp \<Rightarrow> int \<Rightarrow> ('x, 'c, 'u) probe_world \<Rightarrow> ('x, 'c, 'u) probe_world" where
  "udp_probe_start lib env now i w =
     (let p = (g_udp_probes w ! nat i)\<lparr>up_attempt_epoch := ss_attempt_epoch (g_udp_selector (pw_sel w)) i\<rparr>;
          w = put_udp_probe i p w
      in case ss_ctx_get (use_ctx env) i (g_udp_selector (pw_sel w)) of
           (ctx, sel) \<Rightarrow>
             (let w = w\<lparr>pw_sel := (pw_sel w)\<lparr>g_udp_selector := sel\<rparr>\<rparr>;
                  skip = (\<lambda>w. w\<lparr>pw_sel := ss_probe_skip False (pw_sel w)\<rparr>)
              in case (ctx, use_session env) of
                   (Some x, Some u) \<Rightarrow>
                     if use_fd env < 0 then skip w
                     else
                       (let w = fd_open (use_fd env) w;
                            txid = next_txid (g_dns_txid_seq w);
                            w = w\<lparr>g_dns_txid_seq := txid\<rparr>;
                            p = p\<lparr>up_dns_txid := txid\<rparr>;
                            w = put_udp_probe i p w
                        in case udp_client_seal lib u UDP_PROBE_TARGET (build_dns_query 64 txid) 4096 of
                             (None, u) \<Rightarrow> skip (fd_close (use_fd env) w)
                           | (Some sealed, u) \<Rightarrow>
                               (case use_sendto env of
                                  IoErr err \<Rightarrow>
                                    (let w = fd_close (use_fd env) w in
                                     if socket_error_is_local err then skip w
                                     else w\<lparr>pw_sel := ss_probe_done False
                                              (ss_record_probe False i 0 True (up_attempt_epoch p) now (pw_sel w))\<rparr>)
                                | IoOk _ \<Rightarrow>
                                    put_udp_probe i
                                      (p\<lparr>up_session := Some u, up_server_idx := i, up_sockfd := use_fd env,
                                         up_start_ts := now, up_io_active := True, up_timer_active := True\<rparr>) w))
                 | _ \<Rightarrow> skip w))"

section \<open>Rounds\<close>

record ('x, 'c, 'u) round_env =
  re_now :: ev_tstamp
  re_tcp :: "nat \<Rightarrow> ('x, 'c) tcp_start_env"
  re_udp :: "nat \<Rightarrow> ('x, 'u) udp_start_env"

definition set_remaining :: "bool \<Rightarrow> int \<Rightarrow> ('x, 'c, 'u) probe_world \<Rightarrow> ('x, 'c, 'u) probe_world" where
  "set_remaining is_tcp n w =
     w\<lparr>pw_sel := put_selector is_tcp ((get_selector is_tcp (pw_sel w))\<lparr>sel_probes_remaining := n\<rparr>) (pw_sel w)\<rparr>"

definition selector_start_probe_round ::
  "'c ss2022_tcp \<Rightarrow> 'u ss2022_udp \<Rightarrow> ('x, 'c, 'u) round_env \<Rightarrow> bool \<Rightarrow> ('x, 'c, 'u) probe_world \<Rightarrow> ('x, 'c, 'u) probe_world" where
  "selector_start_probe_round tlib ulib env is_tcp w =
     (if sel_probes_remaining (get_selector is_tcp (pw_sel w)) > 0 then w
      else fold (\<lambda>i w. if is_tcp then tcp_probe_start tlib (re_tcp env i) (re_now env) (int i) w
                       else udp_probe_start ulib (re_udp env i) (re_now env) (int i) w)
             [0..<g_ss_server_count (pw_sel w)]
             (set_remaining is_tcp (int (g_ss_server_count (pw_sel w))) w))"

definition check_timer_cb ::
  "'c ss2022_tcp \<Rightarrow> 'u ss2022_udp \<Rightarrow> ('x, 'c, 'u) round_env \<Rightarrow> bool \<Rightarrow> ('x, 'c, 'u) probe_world \<Rightarrow> ('x, 'c, 'u) probe_world" where
  "check_timer_cb tlib ulib env is_tcp w = selector_start_probe_round tlib ulib env is_tcp w"

text \<open>Start and stop.\<close>

definition selector_start ::
  "'c ss2022_tcp \<Rightarrow> 'u ss2022_udp \<Rightarrow> ('x, 'c, 'u) round_env \<Rightarrow> bool \<Rightarrow> ('x, 'c, 'u) probe_world \<Rightarrow> ('x, 'c, 'u) probe_world" where
  "selector_start tlib ulib env is_tcp w =
     selector_start_probe_round tlib ulib env is_tcp
       (w\<lparr>pw_sel := put_selector is_tcp ((get_selector is_tcp (pw_sel w))\<lparr>sel_check_timer := True\<rparr>) (pw_sel w)\<rparr>)"

definition server_selector_start ::
  "'c ss2022_tcp \<Rightarrow> 'u ss2022_udp \<Rightarrow> ('x, 'c, 'u) round_env \<Rightarrow> bool \<Rightarrow> bool \<Rightarrow> ('x, 'c, 'u) probe_world \<Rightarrow> ('x, 'c, 'u) probe_world" where
  "server_selector_start tlib ulib env enable_tcp enable_udp w =
     (let w = (if enable_tcp then selector_start tlib ulib env True w else w)
      in if enable_udp then selector_start tlib ulib env False w else w)"

text \<open>The part of the initialisation that concerns the probes: their descriptors are marked closed.\<close>

definition server_selector_init_probes :: "('x, 'c, 'u) probe_world \<Rightarrow> ('x, 'c, 'u) probe_world" where
  "server_selector_init_probes w =
     (let n = g_ss_server_count (pw_sel w) in
      w\<lparr>pw_sel := server_selector_init (pw_sel w),
        g_tcp_probes := map (\<lambda>p. p\<lparr>tp_sockfd := -1\<rparr>) (take n (g_tcp_probes w)) @ drop n (g_tcp_probes w),
        g_udp_probes := map (\<lambda>p. p\<lparr>up_sockfd := -1\<rparr>) (take n (g_udp_probes w)) @ drop n (g_udp_probes w)\<rparr>)"

definition selector_stopped :: "nat \<Rightarrow> 'x ss_selector \<Rightarrow> 'x ss_selector" where
  "selector_stopped n sel =
     sel\<lparr>sel_check_timer := False, sel_probes_remaining := 0,
         sel_ctx := replicate (min n (length (sel_ctx sel))) None @ drop n (sel_ctx sel)\<rparr>"

definition server_selector_stop :: "('x, 'c, 'u) probe_world \<Rightarrow> ('x, 'c, 'u) probe_world" where
  "server_selector_stop w =
     (let n = g_ss_server_count (pw_sel w) in
      w\<lparr>open_fds := fold remove1
                      (filter (\<lambda>fd. fd \<ge> 0) (map tp_sockfd (take n (g_tcp_probes w)) @ map up_sockfd (take n (g_udp_probes w))))
                      (open_fds w),
        pw_sel := (pw_sel w)\<lparr>g_tcp_selector := selector_stopped n (g_tcp_selector (pw_sel w)),
                            g_udp_selector := selector_stopped n (g_udp_selector (pw_sel w))\<rparr>,
        g_tcp_probes := map (\<lambda>p. if tp_sockfd p \<ge> 0 then tcp_probe_release p else p) (take n (g_tcp_probes w)) @
                        drop n (g_tcp_probes w),
        g_udp_probes := map (\<lambda>p. if up_sockfd p \<ge> 0 then udp_probe_release p else p) (take n (g_udp_probes w)) @
                        drop n (g_udp_probes w)\<rparr>)"

end
