(* ===== verification/SelectorRounds.thy ===== *)
theory SelectorRounds
  imports SelectorProbe
begin

text \<open>
  The bookkeeping of the probe rounds: the number of outstanding probes of a selector is the number of its running
  probes, every running probe has its timer and owns one open descriptor, nothing else is open, and so a
  round always ends: when the timers of the running probes have fired, none is outstanding.
\<close>

section \<open>The invariant\<close>

definition fds_of :: "bool \<Rightarrow> ('x, 'c, 'u) probe_world \<Rightarrow> int list" where
  "fds_of t w = filter (\<lambda>fd. 0 \<le> fd) (if t
     then map tp_sockfd (take (g_ss_server_count (pw_sel w)) (g_tcp_probes w))
     else map up_sockfd (take (g_ss_server_count (pw_sel w)) (g_udp_probes w)))"

definition remaining :: "bool \<Rightarrow> ('x, 'c, 'u) probe_world \<Rightarrow> int" where
  "remaining t w = sel_probes_remaining (get_selector t (pw_sel w))"

definition tcp_probe_ok :: "nat \<Rightarrow> 'c ss_tcp_probe \<Rightarrow> bool" where
  "tcp_probe_ok i p \<longleftrightarrow>
     (if 0 \<le> tp_sockfd p then tp_timer_active p \<and> tp_server_idx p = int i \<and> tp_client p \<noteq> None
      else \<not> tp_timer_active p \<and> \<not> tp_io_active p)"

definition udp_probe_ok :: "nat \<Rightarrow> 'u ss_udp_probe \<Rightarrow> bool" where
  "udp_probe_ok i p \<longleftrightarrow>
     (if 0 \<le> up_sockfd p then up_timer_active p \<and> up_server_idx p = int i \<and> up_session p \<noteq> None
      else \<not> up_timer_active p \<and> \<not> up_io_active p)"

definition probes_ok :: "('x, 'c, 'u) probe_world \<Rightarrow> bool" where
  "probes_ok w \<longleftrightarrow>
     length (g_tcp_probes w) = SS_MAX_SERVERS \<and> length (g_udp_probes w) = SS_MAX_SERVERS \<and>
     (\<forall>i < g_ss_server_count (pw_sel w). tcp_probe_ok i (g_tcp_probes w ! i) \<and> udp_probe_ok i (g_udp_probes w ! i))"

text \<open>\<open>d\<close> counts the servers whose probes a round has still to start.\<close>

definition round_inv :: "(bool \<Rightarrow> int) \<Rightarrow> ('x, 'c, 'u) probe_world \<Rightarrow> bool" where
  "round_inv d w \<longleftrightarrow>
     selectors_ok (pw_sel w) \<and> probes_ok w \<and> (\<forall>t. remaining t w = int (length (fds_of t w)) + d t) \<and>
     mset (open_fds w) = mset (fds_of True w) + mset (fds_of False w)"

lemma round_inv_bounds:
  assumes "round_inv d w" "0 \<le> i" "i < int (g_ss_server_count (pw_sel w))"
  shows "nat i < g_ss_server_count (pw_sel w)" "nat i < length (g_tcp_probes w)" "nat i < length (g_udp_probes w)"
    "tcp_probe_ok (nat i) (g_tcp_probes w ! nat i)" "udp_probe_ok (nat i) (g_udp_probes w ! nat i)"
  using assms by (auto simp: round_inv_def probes_ok_def selectors_ok_def nat_less_iff)

section \<open>What an update of one probe does to the descriptors\<close>

lemma mset_filter_update:
  assumes "i < length xs"
  shows "mset (filter P (map f (xs[i := x]))) + (if P (f (xs ! i)) then {#f (xs ! i)#} else {#}) =
    mset (filter P (map f xs)) + (if P (f x) then {#f x#} else {#})"
  using assms
proof (induction xs arbitrary: i)
  case (Cons y ys)
  show ?case
  proof (cases i)
    case (Suc j)
    then have "j < length ys" using Cons.prems by simp
    from Cons.IH [OF this] show ?thesis
      unfolding Suc by (cases "P (f (ys ! j))"; cases "P (f x)"; cases "P (f y)") (simp_all del: mset_map mset_filter add: add_mset_commute)
  qed simp
qed simp

lemma fds_put [simp]:
  "fds_of False (put_tcp_probe i p w) = fds_of False w" "fds_of True (put_udp_probe i q w) = fds_of True w"
  "fds_of t (fd_open fd w) = fds_of t w" "fds_of t (fd_close fd w) = fds_of t w"
  "g_ss_server_count S = g_ss_server_count (pw_sel w) \<Longrightarrow> fds_of t (w\<lparr>pw_sel := S\<rparr>) = fds_of t w"
  "fds_of t (w\<lparr>g_dns_txid_seq := x\<rparr>) = fds_of t w"
  by (simp_all add: fds_of_def put_tcp_probe_def put_udp_probe_def fd_open_def fd_close_def)

lemma probe_frame [simp]:
  "pw_sel (put_tcp_probe i p w) = pw_sel w" "pw_sel (put_udp_probe i q w) = pw_sel w" "pw_sel (fd_open fd w) = pw_sel w"
  "pw_sel (fd_close fd w) = pw_sel w" "open_fds (put_tcp_probe i p w) = open_fds w" "open_fds (put_udp_probe i q w) = open_fds w"
  "open_fds (fd_open fd w) = fd # open_fds w" "open_fds (fd_close fd w) = remove1 fd (open_fds w)"
  "g_tcp_probes (put_tcp_probe i p w) = (g_tcp_probes w)[nat i := p]" "g_udp_probes (put_tcp_probe i p w) = g_udp_probes w"
  "g_udp_probes (put_udp_probe i q w) = (g_udp_probes w)[nat i := q]" "g_tcp_probes (put_udp_probe i q w) = g_tcp_probes w"
  "g_tcp_probes (fd_open fd w) = g_tcp_probes w" "g_udp_probes (fd_open fd w) = g_udp_probes w"
  "g_tcp_probes (fd_close fd w) = g_tcp_probes w" "g_udp_probes (fd_close fd w) = g_udp_probes w"
  by (simp_all add: put_tcp_probe_def put_udp_probe_def fd_open_def fd_close_def)

lemma remaining_frame [simp]:
  "remaining t (put_tcp_probe i p w) = remaining t w" "remaining t (put_udp_probe i q w) = remaining t w"
  "remaining t (fd_open fd w) = remaining t w" "remaining t (fd_close fd w) = remaining t w"
  "remaining t (w\<lparr>g_dns_txid_seq := x\<rparr>) = remaining t w"
  by (simp_all add: remaining_def)

lemma fds_put_tcp:
  assumes "nat i < g_ss_server_count (pw_sel w)" "nat i < length (g_tcp_probes w)"
  shows "mset (fds_of True (put_tcp_probe i p w)) + (if 0 \<le> tp_sockfd (g_tcp_probes w ! nat i) then {#tp_sockfd (g_tcp_probes w ! nat i)#} else {#}) =
    mset (fds_of True w) + (if 0 \<le> tp_sockfd p then {#tp_sockfd p#} else {#})"
  using mset_filter_update [of "nat i" "take (g_ss_server_count (pw_sel w)) (g_tcp_probes w)" "\<lambda>fd. 0 \<le> fd" tp_sockfd p] assms
  by (simp add: fds_of_def take_update_swap split del: if_split cong: if_cong)

lemma fds_put_udp:
  assumes "nat i < g_ss_server_count (pw_sel w)" "nat i < length (g_udp_probes w)"
  shows "mset (fds_of False (put_udp_probe i p w)) + (if 0 \<le> up_sockfd (g_udp_probes w ! nat i) then {#up_sockfd (g_udp_probes w ! nat i)#} else {#}) =
    mset (fds_of False w) + (if 0 \<le> up_sockfd p then {#up_sockfd p#} else {#})"
  using mset_filter_update [of "nat i" "take (g_ss_server_count (pw_sel w)) (g_udp_probes w)" "\<lambda>fd. 0 \<le> fd" up_sockfd p] assms
  by (simp add: fds_of_def take_update_swap split del: if_split cong: if_cong)

section \<open>What the ranking does to the count\<close>

lemma probes_remaining_step:
  "sel_probes_remaining (get_selector t (ss_record_probe t' i l e ep now S)) = sel_probes_remaining (get_selector t S)"
  "sel_probes_remaining (get_selector t (ss_probe_done t' S)) = sel_probes_remaining (get_selector t S) - (if t = t' then 1 else 0)"
  "sel_probes_remaining (get_selector t (server_selector_report_tcp_failure j S)) = sel_probes_remaining (get_selector t S)"
  "sel_probes_remaining (get_selector t (server_selector_report_tcp_success j ep S)) = sel_probes_remaining (get_selector t S)"
  by (auto simp: selector_steps update_best_fields mark_failed_def mark_ok_def get_selector_def)

lemma record_done_ok:
  assumes "selectors_ok S" "0 \<le> i" "i < int (g_ss_server_count S)"
  shows "selectors_ok (ss_probe_done t (ss_record_probe t i l e ep now S))"
    "g_ss_server_count (ss_probe_done t (ss_record_probe t i l e ep now S)) = g_ss_server_count S"
    "selectors_ok (ss_probe_done t S)" "g_ss_server_count (ss_probe_done t S) = g_ss_server_count S"
proof -
  note a = selector_step_ok [OF assms(1), of "Probe_result t i l e ep now"]
  note b = selector_step_ok [of "ss_record_probe t i l e ep now S" "Probe_done t"]
  note c = selector_step_ok [OF assms(1), of "Probe_done t"]
  show "selectors_ok (ss_probe_done t (ss_record_probe t i l e ep now S))"
    "g_ss_server_count (ss_probe_done t (ss_record_probe t i l e ep now S)) = g_ss_server_count S"
    "selectors_ok (ss_probe_done t S)" "g_ss_server_count (ss_probe_done t S) = g_ss_server_count S"
    using a b c assms(2,3) by (simp_all add: event_ok_def)
qed

section \<open>A running probe\<close>

definition tcp_running :: "int \<Rightarrow> ('x, 'c, 'u) probe_world \<Rightarrow> bool" where
  "tcp_running i w \<longleftrightarrow> 0 \<le> i \<and> i < int (g_ss_server_count (pw_sel w)) \<and> 0 \<le> tp_sockfd (g_tcp_probes w ! nat i)"

definition udp_running :: "int \<Rightarrow> ('x, 'c, 'u) probe_world \<Rightarrow> bool" where
  "udp_running i w \<longleftrightarrow> 0 \<le> i \<and> i < int (g_ss_server_count (pw_sel w)) \<and> 0 \<le> up_sockfd (g_udp_probes w ! nat i)"

lemma put_tcp_inv:
  assumes "round_inv d w" "tcp_running i w" "tp_sockfd p = tp_sockfd (g_tcp_probes w ! nat i)" "tcp_probe_ok (nat i) p"
  shows "round_inv d (put_tcp_probe i p w)" "tcp_running i (put_tcp_probe i p w)"
proof -
  have i: "0 \<le> i" "i < int (g_ss_server_count (pw_sel w))" "0 \<le> tp_sockfd p" using assms by (auto simp: tcp_running_def)
  note b = round_inv_bounds [OF assms(1) i(1,2)]
  have f: "mset (fds_of True (put_tcp_probe i p w)) = mset (fds_of True w)"
    using fds_put_tcp [OF b(1,2), of p] unfolding assms(3) by (rule add_right_imp_eq)
  then have "length (fds_of True (put_tcp_probe i p w)) = length (fds_of True w)" by (rule mset_eq_length)
  then have l: "length (fds_of t (put_tcp_probe i p w)) = length (fds_of t w)" for t by (cases t) simp_all
  have "probes_ok (put_tcp_probe i p w)"
    using assms(1,4) i b(1-3) by (auto simp: round_inv_def probes_ok_def nth_list_update nat_less_iff)
  then show "round_inv d (put_tcp_probe i p w)" using assms(1) f l by (simp add: round_inv_def)
  show "tcp_running i (put_tcp_probe i p w)" using i b(2) by (simp add: tcp_running_def)
qed

lemma put_udp_inv:
  assumes "round_inv d w" "udp_running i w" "up_sockfd p = up_sockfd (g_udp_probes w ! nat i)" "udp_probe_ok (nat i) p"
  shows "round_inv d (put_udp_probe i p w)" "udp_running i (put_udp_probe i p w)"
proof -
  have i: "0 \<le> i" "i < int (g_ss_server_count (pw_sel w))" "0 \<le> up_sockfd p" using assms by (auto simp: udp_running_def)
  note b = round_inv_bounds [OF assms(1) i(1,2)]
  have f: "mset (fds_of False (put_udp_probe i p w)) = mset (fds_of False w)"
    using fds_put_udp [OF b(1,3), of p] unfolding assms(3) by (rule add_right_imp_eq)
  then have "length (fds_of False (put_udp_probe i p w)) = length (fds_of False w)" by (rule mset_eq_length)
  then have l: "length (fds_of t (put_udp_probe i p w)) = length (fds_of t w)" for t by (cases t) simp_all
  have "probes_ok (put_udp_probe i p w)"
    using assms(1,4) i b(1-3) by (auto simp: round_inv_def probes_ok_def nth_list_update nat_less_iff)
  then show "round_inv d (put_udp_probe i p w)" using assms(1) f l by (simp add: round_inv_def)
  show "udp_running i (put_udp_probe i p w)" using i b(3) by (simp add: udp_running_def)
qed

text \<open>A probe that ends closes its descriptor and is counted off, whatever is recorded of it.\<close>

lemma tcp_release_inv:
  assumes "round_inv d w" "tcp_running i w" "selectors_ok S" "g_ss_server_count S = g_ss_server_count (pw_sel w)"
    "\<And>t. sel_probes_remaining (get_selector t S) = remaining t w - (if t then 1 else 0)"
  shows "round_inv d ((fd_close (tp_sockfd (g_tcp_probes w ! nat i))
      (put_tcp_probe i (tcp_probe_release (g_tcp_probes w ! nat i)) w))\<lparr>pw_sel := S\<rparr>)"
proof -
  let ?p = "g_tcp_probes w ! nat i"
  let ?w = "put_tcp_probe i (tcp_probe_release ?p) w"
  have i: "0 \<le> i" "i < int (g_ss_server_count (pw_sel w))" "0 \<le> tp_sockfd ?p" using assms by (auto simp: tcp_running_def)
  note b = round_inv_bounds [OF assms(1) i(1,2)]
  have f: "mset (fds_of True ?w) + {#tp_sockfd ?p#} = mset (fds_of True w)"
    using fds_put_tcp [OF b(1,2), of "tcp_probe_release ?p"] i(3) by (simp add: tcp_probe_release_def)
  then have "size (mset (fds_of True ?w) + {#tp_sockfd ?p#}) = size (mset (fds_of True w))" by simp
  then have l: "int (length (fds_of t ?w)) = int (length (fds_of t w)) - (if t then 1 else 0)" for t by (cases t) simp_all
  have "mset (remove1 (tp_sockfd ?p) (open_fds w)) = mset (fds_of True ?w) + mset (fds_of False w)"
    using assms(1) f [symmetric] by (simp add: round_inv_def)
  moreover have "probes_ok ?w"
    using assms(1) i b(1-3) by (auto simp: round_inv_def probes_ok_def nth_list_update nat_less_iff tcp_probe_release_def tcp_probe_ok_def)
  ultimately show ?thesis
    using assms l unfolding round_inv_def probes_ok_def by (simp add: remaining_def)
qed

lemma udp_release_inv:
  assumes "round_inv d w" "udp_running i w" "selectors_ok S" "g_ss_server_count S = g_ss_server_count (pw_sel w)"
    "\<And>t. sel_probes_remaining (get_selector t S) = remaining t w - (if t then 0 else 1)"
  shows "round_inv d ((fd_close (up_sockfd (g_udp_probes w ! nat i))
      (put_udp_probe i (udp_probe_release (g_udp_probes w ! nat i)) w))\<lparr>pw_sel := S\<rparr>)"
proof -
  let ?p = "g_udp_probes w ! nat i"
  let ?w = "put_udp_probe i (udp_probe_release ?p) w"
  have i: "0 \<le> i" "i < int (g_ss_server_count (pw_sel w))" "0 \<le> up_sockfd ?p" using assms by (auto simp: udp_running_def)
  note b = round_inv_bounds [OF assms(1) i(1,2)]
  have f: "mset (fds_of False ?w) + {#up_sockfd ?p#} = mset (fds_of False w)"
    using fds_put_udp [OF b(1,3), of "udp_probe_release ?p"] i(3) by (simp add: udp_probe_release_def)
  then have "size (mset (fds_of False ?w) + {#up_sockfd ?p#}) = size (mset (fds_of False w))" by simp
  then have l: "int (length (fds_of t ?w)) = int (length (fds_of t w)) - (if t then 0 else 1)" for t by (cases t) simp_all
  have "mset (remove1 (up_sockfd ?p) (open_fds w)) = mset (fds_of True w) + mset (fds_of False ?w)"
    using assms(1) f [symmetric] by (simp add: round_inv_def)
  moreover have "probes_ok ?w"
    using assms(1) i b(1-3) by (auto simp: round_inv_def probes_ok_def nth_list_update nat_less_iff udp_probe_release_def udp_probe_ok_def)
  ultimately show ?thesis
    using assms l unfolding round_inv_def probes_ok_def by (simp add: remaining_def)
qed

lemma round_inv_sel: "round_inv d w \<Longrightarrow> selectors_ok (pw_sel w)"
  by (simp add: round_inv_def)

lemma tcp_finish_inv:
  assumes "round_inv d w" "tcp_running i w" shows "round_inv d (tcp_probe_finish i l err now w)"
proof -
  have i: "0 \<le> i" "i < int (g_ss_server_count (pw_sel w))" "tp_server_idx (g_tcp_probes w ! nat i) = i"
    using assms round_inv_bounds(4) [OF assms(1), of i] by (auto simp: tcp_running_def tcp_probe_ok_def)
  show ?thesis
    unfolding tcp_probe_finish_def Let_def
    by (rule tcp_release_inv [OF assms])
      (simp_all add: record_done_ok [OF round_inv_sel [OF assms(1)] i(1,2)] i(3) probes_remaining_step remaining_def)
qed

lemma udp_finish_inv:
  assumes "round_inv d w" "udp_running i w" shows "round_inv d (udp_probe_finish i l err now w)"
proof -
  have i: "0 \<le> i" "i < int (g_ss_server_count (pw_sel w))" "up_server_idx (g_udp_probes w ! nat i) = i"
    using assms round_inv_bounds(5) [OF assms(1), of i] by (auto simp: udp_running_def udp_probe_ok_def)
  show ?thesis
    unfolding udp_probe_finish_def Let_def
    by (rule udp_release_inv [OF assms])
      (simp_all add: record_done_ok [OF round_inv_sel [OF assms(1)] i(1,2)] i(3) probes_remaining_step remaining_def)
qed

lemma tcp_socket_error_inv:
  assumes "round_inv d w" "tcp_running i w" shows "round_inv d (tcp_probe_socket_error i err now w)"
proof -
  have i: "0 \<le> i" "i < int (g_ss_server_count (pw_sel w))" using assms by (auto simp: tcp_running_def)
  have "round_inv d ((fd_close (tp_sockfd (g_tcp_probes w ! nat i))
      (put_tcp_probe i (tcp_probe_release (g_tcp_probes w ! nat i)) w))\<lparr>pw_sel := ss_probe_skip True (pw_sel w)\<rparr>)"
    by (rule tcp_release_inv [OF assms])
      (simp_all add: ss_probe_skip_def record_done_ok [OF round_inv_sel [OF assms(1)] i] probes_remaining_step remaining_def)
  then show ?thesis using tcp_finish_inv [OF assms] by (simp add: tcp_probe_socket_error_def Let_def)
qed

end
