(* ===== verification/SelectorLife.thy ===== *)
theory SelectorLife
  imports SelectorRounds
begin

text \<open>
  The life of the selector: every callback of the event loop keeps the bookkeeping of \<open>SelectorRounds\<close>, so does
  the start of a round, and a round ends.
\<close>

section \<open>The callbacks of a running probe\<close>

lemma tcp_probe_process_frame:
  "tp_client p \<noteq> None \<Longrightarrow>
   tp_sockfd (fst (tcp_probe_process lib p)) = tp_sockfd p \<and> tp_timer_active (fst (tcp_probe_process lib p)) = tp_timer_active p \<and>
   tp_server_idx (fst (tcp_probe_process lib p)) = tp_server_idx p \<and> tp_client (fst (tcp_probe_process lib p)) \<noteq> None"
proof (induction lib p rule: tcp_probe_process.induct)
  case (1 lib p)
  then show ?case
    by (subst (1 2 3 4) tcp_probe_process.simps)
      (auto simp: Let_def tcp_probe_consume_def probe_expect_payload_def
        split: tcp_probe_state.split option.split prod.split)
qed

lemma tcp_running_ok:
  assumes "round_inv d w" "tcp_running i w"
  shows "tcp_probe_ok (nat i) (g_tcp_probes w ! nat i)" "nat i < length (g_tcp_probes w)" "0 \<le> tp_sockfd (g_tcp_probes w ! nat i)"
    "tp_timer_active (g_tcp_probes w ! nat i)" "tp_server_idx (g_tcp_probes w ! nat i) = int (nat i)" "tp_client (g_tcp_probes w ! nat i) \<noteq> None"
  using assms round_inv_bounds [OF assms(1), of i] by (auto simp: tcp_running_def tcp_probe_ok_def)

lemma udp_running_ok:
  assumes "round_inv d w" "udp_running i w"
  shows "udp_probe_ok (nat i) (g_udp_probes w ! nat i)" "nat i < length (g_udp_probes w)" "0 \<le> up_sockfd (g_udp_probes w ! nat i)"
    "up_timer_active (g_udp_probes w ! nat i)" "up_server_idx (g_udp_probes w ! nat i) = int (nat i)" "up_session (g_udp_probes w ! nat i) \<noteq> None"
  using assms round_inv_bounds [OF assms(1), of i] by (auto simp: udp_running_def udp_probe_ok_def)

lemma tcp_on_recv_inv:
  assumes "round_inv d w" "tcp_running i w" shows "round_inv d (tcp_probe_on_recv lib i recv now w)"
proof (cases "length (tp_buf (g_tcp_probes w ! nat i)) = TCP_PROBE_RECV_BUF_SIZE \<or> (\<forall>b. recv \<noteq> IoOk b)")
  case True
  then show ?thesis
    using assms by (cases recv) (auto simp: tcp_probe_on_recv_def Let_def tcp_finish_inv tcp_socket_error_inv)
next
  case False
  then obtain b where b: "recv = IoOk b" by blast
  let ?p = "(g_tcp_probes w ! nat i)\<lparr>tp_buf := tp_buf (g_tcp_probes w ! nat i) @ b\<rparr>"
  note r = tcp_running_ok [OF assms]
  obtain q e where q: "tcp_probe_process lib ?p = (q, e)" by (cases "tcp_probe_process lib ?p")
  have f: "tp_sockfd q = tp_sockfd (g_tcp_probes w ! nat i)" "tcp_probe_ok (nat i) q"
    using tcp_probe_process_frame [of ?p lib] r q by (simp_all add: tcp_probe_ok_def)
  show ?thesis
    using False b q put_tcp_inv [OF assms f] assms
    by (auto simp: tcp_probe_on_recv_def Let_def tcp_finish_inv split: option.split)
qed

lemma probe_send_loop_frame:
  "tp_sockfd (fst (probe_send_loop sends p)) = tp_sockfd p \<and> tp_timer_active (fst (probe_send_loop sends p)) = tp_timer_active p \<and>
   tp_server_idx (fst (probe_send_loop sends p)) = tp_server_idx p \<and> tp_client (fst (probe_send_loop sends p)) = tp_client p"
proof (induction sends arbitrary: p)
  case (Cons s sends)
  then show ?case by (subst (1 2 3 4) probe_send_loop.simps) (auto split: io.split)
qed (simp add: probe_send_loop.simps)

lemma tcp_on_send_inv:
  assumes "round_inv d w" "tcp_running i w" shows "round_inv d (tcp_probe_on_send lib i sends now w)"
proof -
  note r = tcp_running_ok [OF assms]
  obtain q e where q: "probe_send_loop sends (g_tcp_probes w ! nat i) = (q, e)" by fastforce
  have f: "tp_sockfd q = tp_sockfd (g_tcp_probes w ! nat i)" "tcp_probe_ok (nat i) q" "0 \<le> tp_sockfd q"
    using probe_send_loop_frame [of sends "g_tcp_probes w ! nat i"] r q by (simp_all add: tcp_probe_ok_def)
  have u: "round_inv d (put_tcp_probe i q' w) \<and> tcp_running i (put_tcp_probe i q' w)"
    if "tp_sockfd q' = tp_sockfd q" "tp_timer_active q' = tp_timer_active q" "tp_server_idx q' = tp_server_idx q" "tp_client q' = tp_client q" for q'
    using put_tcp_inv [OF assms, of q'] that f by (simp add: tcp_probe_ok_def)
  show ?thesis
    using u q by (cases e) (auto simp: tcp_probe_on_send_def Let_def intro!: tcp_finish_inv tcp_socket_error_inv)
qed

lemma tcp_on_connected_inv:
  assumes "round_inv d w" "tcp_running i w" shows "round_inv d (tcp_probe_on_connected lib i so sends now w)"
proof -
  note r = tcp_running_ok [OF assms]
  have "round_inv d (put_tcp_probe i ((g_tcp_probes w ! nat i)\<lparr>tp_state := s, tp_cb := cb\<rparr>) w) \<and>
      tcp_running i (put_tcp_probe i ((g_tcp_probes w ! nat i)\<lparr>tp_state := s, tp_cb := cb\<rparr>) w)" for s cb
    using put_tcp_inv [OF assms, of "(g_tcp_probes w ! nat i)\<lparr>tp_state := s, tp_cb := cb\<rparr>"] r by (simp add: tcp_probe_ok_def)
  then show ?thesis
    using assms by (auto simp: tcp_probe_on_connected_def tcp_socket_error_inv tcp_on_send_inv split: io.split option.split)
qed

lemma udp_on_recv_inv:
  assumes "round_inv d w" "udp_running i w" shows "round_inv d (udp_probe_on_recv lib i recv now w)"
proof -
  note r = udp_running_ok [OF assms]
  have "round_inv d (put_udp_probe i ((g_udp_probes w ! nat i)\<lparr>up_session := Some u\<rparr>) w) \<and>
      udp_running i (put_udp_probe i ((g_udp_probes w ! nat i)\<lparr>up_session := Some u\<rparr>) w)" for u
    using put_udp_inv [OF assms, of "(g_udp_probes w ! nat i)\<lparr>up_session := Some u\<rparr>"] r by (simp add: udp_probe_ok_def)
  then show ?thesis
    using assms by (auto simp: udp_probe_on_recv_def Let_def udp_finish_inv split: io.split option.split prod.split)
qed

lemmas callbacks_inv = tcp_on_recv_inv tcp_on_send_inv tcp_on_connected_inv udp_on_recv_inv tcp_finish_inv udp_finish_inv

section \<open>The start of a probe\<close>

lemma ctx_get_frame:
  "ss_ctx_get init i sel = (c, sel') \<Longrightarrow> \<exists>cs. sel' = sel\<lparr>sel_ctx := cs\<rparr>"
  by (auto simp: ss_ctx_get_def split: option.splits prod.splits intro: exI [of _ "sel_ctx sel"])

lemma round_inv_ctx:
  assumes "round_inv d w"
  shows "round_inv d (w\<lparr>pw_sel := (pw_sel w)\<lparr>g_tcp_selector := (g_tcp_selector (pw_sel w))\<lparr>sel_ctx := cs\<rparr>\<rparr>\<rparr>)"
    "round_inv d (w\<lparr>pw_sel := (pw_sel w)\<lparr>g_udp_selector := (g_udp_selector (pw_sel w))\<lparr>sel_ctx := cs\<rparr>\<rparr>\<rparr>)"
  using assms by (auto simp: round_inv_def selectors_ok_def selector_ok_def probes_ok_def remaining_def get_selector_def all_bool_eq)

lemma round_inv_skip:
  assumes "round_inv d w" shows "round_inv (d(t := d t - 1)) (w\<lparr>pw_sel := ss_probe_skip t (pw_sel w)\<rparr>)"
proof -
  have s: "selectors_ok (pw_sel w)" and n: "0 < g_ss_server_count (pw_sel w)" using assms by (auto simp: round_inv_def selectors_ok_def)
  have k: "selectors_ok (ss_probe_done t (pw_sel w))" "g_ss_server_count (ss_probe_done t (pw_sel w)) = g_ss_server_count (pw_sel w)"
    using record_done_ok [OF s, of 0] n by auto
  then show ?thesis
    using assms by (auto simp: round_inv_def ss_probe_skip_def remaining_def probes_remaining_step probes_ok_def)
qed

text \<open>An inactive probe may be rewritten as long as it stays inactive, and put to work with a new descriptor.\<close>

lemma tcp_idle_inv:
  assumes "round_inv d w" "0 \<le> i" "i < int (g_ss_server_count (pw_sel w))" "tp_sockfd (g_tcp_probes w ! nat i) < 0"
    "tp_sockfd p < 0" "tcp_probe_ok (nat i) p"
  shows "round_inv d (put_tcp_probe i p w)"
proof -
  note b = round_inv_bounds [OF assms(1-3)]
  have f: "mset (fds_of True (put_tcp_probe i p w)) = mset (fds_of True w)"
    using fds_put_tcp [OF b(1,2), of p] assms(4,5) by simp
  then have "length (fds_of True (put_tcp_probe i p w)) = length (fds_of True w)" by (rule mset_eq_length)
  then have l: "length (fds_of t (put_tcp_probe i p w)) = length (fds_of t w)" for t by (cases t) simp_all
  have "probes_ok (put_tcp_probe i p w)"
    using assms b(1-3) by (auto simp: round_inv_def probes_ok_def nth_list_update nat_less_iff)
  then show ?thesis using assms(1) f l by (simp add: round_inv_def)
qed

lemma udp_idle_inv:
  assumes "round_inv d w" "0 \<le> i" "i < int (g_ss_server_count (pw_sel w))" "up_sockfd (g_udp_probes w ! nat i) < 0"
    "up_sockfd p < 0" "udp_probe_ok (nat i) p"
  shows "round_inv d (put_udp_probe i p w)"
proof -
  note b = round_inv_bounds [OF assms(1-3)]
  have f: "mset (fds_of False (put_udp_probe i p w)) = mset (fds_of False w)"
    using fds_put_udp [OF b(1,3), of p] assms(4,5) by simp
  then have "length (fds_of False (put_udp_probe i p w)) = length (fds_of False w)" by (rule mset_eq_length)
  then have l: "length (fds_of t (put_udp_probe i p w)) = length (fds_of t w)" for t by (cases t) simp_all
  have "probes_ok (put_udp_probe i p w)"
    using assms b(1-3) by (auto simp: round_inv_def probes_ok_def nth_list_update nat_less_iff)
  then show ?thesis using assms(1) f l by (simp add: round_inv_def)
qed

lemma tcp_launch_inv:
  assumes "round_inv d w" "0 \<le> i" "i < int (g_ss_server_count (pw_sel w))" "tp_sockfd (g_tcp_probes w ! nat i) < 0"
    "0 \<le> fd" "tp_sockfd p = fd" "tcp_probe_ok (nat i) p"
  shows "round_inv (d(True := d True - 1)) (put_tcp_probe i p (fd_open fd w))" "tcp_running i (put_tcp_probe i p (fd_open fd w))"
proof -
  note b = round_inv_bounds [OF assms(1-3)]
  let ?w = "put_tcp_probe i p (fd_open fd w)"
  have f: "mset (fds_of True ?w) = add_mset fd (mset (fds_of True w))"
    using fds_put_tcp [of i "fd_open fd w" p] b(1,2) assms(4-6) by simp
  then have "length (fds_of True ?w) = Suc (length (fds_of True w))" by (metis size_add_mset size_mset)
  then have l: "length (fds_of t ?w) = (if t then Suc (length (fds_of t w)) else length (fds_of t w))" for t by (cases t) simp_all
  have "probes_ok ?w"
    using assms b(1-3) by (auto simp: round_inv_def probes_ok_def nth_list_update nat_less_iff)
  then show "round_inv (d(True := d True - 1)) ?w" using assms(1) f l by (simp add: round_inv_def)
  show "tcp_running i ?w" using assms b(2) by (simp add: tcp_running_def)
qed

lemma udp_launch_inv:
  assumes "round_inv d w" "0 \<le> i" "i < int (g_ss_server_count (pw_sel w))" "up_sockfd (g_udp_probes w ! nat i) < 0"
    "0 \<le> fd" "up_sockfd p = fd" "udp_probe_ok (nat i) p"
  shows "round_inv (d(False := d False - 1)) (put_udp_probe i p (fd_open fd w))" "udp_running i (put_udp_probe i p (fd_open fd w))"
proof -
  note b = round_inv_bounds [OF assms(1-3)]
  let ?w = "put_udp_probe i p (fd_open fd w)"
  have f: "mset (fds_of False ?w) = add_mset fd (mset (fds_of False w))"
    using fds_put_udp [of i "fd_open fd w" p] b(1,3) assms(4-6) by simp
  then have "length (fds_of False ?w) = Suc (length (fds_of False w))" by (metis size_add_mset size_mset)
  then have l: "length (fds_of t ?w) = (if t then length (fds_of t w) else Suc (length (fds_of t w)))" for t by (cases t) simp_all
  have "probes_ok ?w"
    using assms b(1-3) by (auto simp: round_inv_def probes_ok_def nth_list_update nat_less_iff)
  then show "round_inv (d(False := d False - 1)) ?w" using assms(1) f l by (simp add: round_inv_def)
  show "udp_running i ?w" using assms b(3) by (simp add: udp_running_def)
qed

lemma get_put_probe [simp]:
  "nat i < length (g_tcp_probes w) \<Longrightarrow> g_tcp_probes (put_tcp_probe i p w) ! nat i = p"
  "nat i < length (g_udp_probes w) \<Longrightarrow> g_udp_probes (put_udp_probe i q w) ! nat i = q"
  by simp_all

lemma put_probe_twice:
  "put_tcp_probe i p (put_tcp_probe i p' w) = put_tcp_probe i p w" "put_udp_probe i q (put_udp_probe i q' w) = put_udp_probe i q w"
  by (simp_all add: put_tcp_probe_def put_udp_probe_def)

lemma tcp_start_inv:
  assumes "round_inv d w" "0 \<le> i" "i < int (g_ss_server_count (pw_sel w))" "tp_sockfd (g_tcp_probes w ! nat i) < 0"
  shows "round_inv (d(True := d True - 1)) (tcp_probe_start lib env now i w)"
proof -
  define p where "p = (g_tcp_probes w ! nat i)\<lparr>tp_attempt_epoch := ss_attempt_epoch (g_tcp_selector (pw_sel w)) i\<rparr>"
  obtain ctx sel where c: "ss_ctx_get (tse_ctx env) i (g_tcp_selector (pw_sel w)) = (ctx, sel)" by fastforce
  obtain cs where cs: "sel = (g_tcp_selector (pw_sel w))\<lparr>sel_ctx := cs\<rparr>" using ctx_get_frame [OF c] by blast
  define w1 where "w1 = (put_tcp_probe i p w)\<lparr>pw_sel := (pw_sel w)\<lparr>g_tcp_selector := sel\<rparr>\<rparr>"
  note b = round_inv_bounds [OF assms(1-3)]
  have p: "tp_sockfd p < 0" "tcp_probe_ok (nat i) p" using b(4) assms(4) by (simp_all add: p_def tcp_probe_ok_def)
  have w1: "round_inv d w1"
    using round_inv_ctx(1) [OF tcp_idle_inv [OF assms p], of cs] by (simp add: w1_def cs)
  have n1: "i < int (g_ss_server_count (pw_sel w1))" "g_tcp_probes w1 ! nat i = p"
    using assms(3) b(2) by (simp_all add: w1_def)
  note skip = round_inv_skip [OF w1, of True]
  define run where "run q \<longleftrightarrow> tp_sockfd q = tse_fd env \<and> tp_server_idx q = i \<and> tp_timer_active q \<and> tp_client q \<noteq> None" for q :: "'b ss_tcp_probe"
  have go: "round_inv (d(True := d True - 1)) (put_tcp_probe i q (fd_open (tse_fd env) w1)) \<and>
      tcp_running i (put_tcp_probe i q (fd_open (tse_fd env) w1))" if "0 \<le> tse_fd env" "run q" for q
    using tcp_launch_inv [OF w1 assms(2) n1(1), of "tse_fd env" q] that n1(2) p(1) assms(2)
    by (simp add: tcp_probe_ok_def run_def)
  show ?thesis
    unfolding tcp_probe_start_def Let_def p_def [symmetric]
    using skip go c
    by (auto simp: w1_def [symmetric] run_def intro!: tcp_on_connected_inv tcp_socket_error_inv split: option.split prod.split)
qed

lemma udp_start_inv:
  assumes "round_inv d w" "0 \<le> i" "i < int (g_ss_server_count (pw_sel w))" "up_sockfd (g_udp_probes w ! nat i) < 0"
  shows "round_inv (d(False := d False - 1)) (udp_probe_start lib env now i w)"
proof -
  define p where "p = (g_udp_probes w ! nat i)\<lparr>up_attempt_epoch := ss_attempt_epoch (g_udp_selector (pw_sel w)) i\<rparr>"
  obtain ctx sel where c: "ss_ctx_get (use_ctx env) i (g_udp_selector (pw_sel w)) = (ctx, sel)" by fastforce
  obtain cs where cs: "sel = (g_udp_selector (pw_sel w))\<lparr>sel_ctx := cs\<rparr>" using ctx_get_frame [OF c] by blast
  define w1 where "w1 = (put_udp_probe i p w)\<lparr>pw_sel := (pw_sel w)\<lparr>g_udp_selector := sel\<rparr>\<rparr>"
  note b = round_inv_bounds [OF assms(1-3)]
  have p: "up_sockfd p < 0" "udp_probe_ok (nat i) p" using b(5) assms(4) by (simp_all add: p_def udp_probe_ok_def)
  have w1: "round_inv d w1"
    using round_inv_ctx(2) [OF udp_idle_inv [OF assms p], of cs] by (simp add: w1_def cs)
  define x where "x = next_txid (g_dns_txid_seq w)"
  define p2 where "p2 = p\<lparr>up_dns_txid := x\<rparr>"
  define w2 where "w2 = put_udp_probe i p2 (w1\<lparr>g_dns_txid_seq := x\<rparr>)"
  have n1: "i < int (g_ss_server_count (pw_sel w1))" "g_udp_probes w1 ! nat i = p" "g_dns_txid_seq w1 = g_dns_txid_seq w"
    using assms(3) b(3) by (simp_all add: w1_def put_udp_probe_def)
  have w2: "round_inv d w2"
    unfolding w2_def using w1 assms(2) n1 p
    by (intro udp_idle_inv) (auto simp: p2_def udp_probe_ok_def round_inv_def probes_ok_def remaining_def)
  have n2: "i < int (g_ss_server_count (pw_sel w2))" "up_sockfd (g_udp_probes w2 ! nat i) < 0"
    using n1(1) p(1) b(3) by (simp_all add: w2_def w1_def p2_def)
  define run where "run q \<longleftrightarrow> up_sockfd q = use_fd env \<and> up_server_idx q = i \<and> up_timer_active q \<and> up_session q \<noteq> None" for q :: "'c ss_udp_probe"
  have go: "round_inv (d(False := d False - 1)) (put_udp_probe i q (fd_open (use_fd env) w2))" if "0 \<le> use_fd env" "run q" for q
    using udp_launch_inv(1) [OF w2 assms(2) n2, of "use_fd env" q] that assms(2) by (simp add: udp_probe_ok_def run_def)
  have e: "put_udp_probe i p2 ((fd_open (use_fd env) w1)\<lparr>g_dns_txid_seq := x\<rparr>) = fd_open (use_fd env) w2"
    by (simp add: w2_def put_udp_probe_def fd_open_def)
  have cl: "fd_close (use_fd env) (fd_open (use_fd env) w2) = w2" by (simp add: fd_open_def fd_close_def)
  have s2: "selectors_ok (pw_sel w2)" using w2 by (simp add: round_inv_def)
  have fail: "round_inv (d(False := d False - 1)) (w2\<lparr>pw_sel := ss_probe_done False (ss_record_probe False i 0 True ep now (pw_sel w2))\<rparr>)" for ep
    using w2 record_done_ok(1,2) [OF s2 assms(2) n2(1), of False 0 True ep now]
    by (auto simp: round_inv_def remaining_def probes_remaining_step probes_ok_def)
  have txid: "g_dns_txid_seq (fd_open (use_fd env) w1) = g_dns_txid_seq w1" by (simp add: fd_open_def)
  have x: "next_txid (g_dns_txid_seq w1) = x" by (simp add: x_def n1)
  show ?thesis
    unfolding udp_probe_start_def Let_def p_def [symmetric]
    using round_inv_skip [OF w1, of False] round_inv_skip [OF w2, of False] c fail go
    by (simp add: w1_def [symmetric] txid x p2_def [symmetric] e cl run_def
        split: option.split prod.split io.split)
qed

section \<open>A round\<close>

definition probe_frame_of :: "int \<Rightarrow> ('x, 'c, 'u) probe_world \<Rightarrow> ('x, 'c, 'u) probe_world \<Rightarrow> bool" where
  "probe_frame_of i w w' \<longleftrightarrow> g_ss_server_count (pw_sel w') = g_ss_server_count (pw_sel w) \<and>
     (\<forall>j. j \<noteq> nat i \<longrightarrow> g_tcp_probes w' ! j = g_tcp_probes w ! j \<and> g_udp_probes w' ! j = g_udp_probes w ! j)"

lemma ranking_count [simp]:
  "g_ss_server_count (ss_probe_done t S) = g_ss_server_count S" "g_ss_server_count (ss_probe_skip t S) = g_ss_server_count S"
  "g_ss_server_count (ss_record_probe t i l e ep now S) = g_ss_server_count S"
  by (auto simp: ss_probe_skip_def selector_steps)

lemma probe_frame_steps:
  "probe_frame_of i w w' \<Longrightarrow> probe_frame_of i w (tcp_probe_finish i l err now w')"
  "probe_frame_of i w w' \<Longrightarrow> probe_frame_of i w (tcp_probe_socket_error i er now w')"
  "probe_frame_of i w w' \<Longrightarrow> probe_frame_of i w (udp_probe_finish i l err now w')"
  "probe_frame_of i w w' \<Longrightarrow> probe_frame_of i w (put_tcp_probe i p w')"
  "probe_frame_of i w w' \<Longrightarrow> probe_frame_of i w (put_udp_probe i q w')"
  "probe_frame_of i w w' \<Longrightarrow> probe_frame_of i w (fd_open fd w')" "probe_frame_of i w w' \<Longrightarrow> probe_frame_of i w (fd_close fd w')"
  "probe_frame_of i w w' \<Longrightarrow> probe_frame_of i w (w'\<lparr>g_dns_txid_seq := x\<rparr>)"
  "probe_frame_of i w w' \<Longrightarrow> g_ss_server_count S = g_ss_server_count (pw_sel w') \<Longrightarrow> probe_frame_of i w (w'\<lparr>pw_sel := S\<rparr>)"
  by (auto simp: probe_frame_of_def tcp_probe_finish_def tcp_probe_socket_error_def udp_probe_finish_def Let_def)

lemma probe_frame_refl: "probe_frame_of i w w"
  by (simp add: probe_frame_of_def)

lemma tcp_on_connected_frame:
  "probe_frame_of i w w' \<Longrightarrow> probe_frame_of i w (tcp_probe_on_connected lib i so sends now w')"
  by (auto simp: tcp_probe_on_connected_def tcp_probe_on_send_def Let_def probe_frame_steps
      split: io.split option.split prod.split send_result.split)

lemma tcp_start_frame: "probe_frame_of i w (tcp_probe_start lib env now i w)"
  unfolding tcp_probe_start_def Let_def
  by (auto split: option.split prod.split dest!: ctx_get_frame
      intro!: probe_frame_steps tcp_on_connected_frame probe_frame_refl)

lemma udp_start_frame: "probe_frame_of i w (udp_probe_start lib env now i w)"
  unfolding udp_probe_start_def Let_def
  by (auto split: option.split prod.split io.split dest!: ctx_get_frame intro!: probe_frame_steps probe_frame_refl)

definition idle_from :: "bool \<Rightarrow> nat \<Rightarrow> ('x, 'c, 'u) probe_world \<Rightarrow> bool" where
  "idle_from t k w \<longleftrightarrow> (\<forall>j \<ge> k. j < g_ss_server_count (pw_sel w) \<longrightarrow>
     (if t then tp_sockfd (g_tcp_probes w ! j) < 0 else up_sockfd (g_udp_probes w ! j) < 0))"

definition start_one ::
  "'c ss2022_tcp \<Rightarrow> 'u ss2022_udp \<Rightarrow> ('x, 'c, 'u) round_env \<Rightarrow> bool \<Rightarrow> nat \<Rightarrow> ('x, 'c, 'u) probe_world \<Rightarrow> ('x, 'c, 'u) probe_world" where
  "start_one tlib ulib env t i w = (if t then tcp_probe_start tlib (re_tcp env i) (re_now env) (int i) w
     else udp_probe_start ulib (re_udp env i) (re_now env) (int i) w)"

lemma start_all_inv:
  assumes "round_inv (d(t := int n)) w" "g_ss_server_count (pw_sel w) = n" "idle_from t 0 w" "k \<le> n"
  shows "round_inv (d(t := int n - int k)) (fold (start_one tlib ulib env t) [0..<k] w) \<and>
    g_ss_server_count (pw_sel (fold (start_one tlib ulib env t) [0..<k] w)) = n \<and>
    idle_from t k (fold (start_one tlib ulib env t) [0..<k] w)"
  using assms(4)
proof (induction k)
  case 0
  have "d(t := int n - int 0) = d(t := int n)" by simp
  then show ?case using assms by (metis fold_simps(1) upt_0)
next
  case (Suc k)
  let ?w = "fold (start_one tlib ulib env t) [0..<k] w"
  have h: "round_inv (d(t := int n - int k)) ?w" "g_ss_server_count (pw_sel ?w) = n" "idle_from t k ?w"
    using Suc.IH [OF Suc_leD [OF Suc.prems]] by blast+
  have fr: "probe_frame_of (int k) ?w (start_one tlib ulib env t k ?w)"
    by (simp add: start_one_def tcp_start_frame udp_start_frame)
  have f: "g_ss_server_count (pw_sel (start_one tlib ulib env t k ?w)) = n" "idle_from t (Suc k) (start_one tlib ulib env t k ?w)"
    using fr h(2,3) by (auto simp: idle_from_def probe_frame_of_def)
  have id: "if t then tp_sockfd (g_tcp_probes ?w ! nat (int k)) < 0 else up_sockfd (g_udp_probes ?w ! nat (int k)) < 0"
    using h(2,3) Suc.prems by (auto simp: idle_from_def)
  have k: "int k < int (g_ss_server_count (pw_sel ?w))" using Suc.prems h(2) by simp
  have "round_inv (d(t := int n - int k, t := int n - int k - 1)) (start_one tlib ulib env t k ?w)"
  proof (cases t)
    case True
    then show ?thesis using tcp_start_inv [OF h(1) _ k] id by (simp add: start_one_def)
  next
    case False
    then show ?thesis using udp_start_inv [OF h(1) _ k] id by (simp add: start_one_def)
  qed
  then have "round_inv (d(t := int n - int (Suc k))) (start_one tlib ulib env t k ?w)" by (simp add: algebra_simps)
  moreover have "fold (start_one tlib ulib env t) [0..<Suc k] w = start_one tlib ulib env t k ?w" by simp
  ultimately show ?case using f by (simp only:)
qed

lemma idle_iff:
  "probes_ok w \<Longrightarrow> g_ss_server_count (pw_sel w) \<le> SS_MAX_SERVERS \<Longrightarrow> fds_of t w = [] \<longleftrightarrow> (\<forall>j < g_ss_server_count (pw_sel w).
    if t then tp_sockfd (g_tcp_probes w ! j) < 0 else up_sockfd (g_udp_probes w ! j) < 0)"
  by (auto simp: fds_of_def Let_def filter_empty_conv probes_ok_def all_set_conv_all_nth not_le)

lemma remaining_set [simp]: "remaining t (set_remaining t' n w) = (if t = t' then n else remaining t w)"
  by (simp add: remaining_def set_remaining_def get_selector_def put_selector_def)

lemma round_start_inv:
  assumes "round_inv (\<lambda>_. 0) w"
  shows "round_inv (\<lambda>_. 0) (selector_start_probe_round tlib ulib env t w)"
proof (cases "sel_probes_remaining (get_selector t (pw_sel w)) > 0")
  case False
  let ?n = "g_ss_server_count (pw_sel w)"
  let ?w = "set_remaining t (int ?n) w"
  have z: "fds_of t w = []" using assms False by (auto simp: round_inv_def remaining_def)
  then have "idle_from t 0 w"
    using assms idle_iff [of w t] by (auto simp: idle_from_def round_inv_def selectors_ok_def)
  then have i: "idle_from t 0 ?w" by (simp add: idle_from_def set_remaining_def put_selector_def)
  have "selectors_ok (pw_sel ?w)"
    using assms by (auto simp: round_inv_def set_remaining_def put_selector_def get_selector_def selectors_ok_def selector_ok_def)
  moreover have "fds_of s ?w = fds_of s w" "g_ss_server_count (pw_sel ?w) = ?n" "open_fds ?w = open_fds w" "probes_ok ?w = probes_ok w" for s
    by (simp_all add: set_remaining_def put_selector_def probes_ok_def)
  ultimately have r: "round_inv ((\<lambda>_. 0)(t := int ?n)) ?w" "g_ss_server_count (pw_sel ?w) = ?n"
    using assms z by (auto simp: round_inv_def)
  have e: "(\<lambda>i w. if t then tcp_probe_start tlib (re_tcp env i) (re_now env) (int i) w
       else udp_probe_start ulib (re_udp env i) (re_now env) (int i) w) = start_one tlib ulib env t"
    by (simp add: start_one_def fun_eq_iff)
  have "(\<lambda>_. 0)(t := 0) = (\<lambda>_. 0 :: int)" by (simp add: fun_eq_iff)
  then show ?thesis
    using start_all_inv [OF r i order_refl, of tlib ulib env] False by (simp add: selector_start_probe_round_def e)
qed (use assms in \<open>simp add: selector_start_probe_round_def\<close>)

section \<open>Reachable worlds\<close>

text \<open>The start of the program: memory of the probes is zeroed, so no watcher is active, and the servers are configured.\<close>

definition probe_memory_ok :: "('x, 'c, 'u) probe_world \<Rightarrow> bool" where
  "probe_memory_ok w \<longleftrightarrow>
     0 < g_ss_server_count (pw_sel w) \<and> g_ss_server_count (pw_sel w) \<le> SS_MAX_SERVERS \<and>
     length (g_ss_servers (pw_sel w)) = SS_MAX_SERVERS \<and> (\<forall>srv \<in> set (g_ss_servers (pw_sel w)). srv_windows_ok srv) \<and>
     length (g_tcp_probes w) = SS_MAX_SERVERS \<and> length (g_udp_probes w) = SS_MAX_SERVERS \<and> open_fds w = [] \<and>
     (\<forall>p \<in> set (g_tcp_probes w). \<not> tp_io_active p \<and> \<not> tp_timer_active p) \<and>
     (\<forall>p \<in> set (g_udp_probes w). \<not> up_io_active p \<and> \<not> up_timer_active p)"

text \<open>
  What the event loop may do: run the callback of an active watcher of a configured server's probe, or that of
  a check timer, or a worker's report of a failure or a success. The results of the system calls and the time are arbitrary.
\<close>

inductive probe_step ::
  "'c ss2022_tcp \<Rightarrow> 'u ss2022_udp \<Rightarrow> ('x, 'c, 'u) probe_world \<Rightarrow> ('x, 'c, 'u) probe_world \<Rightarrow> bool"
  for tlib ulib where
  Connected: "\<lbrakk>i < g_ss_server_count (pw_sel w); tp_io_active (g_tcp_probes w ! i); tp_cb (g_tcp_probes w ! i) = Tcp_probe_on_connected\<rbrakk>
    \<Longrightarrow> probe_step tlib ulib w (tcp_probe_on_connected tlib (int i) so sends now w)"
| Writable: "\<lbrakk>i < g_ss_server_count (pw_sel w); tp_io_active (g_tcp_probes w ! i); tp_cb (g_tcp_probes w ! i) = Tcp_probe_on_send\<rbrakk>
    \<Longrightarrow> probe_step tlib ulib w (tcp_probe_on_send tlib (int i) sends now w)"
| Readable: "\<lbrakk>i < g_ss_server_count (pw_sel w); tp_io_active (g_tcp_probes w ! i); tp_cb (g_tcp_probes w ! i) = Tcp_probe_on_recv\<rbrakk>
    \<Longrightarrow> probe_step tlib ulib w (tcp_probe_on_recv tlib (int i) recv now w)"
| Tcp_timer: "\<lbrakk>i < g_ss_server_count (pw_sel w); tp_timer_active (g_tcp_probes w ! i)\<rbrakk>
    \<Longrightarrow> probe_step tlib ulib w (tcp_probe_on_timeout (int i) now w)"
| Udp_readable: "\<lbrakk>i < g_ss_server_count (pw_sel w); up_io_active (g_udp_probes w ! i)\<rbrakk>
    \<Longrightarrow> probe_step tlib ulib w (udp_probe_on_recv ulib (int i) recv now w)"
| Udp_timer: "\<lbrakk>i < g_ss_server_count (pw_sel w); up_timer_active (g_udp_probes w ! i)\<rbrakk>
    \<Longrightarrow> probe_step tlib ulib w (udp_probe_on_timeout (int i) now w)"
| Tick: "sel_check_timer (get_selector t (pw_sel w)) \<Longrightarrow> probe_step tlib ulib w (check_timer_cb tlib ulib env t w)"
| Worker_failure: "probe_step tlib ulib w (w\<lparr>pw_sel := server_selector_report_tcp_failure idx (pw_sel w)\<rparr>)"
| Worker_success: "probe_step tlib ulib w (w\<lparr>pw_sel := server_selector_report_tcp_success idx epoch (pw_sel w)\<rparr>)"

inductive probe_reachable :: "'c ss2022_tcp \<Rightarrow> 'u ss2022_udp \<Rightarrow> ('x, 'c, 'u) probe_world \<Rightarrow> bool"
  for tlib ulib where
  Started: "probe_memory_ok w \<Longrightarrow>
    probe_reachable tlib ulib (server_selector_start tlib ulib env enable_tcp enable_udp (server_selector_init_probes w))"
| Stepped: "probe_reachable tlib ulib w \<Longrightarrow> probe_step tlib ulib w w' \<Longrightarrow> probe_reachable tlib ulib w'"

lemma init_inv:
  assumes "probe_memory_ok w" shows "round_inv (\<lambda>_. 0) (server_selector_init_probes w)"
proof -
  let ?n = "g_ss_server_count (pw_sel w)"
  let ?w = "server_selector_init_probes w"
  have n: "g_ss_server_count (pw_sel ?w) = ?n" "0 < ?n" "?n \<le> SS_MAX_SERVERS"
    using assms by (auto simp: server_selector_init_probes_def Let_def server_selector_init_def probe_memory_ok_def)
  have s: "selectors_ok (pw_sel ?w)"
    using assms by (auto simp: server_selector_init_probes_def Let_def server_selector_init_def probe_memory_ok_def selectors_ok_def
        selector_ok_def selector_reset_def srv_windows_ok_def ss_server_reset_def window_ok_def dest!: in_set_takeD in_set_dropD)
  have p: "probes_ok ?w"
    using assms n by (auto simp: probes_ok_def server_selector_init_probes_def Let_def probe_memory_ok_def tcp_probe_ok_def udp_probe_ok_def
        nth_append server_selector_init_def)
  have f: "fds_of t ?w = []" for t
    using assms n by (auto simp: fds_of_def filter_empty_conv server_selector_init_probes_def Let_def probe_memory_ok_def server_selector_init_def)
  have "remaining t ?w = 0" "open_fds ?w = []" for t
    using assms by (simp_all add: remaining_def server_selector_init_probes_def Let_def server_selector_init_def get_selector_def
        selector_reset_def probe_memory_ok_def)
  then show ?thesis using s p f by (simp add: round_inv_def)
qed

lemma selector_start_inv:
  assumes "round_inv (\<lambda>_. 0) w" shows "round_inv (\<lambda>_. 0) (selector_start tlib ulib env t w)"
proof -
  have "round_inv (\<lambda>_. 0) (w\<lparr>pw_sel := put_selector t ((get_selector t (pw_sel w))\<lparr>sel_check_timer := True\<rparr>) (pw_sel w)\<rparr>)"
    using assms by (auto simp: round_inv_def selectors_ok_def selector_ok_def probes_ok_def remaining_def get_selector_def put_selector_def all_bool_eq)
  then show ?thesis unfolding selector_start_def by (rule round_start_inv)
qed

lemma active_running:
  assumes "round_inv d w" "i < g_ss_server_count (pw_sel w)"
  shows "tp_io_active (g_tcp_probes w ! i) \<Longrightarrow> tcp_running (int i) w" "tp_timer_active (g_tcp_probes w ! i) \<Longrightarrow> tcp_running (int i) w"
    "up_io_active (g_udp_probes w ! i) \<Longrightarrow> udp_running (int i) w" "up_timer_active (g_udp_probes w ! i) \<Longrightarrow> udp_running (int i) w"
  using assms
  by (auto simp: round_inv_def probes_ok_def tcp_probe_ok_def udp_probe_ok_def tcp_running_def udp_running_def split: if_splits)

lemma worker_report_inv:
  assumes "round_inv d w"
  shows "round_inv d (w\<lparr>pw_sel := server_selector_report_tcp_failure idx (pw_sel w)\<rparr>)"
    "round_inv d (w\<lparr>pw_sel := server_selector_report_tcp_success idx epoch (pw_sel w)\<rparr>)"
proof -
  have same: "round_inv d (w\<lparr>pw_sel := S\<rparr>)"
    if "selectors_ok S" "g_ss_server_count S = g_ss_server_count (pw_sel w)"
      "\<And>t. sel_probes_remaining (get_selector t S) = sel_probes_remaining (get_selector t (pw_sel w))" for S
    using assms that by (simp add: round_inv_def probes_ok_def remaining_def fds_of_def)
  note ok = selector_step_ok [OF round_inv_sel [OF assms]]
  show "round_inv d (w\<lparr>pw_sel := server_selector_report_tcp_failure idx (pw_sel w)\<rparr>)"
    using ok [of "Tcp_failure idx"] by (intro same) (simp_all add: event_ok_def probes_remaining_step)
  show "round_inv d (w\<lparr>pw_sel := server_selector_report_tcp_success idx epoch (pw_sel w)\<rparr>)"
    using ok [of "Tcp_success idx epoch"] by (intro same) (simp_all add: event_ok_def probes_remaining_step)
qed

lemma probe_step_inv:
  assumes "probe_step tlib ulib w w'" "round_inv (\<lambda>_. 0) w" shows "round_inv (\<lambda>_. 0) w'"
  using assms
  by cases (simp_all add: callbacks_inv active_running tcp_probe_on_timeout_def udp_probe_on_timeout_def check_timer_cb_def round_start_inv
      worker_report_inv)

lemma reachable_inv: "probe_reachable tlib ulib w \<Longrightarrow> round_inv (\<lambda>_. 0) w"
  by (induction rule: probe_reachable.induct)
    (auto simp: server_selector_start_def Let_def init_inv selector_start_inv probe_step_inv)

section \<open>Timers\<close>

text \<open>The timers of a selector's running probes fire, one after the other.\<close>

definition timer_fires :: "bool \<Rightarrow> ev_tstamp \<Rightarrow> nat \<Rightarrow> ('x, 'c, 'u) probe_world \<Rightarrow> ('x, 'c, 'u) probe_world" where
  "timer_fires t now i w =
     (if t then if tp_timer_active (g_tcp_probes w ! i) then tcp_probe_on_timeout (int i) now w else w
      else if up_timer_active (g_udp_probes w ! i) then udp_probe_on_timeout (int i) now w else w)"

definition timers_fire :: "bool \<Rightarrow> ev_tstamp \<Rightarrow> ('x, 'c, 'u) probe_world \<Rightarrow> ('x, 'c, 'u) probe_world" where
  "timers_fire t now w = fold (timer_fires t now) [0..<g_ss_server_count (pw_sel w)] w"

definition probe_idle :: "bool \<Rightarrow> nat \<Rightarrow> ('x, 'c, 'u) probe_world \<Rightarrow> bool" where
  "probe_idle t j w \<longleftrightarrow> (if t then tp_sockfd (g_tcp_probes w ! j) < 0 else up_sockfd (g_udp_probes w ! j) < 0)"

lemma timer_fires_frame: "probe_frame_of (int i) w (timer_fires t now i w)"
  by (auto simp: timer_fires_def tcp_probe_on_timeout_def udp_probe_on_timeout_def intro!: probe_frame_steps probe_frame_refl)

lemma timer_fires_reachable:
  assumes "probe_reachable tlib ulib w" "i < g_ss_server_count (pw_sel w)"
  shows "probe_reachable tlib ulib (timer_fires t now i w)"
  using assms by (auto simp: timer_fires_def intro: Stepped Tcp_timer Udp_timer)

lemma timer_fires_idle:
  assumes "round_inv d w" "i < g_ss_server_count (pw_sel w)" shows "probe_idle t i (timer_fires t now i w)"
proof -
  note b = round_inv_bounds [OF assms(1), of "int i"]
  show ?thesis
    using assms(2) b
    by (auto simp: timer_fires_def probe_idle_def tcp_probe_on_timeout_def udp_probe_on_timeout_def tcp_probe_finish_def udp_probe_finish_def
        Let_def tcp_probe_release_def udp_probe_release_def tcp_probe_ok_def udp_probe_ok_def split: if_splits)
qed

lemma timers_fire_upto:
  assumes "probe_reachable tlib ulib w" "k \<le> g_ss_server_count (pw_sel w)"
  shows "probe_reachable tlib ulib (fold (timer_fires t now) [0..<k] w) \<and>
    g_ss_server_count (pw_sel (fold (timer_fires t now) [0..<k] w)) = g_ss_server_count (pw_sel w) \<and>
    (\<forall>j < k. probe_idle t j (fold (timer_fires t now) [0..<k] w))"
  using assms(2)
proof (induction k)
  case (Suc k)
  let ?w = "fold (timer_fires t now) [0..<k] w"
  have h: "probe_reachable tlib ulib ?w" "g_ss_server_count (pw_sel ?w) = g_ss_server_count (pw_sel w)" "\<forall>j < k. probe_idle t j ?w"
    using Suc.IH [OF Suc_leD [OF Suc.prems]] by blast+
  have k: "k < g_ss_server_count (pw_sel ?w)" using h(2) Suc.prems by simp
  have "\<forall>j < Suc k. probe_idle t j (timer_fires t now k ?w)"
    using timer_fires_idle [OF reachable_inv [OF h(1)] k, of t now] timer_fires_frame [of k ?w t now] h(3)
    by (auto simp: probe_idle_def probe_frame_of_def less_Suc_eq)
  then show ?case using timer_fires_reachable [OF h(1) k] timer_fires_frame [of k ?w t now] h(2) by (simp add: probe_frame_of_def)
qed (use assms in simp)

section \<open>The stream a probe reads\<close>

definition probe_need_ok :: "'c ss_tcp_probe \<Rightarrow> bool" where
  "probe_need_ok p \<longleftrightarrow> (tp_state p = TCP_PROBE_RECV_LENGTH \<longrightarrow> tp_buf_need p = TCP_PROBE_LENGTH_LEN)"

lemma probe_append_steps:
  "n \<le> length (tp_buf p) \<Longrightarrow> tcp_probe_consume n (p\<lparr>tp_client := c, tp_buf := tp_buf p @ d\<rparr>) =
     (tcp_probe_consume n (p\<lparr>tp_client := c\<rparr>))\<lparr>tp_buf := tp_buf (tcp_probe_consume n (p\<lparr>tp_client := c\<rparr>)) @ d\<rparr>"
  "n \<le> length (tp_buf p) \<Longrightarrow> tcp_probe_consume n (p\<lparr>tp_buf := tp_buf p @ d, tp_client := c\<rparr>) =
     (tcp_probe_consume n (p\<lparr>tp_client := c\<rparr>))\<lparr>tp_buf := tp_buf (tcp_probe_consume n (p\<lparr>tp_client := c\<rparr>)) @ d\<rparr>"
  "probe_expect_payload l (p\<lparr>tp_buf := b\<rparr>) = (probe_expect_payload l p)\<lparr>tp_buf := b\<rparr>"
  "tp_buf (probe_expect_payload l p) = tp_buf p" "tp_buf_need (p\<lparr>tp_buf := b\<rparr>) = tp_buf_need p" "tp_state (p\<lparr>tp_buf := b\<rparr>) = tp_state p"
  by (simp_all add: tcp_probe_consume_def probe_expect_payload_def)

lemma tcp_probe_process_append:
  assumes "tcp_probe_process lib p = (q, None)" "probe_need_ok p"
  shows "tcp_probe_process lib (p\<lparr>tp_buf := tp_buf p @ d\<rparr>) = tcp_probe_process lib (q\<lparr>tp_buf := tp_buf q @ d\<rparr>)"
  using assms
proof (induction lib p rule: tcp_probe_process.induct)
  case (1 lib p)
  note run = 1(4)
  show ?case
  proof (cases "length (tp_buf p) < tp_buf_need p")
    case True
    then show ?thesis using run by (simp add: tcp_probe_process.simps [of lib p])
  next
    case False
    then have n: "tp_buf_need p \<le> length (tp_buf p)" by simp
    show ?thesis
    proof (cases "tp_state p")
      case TCP_PROBE_RECV_RESP_HDR
      obtain l c where o: "tcp_open_response_header lib (the (tp_client p)) (take (tp_buf_need p) (tp_buf p)) = Some (l, c)"
        using run False TCP_PROBE_RECV_RESP_HDR by (auto simp: tcp_probe_process.simps [of lib p] split: option.splits)
      define p1 where "p1 = probe_expect_payload l (tcp_probe_consume (tp_buf_need p) (p\<lparr>tp_client := Some c\<rparr>))"
      have g: "\<not> tp_buf_need p1 > TCP_PROBE_RECV_BUF_SIZE" and r1: "tcp_probe_process lib p1 = (q, None)"
        using run False TCP_PROBE_RECV_RESP_HDR o by (auto simp: tcp_probe_process.simps [of lib p] p1_def [symmetric] Let_def split: if_splits)
      have e: "tcp_probe_process lib (p\<lparr>tp_buf := tp_buf p @ d\<rparr>) = tcp_probe_process lib (p1\<lparr>tp_buf := tp_buf p1 @ d\<rparr>)"
        using n TCP_PROBE_RECV_RESP_HDR o g
        by (subst tcp_probe_process.simps) (simp add: probe_append_steps p1_def Let_def)
      show ?thesis
        unfolding e by (rule 1(1) [OF False TCP_PROBE_RECV_RESP_HDR o refl refl, folded p1_def]) (use False TCP_PROBE_RECV_RESP_HDR o g r1 in \<open>simp_all add: p1_def probe_need_ok_def probe_expect_payload_def\<close>)
    next
      case TCP_PROBE_RECV_LENGTH
      then have need: "tp_buf_need p = TCP_PROBE_LENGTH_LEN" using 1(5) by (simp add: probe_need_ok_def)
      obtain l c where o: "tcp_open_length lib (the (tp_client p)) (take TCP_PROBE_LENGTH_LEN (tp_buf p)) = Some (l, c)"
        using run False TCP_PROBE_RECV_LENGTH by (auto simp: tcp_probe_process.simps [of lib p] split: option.splits)
      define p1 where "p1 = probe_expect_payload l (tcp_probe_consume TCP_PROBE_LENGTH_LEN (p\<lparr>tp_client := Some c\<rparr>))"
      have g: "\<not> tp_buf_need p1 > TCP_PROBE_RECV_BUF_SIZE" and r1: "tcp_probe_process lib p1 = (q, None)"
        using run False TCP_PROBE_RECV_LENGTH o by (auto simp: tcp_probe_process.simps [of lib p] p1_def [symmetric] Let_def split: if_splits)
      have e: "tcp_probe_process lib (p\<lparr>tp_buf := tp_buf p @ d\<rparr>) = tcp_probe_process lib (p1\<lparr>tp_buf := tp_buf p1 @ d\<rparr>)"
        using n [unfolded need] need TCP_PROBE_RECV_LENGTH o g
        by (subst tcp_probe_process.simps) (simp add: probe_append_steps p1_def Let_def)
      show ?thesis
        unfolding e by (rule 1(3) [OF False TCP_PROBE_RECV_LENGTH o refl refl, folded p1_def]) (use False TCP_PROBE_RECV_LENGTH o g r1 in \<open>simp_all add: p1_def probe_need_ok_def probe_expect_payload_def\<close>)
    next
      case TCP_PROBE_RECV_PAYLOAD
      obtain pl c where o: "tcp_open_payload lib (the (tp_client p)) (take (tp_buf_need p) (tp_buf p)) (tp_buf_need p - 16) = Some (pl, c)"
        using run False TCP_PROBE_RECV_PAYLOAD by (auto simp: tcp_probe_process.simps [of lib p] split: option.splits)
      define st where "st = tp_status p @ take (min (TCP_PROBE_STATUS_LEN - length (tp_status p)) (length pl)) pl"
      define p1 where "p1 = (tcp_probe_consume (tp_buf_need p) (p\<lparr>tp_client := Some c, tp_status := st\<rparr>))
          \<lparr>tp_state := TCP_PROBE_RECV_LENGTH, tp_buf_need := TCP_PROBE_LENGTH_LEN\<rparr>"
      have g: "\<not> length st \<ge> TCP_PROBE_STATUS_LEN" and r1: "tcp_probe_process lib p1 = (q, None)"
        using run False TCP_PROBE_RECV_PAYLOAD o
        by (auto simp: tcp_probe_process.simps [of lib p] st_def p1_def Let_def tcp_probe_consume_def split: if_splits)
      have e: "tcp_probe_process lib (p\<lparr>tp_buf := tp_buf p @ d\<rparr>) = tcp_probe_process lib (p1\<lparr>tp_buf := tp_buf p1 @ d\<rparr>)"
        using n TCP_PROBE_RECV_PAYLOAD o g
        by (subst tcp_probe_process.simps) (auto simp: tcp_probe_consume_def p1_def st_def Let_def min_def
            intro!: arg_cong [of _ _ "tcp_probe_process lib"] split: if_splits)
      show ?thesis
        unfolding e by (rule 1(2) [OF False TCP_PROBE_RECV_PAYLOAD o refl refl refl, folded st_def p1_def]) (rule r1 | use g in \<open>simp add: tcp_probe_consume_def; fail\<close> | simp add: p1_def probe_need_ok_def; fail)+
    qed (use run False in \<open>simp_all add: tcp_probe_process.simps [of lib p] tcp_probe_process.simps [of lib "p\<lparr>tp_buf := tp_buf p @ d\<rparr>"]\<close>)
  qed
qed

lemma tcp_probe_process_start: "tp_start_ts (fst (tcp_probe_process lib p)) = tp_start_ts p"
proof (induction lib p rule: tcp_probe_process.induct)
  case (1 lib p)
  then show ?case
    by (subst tcp_probe_process.simps)
      (auto simp: Let_def tcp_probe_consume_def probe_expect_payload_def split: tcp_probe_state.split option.split prod.split)
qed

lemma tcp_probe_process_shrinks:
  "length (tp_buf p) \<le> m \<Longrightarrow> length (tp_buf (fst (tcp_probe_process lib p))) \<le> m"
proof (induction lib p rule: tcp_probe_process.induct)
  case (1 lib p)
  then show ?case
    by (subst tcp_probe_process.simps)
      (auto simp: Let_def tcp_probe_consume_def probe_expect_payload_def split: tcp_probe_state.split option.split prod.split)
qed

section \<open>A small world\<close>

definition demo_tcp_lib :: "unit ss2022_tcp" where
  "demo_tcp_lib =
     \<lparr>tcp_response_header_size = (\<lambda>_. 20), tcp_build_request_header = (\<lambda>_ _ _ _. Some ([22, 3, 1], ())),
      tcp_open_response_header = (\<lambda>_ b. Some (12, ())), tcp_open_length = (\<lambda>_ b. Some (12, ())),
      tcp_open_payload = (\<lambda>_ b n. Some (take n b, ())), tcp_seal_payload = (\<lambda>_ p n. Some (take n p, ()))\<rparr>"

definition demo_udp_lib :: "unit ss2022_udp" where
  "demo_udp_lib =
     \<lparr>udp_client_open = (\<lambda>_ b n. (Some (UDP_PROBE_TARGET, take n b), ())), udp_client_seal = (\<lambda>_ _ p n. (Some (take n p), ()))\<rparr>"

definition demo_tcp_probe :: "unit ss_tcp_probe" where
  "demo_tcp_probe =
     \<lparr>tp_client = None, tp_start_ts = 0, tp_attempt_epoch = 0, tp_send_buf = [], tp_send_off = 0, tp_buf = [], tp_buf_need = 0,
      tp_status = [], tp_cb = Tcp_probe_on_connected, tp_io_active = False, tp_timer_active = False, tp_server_idx = 0,
      tp_sockfd = 0, tp_state = TCP_PROBE_CONNECTING, tp_response_payload_len = 0\<rparr>"

definition demo_udp_probe :: "unit ss_udp_probe" where
  "demo_udp_probe =
     \<lparr>up_session = None, up_start_ts = 0, up_attempt_epoch = 0, up_io_active = False, up_timer_active = False,
      up_server_idx = 0, up_sockfd = 0, up_dns_txid = 0\<rparr>"

definition demo_probe_world :: "(unit, unit, unit) probe_world" where
  "demo_probe_world =
     \<lparr>pw_sel = demo_selectors\<lparr>g_ss_server_count := 1\<rparr>, g_tcp_probes = replicate 8 demo_tcp_probe, g_udp_probes = replicate 8 demo_udp_probe,
      g_dns_txid_seq = 0, open_fds = []\<rparr>"

definition demo_round :: "(unit, unit, unit) round_env" where
  "demo_round =
     \<lparr>re_now = 10,
      re_tcp = (\<lambda>i. \<lparr>tse_ctx = Some (), tse_client = Some (), tse_fd = int i + 20, tse_tfo = False, tse_sendto = IoErr EINTR,
                     tse_connect = IoErr EINPROGRESS, tse_so_error = IoOk None, tse_sends = []\<rparr>),
      re_udp = (\<lambda>i. \<lparr>use_ctx = Some (), use_session = Some (), use_fd = int i + 30, use_sendto = IoOk ()\<rparr>)\<rparr>"

definition demo_started :: "(unit, unit, unit) probe_world" where
  "demo_started = server_selector_start demo_tcp_lib demo_udp_lib demo_round True True (server_selector_init_probes demo_probe_world)"

lemma demo_started_reachable: "probe_reachable demo_tcp_lib demo_udp_lib demo_started"
proof -
  have "selectors_ok (pw_sel demo_probe_world)"
    using demo_selectors_ok by (simp add: demo_probe_world_def selectors_ok_def selector_ok_def demo_selectors_def demo_selector_def)
  then have "probe_memory_ok demo_probe_world"
    by (simp add: probe_memory_ok_def selectors_ok_def) (simp add: demo_probe_world_def demo_tcp_probe_def demo_udp_probe_def SS_MAX_SERVERS_def)
  then show ?thesis unfolding demo_started_def by (rule Started)
qed

lemmas demo_eval = demo_started_def demo_probe_world_def demo_round_def demo_tcp_lib_def demo_udp_lib_def demo_tcp_probe_def demo_udp_probe_def
  server_selector_start_def selector_start_def selector_start_probe_round_def server_selector_init_probes_def server_selector_init_def
  tcp_probe_start_def udp_probe_start_def ss_ctx_get_def tcp_connect_def put_tcp_probe_def put_udp_probe_def fd_open_def set_remaining_def
  get_selector_def put_selector_def demo_selectors_def demo_selector_def selector_reset_def SS_MAX_SERVERS_def Let_def tcp_plain_connect_def

lemma demo_started_values:
  "sel_probes_remaining (g_tcp_selector (pw_sel demo_started)) = 1 \<and> g_ss_server_count (pw_sel demo_started) = 1 \<and>
   map tp_sockfd (filter tp_timer_active (take 1 (g_tcp_probes demo_started))) = [20] \<and>
   map up_sockfd (filter up_timer_active (take 1 (g_udp_probes demo_started))) = [30]"
  by (simp add: demo_eval numeral_nat)

section \<open>Properties\<close>

text \<open>C17. In every world that the event loop can reach, the count of outstanding probes of a selector is the number of its probes whose timeout is pending,
  and the open descriptors are exactly those of the running probes, each once: no probe loses its timer, its descriptor or its place
  in the count, whatever the system calls answer.\<close>

theorem probe_bookkeeping:
  assumes "probe_reachable tlib ulib w"
  shows "sel_probes_remaining (g_tcp_selector (pw_sel w)) =
      int (length (filter tp_timer_active (take (g_ss_server_count (pw_sel w)) (g_tcp_probes w)))) \<and>
    sel_probes_remaining (g_udp_selector (pw_sel w)) =
      int (length (filter up_timer_active (take (g_ss_server_count (pw_sel w)) (g_udp_probes w)))) \<and>
    mset (open_fds w) =
      mset (map tp_sockfd (filter tp_timer_active (take (g_ss_server_count (pw_sel w)) (g_tcp_probes w)))) +
      mset (map up_sockfd (filter up_timer_active (take (g_ss_server_count (pw_sel w)) (g_udp_probes w))))"
proof -
  let ?n = "g_ss_server_count (pw_sel w)"
  have r: "round_inv (\<lambda>_. 0) w" by (rule reachable_inv [OF assms])
  then have p: "probes_ok w" by (simp add: round_inv_def)
  have a: "0 \<le> tp_sockfd q \<longleftrightarrow> tp_timer_active q" if "q \<in> set (take ?n (g_tcp_probes w))" for q
    using p that by (fastforce simp: probes_ok_def tcp_probe_ok_def in_set_conv_nth split: if_splits)
  have b: "0 \<le> up_sockfd q \<longleftrightarrow> up_timer_active q" if "q \<in> set (take ?n (g_udp_probes w))" for q
    using p that by (fastforce simp: probes_ok_def udp_probe_ok_def in_set_conv_nth split: if_splits)
  have "filter (\<lambda>fd. 0 \<le> fd) (map tp_sockfd (take ?n (g_tcp_probes w))) = map tp_sockfd (filter tp_timer_active (take ?n (g_tcp_probes w)))"
    by (simp add: filter_map o_def a cong: filter_cong)
  moreover have "filter (\<lambda>fd. 0 \<le> fd) (map up_sockfd (take ?n (g_udp_probes w))) = map up_sockfd (filter up_timer_active (take ?n (g_udp_probes w)))"
    by (simp add: filter_map o_def b cong: filter_cong)
  ultimately have f: "fds_of True w = map tp_sockfd (filter tp_timer_active (take ?n (g_tcp_probes w)))"
    "fds_of False w = map up_sockfd (filter up_timer_active (take ?n (g_udp_probes w)))" by (simp_all add: fds_of_def)
  from r have "remaining True w = int (length (fds_of True w))" "remaining False w = int (length (fds_of False w))"
    "mset (open_fds w) = mset (fds_of True w) + mset (fds_of False w)"
    by (simp_all add: round_inv_def)
  then show ?thesis unfolding f by (simp add: remaining_def get_selector_def)
qed

theorem probe_bookkeeping_witness: "mset (open_fds demo_started) = {#20, 30#}"
  using probe_bookkeeping [OF demo_started_reachable] demo_started_values by (simp del: mset_map mset_filter One_nat_def)

text \<open>C16. A round ends: in every reachable world, once the pending timeouts of a selector's probes have fired, which the
  event loop can do from there, no probe is outstanding, none of its descriptors is open, and the next tick starts a probe on
  every server again.\<close>

theorem probe_round_ends:
  assumes "probe_reachable tlib ulib w"
  shows "probe_reachable tlib ulib (timers_fire True now w) \<and>
    sel_probes_remaining (g_tcp_selector (pw_sel (timers_fire True now w))) = 0 \<and>
    (\<forall>i < g_ss_server_count (pw_sel w). \<not> tp_timer_active (g_tcp_probes (timers_fire True now w) ! i) \<and>
       tp_sockfd (g_tcp_probes (timers_fire True now w) ! i) < 0) \<and>
    check_timer_cb tlib ulib env True (timers_fire True now w) =
      fold (\<lambda>i w. tcp_probe_start tlib (re_tcp env i) (re_now env) (int i) w) [0..<g_ss_server_count (pw_sel w)]
        (set_remaining True (int (g_ss_server_count (pw_sel w))) (timers_fire True now w))"
proof -
  let ?w = "timers_fire True now w"
  have f: "probe_reachable tlib ulib ?w" "g_ss_server_count (pw_sel ?w) = g_ss_server_count (pw_sel w)"
    "\<forall>j < g_ss_server_count (pw_sel w). tp_sockfd (g_tcp_probes ?w ! j) < 0"
    using timers_fire_upto [OF assms order_refl, of True now] by (simp_all add: timers_fire_def probe_idle_def)
  have r: "round_inv (\<lambda>_. 0) ?w" by (rule reachable_inv [OF f(1)])
  then have "fds_of True ?w = []" using idle_iff [of ?w True] f(2,3) by (simp add: round_inv_def selectors_ok_def)
  then have z: "remaining True ?w = 0" using r by (simp add: round_inv_def)
  have "\<not> tp_timer_active (g_tcp_probes ?w ! j)" if "j < g_ss_server_count (pw_sel w)" for j
    using active_running(2) [OF r, of j] f(2,3) that by (auto simp: tcp_running_def)
  then show ?thesis
    using f z by (simp add: check_timer_cb_def selector_start_probe_round_def remaining_def get_selector_def)
qed

theorem probe_round_ends_witness:
  "sel_probes_remaining (g_tcp_selector (pw_sel demo_started)) = 1 \<and>
   sel_probes_remaining (g_tcp_selector (pw_sel (timers_fire True 15 demo_started))) = 0"
  using probe_round_ends [OF demo_started_reachable] demo_started_values by simp

text \<open>C35. Stopping the selector, at any moment, closes every descriptor that its probes hold, stops every watcher of
  the probes and the check timers of both selectors, and frees their client contexts, so no callback is left to run.\<close>

theorem server_selector_stop_closes:
  assumes "probe_reachable tlib ulib w"
  shows "open_fds (server_selector_stop w) = [] \<and>
    (\<forall>i < g_ss_server_count (pw_sel w).
       \<not> tp_io_active (g_tcp_probes (server_selector_stop w) ! i) \<and> \<not> tp_timer_active (g_tcp_probes (server_selector_stop w) ! i) \<and>
       \<not> up_io_active (g_udp_probes (server_selector_stop w) ! i) \<and> \<not> up_timer_active (g_udp_probes (server_selector_stop w) ! i)) \<and>
    (\<forall>t. \<not> sel_check_timer (get_selector t (pw_sel (server_selector_stop w))) \<and>
       sel_probes_remaining (get_selector t (pw_sel (server_selector_stop w))) = 0 \<and>
       (\<forall>i < length (sel_ctx (get_selector t (pw_sel w))).
          i < g_ss_server_count (pw_sel w) \<longrightarrow> sel_ctx (get_selector t (pw_sel (server_selector_stop w))) ! i = None))"
proof -
  let ?n = "g_ss_server_count (pw_sel w)"
  have r: "round_inv (\<lambda>_. 0) w" by (rule reachable_inv [OF assms])
  have m: "mset (fold remove1 xs ys) = mset ys - mset xs" for xs ys :: "int list"
    by (induction xs arbitrary: ys) simp_all
  have e: "open_fds (server_selector_stop w) = fold remove1 (fds_of True w @ fds_of False w) (open_fds w)"
    by (simp add: server_selector_stop_def Let_def fds_of_def)
  have "mset (open_fds (server_selector_stop w)) = {#}" unfolding e m using r by (simp add: round_inv_def)
  then have "open_fds (server_selector_stop w) = []" by simp
  moreover have "i < length (g_tcp_probes w)" "i < length (g_udp_probes w)" "tcp_probe_ok i (g_tcp_probes w ! i)" "udp_probe_ok i (g_udp_probes w ! i)"
    if "i < ?n" for i
    using r that by (auto simp: round_inv_def probes_ok_def selectors_ok_def)
  moreover have "\<forall>t. \<not> sel_check_timer (get_selector t (pw_sel (server_selector_stop w))) \<and>
       sel_probes_remaining (get_selector t (pw_sel (server_selector_stop w))) = 0 \<and>
       (\<forall>i < length (sel_ctx (get_selector t (pw_sel w))).
          i < g_ss_server_count (pw_sel w) \<longrightarrow> sel_ctx (get_selector t (pw_sel (server_selector_stop w))) ! i = None)"
    by (simp add: server_selector_stop_def Let_def selector_stopped_def get_selector_def nth_append)
  ultimately show ?thesis
    by (auto simp: server_selector_stop_def Let_def nth_append tcp_probe_release_def udp_probe_release_def tcp_probe_ok_def udp_probe_ok_def)
qed

theorem server_selector_stop_closes_witness:
  "tp_timer_active (g_tcp_probes demo_started ! 0) \<and> sel_check_timer (g_tcp_selector (pw_sel demo_started)) \<and>
   open_fds (server_selector_stop demo_started) = [] \<and>
   \<not> sel_check_timer (get_selector True (pw_sel (server_selector_stop demo_started)))"
proof -
  have "tp_timer_active (g_tcp_probes demo_started ! 0)" "sel_check_timer (g_tcp_selector (pw_sel demo_started))"
    by (simp_all add: demo_eval numeral_nat)
  then show ?thesis using server_selector_stop_closes [OF demo_started_reachable] by blast
qed

text \<open>C34. A TCP probe reads a stream: how the answer is cut into segments does not change what becomes of the probe.\<close>

theorem probe_reads_a_stream:
  assumes "nat i < length (g_tcp_probes w)" "probe_need_ok (g_tcp_probes w ! nat i)" "a \<noteq> []" "b \<noteq> []"
    "length (tp_buf (g_tcp_probes w ! nat i)) + length a + length b \<le> TCP_PROBE_RECV_BUF_SIZE"
    "snd (tcp_probe_process lib ((g_tcp_probes w ! nat i)\<lparr>tp_buf := tp_buf (g_tcp_probes w ! nat i) @ a\<rparr>)) = None"
  shows "tcp_probe_on_recv lib i (IoOk b) now (tcp_probe_on_recv lib i (IoOk a) now w) = tcp_probe_on_recv lib i (IoOk (a @ b)) now w"
proof -
  define p where "p = g_tcp_probes w ! nat i"
  define pa where "pa = p\<lparr>tp_buf := tp_buf p @ a\<rparr>"
  obtain q where q: "tcp_probe_process lib pa = (q, None)"
    using assms(6) by (cases "tcp_probe_process lib pa") (simp add: pa_def p_def)
  have n: "probe_need_ok pa" using assms(2) by (simp add: pa_def p_def probe_need_ok_def)
  have k: "tp_start_ts q = tp_start_ts p" "length (tp_buf q) \<le> length (tp_buf p) + length a"
    using tcp_probe_process_start [of lib pa] tcp_probe_process_shrinks [of pa "length (tp_buf p) + length a" lib] q by (simp_all add: pa_def)
  have lens: "length (tp_buf p) \<noteq> TCP_PROBE_RECV_BUF_SIZE" "length (tp_buf q) \<noteq> TCP_PROBE_RECV_BUF_SIZE"
    using assms(3-5) k(2) by (auto simp: p_def [symmetric] simp flip: length_greater_0_conv)
  have one: "tcp_probe_on_recv lib i (IoOk a) now w = put_tcp_probe i q w"
    using assms(3) lens(1) q by (simp add: tcp_probe_on_recv_def p_def [symmetric] pa_def Let_def)
  have "tcp_probe_process lib (p\<lparr>tp_buf := tp_buf p @ a @ b\<rparr>) = tcp_probe_process lib (q\<lparr>tp_buf := tp_buf q @ b\<rparr>)"
    using tcp_probe_process_append [OF q n, of b] by (simp add: pa_def)
  then show ?thesis
    using assms(1,3,4) lens k(1)
    unfolding one by (simp add: tcp_probe_on_recv_def p_def [symmetric] Let_def put_probe_twice split: option.split prod.split)
qed

text \<open>The probe of the small world with its header's 20 bytes arriving in two segments.\<close>

definition demo_reading :: "(unit, unit, unit) probe_world" where
  "demo_reading =
     \<lparr>pw_sel = demo_selectors,
      g_tcp_probes = replicate 8 (demo_tcp_probe\<lparr>tp_client := Some (), tp_state := TCP_PROBE_RECV_RESP_HDR, tp_buf_need := 20\<rparr>),
      g_udp_probes = replicate 8 demo_udp_probe, g_dns_txid_seq = 0, open_fds = []\<rparr>"

theorem probe_reads_a_stream_witness:
  "tcp_probe_on_recv demo_tcp_lib 0 (IoOk (replicate 8 2)) 1 (tcp_probe_on_recv demo_tcp_lib 0 (IoOk (replicate 15 1)) 1 demo_reading) =
   tcp_probe_on_recv demo_tcp_lib 0 (IoOk (replicate 15 1 @ replicate 8 2)) 1 demo_reading"
proof (rule probe_reads_a_stream)
  show "snd (tcp_probe_process demo_tcp_lib ((g_tcp_probes demo_reading ! nat 0)
      \<lparr>tp_buf := tp_buf (g_tcp_probes demo_reading ! nat 0) @ replicate 15 1\<rparr>)) = None"
    by (simp add: demo_reading_def demo_tcp_probe_def tcp_probe_process.simps)
qed (simp_all add: demo_reading_def demo_tcp_probe_def probe_need_ok_def probe_consts)

end
