(* ===== verification/Pools.thy ===== *)
theory Pools
  imports Mempool
begin

text \<open>
  How the proxies use the block pools: one pool per type, so every request is for a whole block. A pool is known
  by the set of the pointers it has handed out, \<open>pool_of\<close>; a thread creates its pools when it starts.
\<close>

section \<open>Blocks of one type\<close>

type_synonym ptr = nat

text \<open>Every allocation asks for the size the pool was created with, that of the type it holds.\<close>

definition pool_alloc :: "(nat \<Rightarrow> nat option) \<Rightarrow> mempool_state \<Rightarrow> ptr option \<times> mempool_state" where
  "pool_alloc memalign pool = mempool_alloc_sized memalign (mp_block_size (fst pool)) pool"

definition pool_free :: "ptr \<Rightarrow> mempool_state \<Rightarrow> mempool_state" where
  "pool_free p pool = mempool_free_sized p (mp_block_size (fst pool)) pool"

definition pool_of :: "mempool_state \<Rightarrow> ptr set \<Rightarrow> bool" where
  "pool_of pool A \<longleftrightarrow> mempool_inv pool \<and> pool_live pool = A \<and> finite A"

lemma pool_of_free: "pool_of pool A \<Longrightarrow> p \<in> A \<Longrightarrow> pool_of (pool_free p pool) (A - {p})"
  using mempool.dealloc_live [of pool p] by (simp add: pool_of_def pool_free_def mempool_free_sized_def)

lemma pool_of_alloc:
  assumes "pool_of pool A" "posix_memalign_ok memalign pool" "pool_alloc memalign pool = (r, pool')"
  shows "case r of None \<Rightarrow> pool_of pool' A | Some p \<Rightarrow> p \<notin> A \<and> pool_of pool' (insert p A)"
proof -
  have t: "mempool_take (memalign, mp_block_size (fst pool)) pool = (r, pool')" "mempool_env_ok (memalign, mp_block_size (fst pool)) pool"
    using assms(2,3) by (simp_all add: mempool_take_def pool_alloc_def mempool_env_ok_def)
  show ?thesis
    using mempool.alloc_some [OF _ t(2)] mempool.alloc_none [OF _ t(2)] t(1) assms(1)
    by (cases r) (auto simp: pool_of_def)
qed

lemma pool_free_alloc: "pool_of pool (insert p A) \<Longrightarrow> p \<notin> A \<Longrightarrow> pool_of (pool_free p pool) A"
  using pool_of_free [of pool "insert p A" p] by simp

lemma free_block_layout: "mp_slab_list (fst (free_block b s)) = mp_slab_list (fst s) \<and> mp_total_size (fst (free_block b s)) = mp_total_size (fst s)"
  by (auto simp: free_block_def split: prod.split option.split)

lemma pool_free_memalign_ok: "posix_memalign_ok memalign (pool_free p pool) = posix_memalign_ok memalign pool"
proof -
  have "mp_slab_list (fst (pool_free p pool)) = mp_slab_list (fst pool) \<and> mp_total_size (fst (pool_free p pool)) = mp_total_size (fst pool)"
    by (auto simp: pool_free_def mempool_free_sized_def internal_free_def Let_def free_block_layout split: prod.split option.split)
  then show ?thesis by (simp add: posix_memalign_ok_def)
qed

section \<open>The pools of a thread\<close>

text \<open>What the system answers while a pool is created, and the size of the type it is for.\<close>

record pool_env =
  pe_size :: nat
  pe_calloc_ok :: bool
  pe_memalign :: "nat \<Rightarrow> nat option"

definition thread_pool :: "pool_env \<Rightarrow> nat \<Rightarrow> nat \<Rightarrow> mempool_state option" where
  "thread_pool env initial_blocks max_blocks =
     mempool_create (pe_calloc_ok env) (pe_memalign env) (pe_size env) initial_blocks max_blocks Map.empty"

text \<open>The pointer \<^verbatim>\<open>NULL\<close> in place of a pool: nothing can be allocated.\<close>

definition no_pool :: "nat \<Rightarrow> mempool_state" where
  "no_pool sz = ((mempool_cleared sz 1)\<lparr>mp_max_blocks := 0\<rparr>, Map.empty)"

text \<open>The documented behaviour of \<^verbatim>\<open>posix_memalign\<close> when the pools are created.\<close>

definition pool_env_ok :: "pool_env \<Rightarrow> bool" where
  "pool_env_ok env \<longleftrightarrow> 0 < pe_size env \<and> pe_size env + 127 < 2 ^ 64 \<and>
     (\<forall>mb. posix_memalign_ok (pe_memalign env) (mempool_cleared (pe_size env) mb, Map.empty))"

lemma thread_pool_of: "thread_pool env ib mb = Some p \<Longrightarrow> pool_env_ok env \<Longrightarrow> pool_of p {}"
  using mempool_create_ok [of "pe_calloc_ok env" "pe_memalign env" "pe_size env" ib mb Map.empty p]
  by (simp add: thread_pool_def pool_env_ok_def pool_of_def mempool_inv_def)

lemma no_pool_of: assumes "0 < sz" "sz + 127 < 2 ^ 64" shows "pool_of (no_pool sz) {}"
proof -
  let ?p = "(mempool_cleared sz 1)\<lparr>mp_max_blocks := 0\<rparr>"
  have t: "CACHELINE_SIZE + sz \<le> mp_total_size ?p" "mp_total_size ?p mod CACHELINE_SIZE = 0"
    using assms(2) round_up_cacheline [of "CACHELINE_SIZE + sz"] by (simp_all add: mempool_cleared_def CACHELINE_SIZE_def)
  then have "slabs_ok ?p" by (simp add: slabs_ok_def) (simp add: mempool_cleared_def)
  moreover have "pool_blocks ?p = {}" by (simp add: mempool_cleared_def pool_blocks_def)
  ultimately have "pool_ok (?p, Map.empty)" "pool_live (?p, Map.empty) = {}"
    by (auto simp: pool_ok_alt free_blocks_def pool_live_alt live_blocks_def mempool_cleared_def intro!: exI [of _ "[]"])
  then show ?thesis using assms(1) by (simp add: pool_of_def mempool_inv_def no_pool_def) (simp add: mempool_cleared_def)
qed

section \<open>A small pool\<close>

definition demo_pool_env :: pool_env where
  "demo_pool_env = \<lparr>pe_size = 100, pe_calloc_ok = True, pe_memalign = demo_memalign\<rparr>"

lemma demo_pool_alloc: "pool_alloc (\<lambda>_. None) demo_mempool = (Some 4224, demo_mempool1)"
  using demo_mempool_alloc by (simp add: pool_alloc_def mempool_alloc_sized_def demo_mempool_def)

end
