(* ===== verification/LruCache.thy ===== *)
theory LruCache
  imports Pools Double
begin

text \<open>
  The generic cache of \<^verbatim>\<open>src/src/lrucache.h\<close> and its three instances and size settings
  in \<^verbatim>\<open>src/src/udp_lrucache.c\<close>. A cache is an intrusive hash table: the entries live in
  memory of the caller and the table links them. It is modelled by the list of the addresses of its
  entries in insertion order, the order in which \<^verbatim>\<open>MYLRU_HASH_FOR\<close> visits them; the
  fields of an entry are read through accessors, as the macros are given the names of the fields. The
  bucket array of the vendored uthash is not modelled: a lookup is by the key.
\<close>

type_synonym table = "ptr list"

section \<open>The uthash wrappers\<close>

definition hash_add :: "ptr \<Rightarrow> table \<Rightarrow> table" where
  "hash_add entry t = t @ [entry]"

text \<open>Among entries with the same key the bucket chain holds the newest first.\<close>

definition hash_get :: "(ptr \<Rightarrow> 'k) \<Rightarrow> 'k \<Rightarrow> table \<Rightarrow> ptr option" where
  "hash_get key k t = find (\<lambda>p. key p = k) (rev t)"

definition hash_del :: "ptr \<Rightarrow> table \<Rightarrow> table" where
  "hash_del entry t = remove1 entry t"

definition hash_cnt :: "table \<Rightarrow> nat" where
  "hash_cnt t = length t"

text \<open>
  The iteration saves the successor of the current entry before the body runs. The number of steps is at most
  the number of entries at the start, which is the bound \<open>n\<close>.
\<close>

fun next_in :: "ptr \<Rightarrow> table \<Rightarrow> ptr option" where
  "next_in p [] = None"
| "next_in p (q # t) = (if p = q then (case t of [] \<Rightarrow> None | r # _ \<Rightarrow> Some r) else next_in p t)"

fun hash_iter :: "nat \<Rightarrow> ('s \<Rightarrow> table) \<Rightarrow> (ptr \<Rightarrow> 's \<Rightarrow> 's) \<Rightarrow> ptr option \<Rightarrow> 's \<Rightarrow> 's" where
  "hash_iter 0 tbl body el s = s"
| "hash_iter (Suc n) tbl body el s =
     (case el of
        None \<Rightarrow> s
      | Some p \<Rightarrow> (let tmp = next_in p (tbl s) in hash_iter n tbl body tmp (body p s)))"

definition hash_for :: "('s \<Rightarrow> table) \<Rightarrow> (ptr \<Rightarrow> 's \<Rightarrow> 's) \<Rightarrow> 's \<Rightarrow> 's" where
  "hash_for tbl body s =
     hash_iter (length (tbl s)) tbl body (case tbl s of [] \<Rightarrow> None | p # _ \<Rightarrow> Some p) s"

section \<open>The templates\<close>

fun lru_victim :: "(ptr \<Rightarrow> ev_tstamp) \<Rightarrow> ptr \<Rightarrow> ptr option \<Rightarrow> table \<Rightarrow> ptr option" where
  "lru_victim ts entry victim [] = victim"
| "lru_victim ts entry victim (c # t) =
     (if c = entry then lru_victim ts entry victim t
      else lru_victim ts entry
             (case victim of None \<Rightarrow> Some c | Some v \<Rightarrow> if ts c < ts v then Some c else Some v) t)"

definition lru_add :: "(ptr \<Rightarrow> ev_tstamp) \<Rightarrow> nat \<Rightarrow> ptr \<Rightarrow> table \<Rightarrow> ptr option \<times> table" where
  "lru_add ts maxsize entry t =
     (let t = hash_add entry t in
      if hash_cnt t > maxsize
      then (case lru_victim ts entry None t of
              None \<Rightarrow> (None, t)
            | Some v \<Rightarrow> (Some v, hash_del v t))
      else (None, t))"

definition lru_find :: "(ptr \<Rightarrow> 'k) \<Rightarrow> 'k \<Rightarrow> table \<Rightarrow> ptr option" where
  "lru_find key k t = hash_get key k t"

definition lru_del :: "ptr \<Rightarrow> table \<Rightarrow> table" where
  "lru_del entry t = hash_del entry t"

definition lru_clear :: "('s \<Rightarrow> table) \<Rightarrow> (ptr \<Rightarrow> 's \<Rightarrow> 's) \<Rightarrow> 's \<Rightarrow> 's" where
  "lru_clear tbl cb s = hash_for tbl cb s"

section \<open>Capacities\<close>

record udp_lrucache =
  g_fullcone_cache_maxsize :: u16
  g_symmetric_cache_maxsize :: u16
  g_tproxy_cache_maxsize :: u16

definition SYMMETRIC_SIZE_MULTIPLIER :: u32 where "SYMMETRIC_SIZE_MULTIPLIER = 2"
definition TPROXY_SIZE_MULTIPLIER :: u32 where "TPROXY_SIZE_MULTIPLIER = 4"

definition udp_lrucache_static :: udp_lrucache where
  "udp_lrucache_static =
     \<lparr>g_fullcone_cache_maxsize = 256, g_symmetric_cache_maxsize = ucast (256 * SYMMETRIC_SIZE_MULTIPLIER),
      g_tproxy_cache_maxsize = ucast (256 * TPROXY_SIZE_MULTIPLIER)\<rparr>"

definition udp_lrucache_set_maxsize :: "u16 \<Rightarrow> udp_lrucache \<Rightarrow> udp_lrucache" where
  "udp_lrucache_set_maxsize base_size c =
     (let symmetric_size = ucast base_size * SYMMETRIC_SIZE_MULTIPLIER;
          tproxy_size = ucast base_size * TPROXY_SIZE_MULTIPLIER
      in c\<lparr>g_fullcone_cache_maxsize := base_size,
           g_symmetric_cache_maxsize := (if symmetric_size > 65535 then 65535 else ucast symmetric_size),
           g_tproxy_cache_maxsize := (if tproxy_size > 65535 then 65535 else ucast tproxy_size)\<rparr>)"

section \<open>Lookup\<close>

lemma hash_get_Some: "hash_get key k t = Some p \<Longrightarrow> p \<in> set t \<and> key p = k"
  unfolding hash_get_def find_Some_iff by (metis length_rev nth_mem set_rev)

lemma hash_get_None: "hash_get key k t = None \<longleftrightarrow> (\<forall>p \<in> set t. key p \<noteq> k)"
  by (auto simp: hash_get_def find_None_iff)

lemma hash_get_eq:
  assumes "inj_on key (set t)" "p \<in> set t" shows "hash_get key (key p) t = Some p"
proof (cases "hash_get key (key p) t")
  case None then show ?thesis using assms(2) by (auto simp: hash_get_None)
next
  case (Some q) then show ?thesis using hash_get_Some [OF Some] assms by (auto dest: inj_onD)
qed

section \<open>The victim\<close>

lemma lru_victim_spec:
  "lru_victim ts entry victim t = v \<Longrightarrow>
     (v = None \<longleftrightarrow> victim = None \<and> set t \<subseteq> {entry}) \<and>
     (\<forall>w. v = Some w \<longrightarrow> (victim = Some w \<or> w \<in> set t \<and> w \<noteq> entry) \<and>
        (\<forall>p \<in> set t - {entry}. ts w \<le> ts p) \<and> (\<forall>x. victim = Some x \<longrightarrow> ts w \<le> ts x))"
proof (induction t arbitrary: victim)
  case Nil then show ?case by auto
next
  case (Cons c t)
  show ?case
  proof (cases "c = entry")
    case True
    then show ?thesis using Cons.IH [of victim] Cons.prems by auto
  next
    case False
    let ?n = "case victim of None \<Rightarrow> Some c | Some v \<Rightarrow> if ts c < ts v then Some c else Some v"
    have v: "lru_victim ts entry ?n t = v" using Cons.prems False by simp
    obtain x where x: "?n = Some x" "x = c \<or> victim = Some x" "ts x \<le> ts c" "\<And>y. victim = Some y \<Longrightarrow> ts x \<le> ts y"
    proof (cases victim)
      case (Some y)
      then show ?thesis using that [of c] that [of y] by (cases "ts c < ts y") auto
    qed (use that [of c] in simp)
    have IH: "v \<noteq> None" "\<And>w. v = Some w \<Longrightarrow> (x = w \<or> w \<in> set t \<and> w \<noteq> entry) \<and> (\<forall>p \<in> set t - {entry}. ts w \<le> ts p) \<and> ts w \<le> ts x"
      using Cons.IH [OF v] x(1) by auto
    then show ?thesis using x(2-4) False by (fastforce dest: order_trans)
  qed
qed

lemma lru_add_cases:
  assumes "lru_add ts m e t = (v, t')" "e \<notin> set t"
  shows "v = None \<and> t' = t @ [e] \<and> (length t < m \<or> t = []) \<or>
    (\<exists>w. v = Some w \<and> t' = remove1 w t @ [e] \<and> w \<in> set t \<and> m \<le> length t \<and> (\<forall>p \<in> set t. ts w \<le> ts p))"
proof (cases "t = []")
  case True
  then show ?thesis using assms(1)
    by (auto simp: lru_add_def Let_def hash_add_def hash_cnt_def split: if_splits)
next
  case False
  have "\<exists>w. lru_victim ts e None (t @ [e]) = Some w \<and> w \<in> set t \<and> (\<forall>p \<in> set t. ts w \<le> ts p)"
  proof (cases "lru_victim ts e None (t @ [e])")
    case None
    then show ?thesis using lru_victim_spec [OF None] False assms(2) by (cases t) auto
  next
    case (Some w)
    then show ?thesis using lru_victim_spec [OF Some] assms(2) by auto
  qed
  then obtain w where w: "lru_victim ts e None (t @ [e]) = Some w" "w \<in> set t" "\<forall>p \<in> set t. ts w \<le> ts p" by blast
  show ?thesis
    using assms(1) w(2,3) by (auto simp: lru_add_def Let_def hash_add_def hash_cnt_def hash_del_def remove1_append w(1) split: if_splits)
qed

section \<open>Iteration\<close>

lemma next_in_Cons:
  "distinct (pre @ p # rest) \<Longrightarrow> next_in p (pre @ p # rest) = (case rest of [] \<Rightarrow> None | r # _ \<Rightarrow> Some r)"
  by (induction pre) auto

text \<open>
  A body that removes at most the current entry sees every entry once, in insertion order.
\<close>

lemma hash_iter_fold:
  assumes "\<And>p s. I s \<Longrightarrow> p \<in> set (tbl s) \<Longrightarrow> I (body p s) \<and> (tbl (body p s) = tbl s \<or> tbl (body p s) = remove1 p (tbl s))"
  shows "I s \<Longrightarrow> tbl s = pre @ rest \<Longrightarrow> distinct (tbl s) \<Longrightarrow>
    hash_iter (length rest) tbl body (case rest of [] \<Rightarrow> None | p # _ \<Rightarrow> Some p) s = fold body rest s \<and>
    I (fold body rest s)"
proof (induction rest arbitrary: pre s)
  case (Cons p rest)
  have p: "p \<in> set (tbl s)" "p \<notin> set pre" "p \<notin> set rest" using Cons.prems(2,3) by auto
  have nxt: "next_in p (tbl s) = (case rest of [] \<Rightarrow> None | r # _ \<Rightarrow> Some r)"
    using next_in_Cons [of pre p rest] Cons.prems(2,3) by simp
  note b = assms [OF Cons.prems(1) p(1)]
  have "tbl (body p s) = (pre @ [p]) @ rest \<or> tbl (body p s) = pre @ rest"
    using b Cons.prems(2) p(2) by (auto simp: remove1_append)
  moreover have "distinct (tbl (body p s))" using b Cons.prems(3) by (auto simp: distinct_remove1)
  ultimately show ?case
    using Cons.IH [of "body p s" "pre @ [p]"] Cons.IH [of "body p s" pre] b by (auto simp: nxt)
qed simp

lemma hash_for_fold:
  assumes "\<And>p s. I s \<Longrightarrow> p \<in> set (tbl s) \<Longrightarrow> I (body p s) \<and> (tbl (body p s) = tbl s \<or> tbl (body p s) = remove1 p (tbl s))"
    "I s" "distinct (tbl s)"
  shows "hash_for tbl body s = fold body (tbl s) s" "I (hash_for tbl body s)"
  using hash_iter_fold [of I tbl body s "[]" "tbl s"] assms by (simp_all add: hash_for_def)

text \<open>When the body removes what it is given, nothing is left.\<close>

lemma hash_for_clears:
  assumes "\<And>p s. I s \<Longrightarrow> p \<in> set (tbl s) \<Longrightarrow> I (body p s) \<and> tbl (body p s) = remove1 p (tbl s)"
    "I s" "distinct (tbl s)"
  shows "tbl (hash_for tbl body s) = []" "I (hash_for tbl body s)"
proof -
  have "I s \<Longrightarrow> tbl (fold body (tbl s) s) = []" for s
  proof (induction "tbl s" arbitrary: s)
    case (Cons p t)
    then have "tbl (body p s) = t" "I (body p s)" using assms(1) [of s p] by (metis list.set_intros(1) remove1.simps(2))+
    then show ?case using Cons.hyps(1) [of "body p s"] Cons.hyps(2) by (metis fold_simps(2))
  qed simp
  then show "tbl (hash_for tbl body s) = []" "I (hash_for tbl body s)"
    using hash_for_fold [of I tbl body s] assms by metis+
qed

section \<open>The contract of a cache\<close>

text \<open>
  What the UDP proxy relies on. A session of use: entries are added under keys not in the table, found,
  removed, and their time stamps move in between.
\<close>

inductive cache_run ::
  "((ptr \<Rightarrow> ev_tstamp) \<Rightarrow> nat \<Rightarrow> ptr \<Rightarrow> 't \<Rightarrow> ptr option \<times> 't) \<Rightarrow> (ptr \<Rightarrow> 't \<Rightarrow> 't) \<Rightarrow> (ptr \<Rightarrow> 'k) \<Rightarrow> nat \<Rightarrow> 't \<Rightarrow> ptr set \<Rightarrow> 't \<Rightarrow> bool"
  for add del key m t0 where
  cache_start: "cache_run add del key m t0 {} t0"
| cache_insert: "cache_run add del key m t0 held t \<Longrightarrow> key e \<notin> key ` held \<Longrightarrow> add ts m e t = (v, t') \<Longrightarrow>
    cache_run add del key m t0 (insert e held - set_option v) t'"
| cache_remove: "cache_run add del key m t0 held t \<Longrightarrow> e \<in> held \<Longrightarrow> cache_run add del key m t0 (held - {e}) (del e t)"

locale lru_table =
  fixes entries :: "'t \<Rightarrow> ptr list" and empty :: 't
    and add :: "(ptr \<Rightarrow> ev_tstamp) \<Rightarrow> nat \<Rightarrow> ptr \<Rightarrow> 't \<Rightarrow> ptr option \<times> 't"
    and get :: "(ptr \<Rightarrow> 'k) \<Rightarrow> 'k \<Rightarrow> 't \<Rightarrow> ptr option" and del :: "ptr \<Rightarrow> 't \<Rightarrow> 't"
  assumes entries_empty: "entries empty = []"
    and add_entries: "e \<notin> set (entries t) \<Longrightarrow> distinct (entries t) \<Longrightarrow> add ts m e t = (v, t') \<Longrightarrow>
      set (entries t') = insert e (set (entries t)) - set_option v \<and> distinct (entries t') \<and>
      (\<forall>w. v = Some w \<longrightarrow> w \<in> set (entries t) \<and> (\<forall>p \<in> set (entries t). ts w \<le> ts p)) \<and>
      (v = None \<longrightarrow> length (entries t') \<le> m \<or> entries t = [])"
    and get_some: "get key k t = Some p \<Longrightarrow> p \<in> set (entries t) \<and> key p = k"
    and get_none: "get key k t = None \<Longrightarrow> p \<in> set (entries t) \<Longrightarrow> key p \<noteq> k"
    and del_entries: "distinct (entries t) \<Longrightarrow> set (entries (del e t)) = set (entries t) - {e} \<and> distinct (entries (del e t))"
begin

lemma get_iff:
  assumes "inj_on key (set (entries t))"
  shows "get key k t = Some p \<longleftrightarrow> p \<in> set (entries t) \<and> key p = k"
proof (cases "get key k t")
  case None then show ?thesis using get_none by auto
next
  case (Some q) then show ?thesis using get_some [OF Some] assms by (auto dest: inj_onD)
qed

lemma cache_run_entries:
  assumes "cache_run add del key m empty held t"
  shows "set (entries t) = held \<and> distinct (entries t) \<and> inj_on key held \<and> length (entries t) \<le> max m 1"
  using assms
proof (induction rule: cache_run.induct)
  case cache_start
  then show ?case by (simp add: entries_empty)
next
  case (cache_insert held t e ts v t')
  have e: "e \<notin> set (entries t)" using cache_insert by auto
  note a = add_entries [OF e _ cache_insert(3)]
  have len: "length (entries t') \<le> max m 1"
  proof (cases v)
    case None
    then have "card (set (entries t')) = Suc (card (set (entries t)))" using a cache_insert.IH e by (metis List.finite_set card_insert_disjoint Diff_empty option.set(1))
    then have "length (entries t') = Suc (length (entries t))" using a cache_insert.IH distinct_card by metis
    then show ?thesis using a None cache_insert.IH by auto
  next
    case (Some w)
    then have "card (set (entries t')) = card (set (entries t))"
    proof -
      have "set (entries t') = insert e (set (entries t)) - {w}" "w \<in> insert e (set (entries t))" using a Some cache_insert.IH by auto
      then show ?thesis using e by (simp add: card_Diff_singleton)
    qed
    then show ?thesis using a cache_insert.IH distinct_card by metis
  qed
  have "inj_on key (insert e held)" using cache_insert by auto
  then have "inj_on key (insert e held - set_option v)" by (rule inj_on_diff)
  then show ?case using a cache_insert.IH len by blast
next
  case (cache_remove held t e)
  note d = del_entries [of t e]
  have "length (entries (del e t)) \<le> length (entries t)"
    using d cache_remove.IH by (metis card_mono distinct_card Diff_subset List.finite_set)
  moreover have "inj_on key (held - {e})" using cache_remove.IH by (auto intro: inj_on_diff)
  ultimately show ?case using d cache_remove.IH by auto
qed

text \<open>In such a session a lookup finds exactly the entry held under the key.\<close>

lemma cache_run_get:
  assumes "cache_run add del key m empty held t"
  shows "get key k t = Some p \<longleftrightarrow> p \<in> held \<and> key p = k"
  using cache_run_entries [OF assms] get_iff [of key t k p] by auto

end

lemma lru_add_entries:
  assumes "lru_add ts m e t = (v, t')" "e \<notin> set t" "distinct t"
  shows "set t' = insert e (set t) - set_option v \<and> distinct t' \<and>
    (\<forall>w. v = Some w \<longrightarrow> w \<in> set t \<and> (\<forall>p \<in> set t. ts w \<le> ts p)) \<and> (v = None \<longrightarrow> length t' \<le> m \<or> t = [])"
  using lru_add_cases [OF assms(1,2)] assms(2,3) by (auto simp: set_remove1_eq distinct_remove1)

interpretation lru: lru_table "\<lambda>t. t" "[]" lru_add lru_find lru_del
proof
  show "lru_find key k t = Some p \<Longrightarrow> p \<in> set t \<and> key p = k" for key :: "ptr \<Rightarrow> 'k" and k t p
    unfolding lru_find_def by (rule hash_get_Some)
  show "lru_find key k t = None \<Longrightarrow> p \<in> set t \<Longrightarrow> key p \<noteq> k" for key :: "ptr \<Rightarrow> 'k" and k t p
    unfolding lru_find_def by (simp add: hash_get_None)
  show "distinct t \<Longrightarrow> set (lru_del e t) = set t - {e} \<and> distinct (lru_del e t)" for e t
    by (simp add: lru_del_def hash_del_def set_remove1_eq distinct_remove1)
qed (use lru_add_entries in blast)+

section \<open>Properties\<close>

text \<open>C37. Whatever entries are added under fresh keys and removed, and however their time stamps move in between, a lookup
  finds exactly the entry held under the key, and the table never holds more entries than its capacity (one
  entry when the capacity is zero).\<close>

theorem lru_cache_lookup:
  assumes "cache_run lru_add lru_del key m [] held t"
  shows "(lru_find key k t = Some p \<longleftrightarrow> p \<in> held \<and> key p = k) \<and> set t = held \<and> length t \<le> max m 1"
  using lru.cache_run_get [OF assms] lru.cache_run_entries [OF assms] by auto

text \<open>The cache of capacity two with three insertions at times 5, 3 and 9: the second entry goes.\<close>

definition demo_ts :: "ptr \<Rightarrow> ev_tstamp" where
  "demo_ts p = (if p = 64 then 5 else if p = 128 then 3 else 9)"

lemma demo_cache_run:
  "cache_run lru_add lru_del (\<lambda>p. p div 64) 2 [] {64, 192} [64, 192]"
proof -
  have a: "cache_run lru_add lru_del (\<lambda>p. p div 64) 2 [] (insert 64 {} - set_option None) [64]"
    by (rule cache_insert [OF cache_start, of _ _ _ demo_ts])
      (simp_all add: lru_add_def hash_add_def hash_cnt_def)
  have b: "cache_run lru_add lru_del (\<lambda>p. p div 64) 2 [] (insert 128 (insert 64 {} - set_option None) - set_option None) [64, 128]"
    by (rule cache_insert [OF a, of _ demo_ts]) (simp_all add: lru_add_def hash_add_def hash_cnt_def)
  have "cache_run lru_add lru_del (\<lambda>p. p div 64) 2 []
      (insert 192 (insert 128 (insert 64 {} - set_option None) - set_option None) - set_option (Some 128)) [64, 192]"
    by (rule cache_insert [OF b, of _ demo_ts])
      (simp_all add: lru_add_def hash_add_def hash_cnt_def hash_del_def demo_ts_def)
  moreover have "insert 192 (insert 128 (insert 64 {} - set_option None) - set_option None) - set_option (Some 128) = {64, 192::nat}"
    by auto
  ultimately show ?thesis by simp
qed

theorem lru_cache_lookup_witness:
  "lru_find (\<lambda>p. p div 64) 3 [64, 192] = Some 192 \<and> length [64, 192::nat] \<le> max 2 1"
  using lru_cache_lookup [OF demo_cache_run, of 3 192] by simp

text \<open>C38. An insertion into a full table returns the entry with the least time stamp, never the new one, and
  removes exactly that one; an insertion below the capacity removes nothing.\<close>

theorem lru_add_evicts_least_active:
  assumes "e \<notin> set t" "lru_add ts m e t = (v, t')" "0 < m"
  shows "case v of
      None \<Rightarrow> t' = t @ [e] \<and> length t < m
    | Some w \<Rightarrow> m \<le> length t \<and> w \<in> set t \<and> w \<noteq> e \<and> (\<forall>p \<in> set t. ts w \<le> ts p) \<and> t' = remove1 w t @ [e]"
  using lru_add_cases [OF assms(2,1)] assms(1,3) by auto

theorem lru_add_evicts_least_active_witness: "lru_add demo_ts 2 192 [64, 128] = (Some 128, [64, 192])"
proof -
  have run: "lru_add demo_ts 2 192 [64, 128] = (Some 128, [64, 192])"
    by (simp add: lru_add_def hash_add_def hash_cnt_def hash_del_def demo_ts_def)
  then show ?thesis using lru_add_evicts_least_active [of 192 "[64, 128]" demo_ts 2 "Some 128" "[64, 192]"] by simp
qed

text \<open>The configured size is doubled and quadrupled for the other tables, saturating at the largest 16-bit
  number instead of wrapping.\<close>

theorem udp_lrucache_sizes_saturate:
  "unat (g_fullcone_cache_maxsize (udp_lrucache_set_maxsize n c)) = unat n \<and>
   unat (g_symmetric_cache_maxsize (udp_lrucache_set_maxsize n c)) = min 65535 (2 * unat n) \<and>
   unat (g_tproxy_cache_maxsize (udp_lrucache_set_maxsize n c)) = min 65535 (4 * unat n)"
proof -
  have n: "unat n < 65536" using unsigned_less [of n] by simp
  have w: "unat (ucast n :: u32) = unat n" using n by (simp add: unsigned_ucast_eq take_bit_nat_eq_self)
  have m: "unat (ucast n * 2 :: u32) = 2 * unat n" "unat (ucast n * 4 :: u32) = 4 * unat n"
    using n by (simp_all add: unat_word_ariths w)
  have c: "unat (ucast x :: u16) = unat x" if "unat x < 65536" for x :: u32
    using that by (simp add: unsigned_ucast_eq take_bit_nat_eq_self)
  show ?thesis
    using c [of "ucast n * 2"] c [of "ucast n * 4"]
    by (auto simp: udp_lrucache_set_maxsize_def Let_def SYMMETRIC_SIZE_MULTIPLIER_def TPROXY_SIZE_MULTIPLIER_def m
        word_less_nat_alt)
qed

end
