(* ===== verification/UdpProxy.thy ===== *)
theory UdpProxy
  imports FakednsReverse Pools LruCache SelectorRanking Netutils Ss2022
begin

text \<open>
  \<^verbatim>\<open>src/src/udp_proxy.c\<close>: one thread's UDP proxy. A datagram that the firewall redirects is read with
  its original destination, mapped to a session (one per client, or one per client and target when
  the target is a fake address), sealed and sent to the session's server; the replies are opened and sent to the
  client from sockets bound to the addresses they came from.

  Sessions, the nodes of the two tables and the entries of the reply sockets live in memory pools: a pointer is the
  number its pool hands out, and a partial map per type is the memory behind it. Beside the thread's variables the
  world has the open descriptors and the datagrams the kernel has accepted, which the code does not store. The
  results of the system calls, of \<^verbatim>\<open>posix_memalign\<close> and of the constructors of the encryption library are
  arguments. Log output is left out.
\<close>

section \<open>State\<close>

definition UDP_BATCH_SIZE :: nat where "UDP_BATCH_SIZE = 16"
definition UDP_DATAGRAM_MAXSIZ :: nat where "UDP_DATAGRAM_MAXSIZ = 65507"
definition UDP_SS2022_SEAL_OVERHEAD :: nat where "UDP_SS2022_SEAL_OVERHEAD = 302"

record udp_endpoint_key =
  ep_family :: u16
  ep_port :: u16 \<comment> \<open>network byte order\<close>
  ep_addr :: bytes \<comment> \<open>16 bytes\<close>

record udp_symmetric_key =
  sk_client :: udp_endpoint_key
  sk_target :: udp_endpoint_key

record 'u udp_session =
  us_fd :: int \<comment> \<open>\<^verbatim>\<open>server_watcher.fd\<close>; the watcher is active as long as the session is\<close>
  us_client_endpoint :: udp_endpoint_key
  us_original_target_endpoint :: udp_endpoint_key
  us_uses_fakedns :: bool
  us_server_idx :: u8
  us_fullcone_node :: "ptr option"
  us_symmetric_node :: "ptr option"
  us_ss_session :: 'u

record 'k udp_node =
  un_key :: 'k
  un_session :: ptr
  un_last_active :: ev_tstamp

type_synonym udp_fullcone_node = "udp_endpoint_key udp_node"
type_synonym udp_symmetric_node = "udp_symmetric_key udp_node"

record udp_tproxy_entry =
  te_key :: udp_endpoint_key
  te_sockfd :: int
  te_last_active :: ev_tstamp

datatype udp_datagram = To_server int bytes | To_client int bytes bytes \<comment> \<open>the descriptor, the address, the payload\<close>

record ('x, 'u) udp_world =
  g_udp_fullcone_table :: table
  g_udp_symmetric_table :: table
  g_udp_tproxy_table :: table
  g_udp_session_pool :: mempool_state
  g_udp_fullcone_node_pool :: mempool_state
  g_udp_symmetric_node_pool :: mempool_state
  g_udp_tproxy_pool :: mempool_state
  session_mem :: "ptr \<rightharpoonup> 'u udp_session"
  fullcone_mem :: "ptr \<rightharpoonup> udp_fullcone_node"
  symmetric_mem :: "ptr \<rightharpoonup> udp_symmetric_node"
  tproxy_mem :: "ptr \<rightharpoonup> udp_tproxy_entry"
  g_udp_ss_ctx :: "'x option list" \<comment> \<open>\<open>Some\<close> when ready\<close>
  g_gc_timer :: bool
  udp_fds :: "int list"
  udp_sent :: "udp_datagram list"

record udp_config =
  uc_caches :: udp_lrucache
  uc_fakedns :: bool \<comment> \<open>\<^verbatim>\<open>OPT_ENABLE_FAKEDNS\<close>\<close>
  uc_idletimeout_sec :: u16
  uc_domain_name_size :: nat \<comment> \<open>the size of the name field of the library's address type\<close>

definition udp_open :: "int \<Rightarrow> ('x, 'u) udp_world \<Rightarrow> ('x, 'u) udp_world" where
  "udp_open fd w = w\<lparr>udp_fds := fd # udp_fds w\<rparr>"

definition udp_close :: "int \<Rightarrow> ('x, 'u) udp_world \<Rightarrow> ('x, 'u) udp_world" where
  "udp_close fd w = w\<lparr>udp_fds := remove1 fd (udp_fds w)\<rparr>"

section \<open>Endpoints\<close>

definition udp_endpoint_from_skaddr :: "bytes \<Rightarrow> bool \<Rightarrow> udp_endpoint_key" where
  "udp_endpoint_from_skaddr sk is_ipv4 =
     (if is_ipv4 then \<lparr>ep_family = AF_INET, ep_port = sa_port sk, ep_addr = sin_addr sk @ replicate 12 0\<rparr>
      else \<lparr>ep_family = AF_INET6, ep_port = sa_port sk, ep_addr = sin6_addr sk\<rparr>)"

text \<open>The 28 bytes of a \<^verbatim>\<open>skaddr6_t\<close>.\<close>

definition udp_endpoint_to_skaddr :: "udp_endpoint_key \<Rightarrow> bytes" where
  "udp_endpoint_to_skaddr ep =
     (let f = (if ep_family ep = AF_INET then AF_INET else AF_INET6);
          head = [byte16 0 f, byte16 1 f, byte16 0 (ep_port ep), byte16 1 (ep_port ep)]
      in if ep_family ep = AF_INET then head @ take 4 (ep_addr ep) @ replicate 20 0
         else head @ replicate 4 0 @ ep_addr ep @ replicate 4 0)"

definition udp_endpoint_from_addr :: "ss2022_addr \<Rightarrow> udp_endpoint_key" where
  "udp_endpoint_from_addr a =
     (case addr_host a of
        SS2022_ADDR_IPV4 ip \<Rightarrow> \<lparr>ep_family = AF_INET, ep_port = htons (addr_port a), ep_addr = take 4 ip @ replicate 12 0\<rparr>
      | SS2022_ADDR_IPV6 ip \<Rightarrow> \<lparr>ep_family = AF_INET6, ep_port = htons (addr_port a), ep_addr = take 16 ip\<rparr>
      | SS2022_ADDR_DOMAIN _ \<Rightarrow> \<lparr>ep_family = 0, ep_port = 0, ep_addr = replicate 16 0\<rparr>)"

definition skaddr_len :: "udp_endpoint_key \<Rightarrow> nat" where
  "skaddr_len ep = (if ep_family ep = AF_INET then SIZEOF_SKADDR4 else SIZEOF_SKADDR6)"

section \<open>Reading a datagram\<close>

record udp_ingress =
  ui_client_endpoint :: udp_endpoint_key
  ui_original_target_endpoint :: udp_endpoint_key
  ui_uses_fakedns :: bool
  ui_ss_target :: ss2022_addr

record udp_msg =
  msg_namelen :: nat
  msg_name :: bytes
  msg_control :: "(cmsg_kind \<times> bytes) list"
  msg_len :: nat
  msg_buffer :: bytes \<comment> \<open>the first \<^verbatim>\<open>msg_len\<close> bytes of the slot's buffer\<close>

definition udp_ingress_get_sender :: "udp_msg \<Rightarrow> bytes option" where
  "udp_ingress_get_sender msg =
     (if msg_namelen msg = SIZEOF_SKADDR4 then Some (take SIZEOF_SKADDR4 (msg_name msg))
      else if msg_namelen msg = SIZEOF_SKADDR6 then Some (take SIZEOF_SKADDR6 (msg_name msg))
      else None)"

text \<open>The name behind a fake address, or \<open>None\<close> for a packet to drop.\<close>

definition udp_ingress_resolve_fakedns ::
  "udp_config \<Rightarrow> fakedns \<Rightarrow> bytes \<Rightarrow> bool \<Rightarrow> fakedns_mru \<Rightarrow> bytes option option \<times> fakedns_mru" where
  "udp_ingress_resolve_fakedns cfg dns original_target_skaddr is_ipv4 m =
     (if \<not> uc_fakedns cfg \<or> \<not> is_ipv4 then (Some None, m)
      else (case fakedns_try_resolve dns (sin_s_addr original_target_skaddr) m of
              ((fake_domain, is_miss), m) \<Rightarrow> (if is_miss then None else Some fake_domain, m)))"

definition udp_ingress_parse ::
  "udp_config \<Rightarrow> fakedns \<Rightarrow> udp_msg \<Rightarrow> bool \<Rightarrow> fakedns_mru \<Rightarrow> udp_ingress option \<times> fakedns_mru" where
  "udp_ingress_parse cfg dns msg is_ipv4 m =
     (case udp_ingress_get_sender msg of
        None \<Rightarrow> (None, m)
      | Some client_skaddr \<Rightarrow>
          (case get_udp_orig_dstaddr (if is_ipv4 then AF_INET else AF_INET6) (msg_control msg) of
             None \<Rightarrow> (None, m)
           | Some sk \<Rightarrow>
               (case udp_ingress_resolve_fakedns cfg dns sk is_ipv4 m of
                  (None, m) \<Rightarrow> (None, m)
                | (Some fake_domain, m) \<Rightarrow>
                    (let host = (case fake_domain of
                                   Some d \<Rightarrow> if length d = 0 \<or> length d > uc_domain_name_size cfg then None
                                             else Some (SS2022_ADDR_DOMAIN d)
                                 | None \<Rightarrow> Some (if is_ipv4 then SS2022_ADDR_IPV4 (sin_addr sk)
                                                  else SS2022_ADDR_IPV6 (sin6_addr sk)))
                     in case host of
                          None \<Rightarrow> (None, m)
                        | Some h \<Rightarrow>
                            if msg_len msg > UDP_DATAGRAM_MAXSIZ - UDP_SS2022_SEAL_OVERHEAD then (None, m)
                            else (Some \<lparr>ui_client_endpoint = udp_endpoint_from_skaddr client_skaddr is_ipv4,
                                        ui_original_target_endpoint = udp_endpoint_from_skaddr sk is_ipv4,
                                        ui_uses_fakedns = (fake_domain \<noteq> None),
                                        ui_ss_target = \<lparr>addr_port = ntohs (sa_port sk), addr_host = h\<rparr>\<rparr>, m)))))"

section \<open>Sessions\<close>

definition sess :: "('x, 'u) udp_world \<Rightarrow> ptr \<Rightarrow> 'u udp_session" where
  "sess w p = the (session_mem w p)"

definition full :: "('x, 'u) udp_world \<Rightarrow> ptr \<Rightarrow> udp_fullcone_node" where
  "full w n = the (fullcone_mem w n)"

definition symm :: "('x, 'u) udp_world \<Rightarrow> ptr \<Rightarrow> udp_symmetric_node" where
  "symm w n = the (symmetric_mem w n)"

definition tpro :: "('x, 'u) udp_world \<Rightarrow> ptr \<Rightarrow> udp_tproxy_entry" where
  "tpro w e = the (tproxy_mem w e)"

definition udp_ctx_get :: "'x option \<Rightarrow> nat \<Rightarrow> ('x, 'u) udp_world \<Rightarrow> 'x option \<times> ('x, 'u) udp_world" where
  "udp_ctx_get init idx w =
     (case g_udp_ss_ctx w ! idx of
        Some c \<Rightarrow> (Some c, w)
      | None \<Rightarrow> (case init of
                   None \<Rightarrow> (None, w)
                 | Some c \<Rightarrow> (Some c, w\<lparr>g_udp_ss_ctx := (g_udp_ss_ctx w)[idx := Some c]\<rparr>)))"

definition udp_session_lookup ::
  "udp_ingress \<Rightarrow> udp_symmetric_key option \<Rightarrow> ('x, 'u) udp_world \<Rightarrow> ptr option" where
  "udp_session_lookup pkt symmetric_key w =
     (case symmetric_key of
        Some k \<Rightarrow> (case lru_find (\<lambda>n. un_key (symm w n)) k (g_udp_symmetric_table w) of
                     Some n \<Rightarrow> Some (un_session (symm w n)) | None \<Rightarrow> None)
      | None \<Rightarrow> (case lru_find (\<lambda>n. un_key (full w n)) (ui_client_endpoint pkt) (g_udp_fullcone_table w) of
                   Some n \<Rightarrow> Some (un_session (full w n)) | None \<Rightarrow> None))"

definition udp_session_touch :: "ptr \<Rightarrow> ev_tstamp \<Rightarrow> ('x, 'u) udp_world \<Rightarrow> ('x, 'u) udp_world" where
  "udp_session_touch p now w =
     (case us_fullcone_node (sess w p) of
        Some n \<Rightarrow> w\<lparr>fullcone_mem := (fullcone_mem w)(n \<mapsto> (full w n)\<lparr>un_last_active := now\<rparr>)\<rparr>
      | None \<Rightarrow>
          (let n = the (us_symmetric_node (sess w p))
           in w\<lparr>symmetric_mem := (symmetric_mem w)(n \<mapsto> (symm w n)\<lparr>un_last_active := now\<rparr>)\<rparr>))"

definition udp_session_free :: "ptr \<Rightarrow> ('x, 'u) udp_world \<Rightarrow> ('x, 'u) udp_world" where
  "udp_session_free p w =
     (udp_close (us_fd (sess w p)) w)
       \<lparr>g_udp_session_pool := pool_free p (g_udp_session_pool w), session_mem := (session_mem w)(p := None)\<rparr>"

definition udp_tproxy_entry_free :: "ptr \<Rightarrow> ('x, 'u) udp_world \<Rightarrow> ('x, 'u) udp_world" where
  "udp_tproxy_entry_free e w =
     (udp_close (te_sockfd (tpro w e)) w)
       \<lparr>g_udp_tproxy_pool := pool_free e (g_udp_tproxy_pool w), tproxy_mem := (tproxy_mem w)(e := None)\<rparr>"

datatype udp_entry_state = UDP_ENTRY_INDEXED | UDP_ENTRY_DETACHED

definition udp_session_close :: "ptr \<Rightarrow> udp_entry_state \<Rightarrow> ('x, 'u) udp_world \<Rightarrow> ('x, 'u) udp_world" where
  "udp_session_close p state w =
     udp_session_free p
       (case us_fullcone_node (sess w p) of
          Some n \<Rightarrow>
            w\<lparr>g_udp_fullcone_table :=
                (if state = UDP_ENTRY_INDEXED then lru_del n (g_udp_fullcone_table w) else g_udp_fullcone_table w),
              g_udp_fullcone_node_pool := pool_free n (g_udp_fullcone_node_pool w),
              fullcone_mem := (fullcone_mem w)(n := None),
              session_mem := (session_mem w)(p \<mapsto> (sess w p)\<lparr>us_fullcone_node := None\<rparr>)\<rparr>
        | None \<Rightarrow>
            (let n = the (us_symmetric_node (sess w p)) in
             w\<lparr>g_udp_symmetric_table :=
                 (if state = UDP_ENTRY_INDEXED then lru_del n (g_udp_symmetric_table w) else g_udp_symmetric_table w),
               g_udp_symmetric_node_pool := pool_free n (g_udp_symmetric_node_pool w),
               symmetric_mem := (symmetric_mem w)(n := None),
               session_mem := (session_mem w)(p \<mapsto> (sess w p)\<lparr>us_symmetric_node := None\<rparr>)\<rparr>))"

definition udp_session_close_indexed :: "ptr \<Rightarrow> ('x, 'u) udp_world \<Rightarrow> ('x, 'u) udp_world" where
  "udp_session_close_indexed p w = udp_session_close p UDP_ENTRY_INDEXED w"

definition udp_session_close_detached :: "ptr \<Rightarrow> ('x, 'u) udp_world \<Rightarrow> ('x, 'u) udp_world" where
  "udp_session_close_detached p w = udp_session_close p UDP_ENTRY_DETACHED w"

definition udp_tproxy_entry_close :: "ptr \<Rightarrow> ('x, 'u) udp_world \<Rightarrow> ('x, 'u) udp_world" where
  "udp_tproxy_entry_close e w = udp_tproxy_entry_free e (w\<lparr>g_udp_tproxy_table := lru_del e (g_udp_tproxy_table w)\<rparr>)"

definition udp_session_register_fullcone ::
  "udp_config \<Rightarrow> (nat \<Rightarrow> nat option) \<Rightarrow> ptr \<Rightarrow> ev_tstamp \<Rightarrow> ('x, 'u) udp_world \<Rightarrow> bool \<times> ('x, 'u) udp_world" where
  "udp_session_register_fullcone cfg memalign p now w =
     (case pool_alloc memalign (g_udp_fullcone_node_pool w) of
        (None, pool) \<Rightarrow> (False, w\<lparr>g_udp_fullcone_node_pool := pool\<rparr>)
      | (Some n, pool) \<Rightarrow>
          (let w = w\<lparr>g_udp_fullcone_node_pool := pool,
                     fullcone_mem := (fullcone_mem w)(n \<mapsto>
                       \<lparr>un_key = us_client_endpoint (sess w p), un_session = p, un_last_active = now\<rparr>),
                     session_mem := (session_mem w)(p \<mapsto> (sess w p)\<lparr>us_fullcone_node := Some n\<rparr>)\<rparr>
           in case lru_add (\<lambda>n. un_last_active (full w n)) (unat (g_fullcone_cache_maxsize (uc_caches cfg))) n
                     (g_udp_fullcone_table w) of
                (victim, table) \<Rightarrow>
                  (let w = w\<lparr>g_udp_fullcone_table := table\<rparr>
                   in (True, case victim of None \<Rightarrow> w
                                          | Some v \<Rightarrow> udp_session_close_detached (un_session (full w v)) w))))"

definition udp_session_register_symmetric ::
  "udp_config \<Rightarrow> (nat \<Rightarrow> nat option) \<Rightarrow> ptr \<Rightarrow> udp_symmetric_key \<Rightarrow> ev_tstamp \<Rightarrow> ('x, 'u) udp_world \<Rightarrow>
   bool \<times> ('x, 'u) udp_world" where
  "udp_session_register_symmetric cfg memalign p symmetric_key now w =
     (case pool_alloc memalign (g_udp_symmetric_node_pool w) of
        (None, pool) \<Rightarrow> (False, w\<lparr>g_udp_symmetric_node_pool := pool\<rparr>)
      | (Some n, pool) \<Rightarrow>
          (let w = w\<lparr>g_udp_symmetric_node_pool := pool,
                     symmetric_mem := (symmetric_mem w)(n \<mapsto>
                       \<lparr>un_key = symmetric_key, un_session = p, un_last_active = now\<rparr>),
                     session_mem := (session_mem w)(p \<mapsto> (sess w p)\<lparr>us_symmetric_node := Some n\<rparr>)\<rparr>
           in case lru_add (\<lambda>n. un_last_active (symm w n)) (unat (g_symmetric_cache_maxsize (uc_caches cfg))) n
                     (g_udp_symmetric_table w) of
                (victim, table) \<Rightarrow>
                  (let w = w\<lparr>g_udp_symmetric_table := table\<rparr>
                   in (True, case victim of None \<Rightarrow> w
                                          | Some v \<Rightarrow> udp_session_close_detached (un_session (symm w v)) w))))"

text \<open>The answers to the calls that the creation of a session makes.\<close>

record ('x, 'u) udp_session_env =
  se_fd :: int \<comment> \<open>of \<^verbatim>\<open>new_udp_normal_sockfd\<close>\<close>
  se_connect_ok :: bool
  se_session_mem :: "nat \<Rightarrow> nat option"
  se_node_mem :: "nat \<Rightarrow> nat option"
  se_ctx :: "'x option"
  se_session :: "'u option"

definition udp_relay_connect_server :: "('x, 'u) udp_session_env \<Rightarrow> ('x, 'u) udp_world \<Rightarrow> int \<times> ('x, 'u) udp_world" where
  "udp_relay_connect_server env w =
     (if se_fd env < 0 then (-1, w)
      else (let w = udp_open (se_fd env) w
            in if \<not> se_connect_ok env then (-1, udp_close (se_fd env) w) else (se_fd env, w)))"

definition udp_session_create ::
  "udp_config \<Rightarrow> ('x, 'u) udp_session_env \<Rightarrow> ev_tstamp \<Rightarrow> udp_ingress \<Rightarrow> udp_symmetric_key option \<Rightarrow> int \<Rightarrow>
   ('x, 'u) udp_world \<Rightarrow> ptr option \<times> ('x, 'u) udp_world" where
  "udp_session_create cfg env now pkt symmetric_key server_idx w =
     (case udp_relay_connect_server env w of
        (fd, w) \<Rightarrow>
          if fd < 0 then (None, w)
          else (case pool_alloc (se_session_mem env) (g_udp_session_pool w) of
                  (None, pool) \<Rightarrow> (None, udp_close fd (w\<lparr>g_udp_session_pool := pool\<rparr>))
                | (Some p, pool) \<Rightarrow>
                    (let w = w\<lparr>g_udp_session_pool := pool\<rparr>;
                         undo = (\<lambda>w. (None, (udp_close fd w)\<lparr>g_udp_session_pool := pool_free p (g_udp_session_pool w)\<rparr>))
                     in case udp_ctx_get (se_ctx env) (nat server_idx) w of
                          (None, w) \<Rightarrow> undo w
                        | (Some ctx, w) \<Rightarrow>
                            (case se_session env of
                               None \<Rightarrow> undo w
                             | Some u \<Rightarrow>
                                 (let w = w\<lparr>session_mem := (session_mem w)(p \<mapsto>
                                              \<lparr>us_fd = fd, us_client_endpoint = ui_client_endpoint pkt,
                                               us_original_target_endpoint = ui_original_target_endpoint pkt,
                                               us_uses_fakedns = ui_uses_fakedns pkt, us_server_idx = word_of_int server_idx,
                                               us_fullcone_node = None, us_symmetric_node = None, us_ss_session = u\<rparr>)\<rparr>
                                  in case (if ui_uses_fakedns pkt
                                           then udp_session_register_symmetric cfg (se_node_mem env) p (the symmetric_key) now w
                                           else udp_session_register_fullcone cfg (se_node_mem env) p now w) of
                                       (False, w) \<Rightarrow> (None, udp_session_free p w)
                                     | (True, w) \<Rightarrow> (Some p, w))))))"

definition udp_session_get_or_create ::
  "udp_config \<Rightarrow> 'y selectors \<Rightarrow> ('x, 'u) udp_session_env \<Rightarrow> ev_tstamp \<Rightarrow> udp_ingress \<Rightarrow> udp_symmetric_key option \<Rightarrow>
   ('x, 'u) udp_world \<Rightarrow> ptr option \<times> ('x, 'u) udp_world" where
  "udp_session_get_or_create cfg sel env now pkt symmetric_key w =
     (case udp_session_lookup pkt symmetric_key w of
        Some p \<Rightarrow>
          (let server_idx = server_selector_udp_replacement (uint (us_server_idx (sess w p))) sel
           in if server_idx \<ge> 0
              then udp_session_create cfg env now pkt symmetric_key server_idx (udp_session_close_indexed p w)
              else (Some p, udp_session_touch p now w))
      | None \<Rightarrow> udp_session_create cfg env now pkt symmetric_key (server_selector_best_udp sel) w)"

section \<open>From the client to the server\<close>

definition udp_relay_send_to_server ::
  "'u ss2022_udp \<Rightarrow> nat io list \<Rightarrow> ptr \<Rightarrow> ss2022_addr \<Rightarrow> bytes \<Rightarrow> ('x, 'u) udp_world \<Rightarrow> ('x, 'u) udp_world" where
  "udp_relay_send_to_server lib sends p target payload w =
     (case udp_client_seal lib (us_ss_session (sess w p)) target payload UDP_DATAGRAM_MAXSIZ of
        (sealed, u) \<Rightarrow>
          (let w = w\<lparr>session_mem := (session_mem w)(p \<mapsto> (sess w p)\<lparr>us_ss_session := u\<rparr>)\<rparr>
           in case sealed of
                None \<Rightarrow> w
              | Some out \<Rightarrow>
                  (case fst (retry_eintr sends) of
                     IoErr _ \<Rightarrow> w
                   | IoOk n \<Rightarrow> if n = 0 then w else w\<lparr>udp_sent := udp_sent w @ [To_server (us_fd (sess w p)) out]\<rparr>)))"

definition udp_proxy_handle_ingress ::
  "udp_config \<Rightarrow> fakedns \<Rightarrow> 'y selectors \<Rightarrow> 'u ss2022_udp \<Rightarrow> ('x, 'u) udp_session_env \<Rightarrow> nat io list \<Rightarrow> ev_tstamp \<Rightarrow> bool \<Rightarrow>
   udp_msg \<Rightarrow> fakedns_mru \<Rightarrow> ('x, 'u) udp_world \<Rightarrow> fakedns_mru \<times> ('x, 'u) udp_world" where
  "udp_proxy_handle_ingress cfg dns sel lib env sends now is_ipv4 msg m w =
     (case udp_ingress_parse cfg dns msg is_ipv4 m of
        (None, m) \<Rightarrow> (m, w)
      | (Some pkt, m) \<Rightarrow>
          (let key = (if ui_uses_fakedns pkt
                      then Some \<lparr>sk_client = ui_client_endpoint pkt, sk_target = ui_original_target_endpoint pkt\<rparr>
                      else None)
           in case udp_session_get_or_create cfg sel env now pkt key w of
                (None, w) \<Rightarrow> (m, w)
              | (Some p, w) \<Rightarrow> (m, udp_relay_send_to_server lib sends p (ui_ss_target pkt) (msg_buffer msg) w)))"

text \<open>The batch: the messages that \<^verbatim>\<open>recvmmsg\<close> returned, with the answers to the calls of each.\<close>

definition udp_proxy_on_recvmsg ::
  "udp_config \<Rightarrow> fakedns \<Rightarrow> 'u ss2022_udp \<Rightarrow> ev_tstamp \<Rightarrow> bool \<Rightarrow>
   (udp_msg \<times> 'y selectors \<times> ('x, 'u) udp_session_env \<times> nat io list) list io list \<Rightarrow>
   fakedns_mru \<Rightarrow> ('x, 'u) udp_world \<Rightarrow> fakedns_mru \<times> ('x, 'u) udp_world" where
  "udp_proxy_on_recvmsg cfg dns lib now is_ipv4 recvs m w =
     (case fst (retry_eintr recvs) of
        IoErr _ \<Rightarrow> (m, w)
      | IoOk msgs \<Rightarrow>
          fold (\<lambda>(msg, sel, env, sends) (m, w).
                  udp_proxy_handle_ingress cfg dns sel lib env sends now is_ipv4 msg m w)
            (take UDP_BATCH_SIZE msgs) (m, w))"

end
