(* ===== verification/UdpReply.thy ===== *)
theory UdpReply
  imports UdpProxy
begin

text \<open>
  The way back in \<^verbatim>\<open>src/src/udp_proxy.c\<close>: the replies of a session's server, the sockets they are
  sent from, the grouping of a batch by socket; and the periodic removal of what has been idle, and the
  shutdown.
\<close>

section \<open>Sockets for the addresses that replies come from\<close>

record udp_tproxy_env =
  tpe_fd :: int \<comment> \<open>of \<^verbatim>\<open>new_udp_tpsend_sockfd\<close>\<close>
  tpe_bind_ok :: bool
  tpe_mem :: "nat \<Rightarrow> nat option"

text \<open>The entries evicted from the table go to the list \<open>deferred\<close>.\<close>

definition udp_tproxy_entry_get_or_create ::
  "udp_config \<Rightarrow> udp_tproxy_env \<Rightarrow> ev_tstamp \<Rightarrow> udp_endpoint_key \<Rightarrow> ptr list \<Rightarrow> ('x, 'u) udp_world \<Rightarrow>
   ptr option \<times> ptr list \<times> ('x, 'u) udp_world" where
  "udp_tproxy_entry_get_or_create cfg env now reply_src deferred w =
     (case lru_find (\<lambda>e. te_key (tpro w e)) reply_src (g_udp_tproxy_table w) of
        Some e \<Rightarrow> (Some e, deferred, w\<lparr>tproxy_mem := (tproxy_mem w)(e \<mapsto> (tpro w e)\<lparr>te_last_active := now\<rparr>)\<rparr>)
      | None \<Rightarrow>
          if tpe_fd env < 0 then (None, deferred, w)
          else
            (let fd = tpe_fd env; w = udp_open fd w
             in if \<not> tpe_bind_ok env then (None, deferred, udp_close fd w)
                else (case pool_alloc (tpe_mem env) (g_udp_tproxy_pool w) of
                        (None, pool) \<Rightarrow> (None, deferred, udp_close fd (w\<lparr>g_udp_tproxy_pool := pool\<rparr>))
                      | (Some e, pool) \<Rightarrow>
                          (let w = w\<lparr>g_udp_tproxy_pool := pool,
                                     tproxy_mem := (tproxy_mem w)(e \<mapsto>
                                       \<lparr>te_key = reply_src, te_sockfd = fd, te_last_active = now\<rparr>)\<rparr>
                           in case lru_add (\<lambda>e. te_last_active (tpro w e)) (unat (g_tproxy_cache_maxsize (uc_caches cfg))) e
                                     (g_udp_tproxy_table w) of
                                (victim, table) \<Rightarrow>
                                  (Some e, (case victim of None \<Rightarrow> deferred | Some v \<Rightarrow> deferred @ [v]),
                                   w\<lparr>g_udp_tproxy_table := table\<rparr>)))))"

section \<open>Sending a batch\<close>

record udp_tproxy_send =
  ts_source_entry :: ptr
  ts_client_addr :: bytes
  ts_payload :: bytes

definition udp_tproxy_queue_client_send :: "ptr \<Rightarrow> bytes \<Rightarrow> udp_endpoint_key \<Rightarrow> udp_tproxy_send" where
  "udp_tproxy_queue_client_send e payload client =
     \<lparr>ts_source_entry = e, ts_client_addr = take (skaddr_len client) (udp_endpoint_to_skaddr client), ts_payload = payload\<rparr>"

text \<open>
  The inner loop from \<open>j\<close> on: the slots of the entry \<open>entry\<close> are swapped to the front of what is left. The result is
  the number of them and the new order.
\<close>

fun group_loop :: "('s \<Rightarrow> ptr) \<Rightarrow> 's list \<Rightarrow> ptr \<Rightarrow> nat \<Rightarrow> nat list \<Rightarrow> nat \<Rightarrow> nat list \<Rightarrow> nat \<times> nat list" where
  "group_loop src batch entry i [] g idx = (g, idx)"
| "group_loop src batch entry i (j # js) g idx =
     (if src (batch ! (idx ! j)) = entry
      then group_loop src batch entry i js (g + 1)
             (if j \<noteq> i + g then idx[i + g := idx ! j, j := idx ! (i + g)] else idx)
      else group_loop src batch entry i js g idx)"

lemma group_loop_count: "g \<le> fst (group_loop src batch entry i js g idx)"
proof (induction js arbitrary: g idx)
  case (Cons j js)
  show ?case using Cons.IH [of "g + 1"] Cons.IH [of g] by (auto intro: Suc_leD)
qed simp

lemma group_loop_some: "i < n \<Longrightarrow> 0 < fst (group_loop src batch (src (batch ! (idx ! i))) i [i..<n] 0 idx)"
  using group_loop_count [of 1 src batch "src (batch ! (idx ! i))" i "[Suc i..<n]" idx] by (simp add: upt_rec [of i n])

text \<open>The outer loop: the calls it makes, each the entry and the slots of the batch in the order sent.\<close>

function flush_loop :: "('s \<Rightarrow> ptr) \<Rightarrow> 's list \<Rightarrow> nat \<Rightarrow> nat \<Rightarrow> nat list \<Rightarrow> (ptr \<times> nat list) list" where
  "flush_loop src batch n i idx =
     (if i < n
      then (let entry = src (batch ! (idx ! i)) in
            case group_loop src batch entry i [i..<n] 0 idx of
              (g, idx) \<Rightarrow> (entry, map (\<lambda>k. idx ! (i + k)) [0..<g]) # flush_loop src batch n (i + g) idx)
      else [])"
  by pat_completeness auto

text \<open>Every group holds the slot it starts with, so the loop advances.\<close>

termination
proof (relation "measure (\<lambda>(src, batch, n, i, idx). n - i)", goal_cases)
  case (2 src batch n i idx x g idx')
  then show ?case using group_loop_some [of i n src batch idx] by (metis diff_less_mono2 fst_conv in_measure less_add_same_cancel1 prod.case)
qed simp

declare flush_loop.simps [simp del]

text \<open>A call sends a prefix of its messages or fails and sends none; what is not sent is dropped.\<close>

fun send_groups :: "(ptr \<Rightarrow> int) \<Rightarrow> udp_tproxy_send list \<Rightarrow> (ptr \<times> nat list) list \<Rightarrow> nat io list \<Rightarrow> udp_datagram list" where
  "send_groups fd_of batch [] sends = []"
| "send_groups fd_of batch ((entry, slots) # groups) sends =
     (case retry_eintr sends of
        (r, sends) \<Rightarrow>
          map (\<lambda>k. To_client (fd_of entry) (ts_client_addr (batch ! k)) (ts_payload (batch ! k)))
            (take (case r of IoOk n \<Rightarrow> n | IoErr _ \<Rightarrow> 0) slots) @
          send_groups fd_of batch groups sends)"

definition udp_tproxy_flush_client_sends ::
  "udp_tproxy_send list \<Rightarrow> nat io list \<Rightarrow> ('x, 'u) udp_world \<Rightarrow> ('x, 'u) udp_world" where
  "udp_tproxy_flush_client_sends batch sends w =
     w\<lparr>udp_sent := udp_sent w @
         send_groups (\<lambda>e. te_sockfd (tpro w e)) batch
           (flush_loop ts_source_entry batch (length batch) 0 [0..<length batch]) sends\<rparr>"

section \<open>A batch of replies\<close>

text \<open>One datagram of the batch: it adds at most one message to the ones to send.\<close>

definition udp_reply_one ::
  "udp_config \<Rightarrow> 'u ss2022_udp \<Rightarrow> ev_tstamp \<Rightarrow> ptr \<Rightarrow> udp_tproxy_env \<Rightarrow> bytes \<Rightarrow>
   udp_tproxy_send list \<times> ptr list \<times> ('x, 'u) udp_world \<Rightarrow> udp_tproxy_send list \<times> ptr list \<times> ('x, 'u) udp_world" where
  "udp_reply_one cfg lib now p env d acc =
     (case acc of (batch, deferred, w) \<Rightarrow>
        (case udp_client_open lib (us_ss_session (sess w p)) d UDP_DATAGRAM_MAXSIZ of
           (opened, u) \<Rightarrow>
             (let w = w\<lparr>session_mem := (session_mem w)(p \<mapsto> (sess w p)\<lparr>us_ss_session := u\<rparr>)\<rparr>
              in case opened of
                   None \<Rightarrow> (batch, deferred, w)
                 | Some (source_addr, plain) \<Rightarrow>
                     (let reply_src =
                            (if us_uses_fakedns (sess w p) then Some (us_original_target_endpoint (sess w p))
                             else (case addr_host source_addr of
                                     SS2022_ADDR_DOMAIN _ \<Rightarrow> None
                                   | _ \<Rightarrow> Some (udp_endpoint_from_addr source_addr)))
                      in case reply_src of
                           None \<Rightarrow> (batch, deferred, w)
                         | Some rs \<Rightarrow>
                             (case udp_tproxy_entry_get_or_create cfg env now rs deferred w of
                                (None, deferred, w) \<Rightarrow> (batch, deferred, w)
                              | (Some e, deferred, w) \<Rightarrow>
                                  (batch @ [udp_tproxy_queue_client_send e plain (us_client_endpoint (sess w p))],
                                   deferred, w))))))"

definition udp_relay_on_server_reply ::
  "udp_config \<Rightarrow> 'u ss2022_udp \<Rightarrow> ev_tstamp \<Rightarrow> (bytes \<times> udp_tproxy_env) list io list \<Rightarrow> nat io list \<Rightarrow> ptr \<Rightarrow>
   ('x, 'u) udp_world \<Rightarrow> ('x, 'u) udp_world" where
  "udp_relay_on_server_reply cfg lib now recvs sends p w =
     (case fst (retry_eintr recvs) of
        IoErr _ \<Rightarrow> w
      | IoOk [] \<Rightarrow> w
      | IoOk msgs \<Rightarrow>
          (case fold (\<lambda>(d, env). udp_reply_one cfg lib now p env d) (take UDP_BATCH_SIZE msgs) ([], [], udp_session_touch p now w) of
             (batch, deferred, w) \<Rightarrow>
               fold udp_tproxy_entry_free deferred (udp_tproxy_flush_client_sends batch sends w)))"

section \<open>Idle sessions and entries\<close>

definition GC_INTERVAL_SEC :: rat where "GC_INTERVAL_SEC = 10"

definition udp_gc_is_idle :: "ev_tstamp \<Rightarrow> ev_tstamp \<Rightarrow> ev_tstamp \<Rightarrow> bool" where
  "udp_gc_is_idle now last_active timeout \<longleftrightarrow> fsub now last_active \<ge> timeout"

definition udp_gc_tproxy_timeout :: "udp_config \<Rightarrow> ev_tstamp" where
  "udp_gc_tproxy_timeout cfg = fdiv (of_nat (unat (uc_idletimeout_sec cfg))) 2"

definition udp_gc_sweep_fullcone_sessions :: "ev_tstamp \<Rightarrow> ev_tstamp \<Rightarrow> ('x, 'u) udp_world \<Rightarrow> ('x, 'u) udp_world" where
  "udp_gc_sweep_fullcone_sessions now timeout w =
     hash_for g_udp_fullcone_table
       (\<lambda>n w. if udp_gc_is_idle now (un_last_active (full w n)) timeout
              then udp_session_close_indexed (un_session (full w n)) w else w) w"

definition udp_gc_sweep_symmetric_sessions :: "ev_tstamp \<Rightarrow> ev_tstamp \<Rightarrow> ('x, 'u) udp_world \<Rightarrow> ('x, 'u) udp_world" where
  "udp_gc_sweep_symmetric_sessions now timeout w =
     hash_for g_udp_symmetric_table
       (\<lambda>n w. if udp_gc_is_idle now (un_last_active (symm w n)) timeout
              then udp_session_close_indexed (un_session (symm w n)) w else w) w"

definition udp_gc_sweep_tproxy_entries :: "ev_tstamp \<Rightarrow> ev_tstamp \<Rightarrow> ('x, 'u) udp_world \<Rightarrow> ('x, 'u) udp_world" where
  "udp_gc_sweep_tproxy_entries now timeout w =
     hash_for g_udp_tproxy_table
       (\<lambda>e w. if udp_gc_is_idle now (te_last_active (tpro w e)) timeout then udp_tproxy_entry_close e w else w) w"

definition udp_gc_on_tick :: "udp_config \<Rightarrow> ev_tstamp \<Rightarrow> ('x, 'u) udp_world \<Rightarrow> ('x, 'u) udp_world" where
  "udp_gc_on_tick cfg now w =
     (let session_timeout = of_nat (unat (uc_idletimeout_sec cfg)) in
      udp_gc_sweep_tproxy_entries now (udp_gc_tproxy_timeout cfg)
        (udp_gc_sweep_symmetric_sessions now session_timeout
          (udp_gc_sweep_fullcone_sessions now session_timeout w)))"

definition udp_proxy_gc_start :: "('x, 'u) udp_world \<Rightarrow> ('x, 'u) udp_world" where
  "udp_proxy_gc_start w = w\<lparr>g_gc_timer := True\<rparr>"

definition udp_proxy_gc_stop :: "('x, 'u) udp_world \<Rightarrow> ('x, 'u) udp_world" where
  "udp_proxy_gc_stop w = w\<lparr>g_gc_timer := False\<rparr>"

section \<open>Shutdown\<close>

definition udp_fullcone_session_clear_cb :: "ptr \<Rightarrow> ('x, 'u) udp_world \<Rightarrow> ('x, 'u) udp_world" where
  "udp_fullcone_session_clear_cb n w = udp_session_close_indexed (un_session (full w n)) w"

definition udp_symmetric_session_clear_cb :: "ptr \<Rightarrow> ('x, 'u) udp_world \<Rightarrow> ('x, 'u) udp_world" where
  "udp_symmetric_session_clear_cb n w = udp_session_close_indexed (un_session (symm w n)) w"

definition udp_tproxy_entry_clear_cb :: "ptr \<Rightarrow> ('x, 'u) udp_world \<Rightarrow> ('x, 'u) udp_world" where
  "udp_tproxy_entry_clear_cb e w = udp_tproxy_entry_close e w"

definition udp_proxy_close_all_sessions :: "('x, 'u) udp_world \<Rightarrow> ('x, 'u) udp_world" where
  "udp_proxy_close_all_sessions w =
     lru_clear g_udp_tproxy_table udp_tproxy_entry_clear_cb
       (lru_clear g_udp_symmetric_table udp_symmetric_session_clear_cb
         (lru_clear g_udp_fullcone_table udp_fullcone_session_clear_cb (udp_proxy_gc_stop w)))"

definition udp_proxy_ctx_cleanup :: "('x, 'u) udp_world \<Rightarrow> ('x, 'u) udp_world" where
  "udp_proxy_ctx_cleanup w = w\<lparr>g_udp_ss_ctx := replicate SS_MAX_SERVERS None\<rparr>"

end
