(* ===== verification/UdpSessions.thy ===== *)
theory UdpSessions
  imports UdpReply
begin

text \<open>
  The invariant of one thread's UDP proxy: sessions and table nodes pair up, every block a pool has handed out is a
  session, a node or an entry that a table (or the list of deferred evictions) holds, and the open descriptors are
  those of the sessions and the entries.
\<close>

section \<open>The invariant\<close>

definition session_fds :: "('x, 'u) udp_world \<Rightarrow> int multiset" where
  "session_fds w = image_mset (\<lambda>p. us_fd (sess w p)) (mset_set (dom (session_mem w)))"

definition tproxy_fds :: "('x, 'u) udp_world \<Rightarrow> int multiset" where
  "tproxy_fds w = image_mset (\<lambda>e. te_sockfd (tpro w e)) (mset_set (dom (tproxy_mem w)))"

text \<open>A session that is not for a fake address belongs to one node of the first table, the others to one of the second.\<close>

definition session_linked :: "('x, 'u) udp_world \<Rightarrow> ptr \<Rightarrow> bool" where
  "session_linked w p \<longleftrightarrow>
     (if us_uses_fakedns (sess w p)
      then us_fullcone_node (sess w p) = None \<and>
        (\<exists>n \<in> dom (symmetric_mem w). us_symmetric_node (sess w p) = Some n \<and> un_session (symm w n) = p)
      else us_symmetric_node (sess w p) = None \<and>
        (\<exists>n \<in> dom (fullcone_mem w). us_fullcone_node (sess w p) = Some n \<and> un_session (full w n) = p))"

definition fullcone_linked :: "('x, 'u) udp_world \<Rightarrow> ptr \<Rightarrow> bool" where
  "fullcone_linked w n \<longleftrightarrow> (let p = un_session (full w n) in
     p \<in> dom (session_mem w) \<and> \<not> us_uses_fakedns (sess w p) \<and> us_fullcone_node (sess w p) = Some n \<and>
     un_key (full w n) = us_client_endpoint (sess w p))"

definition symmetric_linked :: "('x, 'u) udp_world \<Rightarrow> ptr \<Rightarrow> bool" where
  "symmetric_linked w n \<longleftrightarrow> (let p = un_session (symm w n) in
     p \<in> dom (session_mem w) \<and> us_uses_fakedns (sess w p) \<and> us_symmetric_node (sess w p) = Some n \<and>
     un_key (symm w n) =
       \<lparr>sk_client = us_client_endpoint (sess w p), sk_target = us_original_target_endpoint (sess w p)\<rparr>)"

definition udp_inv :: "ptr list \<Rightarrow> ('x, 'u) udp_world \<Rightarrow> bool" where
  "udp_inv deferred w \<longleftrightarrow>
     pool_of (g_udp_session_pool w) (dom (session_mem w)) \<and>
     pool_of (g_udp_fullcone_node_pool w) (dom (fullcone_mem w)) \<and>
     pool_of (g_udp_symmetric_node_pool w) (dom (symmetric_mem w)) \<and>
     pool_of (g_udp_tproxy_pool w) (dom (tproxy_mem w)) \<and>
     distinct (g_udp_fullcone_table w) \<and> set (g_udp_fullcone_table w) = dom (fullcone_mem w) \<and>
     distinct (g_udp_symmetric_table w) \<and> set (g_udp_symmetric_table w) = dom (symmetric_mem w) \<and>
     distinct (g_udp_tproxy_table w @ deferred) \<and> set (g_udp_tproxy_table w @ deferred) = dom (tproxy_mem w) \<and>
     inj_on (\<lambda>n. un_key (full w n)) (dom (fullcone_mem w)) \<and>
     inj_on (\<lambda>n. un_key (symm w n)) (dom (symmetric_mem w)) \<and>
     inj_on (\<lambda>e. te_key (tpro w e)) (set (g_udp_tproxy_table w)) \<and>
     (\<forall>p \<in> dom (session_mem w). session_linked w p) \<and>
     (\<forall>n \<in> dom (fullcone_mem w). fullcone_linked w n) \<and>
     (\<forall>n \<in> dom (symmetric_mem w). symmetric_linked w n) \<and>
     mset (udp_fds w) = session_fds w + tproxy_fds w"

lemmas udp_links = session_linked_def fullcone_linked_def symmetric_linked_def Let_def
lemmas udp_reads = sess_def full_def symm_def tpro_def

section \<open>Pools and descriptors\<close>

lemma image_mset_delete:
  assumes "finite A" "p \<in> A" "\<And>q. q \<in> A \<Longrightarrow> q \<noteq> p \<Longrightarrow> g q = f q"
  shows "image_mset f (mset_set A) = add_mset (f p) (image_mset g (mset_set (A - {p})))"
proof -
  have "image_mset f (mset_set (A - {p})) = image_mset g (mset_set (A - {p}))"
    using assms by (intro image_mset_cong) auto
  then show ?thesis using mset_set.remove [OF assms(1,2)] by simp
qed

lemma image_mset_insert:
  assumes "finite A" "p \<notin> A" "\<And>q. q \<in> A \<Longrightarrow> g q = f q"
  shows "image_mset g (mset_set (insert p A)) = add_mset (g p) (image_mset f (mset_set A))"
proof -
  have "image_mset g (mset_set A) = image_mset f (mset_set A)" using assms by (intro image_mset_cong) auto
  then show ?thesis using assms by simp
qed

section \<open>Closing a session\<close>

definition drop_fullcone :: "ptr \<Rightarrow> ptr \<Rightarrow> ('x, 'u) udp_world \<Rightarrow> ('x, 'u) udp_world" where
  "drop_fullcone p n w = w\<lparr>udp_fds := remove1 (us_fd (sess w p)) (udp_fds w),
     g_udp_session_pool := pool_free p (g_udp_session_pool w), session_mem := (session_mem w)(p := None),
     g_udp_fullcone_table := remove1 n (g_udp_fullcone_table w),
     g_udp_fullcone_node_pool := pool_free n (g_udp_fullcone_node_pool w), fullcone_mem := (fullcone_mem w)(n := None)\<rparr>"

definition drop_symmetric :: "ptr \<Rightarrow> ptr \<Rightarrow> ('x, 'u) udp_world \<Rightarrow> ('x, 'u) udp_world" where
  "drop_symmetric p n w = w\<lparr>udp_fds := remove1 (us_fd (sess w p)) (udp_fds w),
     g_udp_session_pool := pool_free p (g_udp_session_pool w), session_mem := (session_mem w)(p := None),
     g_udp_symmetric_table := remove1 n (g_udp_symmetric_table w),
     g_udp_symmetric_node_pool := pool_free n (g_udp_symmetric_node_pool w), symmetric_mem := (symmetric_mem w)(n := None)\<rparr>"

lemma close_indexed_fullcone:
  "us_fullcone_node (sess w p) = Some n \<Longrightarrow> udp_session_close_indexed p w = drop_fullcone p n w"
  by (simp add: udp_session_close_indexed_def udp_session_close_def udp_session_free_def drop_fullcone_def udp_close_def
      lru_del_def hash_del_def sess_def)

lemma close_indexed_symmetric:
  "us_fullcone_node (sess w p) = None \<Longrightarrow> us_symmetric_node (sess w p) = Some n \<Longrightarrow>
   udp_session_close_indexed p w = drop_symmetric p n w"
  by (simp add: udp_session_close_indexed_def udp_session_close_def udp_session_free_def drop_symmetric_def udp_close_def
      lru_del_def hash_del_def sess_def)

lemma drop_fullcone_inv:
  assumes "udp_inv D w" "n \<in> dom (fullcone_mem w)" "un_session (full w n) = p"
  shows "udp_inv D (drop_fullcone p n w)"
proof -
  let ?w = "drop_fullcone p n w"
  have l: "p \<in> dom (session_mem w)" "us_fullcone_node (sess w p) = Some n" "\<not> us_uses_fakedns (sess w p)"
    using assms by (auto simp: udp_inv_def fullcone_linked_def Let_def)
  have fin: "finite (dom (session_mem w))" using assms(1) by (simp add: udp_inv_def pool_of_def)
  have rd: "sess ?w q = sess w q" "full ?w m = full w m" if "q \<noteq> p" "m \<noteq> n" for q m
    using that by (simp_all add: drop_fullcone_def udp_reads)
  have rd2: "symm ?w m = symm w m" "tpro ?w m = tpro w m" for m
    by (simp_all add: drop_fullcone_def udp_reads)
  have doms: "dom (session_mem ?w) = dom (session_mem w) - {p}" "dom (fullcone_mem ?w) = dom (fullcone_mem w) - {n}"
    "symmetric_mem ?w = symmetric_mem w" "tproxy_mem ?w = tproxy_mem w"
    by (auto simp: drop_fullcone_def)
  have fds: "mset (udp_fds ?w) = session_fds ?w + tproxy_fds ?w"
  proof -
    have "session_fds w = add_mset (us_fd (sess w p)) (session_fds ?w)"
      unfolding session_fds_def doms by (rule image_mset_delete [OF fin l(1)]) (simp add: drop_fullcone_def udp_reads)
    moreover have "tproxy_fds ?w = tproxy_fds w" by (simp add: tproxy_fds_def doms rd2)
    moreover have "mset (udp_fds w) = session_fds w + tproxy_fds w" using assms(1) by (simp add: udp_inv_def)
    ultimately show ?thesis by (simp add: drop_fullcone_def)
  qed
  have pools: "pool_of (g_udp_session_pool ?w) (dom (session_mem ?w))" "pool_of (g_udp_fullcone_node_pool ?w) (dom (fullcone_mem ?w))"
    unfolding doms using assms l pool_of_free by (auto simp: udp_inv_def drop_fullcone_def)
  have tbl: "distinct (g_udp_fullcone_table ?w)" "set (g_udp_fullcone_table ?w) = dom (fullcone_mem ?w)"
    unfolding doms using assms(1) by (auto simp: udp_inv_def drop_fullcone_def)
  have keys: "inj_on (\<lambda>m. un_key (full ?w m)) (dom (fullcone_mem ?w))"
    unfolding doms using assms(1) by (auto simp: udp_inv_def inj_on_def drop_fullcone_def udp_reads)
  have lk: "session_linked ?w q" if "q \<in> dom (session_mem ?w)" for q
  proof -
    have q: "q \<in> dom (session_mem w)" "q \<noteq> p" "session_linked w q" using that doms assms(1) by (auto simp: udp_inv_def)
    then show ?thesis using assms(3) by (auto simp: session_linked_def drop_fullcone_def udp_reads)
  qed
  have fl: "fullcone_linked ?w m" if "m \<in> dom (fullcone_mem ?w)" for m
  proof -
    have m: "m \<in> dom (fullcone_mem w)" "m \<noteq> n" "fullcone_linked w m" using that doms assms(1) by (auto simp: udp_inv_def)
    then have "un_session (full w m) \<noteq> p" using l(2) by (auto simp: fullcone_linked_def Let_def)
    then show ?thesis using m by (auto simp: fullcone_linked_def Let_def drop_fullcone_def udp_reads)
  qed
  have sl: "symmetric_linked ?w m" if "m \<in> dom (symmetric_mem ?w)" for m
  proof -
    have m: "symmetric_linked w m" using that doms assms(1) by (auto simp: udp_inv_def)
    then have "un_session (symm w m) \<noteq> p" using l(3) by (auto simp: symmetric_linked_def Let_def)
    then show ?thesis using m by (auto simp: symmetric_linked_def Let_def drop_fullcone_def udp_reads)
  qed
  have same: "g_udp_symmetric_node_pool ?w = g_udp_symmetric_node_pool w" "g_udp_tproxy_pool ?w = g_udp_tproxy_pool w"
    "g_udp_symmetric_table ?w = g_udp_symmetric_table w" "g_udp_tproxy_table ?w = g_udp_tproxy_table w"
    by (simp_all add: drop_fullcone_def)
  show ?thesis
    unfolding udp_inv_def using assms(1) fds pools tbl keys lk fl sl
    unfolding udp_inv_def doms(3,4) same rd2 by simp
qed

lemma drop_symmetric_inv:
  assumes "udp_inv D w" "n \<in> dom (symmetric_mem w)" "un_session (symm w n) = p"
  shows "udp_inv D (drop_symmetric p n w)"
proof -
  let ?w = "drop_symmetric p n w"
  have l: "p \<in> dom (session_mem w)" "us_symmetric_node (sess w p) = Some n" "us_uses_fakedns (sess w p)"
    using assms by (auto simp: udp_inv_def symmetric_linked_def Let_def)
  have fin: "finite (dom (session_mem w))" using assms(1) by (simp add: udp_inv_def pool_of_def)
  have rd: "sess ?w q = sess w q" "symm ?w m = symm w m" if "q \<noteq> p" "m \<noteq> n" for q m
    using that by (simp_all add: drop_symmetric_def udp_reads)
  have rd2: "full ?w m = full w m" "tpro ?w m = tpro w m" for m
    by (simp_all add: drop_symmetric_def udp_reads)
  have doms: "dom (session_mem ?w) = dom (session_mem w) - {p}" "dom (symmetric_mem ?w) = dom (symmetric_mem w) - {n}"
    "fullcone_mem ?w = fullcone_mem w" "tproxy_mem ?w = tproxy_mem w"
    by (auto simp: drop_symmetric_def)
  have fds: "mset (udp_fds ?w) = session_fds ?w + tproxy_fds ?w"
  proof -
    have "session_fds w = add_mset (us_fd (sess w p)) (session_fds ?w)"
      unfolding session_fds_def doms by (rule image_mset_delete [OF fin l(1)]) (simp add: drop_symmetric_def udp_reads)
    moreover have "tproxy_fds ?w = tproxy_fds w" by (simp add: tproxy_fds_def doms rd2)
    moreover have "mset (udp_fds w) = session_fds w + tproxy_fds w" using assms(1) by (simp add: udp_inv_def)
    ultimately show ?thesis by (simp add: drop_symmetric_def)
  qed
  have pools: "pool_of (g_udp_session_pool ?w) (dom (session_mem ?w))" "pool_of (g_udp_symmetric_node_pool ?w) (dom (symmetric_mem ?w))"
    unfolding doms using assms l pool_of_free by (auto simp: udp_inv_def drop_symmetric_def)
  have tbl: "distinct (g_udp_symmetric_table ?w)" "set (g_udp_symmetric_table ?w) = dom (symmetric_mem ?w)"
    unfolding doms using assms(1) by (auto simp: udp_inv_def drop_symmetric_def)
  have keys: "inj_on (\<lambda>m. un_key (symm ?w m)) (dom (symmetric_mem ?w))"
    unfolding doms using assms(1) by (auto simp: udp_inv_def inj_on_def drop_symmetric_def udp_reads)
  have lk: "session_linked ?w q" if "q \<in> dom (session_mem ?w)" for q
  proof -
    have q: "q \<in> dom (session_mem w)" "q \<noteq> p" "session_linked w q" using that doms assms(1) by (auto simp: udp_inv_def)
    then show ?thesis using assms(3) by (auto simp: session_linked_def drop_symmetric_def udp_reads)
  qed
  have fl: "symmetric_linked ?w m" if "m \<in> dom (symmetric_mem ?w)" for m
  proof -
    have m: "m \<in> dom (symmetric_mem w)" "m \<noteq> n" "symmetric_linked w m" using that doms assms(1) by (auto simp: udp_inv_def)
    then have "un_session (symm w m) \<noteq> p" using l(2) by (auto simp: symmetric_linked_def Let_def)
    then show ?thesis using m by (auto simp: symmetric_linked_def Let_def drop_symmetric_def udp_reads)
  qed
  have sl: "fullcone_linked ?w m" if "m \<in> dom (fullcone_mem ?w)" for m
  proof -
    have m: "fullcone_linked w m" using that doms assms(1) by (auto simp: udp_inv_def)
    then have "un_session (full w m) \<noteq> p" using l(3) by (auto simp: fullcone_linked_def Let_def)
    then show ?thesis using m by (auto simp: fullcone_linked_def Let_def drop_symmetric_def udp_reads)
  qed
  have same: "g_udp_fullcone_node_pool ?w = g_udp_fullcone_node_pool w" "g_udp_tproxy_pool ?w = g_udp_tproxy_pool w"
    "g_udp_fullcone_table ?w = g_udp_fullcone_table w" "g_udp_tproxy_table ?w = g_udp_tproxy_table w"
    by (simp_all add: drop_symmetric_def)
  show ?thesis
    unfolding udp_inv_def using assms(1) fds pools tbl keys lk fl sl
    unfolding udp_inv_def doms(3,4) same rd2 by simp
qed

lemma close_indexed_inv:
  assumes "udp_inv D w" "p \<in> dom (session_mem w)"
  shows "udp_inv D (udp_session_close_indexed p w)"
    "if us_uses_fakedns (sess w p)
     then \<exists>n \<in> dom (symmetric_mem w). un_session (symm w n) = p \<and> udp_session_close_indexed p w = drop_symmetric p n w
     else \<exists>n \<in> dom (fullcone_mem w). un_session (full w n) = p \<and> udp_session_close_indexed p w = drop_fullcone p n w"
proof -
  have l: "session_linked w p" using assms by (simp add: udp_inv_def)
  have "udp_inv D (udp_session_close_indexed p w) \<and>
    (if us_uses_fakedns (sess w p)
     then \<exists>n \<in> dom (symmetric_mem w). un_session (symm w n) = p \<and> udp_session_close_indexed p w = drop_symmetric p n w
     else \<exists>n \<in> dom (fullcone_mem w). un_session (full w n) = p \<and> udp_session_close_indexed p w = drop_fullcone p n w)"
  proof (cases "us_uses_fakedns (sess w p)")
    case True
    then obtain n where n: "us_fullcone_node (sess w p) = None" "n \<in> dom (symmetric_mem w)"
        "us_symmetric_node (sess w p) = Some n" "un_session (symm w n) = p"
      using l by (auto simp: session_linked_def)
    then show ?thesis using True drop_symmetric_inv [OF assms(1) n(2,4)] close_indexed_symmetric [OF n(1,3)] by auto
  next
    case False
    then obtain n where n: "n \<in> dom (fullcone_mem w)" "us_fullcone_node (sess w p) = Some n" "un_session (full w n) = p"
      using l by (auto simp: session_linked_def)
    then show ?thesis using False drop_fullcone_inv [OF assms(1) n(1,3)] close_indexed_fullcone [OF n(2)] by auto
  qed
  then show "udp_inv D (udp_session_close_indexed p w)"
    "if us_uses_fakedns (sess w p)
     then \<exists>n \<in> dom (symmetric_mem w). un_session (symm w n) = p \<and> udp_session_close_indexed p w = drop_symmetric p n w
     else \<exists>n \<in> dom (fullcone_mem w). un_session (full w n) = p \<and> udp_session_close_indexed p w = drop_fullcone p n w"
    by blast+
qed

section \<open>Opening a session\<close>

definition add_fullcone ::
  "ptr \<Rightarrow> ptr \<Rightarrow> mempool_state \<Rightarrow> mempool_state \<Rightarrow> 'u udp_session \<Rightarrow> udp_fullcone_node \<Rightarrow> ('x, 'u) udp_world \<Rightarrow> ('x, 'u) udp_world" where
  "add_fullcone p n sp np s x w = w\<lparr>udp_fds := us_fd s # udp_fds w,
     g_udp_session_pool := sp, session_mem := (session_mem w)(p \<mapsto> s), g_udp_fullcone_table := g_udp_fullcone_table w @ [n],
     g_udp_fullcone_node_pool := np, fullcone_mem := (fullcone_mem w)(n \<mapsto> x)\<rparr>"

definition add_symmetric ::
  "ptr \<Rightarrow> ptr \<Rightarrow> mempool_state \<Rightarrow> mempool_state \<Rightarrow> 'u udp_session \<Rightarrow> udp_symmetric_node \<Rightarrow> ('x, 'u) udp_world \<Rightarrow> ('x, 'u) udp_world" where
  "add_symmetric p n sp np s x w = w\<lparr>udp_fds := us_fd s # udp_fds w,
     g_udp_session_pool := sp, session_mem := (session_mem w)(p \<mapsto> s), g_udp_symmetric_table := g_udp_symmetric_table w @ [n],
     g_udp_symmetric_node_pool := np, symmetric_mem := (symmetric_mem w)(n \<mapsto> x)\<rparr>"

lemma add_fullcone_inv:
  assumes "udp_inv D w" "p \<notin> dom (session_mem w)" "pool_of sp (insert p (dom (session_mem w)))"
    "n \<notin> dom (fullcone_mem w)" "pool_of np (insert n (dom (fullcone_mem w)))"
    "us_fullcone_node s = Some n" "us_symmetric_node s = None" "\<not> us_uses_fakedns s"
    "un_key x = us_client_endpoint s" "un_session x = p"
    "\<forall>m \<in> dom (fullcone_mem w). un_key (full w m) \<noteq> un_key x"
  shows "udp_inv D (add_fullcone p n sp np s x w)"
proof -
  let ?w = "add_fullcone p n sp np s x w"
  have fin: "finite (dom (session_mem w))" using assms(1) by (simp add: udp_inv_def pool_of_def)
  have rd2: "symm ?w m = symm w m" "tpro ?w m = tpro w m" for m
    by (simp_all add: add_fullcone_def udp_reads)
  have doms: "dom (session_mem ?w) = insert p (dom (session_mem w))" "dom (fullcone_mem ?w) = insert n (dom (fullcone_mem w))"
    "symmetric_mem ?w = symmetric_mem w" "tproxy_mem ?w = tproxy_mem w"
    by (auto simp: add_fullcone_def)
  have rdn: "full ?w n = x" by (simp add: add_fullcone_def udp_reads)
  have rdm: "full ?w m = full w m" if "m \<in> dom (fullcone_mem w)" for m
  proof -
    have "m \<noteq> n" using that assms(4) by blast
    then show ?thesis by (simp add: add_fullcone_def udp_reads)
  qed
  have rds: "sess ?w q = sess w q" if "q \<noteq> p" for q using that by (simp add: add_fullcone_def udp_reads)
  have fds: "mset (udp_fds ?w) = session_fds ?w + tproxy_fds ?w"
  proof -
    have "session_fds ?w = add_mset (us_fd (sess ?w p)) (session_fds w)"
      unfolding session_fds_def doms
      by (rule image_mset_insert [OF fin assms(2)]) (use assms(2) in \<open>auto simp: add_fullcone_def udp_reads\<close>)
    moreover have "us_fd (sess ?w p) = us_fd s" by (simp add: add_fullcone_def udp_reads)
    moreover have "tproxy_fds ?w = tproxy_fds w" by (simp add: tproxy_fds_def doms rd2)
    moreover have "mset (udp_fds w) = session_fds w + tproxy_fds w" using assms(1) by (simp add: udp_inv_def)
    ultimately show ?thesis by (simp add: add_fullcone_def)
  qed
  have pools: "pool_of (g_udp_session_pool ?w) (dom (session_mem ?w))" "pool_of (g_udp_fullcone_node_pool ?w) (dom (fullcone_mem ?w))"
    unfolding doms using assms by (simp_all add: add_fullcone_def)
  have tbl: "distinct (g_udp_fullcone_table ?w)" "set (g_udp_fullcone_table ?w) = dom (fullcone_mem ?w)"
    unfolding doms using assms(1,4) by (auto simp: udp_inv_def add_fullcone_def)
  have keys: "inj_on (\<lambda>m. un_key (full ?w m)) (dom (fullcone_mem ?w))"
  proof -
    note e = rdn rdm
    have i: "inj_on (\<lambda>m. un_key (full w m)) (dom (fullcone_mem w))" using assms(1) by (simp add: udp_inv_def)
    have "inj_on (\<lambda>m. un_key (full ?w m)) (dom (fullcone_mem w)) = inj_on (\<lambda>m. un_key (full w m)) (dom (fullcone_mem w))"
      by (rule inj_on_cong) (simp add: e(2))
    moreover have "un_key (full ?w n) \<notin> (\<lambda>m. un_key (full ?w m)) ` dom (fullcone_mem w)"
    proof
      assume "un_key (full ?w n) \<in> (\<lambda>m. un_key (full ?w m)) ` dom (fullcone_mem w)"
      then obtain m where m: "m \<in> dom (fullcone_mem w)" "un_key (full ?w n) = un_key (full ?w m)" by (rule imageE)
      have "un_key (full w m) = un_key x" using m(2) unfolding e(1) e(2) [OF m(1)] by (rule sym)
      then show False using assms(11) m(1) by blast
    qed
    ultimately show ?thesis unfolding doms inj_on_insert using i assms(4) by simp
  qed
  have lk: "session_linked ?w q" if "q \<in> dom (session_mem ?w)" for q
  proof (cases "q = p")
    case True
    then show ?thesis using assms by (auto simp: session_linked_def add_fullcone_def udp_reads)
  next
    case False
    then have q: "q \<in> dom (session_mem w)" "session_linked w q" using that doms assms(1) by (auto simp: udp_inv_def)
    show ?thesis
    proof (cases "us_uses_fakedns (sess w q)")
      case False
      obtain m where m: "us_symmetric_node (sess w q) = None" "m \<in> dom (fullcone_mem w)" "us_fullcone_node (sess w q) = Some m" "un_session (full w m) = q"
        using q(2) False unfolding session_linked_def by auto
      have "\<exists>m \<in> insert n (dom (fullcone_mem w)). us_fullcone_node (sess w q) = Some m \<and> un_session (full ?w m) = q"
        by (rule bexI [of _ m]) (simp_all add: m rdm [OF m(2)])
      then show ?thesis using m(1) False unfolding session_linked_def doms rds [OF \<open>q \<noteq> p\<close>] by simp
    next
      case True
      then show ?thesis using q(2) unfolding session_linked_def doms rds [OF \<open>q \<noteq> p\<close>] rd2 by simp
    qed
  qed
  have fl: "fullcone_linked ?w m" if "m \<in> dom (fullcone_mem ?w)" for m
  proof (cases "m = n")
    case True
    then show ?thesis using assms by (auto simp: fullcone_linked_def Let_def add_fullcone_def udp_reads)
  next
    case False
    then have m: "m \<in> dom (fullcone_mem w)" "fullcone_linked w m" using that doms assms(1) by (auto simp: udp_inv_def)
    then have "un_session (full w m) \<noteq> p" using assms(2) by (auto simp: fullcone_linked_def Let_def)
    then show ?thesis using m False by (auto simp: fullcone_linked_def Let_def add_fullcone_def udp_reads)
  qed
  have sl: "symmetric_linked ?w m" if "m \<in> dom (symmetric_mem ?w)" for m
  proof -
    have m: "symmetric_linked w m" using that doms assms(1) by (auto simp: udp_inv_def)
    then have "un_session (symm w m) \<noteq> p" using assms(2) by (auto simp: symmetric_linked_def Let_def)
    then show ?thesis using m by (auto simp: symmetric_linked_def Let_def add_fullcone_def udp_reads)
  qed
  have same: "g_udp_symmetric_node_pool ?w = g_udp_symmetric_node_pool w" "g_udp_tproxy_pool ?w = g_udp_tproxy_pool w"
    "g_udp_symmetric_table ?w = g_udp_symmetric_table w" "g_udp_tproxy_table ?w = g_udp_tproxy_table w"
    by (simp_all add: add_fullcone_def)
  show ?thesis
    unfolding udp_inv_def using assms(1) fds pools tbl keys lk fl sl
    unfolding udp_inv_def doms(3,4) same rd2 by simp
qed

lemma add_symmetric_inv:
  assumes "udp_inv D w" "p \<notin> dom (session_mem w)" "pool_of sp (insert p (dom (session_mem w)))"
    "n \<notin> dom (symmetric_mem w)" "pool_of np (insert n (dom (symmetric_mem w)))"
    "us_symmetric_node s = Some n" "us_fullcone_node s = None" "us_uses_fakedns s"
    "un_key x = \<lparr>sk_client = us_client_endpoint s, sk_target = us_original_target_endpoint s\<rparr>" "un_session x = p"
    "\<forall>m \<in> dom (symmetric_mem w). un_key (symm w m) \<noteq> un_key x"
  shows "udp_inv D (add_symmetric p n sp np s x w)"
proof -
  let ?w = "add_symmetric p n sp np s x w"
  have fin: "finite (dom (session_mem w))" using assms(1) by (simp add: udp_inv_def pool_of_def)
  have rd2: "full ?w m = full w m" "tpro ?w m = tpro w m" for m
    by (simp_all add: add_symmetric_def udp_reads)
  have doms: "dom (session_mem ?w) = insert p (dom (session_mem w))" "dom (symmetric_mem ?w) = insert n (dom (symmetric_mem w))"
    "fullcone_mem ?w = fullcone_mem w" "tproxy_mem ?w = tproxy_mem w"
    by (auto simp: add_symmetric_def)
  have rdn: "symm ?w n = x" by (simp add: add_symmetric_def udp_reads)
  have rdm: "symm ?w m = symm w m" if "m \<in> dom (symmetric_mem w)" for m
  proof -
    have "m \<noteq> n" using that assms(4) by blast
    then show ?thesis by (simp add: add_symmetric_def udp_reads)
  qed
  have rds: "sess ?w q = sess w q" if "q \<noteq> p" for q using that by (simp add: add_symmetric_def udp_reads)
  have fds: "mset (udp_fds ?w) = session_fds ?w + tproxy_fds ?w"
  proof -
    have "session_fds ?w = add_mset (us_fd (sess ?w p)) (session_fds w)"
      unfolding session_fds_def doms
      by (rule image_mset_insert [OF fin assms(2)]) (use assms(2) in \<open>auto simp: add_symmetric_def udp_reads\<close>)
    moreover have "us_fd (sess ?w p) = us_fd s" by (simp add: add_symmetric_def udp_reads)
    moreover have "tproxy_fds ?w = tproxy_fds w" by (simp add: tproxy_fds_def doms rd2)
    moreover have "mset (udp_fds w) = session_fds w + tproxy_fds w" using assms(1) by (simp add: udp_inv_def)
    ultimately show ?thesis by (simp add: add_symmetric_def)
  qed
  have pools: "pool_of (g_udp_session_pool ?w) (dom (session_mem ?w))" "pool_of (g_udp_symmetric_node_pool ?w) (dom (symmetric_mem ?w))"
    unfolding doms using assms by (simp_all add: add_symmetric_def)
  have tbl: "distinct (g_udp_symmetric_table ?w)" "set (g_udp_symmetric_table ?w) = dom (symmetric_mem ?w)"
    unfolding doms using assms(1,4) by (auto simp: udp_inv_def add_symmetric_def)
  have keys: "inj_on (\<lambda>m. un_key (symm ?w m)) (dom (symmetric_mem ?w))"
  proof -
    note e = rdn rdm
    have i: "inj_on (\<lambda>m. un_key (symm w m)) (dom (symmetric_mem w))" using assms(1) by (simp add: udp_inv_def)
    have "inj_on (\<lambda>m. un_key (symm ?w m)) (dom (symmetric_mem w)) = inj_on (\<lambda>m. un_key (symm w m)) (dom (symmetric_mem w))"
      by (rule inj_on_cong) (simp add: e(2))
    moreover have "un_key (symm ?w n) \<notin> (\<lambda>m. un_key (symm ?w m)) ` dom (symmetric_mem w)"
    proof
      assume "un_key (symm ?w n) \<in> (\<lambda>m. un_key (symm ?w m)) ` dom (symmetric_mem w)"
      then obtain m where m: "m \<in> dom (symmetric_mem w)" "un_key (symm ?w n) = un_key (symm ?w m)" by (rule imageE)
      have "un_key (symm w m) = un_key x" using m(2) unfolding e(1) e(2) [OF m(1)] by (rule sym)
      then show False using assms(11) m(1) by blast
    qed
    ultimately show ?thesis unfolding doms inj_on_insert using i assms(4) by simp
  qed
  have lk: "session_linked ?w q" if "q \<in> dom (session_mem ?w)" for q
  proof (cases "q = p")
    case True
    then show ?thesis using assms by (auto simp: session_linked_def add_symmetric_def udp_reads)
  next
    case False
    then have q: "q \<in> dom (session_mem w)" "session_linked w q" using that doms assms(1) by (auto simp: udp_inv_def)
    show ?thesis
    proof (cases "us_uses_fakedns (sess w q)")
      case True
      obtain m where m: "us_fullcone_node (sess w q) = None" "m \<in> dom (symmetric_mem w)" "us_symmetric_node (sess w q) = Some m" "un_session (symm w m) = q"
        using q(2) True unfolding session_linked_def by auto
      have "\<exists>m \<in> insert n (dom (symmetric_mem w)). us_symmetric_node (sess w q) = Some m \<and> un_session (symm ?w m) = q"
        by (rule bexI [of _ m]) (simp_all add: m rdm [OF m(2)])
      then show ?thesis using m(1) True unfolding session_linked_def doms rds [OF \<open>q \<noteq> p\<close>] by simp
    next
      case False
      then show ?thesis using q(2) unfolding session_linked_def doms rds [OF \<open>q \<noteq> p\<close>] rd2 by simp
    qed
  qed
  have fl: "symmetric_linked ?w m" if "m \<in> dom (symmetric_mem ?w)" for m
  proof (cases "m = n")
    case True
    then show ?thesis using assms by (auto simp: symmetric_linked_def Let_def add_symmetric_def udp_reads)
  next
    case False
    then have m: "m \<in> dom (symmetric_mem w)" "symmetric_linked w m" using that doms assms(1) by (auto simp: udp_inv_def)
    then have "un_session (symm w m) \<noteq> p" using assms(2) by (auto simp: symmetric_linked_def Let_def)
    then show ?thesis using m False by (auto simp: symmetric_linked_def Let_def add_symmetric_def udp_reads)
  qed
  have sl: "fullcone_linked ?w m" if "m \<in> dom (fullcone_mem ?w)" for m
  proof -
    have m: "fullcone_linked w m" using that doms assms(1) by (auto simp: udp_inv_def)
    then have "un_session (full w m) \<noteq> p" using assms(2) by (auto simp: fullcone_linked_def Let_def)
    then show ?thesis using m by (auto simp: fullcone_linked_def Let_def add_symmetric_def udp_reads)
  qed
  have same: "g_udp_fullcone_node_pool ?w = g_udp_fullcone_node_pool w" "g_udp_tproxy_pool ?w = g_udp_tproxy_pool w"
    "g_udp_fullcone_table ?w = g_udp_fullcone_table w" "g_udp_tproxy_table ?w = g_udp_tproxy_table w"
    by (simp_all add: add_symmetric_def)
  show ?thesis
    unfolding udp_inv_def using assms(1) fds pools tbl keys lk fl sl
    unfolding udp_inv_def doms(3,4) same rd2 by simp
qed

section \<open>Steps that change little\<close>

lemma udp_inv_same:
  assumes "udp_inv D w"
    "session_mem w' = session_mem w" "fullcone_mem w' = fullcone_mem w" "symmetric_mem w' = symmetric_mem w" "tproxy_mem w' = tproxy_mem w"
    "g_udp_fullcone_table w' = g_udp_fullcone_table w" "g_udp_symmetric_table w' = g_udp_symmetric_table w"
    "g_udp_tproxy_table w' = g_udp_tproxy_table w" "mset (udp_fds w') = mset (udp_fds w)"
    "pool_of (g_udp_session_pool w') (dom (session_mem w))" "pool_of (g_udp_fullcone_node_pool w') (dom (fullcone_mem w))"
    "pool_of (g_udp_symmetric_node_pool w') (dom (symmetric_mem w))" "pool_of (g_udp_tproxy_pool w') (dom (tproxy_mem w))"
  shows "udp_inv D w'"
proof -
  have r: "sess w' = sess w" "full w' = full w" "symm w' = symm w" "tpro w' = tpro w"
    using assms(2-5) by (simp_all add: fun_eq_iff udp_reads)
  show ?thesis
    using assms(1) unfolding udp_inv_def session_linked_def fullcone_linked_def symmetric_linked_def session_fds_def tproxy_fds_def
      assms(2-9) r
    by (simp add: assms(10-13))
qed

lemma udp_inv_pools:
  assumes "udp_inv D w"
  shows "pool_of (g_udp_session_pool w) (dom (session_mem w))" "pool_of (g_udp_fullcone_node_pool w) (dom (fullcone_mem w))"
    "pool_of (g_udp_symmetric_node_pool w) (dom (symmetric_mem w))" "pool_of (g_udp_tproxy_pool w) (dom (tproxy_mem w))"
  using assms by (simp_all add: udp_inv_def)

text \<open>The library's state and the time stamps carry no part of the invariant.\<close>

lemma session_state_inv:
  assumes "udp_inv D w" "p \<in> dom (session_mem w)"
  shows "udp_inv D (w\<lparr>session_mem := (session_mem w)(p \<mapsto> (sess w p)\<lparr>us_ss_session := u\<rparr>)\<rparr>)"
proof -
  let ?w = "w\<lparr>session_mem := (session_mem w)(p \<mapsto> (sess w p)\<lparr>us_ss_session := u\<rparr>)\<rparr>"
  have r: "sess ?w q = (if q = p then (sess w p)\<lparr>us_ss_session := u\<rparr> else sess w q)" "full ?w = full w" "symm ?w = symm w" "tpro ?w = tpro w" for q
    by (simp_all add: fun_eq_iff udp_reads)
  have f: "us_fd (sess ?w q) = us_fd (sess w q)" "us_client_endpoint (sess ?w q) = us_client_endpoint (sess w q)"
    "us_original_target_endpoint (sess ?w q) = us_original_target_endpoint (sess w q)" "us_uses_fakedns (sess ?w q) = us_uses_fakedns (sess w q)"
    "us_fullcone_node (sess ?w q) = us_fullcone_node (sess w q)" "us_symmetric_node (sess ?w q) = us_symmetric_node (sess w q)" for q
    by (simp_all add: r(1))
  have d: "dom (session_mem ?w) = dom (session_mem w)" using assms(2) by auto
  show ?thesis
    using assms(1) unfolding udp_inv_def session_linked_def fullcone_linked_def symmetric_linked_def session_fds_def tproxy_fds_def
      f r(2-4) d by simp
qed

lemma touch_fullcone_inv:
  assumes "udp_inv D w" "n \<in> dom (fullcone_mem w)"
  shows "udp_inv D (w\<lparr>fullcone_mem := (fullcone_mem w)(n \<mapsto> (full w n)\<lparr>un_last_active := now\<rparr>)\<rparr>)"
proof -
  let ?w = "w\<lparr>fullcone_mem := (fullcone_mem w)(n \<mapsto> (full w n)\<lparr>un_last_active := now\<rparr>)\<rparr>"
  have r: "full ?w q = (if q = n then (full w n)\<lparr>un_last_active := now\<rparr> else full w q)" "sess ?w = sess w" "symm ?w = symm w" "tpro ?w = tpro w" for q
    by (simp_all add: fun_eq_iff udp_reads)
  have f: "un_key (full ?w q) = un_key (full w q)" "un_session (full ?w q) = un_session (full w q)" for q by (simp_all add: r(1))
  have d: "dom (fullcone_mem ?w) = dom (fullcone_mem w)" using assms(2) by auto
  show ?thesis
    using assms(1) unfolding udp_inv_def session_linked_def fullcone_linked_def symmetric_linked_def session_fds_def tproxy_fds_def
      f r(2-4) d by simp
qed

lemma touch_symmetric_inv:
  assumes "udp_inv D w" "n \<in> dom (symmetric_mem w)"
  shows "udp_inv D (w\<lparr>symmetric_mem := (symmetric_mem w)(n \<mapsto> (symm w n)\<lparr>un_last_active := now\<rparr>)\<rparr>)"
proof -
  let ?w = "w\<lparr>symmetric_mem := (symmetric_mem w)(n \<mapsto> (symm w n)\<lparr>un_last_active := now\<rparr>)\<rparr>"
  have r: "symm ?w q = (if q = n then (symm w n)\<lparr>un_last_active := now\<rparr> else symm w q)" "sess ?w = sess w" "full ?w = full w" "tpro ?w = tpro w" for q
    by (simp_all add: fun_eq_iff udp_reads)
  have f: "un_key (symm ?w q) = un_key (symm w q)" "un_session (symm ?w q) = un_session (symm w q)" for q by (simp_all add: r(1))
  have d: "dom (symmetric_mem ?w) = dom (symmetric_mem w)" using assms(2) by auto
  show ?thesis
    using assms(1) unfolding udp_inv_def session_linked_def fullcone_linked_def symmetric_linked_def session_fds_def tproxy_fds_def
      f r(2-4) d by simp
qed

lemma touch_inv:
  assumes "udp_inv D w" "p \<in> dom (session_mem w)"
  shows "udp_inv D (udp_session_touch p now w)" "session_mem (udp_session_touch p now w) = session_mem w"
proof -
  have l: "session_linked w p" using assms by (simp add: udp_inv_def)
  then show "udp_inv D (udp_session_touch p now w)"
    by (auto simp: session_linked_def udp_session_touch_def split: if_splits option.split
        intro!: touch_fullcone_inv [OF assms(1)] touch_symmetric_inv [OF assms(1)])
  show "session_mem (udp_session_touch p now w) = session_mem w" by (simp add: udp_session_touch_def Let_def split: option.split)
qed

section \<open>Creating a session\<close>

definition udp_session_env_ok :: "('x, 'u) udp_session_env \<Rightarrow> ('x, 'u) udp_world \<Rightarrow> bool" where
  "udp_session_env_ok env w \<longleftrightarrow>
     posix_memalign_ok (se_session_mem env) (g_udp_session_pool w) \<and>
     posix_memalign_ok (se_node_mem env) (g_udp_fullcone_node_pool w) \<and>
     posix_memalign_ok (se_node_mem env) (g_udp_symmetric_node_pool w)"

definition key_of :: "udp_ingress \<Rightarrow> udp_symmetric_key option" where
  "key_of pkt =
     (if ui_uses_fakedns pkt
      then Some \<lparr>sk_client = ui_client_endpoint pkt, sk_target = ui_original_target_endpoint pkt\<rparr> else None)"

definition key_free :: "udp_ingress \<Rightarrow> ('x, 'u) udp_world \<Rightarrow> bool" where
  "key_free pkt w \<longleftrightarrow>
     (if ui_uses_fakedns pkt
      then \<forall>n \<in> dom (symmetric_mem w). Some (un_key (symm w n)) \<noteq> key_of pkt
      else \<forall>n \<in> dom (fullcone_mem w). un_key (full w n) \<noteq> ui_client_endpoint pkt)"

definition session_for :: "udp_ingress \<Rightarrow> ptr \<Rightarrow> ('x, 'u) udp_world \<Rightarrow> bool" where
  "session_for pkt p w \<longleftrightarrow>
     p \<in> dom (session_mem w) \<and> us_client_endpoint (sess w p) = ui_client_endpoint pkt \<and>
     us_uses_fakedns (sess w p) = ui_uses_fakedns pkt \<and>
     (ui_uses_fakedns pkt \<longrightarrow> us_original_target_endpoint (sess w p) = ui_original_target_endpoint pkt)"

text \<open>An insertion with eviction is an insertion and a close of the evicted node's session.\<close>

lemma detached_is_indexed:
  assumes "v \<in> set t" "udp_session_close_indexed q (w\<lparr>g_udp_fullcone_table := t @ [n]\<rparr>) = w'" "us_fullcone_node (sess w q) = Some v"
  shows "udp_session_close_detached q (w\<lparr>g_udp_fullcone_table := remove1 v t @ [n]\<rparr>) = w'"
  using assms
  by (simp add: udp_session_close_indexed_def udp_session_close_detached_def udp_session_close_def udp_session_free_def
      udp_close_def lru_del_def hash_del_def sess_def remove1_append)

lemma detached_is_indexed_symmetric:
  assumes "v \<in> set t" "udp_session_close_indexed q (w\<lparr>g_udp_symmetric_table := t @ [n]\<rparr>) = w'"
    "us_fullcone_node (sess w q) = None" "us_symmetric_node (sess w q) = Some v"
  shows "udp_session_close_detached q (w\<lparr>g_udp_symmetric_table := remove1 v t @ [n]\<rparr>) = w'"
  using assms
  by (simp add: udp_session_close_indexed_def udp_session_close_detached_def udp_session_close_def udp_session_free_def
      udp_close_def lru_del_def hash_del_def sess_def remove1_append)

lemma lru_add_result:
  assumes "lru_add ts m e t = (v, t')" "e \<notin> set t"
  shows "(v = None \<and> t' = t @ [e]) \<or> (\<exists>w. v = Some w \<and> t' = remove1 w t @ [e] \<and> w \<in> set t)"
  using lru_add_cases [OF assms] by blast

lemma dropped_frame:
  "q \<noteq> p \<Longrightarrow> sess (drop_fullcone p n w) q = sess w q" "q \<noteq> p \<Longrightarrow> sess (drop_symmetric p n w) q = sess w q"
  "dom (session_mem (drop_fullcone p n w)) = dom (session_mem w) - {p}" "dom (session_mem (drop_symmetric p n w)) = dom (session_mem w) - {p}"
  by (auto simp: drop_fullcone_def drop_symmetric_def sess_def)

lemma close_indexed_frame:
  assumes "udp_inv D w" "p \<in> dom (session_mem w)"
  shows "dom (session_mem (udp_session_close_indexed p w)) = dom (session_mem w) - {p}"
    "q \<noteq> p \<Longrightarrow> sess (udp_session_close_indexed p w) q = sess w q"
  using close_indexed_inv(2) [OF assms] dropped_frame by (metis (no_types, lifting))+

text \<open>The world with the session in memory and its descriptor open, and no node yet.\<close>

definition pending_session :: "ptr \<Rightarrow> mempool_state \<Rightarrow> 'u udp_session \<Rightarrow> ('x, 'u) udp_world \<Rightarrow> ('x, 'u) udp_world" where
  "pending_session p sp s w =
     w\<lparr>udp_fds := us_fd s # udp_fds w, g_udp_session_pool := sp, session_mem := (session_mem w)(p \<mapsto> s)\<rparr>"

lemma register_fullcone_inv:
  assumes "udp_inv D w" "p \<notin> dom (session_mem w)" "pool_of sp (insert p (dom (session_mem w)))"
    "us_fullcone_node s = None" "us_symmetric_node s = None" "\<not> us_uses_fakedns s"
    "\<forall>m \<in> dom (fullcone_mem w). un_key (full w m) \<noteq> us_client_endpoint s"
    "posix_memalign_ok memalign (g_udp_fullcone_node_pool w)"
    "udp_session_register_fullcone cfg memalign p now (pending_session p sp s w) = (ok, w')"
  shows "if ok then udp_inv D w' \<and> p \<in> dom (session_mem w') \<and> (\<exists>n. sess w' p = s\<lparr>us_fullcone_node := Some n\<rparr>)
    else udp_inv D (udp_session_free p w')"
proof -
  let ?p = "pending_session p sp s w"
  obtain r np where a: "pool_alloc memalign (g_udp_fullcone_node_pool w) = (r, np)" by (metis surj_pair)
  note pa = pool_of_alloc [OF udp_inv_pools(2) [OF assms(1)] assms(8) a]
  have a': "pool_alloc memalign (g_udp_fullcone_node_pool ?p) = (r, np)" using a by (simp add: pending_session_def)
  have g: "sess ?p p = s" by (simp add: pending_session_def sess_def)
  show ?thesis
  proof (cases r)
    case None
    then have w': "ok = False" "w' = ?p\<lparr>g_udp_fullcone_node_pool := np\<rparr>"
      using assms(9) a' by (simp_all add: udp_session_register_fullcone_def)
    have "pool_of (pool_free p sp) (dom (session_mem w))" using pool_of_free [OF assms(3), of p] assms(2) by simp
    moreover have "session_mem (udp_session_free p w') = session_mem w" using assms(2) by (auto simp: w' udp_session_free_def pending_session_def udp_close_def)
    ultimately have "udp_inv D (udp_session_free p w')"
      using pa None udp_inv_pools [OF assms(1)] g
      by (intro udp_inv_same [OF assms(1)]) (simp_all add: w' udp_session_free_def pending_session_def udp_close_def sess_def)
    then show ?thesis by (simp add: w'(1))
  next
    case (Some n)
    let ?s = "s\<lparr>us_fullcone_node := Some n\<rparr>"
    let ?x = "\<lparr>un_key = us_client_endpoint s, un_session = p, un_last_active = now\<rparr>"
    let ?a = "add_fullcone p n sp np ?s ?x w"
    have n: "n \<notin> dom (fullcone_mem w)" "pool_of np (insert n (dom (fullcone_mem w)))" using pa Some by auto
    have inv: "udp_inv D ?a" by (rule add_fullcone_inv [OF assms(1-3) n]) (use assms in simp_all)
    let ?b = "?p\<lparr>g_udp_fullcone_node_pool := np, fullcone_mem := (fullcone_mem ?p)(n \<mapsto> ?x), session_mem := (session_mem ?p)(p \<mapsto> ?s)\<rparr>"
    have ab: "?a = ?b\<lparr>g_udp_fullcone_table := g_udp_fullcone_table w @ [n]\<rparr>"
      by (simp add: add_fullcone_def pending_session_def)
    have tp: "g_udp_fullcone_table ?p = g_udp_fullcone_table w" by (simp add: pending_session_def)
    obtain v t where l: "lru_add (\<lambda>m. un_last_active (full ?b m)) (unat (g_fullcone_cache_maxsize (uc_caches cfg))) n (g_udp_fullcone_table w) = (v, t)"
      by (metis surj_pair)
    have nt: "n \<notin> set (g_udp_fullcone_table w)" using n(1) assms(1) by (simp add: udp_inv_def)
    have w': "ok" "w' = (case v of None \<Rightarrow> ?b\<lparr>g_udp_fullcone_table := t\<rparr>
        | Some v \<Rightarrow> udp_session_close_detached (un_session (full (?b\<lparr>g_udp_fullcone_table := t\<rparr>) v)) (?b\<lparr>g_udp_fullcone_table := t\<rparr>))"
      using assms(9) by (simp_all add: udp_session_register_fullcone_def Let_def a' Some l g tp)
    have p: "sess ?a p = ?s" "p \<in> dom (session_mem ?a)" by (simp_all add: add_fullcone_def sess_def)
    show ?thesis
    proof (cases v)
      case None
      then have "w' = ?a" using w' ab lru_add_result [OF l nt] by simp
      then show ?thesis using inv p w'(1) by auto
    next
      case (Some u)
      then have t: "t = remove1 u (g_udp_fullcone_table w) @ [n]" "u \<in> set (g_udp_fullcone_table w)" using lru_add_result [OF l nt] by auto
      let ?q = "un_session (full ?a u)"
      have u: "u \<in> dom (fullcone_mem ?a)" "u \<noteq> n" using t(2) nt assms(1) by (auto simp: add_fullcone_def udp_inv_def)
      then have lk: "?q \<in> dom (session_mem ?a)" "us_fullcone_node (sess ?a ?q) = Some u"
        using inv by (auto simp: udp_inv_def fullcone_linked_def Let_def)
      have qp: "?q \<noteq> p" using lk(2) p(1) u(2) by auto
      have "w' = udp_session_close_indexed ?q ?a"
      proof -
        have "udp_session_close_detached ?q (?b\<lparr>g_udp_fullcone_table := remove1 u (g_udp_fullcone_table w) @ [n]\<rparr>) = udp_session_close_indexed ?q ?a"
          by (rule detached_is_indexed [OF t(2)]) (use lk(2) in \<open>simp_all add: ab sess_def\<close>)
        moreover have "full (?b\<lparr>g_udp_fullcone_table := t\<rparr>) u = full ?a u" by (simp add: ab full_def)
        ultimately show ?thesis using w'(2) Some t(1) by simp
      qed
      then show ?thesis
        using close_indexed_inv(1) [OF inv lk(1)] close_indexed_frame [OF inv lk(1)] qp p w'(1) by auto
    qed
  qed
qed

lemma register_symmetric_inv:
  assumes "udp_inv D w" "p \<notin> dom (session_mem w)" "pool_of sp (insert p (dom (session_mem w)))"
    "us_symmetric_node s = None" "us_fullcone_node s = None" "us_uses_fakedns s"
    "k = \<lparr>sk_client = us_client_endpoint s, sk_target = us_original_target_endpoint s\<rparr>" "\<forall>m \<in> dom (symmetric_mem w). un_key (symm w m) \<noteq> k"
    "posix_memalign_ok memalign (g_udp_symmetric_node_pool w)"
    "udp_session_register_symmetric cfg memalign p k now (pending_session p sp s w) = (ok, w')"
  shows "if ok then udp_inv D w' \<and> p \<in> dom (session_mem w') \<and> (\<exists>n. sess w' p = s\<lparr>us_symmetric_node := Some n\<rparr>)
    else udp_inv D (udp_session_free p w')"
proof -
  let ?p = "pending_session p sp s w"
  obtain r np where a: "pool_alloc memalign (g_udp_symmetric_node_pool w) = (r, np)" by (metis surj_pair)
  note pa = pool_of_alloc [OF udp_inv_pools(3) [OF assms(1)] assms(9) a]
  have a': "pool_alloc memalign (g_udp_symmetric_node_pool ?p) = (r, np)" using a by (simp add: pending_session_def)
  have g: "sess ?p p = s" by (simp add: pending_session_def sess_def)
  show ?thesis
  proof (cases r)
    case None
    then have w': "ok = False" "w' = ?p\<lparr>g_udp_symmetric_node_pool := np\<rparr>"
      using assms(10) a' by (simp_all add: udp_session_register_symmetric_def)
    have "pool_of (pool_free p sp) (dom (session_mem w))" using pool_of_free [OF assms(3), of p] assms(2) by simp
    moreover have "session_mem (udp_session_free p w') = session_mem w" using assms(2) by (auto simp: w' udp_session_free_def pending_session_def udp_close_def)
    ultimately have "udp_inv D (udp_session_free p w')"
      using pa None udp_inv_pools [OF assms(1)] g
      by (intro udp_inv_same [OF assms(1)]) (simp_all add: w' udp_session_free_def pending_session_def udp_close_def sess_def)
    then show ?thesis by (simp add: w'(1))
  next
    case (Some n)
    let ?s = "s\<lparr>us_symmetric_node := Some n\<rparr>"
    let ?x = "\<lparr>un_key = k, un_session = p, un_last_active = now\<rparr>"
    let ?a = "add_symmetric p n sp np ?s ?x w"
    have n: "n \<notin> dom (symmetric_mem w)" "pool_of np (insert n (dom (symmetric_mem w)))" using pa Some by auto
    have inv: "udp_inv D ?a" by (rule add_symmetric_inv [OF assms(1-3) n]) (use assms in simp_all)
    let ?b = "?p\<lparr>g_udp_symmetric_node_pool := np, symmetric_mem := (symmetric_mem ?p)(n \<mapsto> ?x), session_mem := (session_mem ?p)(p \<mapsto> ?s)\<rparr>"
    have ab: "?a = ?b\<lparr>g_udp_symmetric_table := g_udp_symmetric_table w @ [n]\<rparr>"
      by (simp add: add_symmetric_def pending_session_def)
    have tp: "g_udp_symmetric_table ?p = g_udp_symmetric_table w" by (simp add: pending_session_def)
    obtain v t where l: "lru_add (\<lambda>m. un_last_active (symm ?b m)) (unat (g_symmetric_cache_maxsize (uc_caches cfg))) n (g_udp_symmetric_table w) = (v, t)"
      by (metis surj_pair)
    have nt: "n \<notin> set (g_udp_symmetric_table w)" using n(1) assms(1) by (simp add: udp_inv_def)
    have w': "ok" "w' = (case v of None \<Rightarrow> ?b\<lparr>g_udp_symmetric_table := t\<rparr>
        | Some v \<Rightarrow> udp_session_close_detached (un_session (symm (?b\<lparr>g_udp_symmetric_table := t\<rparr>) v)) (?b\<lparr>g_udp_symmetric_table := t\<rparr>))"
      using assms(10) by (simp_all add: udp_session_register_symmetric_def Let_def a' Some l g tp)
    have p: "sess ?a p = ?s" "p \<in> dom (session_mem ?a)" by (simp_all add: add_symmetric_def sess_def)
    show ?thesis
    proof (cases v)
      case None
      then have "w' = ?a" using w' ab lru_add_result [OF l nt] by simp
      then show ?thesis using inv p w'(1) by auto
    next
      case (Some u)
      then have t: "t = remove1 u (g_udp_symmetric_table w) @ [n]" "u \<in> set (g_udp_symmetric_table w)" using lru_add_result [OF l nt] by auto
      let ?q = "un_session (symm ?a u)"
      have u: "u \<in> dom (symmetric_mem ?a)" "u \<noteq> n" using t(2) nt assms(1) by (auto simp: add_symmetric_def udp_inv_def)
      then have lk: "?q \<in> dom (session_mem ?a)" "us_symmetric_node (sess ?a ?q) = Some u" "us_uses_fakedns (sess ?a ?q)"
        using inv by (auto simp: udp_inv_def symmetric_linked_def Let_def)
      then have lk2: "us_fullcone_node (sess ?a ?q) = None" using inv by (auto simp: udp_inv_def session_linked_def)
      have qp: "?q \<noteq> p" using lk(2) p(1) u(2) by auto
      have "w' = udp_session_close_indexed ?q ?a"
      proof -
        have "udp_session_close_detached ?q (?b\<lparr>g_udp_symmetric_table := remove1 u (g_udp_symmetric_table w) @ [n]\<rparr>) = udp_session_close_indexed ?q ?a"
          by (rule detached_is_indexed_symmetric [OF t(2)]) (use lk(2) lk2 in \<open>simp_all add: ab sess_def\<close>)
        moreover have "symm (?b\<lparr>g_udp_symmetric_table := t\<rparr>) u = symm ?a u" by (simp add: ab symm_def)
        ultimately show ?thesis using w'(2) Some t(1) by simp
      qed
      then show ?thesis
        using close_indexed_inv(1) [OF inv lk(1)] close_indexed_frame [OF inv lk(1)] qp p w'(1) by auto
    qed
  qed
qed

lemma ctx_get_world:
  "udp_ctx_get init i w = (c, w') \<Longrightarrow> \<exists>cs. w' = w\<lparr>g_udp_ss_ctx := cs\<rparr>"
  by (auto simp: udp_ctx_get_def split: option.splits intro: exI [of _ "g_udp_ss_ctx w"])

lemma udp_inv_ctx: "udp_inv D w \<Longrightarrow> udp_inv D (w\<lparr>g_udp_ss_ctx := cs\<rparr>)"
  by (rule udp_inv_same) (auto dest: udp_inv_pools)

lemma create_inv:
  assumes "udp_inv D w" "key_free pkt w" "symmetric_key = key_of pkt" "udp_session_env_ok env w"
    "udp_session_create cfg env now pkt symmetric_key i w = (r, w')"
  shows "udp_inv D w' \<and> (case r of None \<Rightarrow> True | Some p \<Rightarrow> session_for pkt p w')"
proof (cases "se_fd env < 0 \<or> \<not> se_connect_ok env")
  case True
  then have "udp_relay_connect_server env w = (-1, w)"
    by (auto simp: udp_relay_connect_server_def Let_def udp_open_def udp_close_def)
  then have "r = None \<and> w' = w" using assms(5) by (simp add: udp_session_create_def)
  then show ?thesis using assms(1) by simp
next
  case False
  let ?w = "udp_open (se_fd env) w"
  have c: "udp_relay_connect_server env w = (se_fd env, ?w)" using False by (simp add: udp_relay_connect_server_def Let_def)
  obtain q sp where a: "pool_alloc (se_session_mem env) (g_udp_session_pool w) = (q, sp)" by (metis surj_pair)
  have ap: "pool_alloc (se_session_mem env) (g_udp_session_pool ?w) = (q, sp)" using a by (simp add: udp_open_def)
  note pa = pool_of_alloc [OF udp_inv_pools(1) [OF assms(1)] _ a]
  have mem: "posix_memalign_ok (se_session_mem env) (g_udp_session_pool w)" using assms(4) by (simp add: udp_session_env_ok_def)
  show ?thesis
  proof (cases q)
    case None
    then have w': "r = None" "w' = udp_close (se_fd env) (?w\<lparr>g_udp_session_pool := sp\<rparr>)"
      using assms(5) False ap by (simp_all add: udp_session_create_def c)
    have "udp_inv D w'"
      using pa [OF mem] None udp_inv_pools [OF assms(1)] by (intro udp_inv_same [OF assms(1)]) (simp_all add: w'(2) udp_open_def udp_close_def)
    then show ?thesis using w'(1) by simp
  next
    case (Some p)
    have p: "p \<notin> dom (session_mem w)" "pool_of sp (insert p (dom (session_mem w)))" using pa [OF mem] Some by auto
    obtain x w1 where x: "udp_ctx_get (se_ctx env) (nat i) (?w\<lparr>g_udp_session_pool := sp\<rparr>) = (x, w1)" by (metis surj_pair)
    then obtain cs where w1: "w1 = (?w\<lparr>g_udp_session_pool := sp\<rparr>)\<lparr>g_udp_ss_ctx := cs\<rparr>" using ctx_get_world by blast
    show ?thesis
    proof (cases "x = None \<or> se_session env = None")
      case True
      then have w': "r = None" "w' = (udp_close (se_fd env) w1)\<lparr>g_udp_session_pool := pool_free p sp\<rparr>"
        using assms(5) False ap Some x by (auto simp: udp_session_create_def c Let_def w1 udp_close_def split: option.splits)
      have "udp_inv D w'"
        using pool_free_alloc [OF p(2,1)] udp_inv_pools [OF assms(1)]
        by (intro udp_inv_same [OF assms(1)]) (simp_all add: w'(2) w1 udp_open_def udp_close_def)
      then show ?thesis using w'(1) by simp
    next
      case f: False
      then obtain ctx u where cu: "x = Some ctx" "se_session env = Some u" by auto
      define s where "s = \<lparr>us_fd = se_fd env, us_client_endpoint = ui_client_endpoint pkt,
        us_original_target_endpoint = ui_original_target_endpoint pkt, us_uses_fakedns = ui_uses_fakedns pkt,
        us_server_idx = word_of_int i, us_fullcone_node = None, us_symmetric_node = None, us_ss_session = u\<rparr>"
      let ?v = "w\<lparr>g_udp_ss_ctx := cs\<rparr>"
      have v: "udp_inv D ?v" by (rule udp_inv_ctx [OF assms(1)])
      have pend: "w1\<lparr>session_mem := (session_mem w1)(p \<mapsto> s)\<rparr> = pending_session p sp s ?v"
        by (simp add: w1 pending_session_def udp_open_def s_def)
      define reg where "reg = (if ui_uses_fakedns pkt
        then udp_session_register_symmetric cfg (se_node_mem env) p (the symmetric_key) now (pending_session p sp s ?v)
        else udp_session_register_fullcone cfg (se_node_mem env) p now (pending_session p sp s ?v))"
      obtain ok w2 where rg: "reg = (ok, w2)" by (metis surj_pair)
      have w': "(r, w') = (if ok then (Some p, w2) else (None, udp_session_free p w2))"
        using assms(5) False ap Some x cu rg
        by (simp add: udp_session_create_def c Let_def s_def [symmetric] pend reg_def cong: if_cong split: bool.splits)
      have "symm ?v = symm w" "full ?v = full w" by (simp_all add: fun_eq_iff udp_reads)
      then have kf: "key_free pkt ?v" using assms(2) by (simp add: key_free_def)
      have res: "if ok then udp_inv D w2 \<and> p \<in> dom (session_mem w2) \<and> (\<exists>n m. sess w2 p = s\<lparr>us_fullcone_node := n, us_symmetric_node := m\<rparr>)
        else udp_inv D (udp_session_free p w2)"
      proof (cases "ui_uses_fakedns pkt")
        case True
        have "if ok then udp_inv D w2 \<and> p \<in> dom (session_mem w2) \<and> (\<exists>n. sess w2 p = s\<lparr>us_symmetric_node := Some n\<rparr>)
          else udp_inv D (udp_session_free p w2)"
          by (rule register_symmetric_inv [OF v, where k = "the symmetric_key" and memalign = "se_node_mem env" and cfg = cfg and now = now and sp = sp])
            (use p True kf assms(3,4) rg in \<open>auto simp: s_def reg_def key_free_def key_of_def udp_session_env_ok_def\<close>)
        moreover have "\<exists>n m. s\<lparr>us_symmetric_node := k\<rparr> = s\<lparr>us_fullcone_node := n, us_symmetric_node := m\<rparr>" for k
          by (rule exI [of _ None], rule exI [of _ k]) (simp add: s_def)
        ultimately show ?thesis by (cases ok) auto
      next
        case False
        have "if ok then udp_inv D w2 \<and> p \<in> dom (session_mem w2) \<and> (\<exists>n. sess w2 p = s\<lparr>us_fullcone_node := Some n\<rparr>)
          else udp_inv D (udp_session_free p w2)"
          by (rule register_fullcone_inv [OF v, where memalign = "se_node_mem env" and cfg = cfg and now = now and sp = sp])
            (use p False kf assms(3,4) rg in \<open>auto simp: s_def reg_def key_free_def key_of_def udp_session_env_ok_def\<close>)
        moreover have "\<exists>n m. s\<lparr>us_fullcone_node := k\<rparr> = s\<lparr>us_fullcone_node := n, us_symmetric_node := m\<rparr>" for k
          by (rule exI [of _ k], rule exI [of _ None]) (simp add: s_def)
        ultimately show ?thesis by (cases ok) auto
      qed
      show ?thesis using w' res by (auto simp: session_for_def s_def split: if_splits)
    qed
  qed
qed

section \<open>Finding a session\<close>

lemma lookup_some:
  assumes "udp_inv D w" "udp_session_lookup pkt (key_of pkt) w = Some p" shows "session_for pkt p w"
proof (cases "ui_uses_fakedns pkt")
  case True
  then obtain n where n: "lru_find (\<lambda>n. un_key (symm w n)) (the (key_of pkt)) (g_udp_symmetric_table w) = Some n" "p = un_session (symm w n)"
    using assms(2) by (auto simp: udp_session_lookup_def key_of_def split: option.splits)
  have "n \<in> dom (symmetric_mem w)" "un_key (symm w n) = the (key_of pkt)"
    using lru.get_some [OF n(1)] assms(1) by (auto simp: udp_inv_def)
  then show ?thesis using assms(1) n(2) True by (auto simp: udp_inv_def symmetric_linked_def Let_def session_for_def key_of_def)
next
  case False
  then obtain n where n: "lru_find (\<lambda>n. un_key (full w n)) (ui_client_endpoint pkt) (g_udp_fullcone_table w) = Some n" "p = un_session (full w n)"
    using assms(2) by (auto simp: udp_session_lookup_def key_of_def split: option.splits)
  have "n \<in> dom (fullcone_mem w)" "un_key (full w n) = ui_client_endpoint pkt"
    using lru.get_some [OF n(1)] assms(1) by (auto simp: udp_inv_def)
  then show ?thesis using assms(1) n(2) False by (auto simp: udp_inv_def fullcone_linked_def Let_def session_for_def)
qed

lemma lookup_none:
  assumes "udp_inv D w" "udp_session_lookup pkt (key_of pkt) w = None" shows "key_free pkt w"
proof (cases "ui_uses_fakedns pkt")
  case True
  then have n: "lru_find (\<lambda>n. un_key (symm w n)) (the (key_of pkt)) (g_udp_symmetric_table w) = None"
    using assms(2) by (auto simp: udp_session_lookup_def key_of_def split: option.splits)
  show ?thesis using lru.get_none [OF n] assms(1) True by (auto simp: key_free_def udp_inv_def key_of_def)
next
  case False
  then have n: "lru_find (\<lambda>n. un_key (full w n)) (ui_client_endpoint pkt) (g_udp_fullcone_table w) = None"
    using assms(2) by (auto simp: udp_session_lookup_def key_of_def split: option.splits)
  show ?thesis using lru.get_none [OF n] assms(1) False by (auto simp: key_free_def udp_inv_def)
qed

text \<open>Once the session is closed its key is free: no two nodes of a table have the same key.\<close>

lemma closed_key_free:
  assumes "udp_inv D w" "session_for pkt p w" shows "key_free pkt (udp_session_close_indexed p w)"
proof -
  have p: "p \<in> dom (session_mem w)" using assms(2) by (simp add: session_for_def)
  note c = close_indexed_inv(2) [OF assms(1) p]
  show ?thesis
  proof (cases "ui_uses_fakedns pkt")
    case True
    then obtain n where n: "n \<in> dom (symmetric_mem w)" "un_session (symm w n) = p" "udp_session_close_indexed p w = drop_symmetric p n w"
      using c assms(2) by (auto simp: session_for_def)
    have k: "Some (un_key (symm w n)) = key_of pkt"
      using assms n(1,2) True by (auto simp: udp_inv_def symmetric_linked_def Let_def session_for_def key_of_def)
    have i: "inj_on (\<lambda>n. un_key (symm w n)) (dom (symmetric_mem w))" using assms(1) by (simp add: udp_inv_def)
    have "Some (un_key (symm w m)) \<noteq> key_of pkt" if "m \<in> dom (symmetric_mem w)" "m \<noteq> n" for m
      using inj_onD [OF i _ that(1) n(1)] that(2) k by (metis option.inject)
    moreover have "dom (symmetric_mem (drop_symmetric p n w)) = dom (symmetric_mem w) - {n}"
      "m \<noteq> n \<Longrightarrow> symm (drop_symmetric p n w) m = symm w m" for m by (auto simp: drop_symmetric_def symm_def)
    ultimately show ?thesis using True by (simp add: key_free_def n(3))
  next
    case False
    then obtain n where n: "n \<in> dom (fullcone_mem w)" "un_session (full w n) = p" "udp_session_close_indexed p w = drop_fullcone p n w"
      using c assms(2) by (auto simp: session_for_def)
    have k: "un_key (full w n) = ui_client_endpoint pkt"
      using assms n(1,2) False by (auto simp: udp_inv_def fullcone_linked_def Let_def session_for_def)
    have i: "inj_on (\<lambda>n. un_key (full w n)) (dom (fullcone_mem w))" using assms(1) by (simp add: udp_inv_def)
    have "un_key (full w m) \<noteq> ui_client_endpoint pkt" if "m \<in> dom (fullcone_mem w)" "m \<noteq> n" for m
      using inj_onD [OF i _ that(1) n(1)] that(2) k by metis
    moreover have "dom (fullcone_mem (drop_fullcone p n w)) = dom (fullcone_mem w) - {n}"
      "m \<noteq> n \<Longrightarrow> full (drop_fullcone p n w) m = full w m" for m by (auto simp: drop_fullcone_def full_def)
    ultimately show ?thesis using False by (simp add: key_free_def n(3))
  qed
qed

end
