(* ===== verification/UdpLife.thy ===== *)
theory UdpLife
  imports UdpSessions
begin

text \<open>
  Every callback of the UDP proxy keeps the invariant of \<open>UdpSessions\<close> and the capacities of the tables; the
  removal of idle sessions and the shutdown as folds over the tables.
\<close>

section \<open>From the client to the server\<close>

lemma env_ok_closed:
  assumes "udp_inv D w" "p \<in> dom (session_mem w)"
  shows "udp_session_env_ok env (udp_session_close_indexed p w) = udp_session_env_ok env w"
proof -
  have "udp_session_env_ok env (drop_symmetric p n w) = udp_session_env_ok env w"
    "udp_session_env_ok env (drop_fullcone p n w) = udp_session_env_ok env w" for n
    by (simp_all add: udp_session_env_ok_def drop_symmetric_def drop_fullcone_def pool_free_memalign_ok)
  then show ?thesis using close_indexed_inv(2) [OF assms] by (auto split: if_splits)
qed

lemma session_for_touch:
  "session_for pkt p w \<Longrightarrow> udp_inv D w \<Longrightarrow> session_for pkt p (udp_session_touch q now w)"
  by (auto simp: session_for_def sess_def udp_session_touch_def Let_def split: option.split)

lemma get_or_create_inv:
  assumes "udp_inv D w" "udp_session_env_ok env w" "udp_session_get_or_create cfg sel env now pkt (key_of pkt) w = (r, w')"
  shows "udp_inv D w' \<and> (case r of None \<Rightarrow> True | Some p \<Rightarrow> session_for pkt p w')"
proof (cases "udp_session_lookup pkt (key_of pkt) w")
  case None
  then have "udp_session_create cfg env now pkt (key_of pkt) (server_selector_best_udp sel) w = (r, w')"
    using assms(3) by (simp add: udp_session_get_or_create_def)
  then show ?thesis using create_inv [OF assms(1) lookup_none [OF assms(1) None] refl assms(2)] by blast
next
  case (Some p)
  note f = lookup_some [OF assms(1) Some]
  then have p: "p \<in> dom (session_mem w)" by (simp add: session_for_def)
  let ?i = "server_selector_udp_replacement (uint (us_server_idx (sess w p))) sel"
  show ?thesis
  proof (cases "?i \<ge> 0")
    case True
    then have c: "udp_session_create cfg env now pkt (key_of pkt) ?i (udp_session_close_indexed p w) = (r, w')"
      using assms(3) Some by (simp add: udp_session_get_or_create_def Let_def)
    show ?thesis
      using create_inv [OF close_indexed_inv(1) [OF assms(1) p] closed_key_free [OF assms(1) f] refl _ c] assms(2)
      by (simp add: env_ok_closed [OF assms(1) p])
  next
    case False
    then have "r = Some p" "w' = udp_session_touch p now w" using assms(3) Some by (auto simp: udp_session_get_or_create_def Let_def)
    then show ?thesis using touch_inv(1) [OF assms(1) p] session_for_touch [OF f assms(1)] by simp
  qed
qed

lemma sent_inv: "udp_inv D w \<Longrightarrow> udp_inv D (w\<lparr>udp_sent := x\<rparr>)"
  by (rule udp_inv_same) (auto dest: udp_inv_pools)

lemma send_to_server_inv:
  assumes "udp_inv D w" "p \<in> dom (session_mem w)"
  shows "udp_inv D (udp_relay_send_to_server lib sends p target payload w)"
  using session_state_inv [OF assms] by (auto simp: udp_relay_send_to_server_def Let_def sent_inv split: prod.split option.split io.split)

lemma handle_ingress_inv:
  assumes "udp_inv D w" "udp_session_env_ok env w"
  shows "udp_inv D (snd (udp_proxy_handle_ingress cfg dns sel lib env sends now v4 msg m w))"
proof -
  have "udp_inv D (udp_relay_send_to_server lib sends p target payload w')"
    if "udp_session_get_or_create cfg sel env now pkt (key_of pkt) w = (Some p, w')" for pkt p w' target payload
    using get_or_create_inv [OF assms that] by (auto simp: session_for_def intro!: send_to_server_inv)
  moreover have "udp_inv D w'"
    if "udp_session_get_or_create cfg sel env now pkt (key_of pkt) w = (None, w')" for pkt w'
    using get_or_create_inv [OF assms that] by simp
  ultimately show ?thesis
    using assms(1) unfolding udp_proxy_handle_ingress_def Let_def key_of_def [symmetric] by (auto split: prod.split option.split)
qed

section \<open>Capacities\<close>

definition udp_caps :: "udp_config \<Rightarrow> ('x, 'u) udp_world \<Rightarrow> bool" where
  "udp_caps cfg w \<longleftrightarrow>
     length (g_udp_fullcone_table w) \<le> max (unat (g_fullcone_cache_maxsize (uc_caches cfg))) 1 \<and>
     length (g_udp_symmetric_table w) \<le> max (unat (g_symmetric_cache_maxsize (uc_caches cfg))) 1 \<and>
     length (g_udp_tproxy_table w) \<le> max (unat (g_tproxy_cache_maxsize (uc_caches cfg))) 1"

lemma lru_add_length:
  assumes "lru_add ts m e t = (v, t')" "e \<notin> set t" "length t \<le> max m 1" shows "length t' \<le> max m 1"
  using lru_add_cases [OF assms(1,2)] assms(3) by (auto simp: length_remove1 Suc_pred length_pos_if_in_set)

lemma caps_same:
  assumes "udp_caps cfg w" "g_udp_fullcone_table w' = g_udp_fullcone_table w" "g_udp_symmetric_table w' = g_udp_symmetric_table w"
    "g_udp_tproxy_table w' = g_udp_tproxy_table w"
  shows "udp_caps cfg w'"
  using assms by (simp add: udp_caps_def)

lemma close_caps: "udp_caps cfg w \<Longrightarrow> udp_caps cfg (udp_session_close p st w)"
  by (auto simp: udp_caps_def udp_session_close_def udp_session_free_def udp_close_def Let_def lru_del_def hash_del_def length_remove1
      split: option.split)

lemma caps_insert:
  assumes "udp_caps cfg w" "g_udp_fullcone_table w' = g_udp_fullcone_table w" "g_udp_symmetric_table w' = g_udp_symmetric_table w"
    "g_udp_tproxy_table w' = g_udp_tproxy_table w"
  shows "lru_add ts (unat (g_fullcone_cache_maxsize (uc_caches cfg))) n (g_udp_fullcone_table w) = (v, t) \<Longrightarrow>
      n \<notin> set (g_udp_fullcone_table w) \<Longrightarrow> udp_caps cfg (w'\<lparr>g_udp_fullcone_table := t\<rparr>)"
    "lru_add ts (unat (g_symmetric_cache_maxsize (uc_caches cfg))) n (g_udp_symmetric_table w) = (v, t) \<Longrightarrow>
      n \<notin> set (g_udp_symmetric_table w) \<Longrightarrow> udp_caps cfg (w'\<lparr>g_udp_symmetric_table := t\<rparr>)"
  using assms lru_add_length by (auto simp: udp_caps_def)

lemma register_caps:
  assumes "udp_caps cfg w" "udp_inv D w0" "g_udp_fullcone_table w = g_udp_fullcone_table w0" "g_udp_symmetric_table w = g_udp_symmetric_table w0"
    "g_udp_fullcone_node_pool w = g_udp_fullcone_node_pool w0" "g_udp_symmetric_node_pool w = g_udp_symmetric_node_pool w0"
    "posix_memalign_ok memalign (g_udp_fullcone_node_pool w)" "posix_memalign_ok memalign (g_udp_symmetric_node_pool w)"
  shows "udp_caps cfg (snd (udp_session_register_fullcone cfg memalign p now w))"
    "udp_caps cfg (snd (udp_session_register_symmetric cfg memalign p k now w))"
proof -
  show "udp_caps cfg (snd (udp_session_register_fullcone cfg memalign p now w))"
  proof -
    obtain r np where a: "pool_alloc memalign (g_udp_fullcone_node_pool w) = (r, np)" by (metis surj_pair)
    have nt: "n \<notin> set (g_udp_fullcone_table w)" if "r = Some n" for n
      using pool_of_alloc [OF udp_inv_pools(2) [OF assms(2)], of memalign r np] a assms that by (auto simp: udp_inv_def)
    show ?thesis
    proof (cases r)
      case None
      then show ?thesis using a assms(1) by (simp add: udp_session_register_fullcone_def udp_caps_def)
    next
      case (Some n)
      let ?w = "w\<lparr>g_udp_fullcone_node_pool := np,
        fullcone_mem := (fullcone_mem w)(n \<mapsto> \<lparr>un_key = us_client_endpoint (sess w p), un_session = p, un_last_active = now\<rparr>),
        session_mem := (session_mem w)(p \<mapsto> (sess w p)\<lparr>us_fullcone_node := Some n\<rparr>)\<rparr>"
      obtain v t where l: "lru_add (\<lambda>n. un_last_active (full ?w n)) (unat (g_fullcone_cache_maxsize (uc_caches cfg))) n (g_udp_fullcone_table w) = (v, t)"
        by (metis surj_pair)
      have "udp_caps cfg (?w\<lparr>g_udp_fullcone_table := t\<rparr>)"
        by (rule caps_insert(1) [OF assms(1) _ _ _ l nt [OF Some]]) simp_all
      then show ?thesis
        using a l Some
        by (cases v) (simp_all add: udp_session_register_fullcone_def Let_def udp_session_close_detached_def close_caps)
    qed
  qed
  show "udp_caps cfg (snd (udp_session_register_symmetric cfg memalign p k now w))"
  proof -
    obtain r np where a: "pool_alloc memalign (g_udp_symmetric_node_pool w) = (r, np)" by (metis surj_pair)
    have nt: "n \<notin> set (g_udp_symmetric_table w)" if "r = Some n" for n
      using pool_of_alloc [OF udp_inv_pools(3) [OF assms(2)], of memalign r np] a assms that by (auto simp: udp_inv_def)
    show ?thesis
    proof (cases r)
      case None
      then show ?thesis using a assms(1) by (simp add: udp_session_register_symmetric_def udp_caps_def)
    next
      case (Some n)
      let ?w = "w\<lparr>g_udp_symmetric_node_pool := np,
        symmetric_mem := (symmetric_mem w)(n \<mapsto> \<lparr>un_key = k, un_session = p, un_last_active = now\<rparr>),
        session_mem := (session_mem w)(p \<mapsto> (sess w p)\<lparr>us_symmetric_node := Some n\<rparr>)\<rparr>"
      obtain v t where l: "lru_add (\<lambda>n. un_last_active (symm ?w n)) (unat (g_symmetric_cache_maxsize (uc_caches cfg))) n (g_udp_symmetric_table w) = (v, t)"
        by (metis surj_pair)
      have "udp_caps cfg (?w\<lparr>g_udp_symmetric_table := t\<rparr>)"
        by (rule caps_insert(2) [OF assms(1) _ _ _ l nt [OF Some]]) simp_all
      then show ?thesis
        using a l Some
        by (cases v) (simp_all add: udp_session_register_symmetric_def Let_def udp_session_close_detached_def close_caps)
    qed
  qed
qed

lemma create_caps:
  assumes "udp_caps cfg w" "udp_inv D w" "udp_session_env_ok env w"
  shows "udp_caps cfg (snd (udp_session_create cfg env now pkt k i w))"
proof -
  have c: "udp_caps cfg (snd (udp_session_register_fullcone cfg (se_node_mem env) p now w'))"
    "udp_caps cfg (snd (udp_session_register_symmetric cfg (se_node_mem env) p k' now w'))"
    if "g_udp_fullcone_table w' = g_udp_fullcone_table w" "g_udp_symmetric_table w' = g_udp_symmetric_table w"
      "g_udp_tproxy_table w' = g_udp_tproxy_table w" "g_udp_fullcone_node_pool w' = g_udp_fullcone_node_pool w"
      "g_udp_symmetric_node_pool w' = g_udp_symmetric_node_pool w" for w' :: "('a, 'b) udp_world" and p k'
    using register_caps [OF caps_same [OF assms(1) that(1-3)] assms(2) that(1,2,4,5)] assms(3) that(4,5)
    by (simp_all add: udp_session_env_ok_def)
  have f: "udp_caps cfg (udp_session_free p w')" if "udp_caps cfg w'" for p w'
    using that by (simp add: udp_caps_def udp_session_free_def udp_close_def)
  obtain fd w1 where r: "udp_relay_connect_server env w = (fd, w1)" by (metis surj_pair)
  have w1: "\<exists>fds. w1 = w\<lparr>udp_fds := fds\<rparr>"
    using r by (auto simp: udp_relay_connect_server_def Let_def udp_open_def udp_close_def split: if_splits intro: exI [of _ "udp_fds w"])
  obtain q sp where a: "pool_alloc (se_session_mem env) (g_udp_session_pool w1) = (q, sp)" by (metis surj_pair)
  show ?thesis
  proof (cases "fd < 0 \<or> q = None")
    case True
    then show ?thesis using r a w1 assms(1) by (auto simp: udp_session_create_def udp_caps_def udp_close_def)
  next
    case False
    then obtain p where p: "q = Some p" by auto
    obtain x w2 where x: "udp_ctx_get (se_ctx env) (nat i) (w1\<lparr>g_udp_session_pool := sp\<rparr>) = (x, w2)" by (metis surj_pair)
    have w2: "\<exists>fds cs. w2 = w\<lparr>udp_fds := fds, g_udp_session_pool := sp, g_udp_ss_ctx := cs\<rparr>" using ctx_get_world [OF x] w1 by auto
    then have w2c: "udp_caps cfg w2" "udp_caps cfg (w2\<lparr>session_mem := m\<rparr>)" for m using assms(1) by (auto simp: udp_caps_def)
    show ?thesis
    proof (cases "x = None \<or> se_session env = None")
      case True
      then show ?thesis using r a x False p w2c
        by (auto simp: udp_session_create_def Let_def udp_caps_def udp_close_def split: option.splits)
    next
      case n: False
      then obtain ctx u where cu: "x = Some ctx" "se_session env = Some u" by auto
      have reg: "udp_caps cfg (snd (udp_session_register_fullcone cfg (se_node_mem env) p now (w2\<lparr>session_mem := m\<rparr>)))"
        "udp_caps cfg (snd (udp_session_register_symmetric cfg (se_node_mem env) p (the k) now (w2\<lparr>session_mem := m\<rparr>)))" for m
        using w2 by (auto intro!: c)
      have g: "udp_caps cfg (snd (case R of (True, w) \<Rightarrow> (Some p, w) | (False, w) \<Rightarrow> (None, udp_session_free p w)))"
        if "udp_caps cfg (snd R)" for R
        using that f by (auto split: prod.split bool.split)
      show ?thesis
        using r a x False p cu by (simp add: udp_session_create_def Let_def) (intro conjI impI g reg)
    qed
  qed
qed

lemma get_or_create_caps:
  assumes "udp_caps cfg w" "udp_inv D w" "udp_session_env_ok env w"
  shows "udp_caps cfg (snd (udp_session_get_or_create cfg sel env now pkt (key_of pkt) w))"
proof (cases "udp_session_lookup pkt (key_of pkt) w")
  case None
  then show ?thesis using create_caps [OF assms] by (simp add: udp_session_get_or_create_def)
next
  case (Some p)
  have p: "p \<in> dom (session_mem w)" using lookup_some [OF assms(2) Some] by (simp add: session_for_def)
  have "udp_caps cfg (udp_session_close_indexed p w)" using assms(1) by (simp add: udp_session_close_indexed_def close_caps)
  note create_caps [OF this close_indexed_inv(1) [OF assms(2) p], of env now pkt "key_of pkt"]
  moreover have "udp_caps cfg (udp_session_touch p now w)"
    using assms(1) by (auto simp: udp_caps_def udp_session_touch_def Let_def split: option.split)
  ultimately show ?thesis using Some assms(3) env_ok_closed [OF assms(2) p] by (simp add: udp_session_get_or_create_def Let_def)
qed

lemma handle_ingress_caps:
  assumes "udp_caps cfg w" "udp_inv D w" "udp_session_env_ok env w"
  shows "udp_caps cfg (snd (udp_proxy_handle_ingress cfg dns sel lib env sends now v4 msg m w))"
proof -
  have s: "udp_caps cfg (udp_relay_send_to_server lib sends p target payload w')" if "udp_caps cfg w'" for p target payload w'
    using that by (auto simp: udp_caps_def udp_relay_send_to_server_def Let_def split: prod.split option.split io.split)
  show ?thesis
  proof -
    obtain pk m' where pk: "udp_ingress_parse cfg dns msg v4 m = (pk, m')" by (metis surj_pair)
    have g: "udp_caps cfg (snd (case R of (None, w) \<Rightarrow> (m', w)
        | (Some p, w) \<Rightarrow> (m', udp_relay_send_to_server lib sends p target payload w)))"
      if "udp_caps cfg (snd R)" for R target payload
      using that s by (auto split: prod.split option.split)
    show ?thesis
      using assms(1) unfolding udp_proxy_handle_ingress_def Let_def key_of_def [symmetric] pk
      by (cases pk) (simp, simp only: option.case prod.case, rule g, rule get_or_create_caps [OF assms])
  qed
qed

section \<open>Reply sockets\<close>

lemma tproxy_inv_change:
  assumes "udp_inv D w" "session_mem w' = session_mem w" "fullcone_mem w' = fullcone_mem w" "symmetric_mem w' = symmetric_mem w"
    "g_udp_session_pool w' = g_udp_session_pool w" "g_udp_fullcone_node_pool w' = g_udp_fullcone_node_pool w"
    "g_udp_symmetric_node_pool w' = g_udp_symmetric_node_pool w" "g_udp_fullcone_table w' = g_udp_fullcone_table w"
    "g_udp_symmetric_table w' = g_udp_symmetric_table w"
    "pool_of (g_udp_tproxy_pool w') (dom (tproxy_mem w'))" "distinct (g_udp_tproxy_table w' @ D')"
    "set (g_udp_tproxy_table w' @ D') = dom (tproxy_mem w')" "inj_on (\<lambda>e. te_key (tpro w' e)) (set (g_udp_tproxy_table w'))"
    "mset (udp_fds w') = session_fds w + tproxy_fds w'"
  shows "udp_inv D' w'"
proof -
  have r: "sess w' = sess w" "full w' = full w" "symm w' = symm w" using assms(2-4) by (simp_all add: fun_eq_iff udp_reads)
  have f: "session_fds w' = session_fds w" by (simp add: session_fds_def assms(2) r)
  show ?thesis
    using assms(1) unfolding udp_inv_def session_linked_def fullcone_linked_def symmetric_linked_def assms(2-9) r f
    using assms(10-14) by (simp add: f)
qed

lemma tproxy_touch_inv:
  assumes "udp_inv D w" "e \<in> dom (tproxy_mem w)"
  shows "udp_inv D (w\<lparr>tproxy_mem := (tproxy_mem w)(e \<mapsto> (tpro w e)\<lparr>te_last_active := now\<rparr>)\<rparr>)"
proof -
  let ?w = "w\<lparr>tproxy_mem := (tproxy_mem w)(e \<mapsto> (tpro w e)\<lparr>te_last_active := now\<rparr>)\<rparr>"
  have k: "te_key (tpro ?w x) = te_key (tpro w x)" "te_sockfd (tpro ?w x) = te_sockfd (tpro w x)" for x by (simp_all add: tpro_def)
  have d: "dom ((tproxy_mem w)(e \<mapsto> x)) = dom (tproxy_mem w)" for x using assms(2) by auto
  show ?thesis
    by (rule tproxy_inv_change [OF assms(1)])
      (use assms(1) in \<open>simp_all add: udp_inv_def tproxy_fds_def k d del: fun_upd_apply dom_fun_upd\<close>)
qed

lemma tproxy_add_inv:
  assumes "udp_inv D w" "e \<notin> dom (tproxy_mem w)" "pool_of tp (insert e (dom (tproxy_mem w)))"
    "\<forall>x \<in> set (g_udp_tproxy_table w). te_key (tpro w x) \<noteq> te_key y"
    "lru_add ts m e (g_udp_tproxy_table w) = (v, t)"
  shows "udp_inv (case v of None \<Rightarrow> D | Some u \<Rightarrow> D @ [u])
    (w\<lparr>udp_fds := te_sockfd y # udp_fds w, g_udp_tproxy_pool := tp, tproxy_mem := (tproxy_mem w)(e \<mapsto> y), g_udp_tproxy_table := t\<rparr>)"
    (is "udp_inv ?D ?w")
proof -
  have o: "distinct (g_udp_tproxy_table w @ D)" "set (g_udp_tproxy_table w @ D) = dom (tproxy_mem w)"
    "inj_on (\<lambda>x. te_key (tpro w x)) (set (g_udp_tproxy_table w))" "finite (dom (tproxy_mem w))"
    using assms(1) by (simp_all add: udp_inv_def pool_of_def)
  have e: "e \<notin> set (g_udp_tproxy_table w)" "e \<notin> set D" using assms(2) o(2) by auto
  have k: "tpro ?w e = y" "x \<noteq> e \<Longrightarrow> tpro ?w x = tpro w x" for x by (simp_all add: tpro_def)
  have t: "set t \<subseteq> insert e (set (g_udp_tproxy_table w))" "distinct (t @ ?D)" "set (t @ ?D) = insert e (dom (tproxy_mem w))"
    using lru_add_result [OF assms(5) e(1)] o(1,2) e by auto
  have dm: "dom (tproxy_mem ?w) = insert e (dom (tproxy_mem w))" by simp
  have "inj_on (\<lambda>x. te_key (tpro w x)) (set (g_udp_tproxy_table w)) = inj_on (\<lambda>x. te_key (tpro ?w x)) (set (g_udp_tproxy_table w))"
    by (rule inj_on_cong) (use e k(2) in metis)
  then have "inj_on (\<lambda>x. te_key (tpro ?w x)) (insert e (set (g_udp_tproxy_table w)))"
    using o(3) assms(4) e(1) k by (auto simp: inj_on_insert simp del: fun_upd_apply) (metis k(2))
  then have inj: "inj_on (\<lambda>x. te_key (tpro ?w x)) (set t)" using t(1) by (rule inj_on_subset)
  have "tproxy_fds ?w = add_mset (te_sockfd (tpro ?w e)) (tproxy_fds w)"
    unfolding tproxy_fds_def dm by (rule image_mset_insert [OF o(4) assms(2)]) (use assms(2) k(2) in metis)
  then have "mset (udp_fds ?w) = session_fds w + tproxy_fds ?w" using assms(1) by (simp add: udp_inv_def k(1))
  then show ?thesis
    using inj t(2,3) assms(3) by (intro tproxy_inv_change [OF assms(1)]) (simp_all only: dm, simp_all)
qed

lemma tproxy_free_inv:
  assumes "udp_inv (e # D) w" shows "udp_inv D (udp_tproxy_entry_free e w)"
proof -
  let ?w = "udp_tproxy_entry_free e w"
  have o: "distinct (g_udp_tproxy_table w @ e # D)" "set (g_udp_tproxy_table w @ e # D) = dom (tproxy_mem w)"
    "inj_on (\<lambda>x. te_key (tpro w x)) (set (g_udp_tproxy_table w))" "finite (dom (tproxy_mem w))" "pool_of (g_udp_tproxy_pool w) (dom (tproxy_mem w))"
    using assms by (simp_all add: udp_inv_def pool_of_def)
  have e: "e \<in> dom (tproxy_mem w)" using o(2) by auto
  have k: "x \<noteq> e \<Longrightarrow> tpro ?w x = tpro w x" for x by (simp add: tpro_def udp_tproxy_entry_free_def)
  have dm: "dom (tproxy_mem ?w) = dom (tproxy_mem w) - {e}" by (auto simp: udp_tproxy_entry_free_def)
  have tb: "g_udp_tproxy_table ?w = g_udp_tproxy_table w" by (simp add: udp_tproxy_entry_free_def udp_close_def)
  have ne: "a \<noteq> e" if "a \<in> set (g_udp_tproxy_table w)" for a using o(1) that by auto
  have "inj_on (\<lambda>x. te_key (tpro ?w x)) (set (g_udp_tproxy_table w)) = inj_on (\<lambda>x. te_key (tpro w x)) (set (g_udp_tproxy_table w))"
    by (rule inj_on_cong) (simp add: k ne)
  then have inj: "inj_on (\<lambda>x. te_key (tpro ?w x)) (set (g_udp_tproxy_table ?w))" using o(3) tb by simp
  have "tproxy_fds w = add_mset (te_sockfd (tpro w e)) (tproxy_fds ?w)"
    unfolding tproxy_fds_def dm by (rule image_mset_delete [OF o(4) e]) (simp add: k)
  then have f: "mset (udp_fds ?w) = session_fds w + tproxy_fds ?w"
    using assms by (simp add: udp_inv_def udp_tproxy_entry_free_def udp_close_def)
  have p: "pool_of (g_udp_tproxy_pool ?w) (dom (tproxy_mem ?w))"
    unfolding dm using pool_of_free [OF o(5) e] by (simp add: udp_tproxy_entry_free_def)
  have s: "set (g_udp_tproxy_table ?w @ D) = dom (tproxy_mem ?w)" unfolding dm tb using o(1,2) by auto
  show ?thesis
    by (rule tproxy_inv_change [OF assms _ _ _ _ _ _ _ _ p _ s inj f]) (use o(1) tb in \<open>simp_all add: udp_tproxy_entry_free_def udp_close_def\<close>)
qed

definition udp_tproxy_env_ok :: "udp_tproxy_env \<Rightarrow> ('x, 'u) udp_world \<Rightarrow> bool" where
  "udp_tproxy_env_ok env w \<longleftrightarrow> posix_memalign_ok (tpe_mem env) (g_udp_tproxy_pool w)"

text \<open>What the search for a reply socket keeps: the sessions, and the sockets and addresses of all entries.\<close>

definition tproxy_kept :: "('x, 'u) udp_world \<Rightarrow> ('x, 'u) udp_world \<Rightarrow> bool" where
  "tproxy_kept w w' \<longleftrightarrow>
     session_mem w' = session_mem w \<and> dom (tproxy_mem w) \<subseteq> dom (tproxy_mem w') \<and>
     (\<forall>e \<in> dom (tproxy_mem w). te_key (tpro w' e) = te_key (tpro w e) \<and> te_sockfd (tpro w' e) = te_sockfd (tpro w e))"

lemma tproxy_get_inv:
  assumes "udp_inv D w" "udp_tproxy_env_ok env w" "udp_caps cfg w"
    "udp_tproxy_entry_get_or_create cfg env now rs D w = (r, D', w')"
  shows "udp_inv D' w'" "udp_caps cfg w'" "tproxy_kept w w'"
    "case r of None \<Rightarrow> True | Some e \<Rightarrow> e \<in> dom (tproxy_mem w') \<and> te_key (tpro w' e) = rs"
proof -
  have "udp_inv D' w' \<and> udp_caps cfg w' \<and> tproxy_kept w w' \<and>
    (case r of None \<Rightarrow> True | Some e \<Rightarrow> e \<in> dom (tproxy_mem w') \<and> te_key (tpro w' e) = rs)"
  proof (cases "lru_find (\<lambda>e. te_key (tpro w e)) rs (g_udp_tproxy_table w)")
    case (Some e)
    have e: "e \<in> dom (tproxy_mem w)" "te_key (tpro w e) = rs" using lru.get_some [OF Some] assms(1) by (auto simp: udp_inv_def)
    have w': "r = Some e" "D' = D" "w' = w\<lparr>tproxy_mem := (tproxy_mem w)(e \<mapsto> (tpro w e)\<lparr>te_last_active := now\<rparr>)\<rparr>"
      using assms(4) Some by (auto simp: udp_tproxy_entry_get_or_create_def)
    show ?thesis
      using tproxy_touch_inv [OF assms(1) e(1), of now] assms(3) e w' by (auto simp: udp_caps_def tproxy_kept_def tpro_def)
  next
    case None
    note nk = lru.get_none [OF None]
    show ?thesis
    proof (cases "tpe_fd env < 0 \<or> \<not> tpe_bind_ok env")
      case True
      then have "r = None" "D' = D" "w' = w"
        using assms(4) None by (auto simp: udp_tproxy_entry_get_or_create_def Let_def udp_open_def udp_close_def split: if_splits)
      then show ?thesis using assms by (simp add: tproxy_kept_def)
    next
      case False
      obtain q tp where a: "pool_alloc (tpe_mem env) (g_udp_tproxy_pool w) = (q, tp)" by (metis surj_pair)
      note pa = pool_of_alloc [OF udp_inv_pools(4) [OF assms(1)] _ a]
      have m: "posix_memalign_ok (tpe_mem env) (g_udp_tproxy_pool w)" using assms(2) by (simp add: udp_tproxy_env_ok_def)
      show ?thesis
      proof (cases q)
        case n: None
        then have w': "r = None" "D' = D" "w' = w\<lparr>g_udp_tproxy_pool := tp\<rparr>"
          using assms(4) None a False by (auto simp: udp_tproxy_entry_get_or_create_def Let_def udp_open_def udp_close_def)
        have "udp_inv D w'" unfolding w'(3) using pa [OF m] n udp_inv_pools [OF assms(1)] by (intro udp_inv_same [OF assms(1)]) simp_all
        then show ?thesis using assms(3) w' by (auto simp: udp_caps_def tproxy_kept_def tpro_def)
      next
        case (Some e)
        let ?y = "\<lparr>te_key = rs, te_sockfd = tpe_fd env, te_last_active = now\<rparr>"
        let ?w = "w\<lparr>udp_fds := tpe_fd env # udp_fds w, g_udp_tproxy_pool := tp, tproxy_mem := (tproxy_mem w)(e \<mapsto> ?y)\<rparr>"
        have e: "e \<notin> dom (tproxy_mem w)" "pool_of tp (insert e (dom (tproxy_mem w)))" using pa [OF m] Some by auto
        obtain v t where l: "lru_add (\<lambda>e. te_last_active (tpro ?w e)) (unat (g_tproxy_cache_maxsize (uc_caches cfg))) e (g_udp_tproxy_table w) = (v, t)"
          by (metis surj_pair)
        have w': "r = Some e" "D' = (case v of None \<Rightarrow> D | Some u \<Rightarrow> D @ [u])" "w' = ?w\<lparr>g_udp_tproxy_table := t\<rparr>"
          using assms(4) None a False Some l by (simp_all add: udp_tproxy_entry_get_or_create_def Let_def udp_open_def)
        have i: "udp_inv D' w'"
          using tproxy_add_inv [OF assms(1) e, where y = ?y] l nk unfolding w' by simp
        have "e \<notin> set (g_udp_tproxy_table w)" using e(1) assms(1) by (auto simp: udp_inv_def)
        then have "udp_caps cfg w'" using lru_add_length [OF l] assms(3) by (simp add: w'(3) udp_caps_def)
        then show ?thesis using i e(1) w'(1,3) by (auto simp: tproxy_kept_def tpro_def)
      qed
    qed
  qed
  then show "udp_inv D' w'" "udp_caps cfg w'" "tproxy_kept w w'"
    "case r of None \<Rightarrow> True | Some e \<Rightarrow> e \<in> dom (tproxy_mem w') \<and> te_key (tpro w' e) = rs"
    by blast+
qed

fun reply_env_ok ::
  "udp_config \<Rightarrow> 'u ss2022_udp \<Rightarrow> ev_tstamp \<Rightarrow> ptr \<Rightarrow> (bytes \<times> udp_tproxy_env) list \<Rightarrow>
   udp_tproxy_send list \<times> ptr list \<times> ('x, 'u) udp_world \<Rightarrow> bool" where
  "reply_env_ok cfg lib now p [] acc = True"
| "reply_env_ok cfg lib now p ((d, env) # msgs) acc =
     (udp_tproxy_env_ok env (snd (snd acc)) \<and> reply_env_ok cfg lib now p msgs (udp_reply_one cfg lib now p env d acc))"

definition batch_inv :: "udp_config \<Rightarrow> ptr set \<Rightarrow> udp_tproxy_send list \<times> ptr list \<times> ('x, 'u) udp_world \<Rightarrow> bool" where
  "batch_inv cfg S acc \<longleftrightarrow> (case acc of (batch, D, w) \<Rightarrow>
     udp_inv D w \<and> udp_caps cfg w \<and> dom (session_mem w) = S \<and> (\<forall>m \<in> set batch. ts_source_entry m \<in> dom (tproxy_mem w)))"

lemma reply_one_inv:
  assumes "batch_inv cfg S acc" "p \<in> S" "udp_tproxy_env_ok env (snd (snd acc))"
  shows "batch_inv cfg S (udp_reply_one cfg lib now p env d acc)"
proof -
  obtain batch D w where acc: "acc = (batch, D, w)" by (cases acc)
  have a: "udp_inv D w" "udp_caps cfg w" "dom (session_mem w) = S" "\<forall>m \<in> set batch. ts_source_entry m \<in> dom (tproxy_mem w)"
    using assms(1) by (simp_all add: batch_inv_def acc)
  obtain opened u where o: "udp_client_open lib (us_ss_session (sess w p)) d UDP_DATAGRAM_MAXSIZ = (opened, u)" by (metis surj_pair)
  let ?w = "w\<lparr>session_mem := (session_mem w)(p \<mapsto> (sess w p)\<lparr>us_ss_session := u\<rparr>)\<rparr>"
  have w: "udp_inv D ?w" "udp_caps cfg ?w" "dom (session_mem ?w) = S" "udp_tproxy_env_ok env ?w" "tproxy_mem ?w = tproxy_mem w"
    using session_state_inv [OF a(1), of p u] assms(2,3) a(2,3) by (auto simp: udp_caps_def udp_tproxy_env_ok_def acc)
  have g: "batch_inv cfg S (case udp_tproxy_entry_get_or_create cfg env now rs D ?w of
      (None, D, w) \<Rightarrow> (batch, D, w)
    | (Some e, D, w) \<Rightarrow> (batch @ [udp_tproxy_queue_client_send e plain (us_client_endpoint (sess w p))], D, w))" for rs plain
  proof -
    obtain r D' w' where t: "udp_tproxy_entry_get_or_create cfg env now rs D ?w = (r, D', w')" by (metis surj_pair)
    note k = tproxy_get_inv [OF w(1,4,2) t]
    show ?thesis
      using k a(4) w(3,5) unfolding t tproxy_kept_def batch_inv_def
      by (cases r) (auto simp: udp_tproxy_queue_client_send_def)
  qed
  have n: "batch_inv cfg S (batch, D, ?w)" using w a(4) by (simp add: batch_inv_def)
  show ?thesis
    unfolding udp_reply_one_def acc Let_def prod.case o using g n by (auto split: option.split ss2022_host.split)
qed

lemma reply_fold_inv:
  assumes "batch_inv cfg S acc" "p \<in> S" "reply_env_ok cfg lib now p msgs acc"
  shows "batch_inv cfg S (fold (\<lambda>(d, env). udp_reply_one cfg lib now p env d) msgs acc)"
  using assms(1,3)
proof (induction msgs arbitrary: acc)
  case (Cons m msgs)
  obtain d env where m: "m = (d, env)" by (cases m)
  show ?case using Cons.IH [OF reply_one_inv [OF Cons.prems(1) assms(2)]] Cons.prems(2) m by simp
qed simp

lemma free_deferred_inv: "udp_inv D w \<Longrightarrow> udp_inv [] (fold udp_tproxy_entry_free D w)"
  by (induction D arbitrary: w) (simp_all add: tproxy_free_inv)

lemma entry_free_frame:
  "session_mem (udp_tproxy_entry_free e w) = session_mem w" "udp_sent (udp_tproxy_entry_free e w) = udp_sent w"
  "udp_caps cfg (udp_tproxy_entry_free e w) = udp_caps cfg w"
  by (simp_all add: udp_tproxy_entry_free_def udp_close_def udp_caps_def)

lemma free_deferred_frame:
  "session_mem (fold udp_tproxy_entry_free D w) = session_mem w \<and> udp_sent (fold udp_tproxy_entry_free D w) = udp_sent w \<and>
   udp_caps cfg (fold udp_tproxy_entry_free D w) = udp_caps cfg w"
  by (induction D arbitrary: w) (simp_all add: entry_free_frame)

lemma server_reply_inv:
  assumes "udp_inv [] w" "udp_caps cfg w" "p \<in> dom (session_mem w)"
    "\<And>msgs. fst (retry_eintr recvs) = IoOk msgs \<Longrightarrow> reply_env_ok cfg lib now p (take UDP_BATCH_SIZE msgs) ([], [], udp_session_touch p now w)"
  shows "udp_inv [] (udp_relay_on_server_reply cfg lib now recvs sends p w) \<and> udp_caps cfg (udp_relay_on_server_reply cfg lib now recvs sends p w)"
proof (cases "fst (retry_eintr recvs)")
  case (IoErr e)
  then show ?thesis using assms by (simp add: udp_relay_on_server_reply_def)
next
  case (IoOk msgs)
  show ?thesis
  proof (cases msgs)
    case Nil
    then show ?thesis using assms IoOk by (simp add: udp_relay_on_server_reply_def)
  next
    case (Cons m ms)
    have "batch_inv cfg (dom (session_mem w)) ([], [], udp_session_touch p now w)"
      using touch_inv [OF assms(1,3), of now] assms(2)
      by (auto simp: batch_inv_def udp_caps_def udp_session_touch_def Let_def split: option.split)
    note f = reply_fold_inv [OF this assms(3) assms(4) [OF IoOk]]
    obtain batch D w1 where w1: "fold (\<lambda>(d, env). udp_reply_one cfg lib now p env d) (take UDP_BATCH_SIZE msgs) ([], [], udp_session_touch p now w) = (batch, D, w1)"
      by (metis prod_cases3)
    have k: "udp_inv D (udp_tproxy_flush_client_sends batch sends w1)" "udp_caps cfg (udp_tproxy_flush_client_sends batch sends w1)"
      using f unfolding w1 by (auto simp: batch_inv_def udp_tproxy_flush_client_sends_def sent_inv udp_caps_def)
    have "udp_relay_on_server_reply cfg lib now recvs sends p w = fold udp_tproxy_entry_free D (udp_tproxy_flush_client_sends batch sends w1)"
      using IoOk w1 Cons by (simp add: udp_relay_on_server_reply_def)
    then show ?thesis using free_deferred_inv [OF k(1)] free_deferred_frame k(2) by metis
  qed
qed

section \<open>Sweeps\<close>

text \<open>A sweep over a table whose body drops what it is given or leaves all as it is.\<close>

lemma sweep_filter:
  assumes I: "\<And>p s. I s \<Longrightarrow> p \<in> set (tbl s) \<Longrightarrow> I (body p s)"
    and drop: "\<And>p s. I s \<Longrightarrow> p \<in> set (tbl s) \<Longrightarrow> tbl (body p s) = (if idle p s then remove1 p (tbl s) else tbl s)"
    and other: "\<And>p q s. I s \<Longrightarrow> p \<in> set (tbl s) \<Longrightarrow> q \<in> set (tbl s) \<Longrightarrow> q \<noteq> p \<Longrightarrow> idle q (body p s) = idle q s"
    and s: "I s" "distinct (tbl s)"
  shows "tbl (hash_for tbl body s) = filter (\<lambda>p. \<not> idle p s) (tbl s)" "I (hash_for tbl body s)"
proof -
  have h: "hash_for tbl body s = fold body (tbl s) s" "I (hash_for tbl body s)"
    using hash_for_fold [of I tbl body s] I drop s by (auto split: if_splits)
  have "tbl (fold body todo s) = done @ filter (\<lambda>p. \<not> idle p s) todo"
    if "I s" "tbl s = done @ todo" "distinct (done @ todo)" for "done" todo s
    using that
  proof (induction todo arbitrary: s "done")
    case (Cons p todo)
    have p: "p \<in> set (tbl s)" "p \<notin> set done" "p \<notin> set todo" using Cons.prems by auto
    have t: "tbl (body p s) = (if idle p s then done @ todo else done @ p # todo)"
      using drop [OF Cons.prems(1) p(1)] Cons.prems(2) p by (simp add: remove1_append)
    have o: "idle q (body p s) = idle q s" if "q \<in> set todo" for q
      using other [OF Cons.prems(1) p(1), of q] that Cons.prems(2) p(3) by auto
    then have f: "filter (\<lambda>q. \<not> idle q (body p s)) todo = filter (\<lambda>q. \<not> idle q s) todo" by (simp cong: filter_cong)
    show ?case
    proof (cases "idle p s")
      case True
      then have "tbl (fold body todo (body p s)) = done @ filter (\<lambda>q. \<not> idle q (body p s)) todo"
        using Cons.IH [of "body p s" "done"] I [OF Cons.prems(1) p(1)] t Cons.prems(3) by simp
      then show ?thesis using True f by simp
    next
      case False
      then have "tbl (fold body todo (body p s)) = (done @ [p]) @ filter (\<lambda>q. \<not> idle q (body p s)) todo"
        using Cons.IH [of "body p s" "done @ [p]"] I [OF Cons.prems(1) p(1)] t Cons.prems(3) by simp
      then show ?thesis using False f by simp
    qed
  qed simp
  from this [of s "[]" "tbl s"] h s show "tbl (hash_for tbl body s) = filter (\<lambda>p. \<not> idle p s) (tbl s)" "I (hash_for tbl body s)"
    by simp_all
qed

text \<open>The three sweeps.\<close>

lemma drop_other:
  "m \<noteq> n \<Longrightarrow> full (drop_fullcone p n w) m = full w m" "symm (drop_fullcone p n w) = symm w"
  "m \<noteq> n \<Longrightarrow> symm (drop_symmetric p n w) m = symm w m" "full (drop_symmetric p n w) = full w"
  "tpro (drop_fullcone p n w) = tpro w" "tpro (drop_symmetric p n w) = tpro w"
  "g_udp_fullcone_table (drop_fullcone p n w) = remove1 n (g_udp_fullcone_table w)"
  "g_udp_symmetric_table (drop_symmetric p n w) = remove1 n (g_udp_symmetric_table w)"
  "g_udp_symmetric_table (drop_fullcone p n w) = g_udp_symmetric_table w"
  "g_udp_fullcone_table (drop_symmetric p n w) = g_udp_fullcone_table w"
  "g_udp_tproxy_table (drop_fullcone p n w) = g_udp_tproxy_table w" "g_udp_tproxy_table (drop_symmetric p n w) = g_udp_tproxy_table w"
  by (auto simp: drop_fullcone_def drop_symmetric_def udp_reads fun_eq_iff)

lemma close_node_fullcone:
  assumes "udp_inv D w" "n \<in> set (g_udp_fullcone_table w)"
  shows "udp_session_close_indexed (un_session (full w n)) w = drop_fullcone (un_session (full w n)) n w"
    "udp_inv D (drop_fullcone (un_session (full w n)) n w)"
proof -
  have n: "n \<in> dom (fullcone_mem w)" using assms by (auto simp: udp_inv_def)
  then have "us_fullcone_node (sess w (un_session (full w n))) = Some n" using assms(1) by (auto simp: udp_inv_def fullcone_linked_def Let_def)
  then show "udp_session_close_indexed (un_session (full w n)) w = drop_fullcone (un_session (full w n)) n w" by (rule close_indexed_fullcone)
  show "udp_inv D (drop_fullcone (un_session (full w n)) n w)" by (rule drop_fullcone_inv [OF assms(1) n refl])
qed

lemma close_node_symmetric:
  assumes "udp_inv D w" "n \<in> set (g_udp_symmetric_table w)"
  shows "udp_session_close_indexed (un_session (symm w n)) w = drop_symmetric (un_session (symm w n)) n w"
    "udp_inv D (drop_symmetric (un_session (symm w n)) n w)"
proof -
  have n: "n \<in> dom (symmetric_mem w)" using assms by (auto simp: udp_inv_def)
  then have "us_uses_fakedns (sess w (un_session (symm w n)))" "us_symmetric_node (sess w (un_session (symm w n))) = Some n"
      "un_session (symm w n) \<in> dom (session_mem w)"
    using assms(1) by (auto simp: udp_inv_def symmetric_linked_def Let_def)
  moreover then have "us_fullcone_node (sess w (un_session (symm w n))) = None" using assms(1) by (auto simp: udp_inv_def session_linked_def)
  ultimately show "udp_session_close_indexed (un_session (symm w n)) w = drop_symmetric (un_session (symm w n)) n w"
    by (intro close_indexed_symmetric)
  show "udp_inv D (drop_symmetric (un_session (symm w n)) n w)" by (rule drop_symmetric_inv [OF assms(1) n refl])
qed

lemma close_entry:
  assumes "udp_inv [] w" "e \<in> set (g_udp_tproxy_table w)"
  shows "udp_inv [] (udp_tproxy_entry_close e w)" "g_udp_tproxy_table (udp_tproxy_entry_close e w) = remove1 e (g_udp_tproxy_table w)"
    "x \<noteq> e \<Longrightarrow> tpro (udp_tproxy_entry_close e w) x = tpro w x" "full (udp_tproxy_entry_close e w) = full w"
    "symm (udp_tproxy_entry_close e w) = symm w" "g_udp_fullcone_table (udp_tproxy_entry_close e w) = g_udp_fullcone_table w"
    "g_udp_symmetric_table (udp_tproxy_entry_close e w) = g_udp_symmetric_table w"
    "session_mem (udp_tproxy_entry_close e w) = session_mem w"
proof -
  let ?w = "w\<lparr>g_udp_tproxy_table := lru_del e (g_udp_tproxy_table w)\<rparr>"
  have s: "session_fds ?w = session_fds w" "tproxy_fds ?w = tproxy_fds w" by (simp_all add: session_fds_def tproxy_fds_def udp_reads)
  have t: "tpro ?w = tpro w" by (simp add: fun_eq_iff tpro_def)
  have o: "distinct (g_udp_tproxy_table w)" "set (g_udp_tproxy_table w) = dom (tproxy_mem w)"
    "inj_on (\<lambda>x. te_key (tpro w x)) (set (g_udp_tproxy_table w))" using assms(1) by (auto simp: udp_inv_def)
  have d: "set (g_udp_tproxy_table ?w @ [e]) = dom (tproxy_mem ?w)" "distinct (g_udp_tproxy_table ?w @ [e])"
    using o assms(2) by (auto simp: lru_del_def hash_del_def)
  have i: "inj_on (\<lambda>x. te_key (tpro ?w x)) (set (g_udp_tproxy_table ?w))"
    unfolding t by (rule inj_on_subset [OF o(3)]) (simp add: lru_del_def hash_del_def set_remove1_subset)
  have "udp_inv [e] ?w"
    by (rule tproxy_inv_change [OF assms(1) _ _ _ _ _ _ _ _ _ d(2,1) i])
      (use assms(1) in \<open>simp_all add: udp_inv_def s\<close>)
  then show "udp_inv [] (udp_tproxy_entry_close e w)" unfolding udp_tproxy_entry_close_def by (rule tproxy_free_inv)
qed (simp_all add: udp_tproxy_entry_close_def udp_tproxy_entry_free_def udp_close_def lru_del_def hash_del_def udp_reads fun_eq_iff)

lemma gc_fullcone:
  fixes w :: "('x, 'u) udp_world"
  assumes "udp_inv [] w" "w' = udp_gc_sweep_fullcone_sessions now T w"
  shows "udp_inv [] w'" "g_udp_fullcone_table w' = filter (\<lambda>n. \<not> udp_gc_is_idle now (un_last_active (full w n)) T) (g_udp_fullcone_table w)"
    "g_udp_symmetric_table w' = g_udp_symmetric_table w" "symm w' = symm w" "g_udp_tproxy_table w' = g_udp_tproxy_table w" "tpro w' = tpro w"
proof -
  define I where "I s \<longleftrightarrow> udp_inv [] s \<and> g_udp_symmetric_table s = g_udp_symmetric_table w \<and> symm s = symm w \<and>
    g_udp_tproxy_table s = g_udp_tproxy_table w \<and> tpro s = tpro w" for s :: "('x, 'u) udp_world"
  let ?idle = "\<lambda>n w. udp_gc_is_idle now (un_last_active (full w n)) T"
  let ?body = "\<lambda>n w. if ?idle n w then udp_session_close_indexed (un_session (full w n)) w else w"
  have "I w" "distinct (g_udp_fullcone_table w)" using assms(1) by (simp add: I_def) (use assms(1) in \<open>auto simp: udp_inv_def\<close>)
  note sw = sweep_filter [where I = I and tbl = g_udp_fullcone_table and body = ?body and idle = ?idle, OF _ _ _ this]
  have s: "g_udp_fullcone_table w' = filter (\<lambda>n. \<not> ?idle n w) (g_udp_fullcone_table w) \<and> I w'"
    unfolding assms(2) udp_gc_sweep_fullcone_sessions_def
    by (intro conjI sw) (auto simp: I_def close_node_fullcone drop_other)
  then show "g_udp_fullcone_table w' = filter (\<lambda>n. \<not> ?idle n w) (g_udp_fullcone_table w)" by blast
  show "udp_inv [] w'" "g_udp_symmetric_table w' = g_udp_symmetric_table w" "symm w' = symm w" "g_udp_tproxy_table w' = g_udp_tproxy_table w" "tpro w' = tpro w"
    using s by (simp_all add: I_def)
qed

lemma gc_symmetric:
  fixes w :: "('x, 'u) udp_world"
  assumes "udp_inv [] w" "w' = udp_gc_sweep_symmetric_sessions now T w"
  shows "udp_inv [] w'" "g_udp_symmetric_table w' = filter (\<lambda>n. \<not> udp_gc_is_idle now (un_last_active (symm w n)) T) (g_udp_symmetric_table w)"
    "g_udp_fullcone_table w' = g_udp_fullcone_table w" "full w' = full w" "g_udp_tproxy_table w' = g_udp_tproxy_table w" "tpro w' = tpro w"
proof -
  define I where "I s \<longleftrightarrow> udp_inv [] s \<and> g_udp_fullcone_table s = g_udp_fullcone_table w \<and> full s = full w \<and>
    g_udp_tproxy_table s = g_udp_tproxy_table w \<and> tpro s = tpro w" for s :: "('x, 'u) udp_world"
  let ?idle = "\<lambda>n w. udp_gc_is_idle now (un_last_active (symm w n)) T"
  let ?body = "\<lambda>n w. if ?idle n w then udp_session_close_indexed (un_session (symm w n)) w else w"
  have "I w" "distinct (g_udp_symmetric_table w)" using assms(1) by (simp add: I_def) (use assms(1) in \<open>auto simp: udp_inv_def\<close>)
  note sw = sweep_filter [where I = I and tbl = g_udp_symmetric_table and body = ?body and idle = ?idle, OF _ _ _ this]
  have s: "g_udp_symmetric_table w' = filter (\<lambda>n. \<not> ?idle n w) (g_udp_symmetric_table w) \<and> I w'"
    unfolding assms(2) udp_gc_sweep_symmetric_sessions_def
    by (intro conjI sw) (auto simp: I_def close_node_symmetric drop_other)
  then show "g_udp_symmetric_table w' = filter (\<lambda>n. \<not> ?idle n w) (g_udp_symmetric_table w)" by blast
  show "udp_inv [] w'" "g_udp_fullcone_table w' = g_udp_fullcone_table w" "full w' = full w" "g_udp_tproxy_table w' = g_udp_tproxy_table w" "tpro w' = tpro w"
    using s by (simp_all add: I_def)
qed

lemma gc_tproxy:
  fixes w :: "('x, 'u) udp_world"
  assumes "udp_inv [] w" "w' = udp_gc_sweep_tproxy_entries now T w"
  shows "udp_inv [] w'" "g_udp_tproxy_table w' = filter (\<lambda>e. \<not> udp_gc_is_idle now (te_last_active (tpro w e)) T) (g_udp_tproxy_table w)"
    "g_udp_fullcone_table w' = g_udp_fullcone_table w" "g_udp_symmetric_table w' = g_udp_symmetric_table w" "session_mem w' = session_mem w"
proof -
  define I where "I s \<longleftrightarrow> udp_inv [] s \<and> g_udp_fullcone_table s = g_udp_fullcone_table w \<and>
    g_udp_symmetric_table s = g_udp_symmetric_table w \<and> session_mem s = session_mem w" for s :: "('x, 'u) udp_world"
  let ?idle = "\<lambda>e w. udp_gc_is_idle now (te_last_active (tpro w e)) T"
  let ?body = "\<lambda>e w. if ?idle e w then udp_tproxy_entry_close e w else w"
  have "I w" "distinct (g_udp_tproxy_table w)" using assms(1) by (simp add: I_def) (use assms(1) in \<open>auto simp: udp_inv_def\<close>)
  note sw = sweep_filter [where I = I and tbl = g_udp_tproxy_table and body = ?body and idle = ?idle, OF _ _ _ this]
  have s: "g_udp_tproxy_table w' = filter (\<lambda>e. \<not> ?idle e w) (g_udp_tproxy_table w) \<and> I w'"
    unfolding assms(2) udp_gc_sweep_tproxy_entries_def
    by (intro conjI sw) (auto simp: I_def close_entry)
  then show "g_udp_tproxy_table w' = filter (\<lambda>e. \<not> ?idle e w) (g_udp_tproxy_table w)" by blast
  show "udp_inv [] w'" "g_udp_fullcone_table w' = g_udp_fullcone_table w" "g_udp_symmetric_table w' = g_udp_symmetric_table w"
    "session_mem w' = session_mem w"
    using s by (simp_all add: I_def)
qed

section \<open>Shutdown\<close>

lemma clear_fullcone:
  fixes w :: "('x, 'u) udp_world"
  assumes "udp_inv [] w" "w' = lru_clear g_udp_fullcone_table udp_fullcone_session_clear_cb w"
  shows "udp_inv [] w'" "g_udp_fullcone_table w' = []"
proof -
  define I where "I s \<longleftrightarrow> udp_inv [] s" for s :: "('x, 'u) udp_world"
  have s: "I w" "distinct (g_udp_fullcone_table w)" using assms(1) by (auto simp: I_def udp_inv_def)
  note c = hash_for_clears [where I = I and tbl = g_udp_fullcone_table and body = udp_fullcone_session_clear_cb, OF _ s]
  have "g_udp_fullcone_table w' = [] \<and> I w'"
    unfolding assms(2) lru_clear_def
    by (intro conjI c) (auto simp: I_def udp_fullcone_session_clear_cb_def close_node_fullcone drop_other)
  then show "udp_inv [] w'" "g_udp_fullcone_table w' = []" by (simp_all add: I_def)
qed

lemma clear_symmetric:
  fixes w :: "('x, 'u) udp_world"
  assumes "udp_inv [] w" "g_udp_fullcone_table w = []" "w' = lru_clear g_udp_symmetric_table udp_symmetric_session_clear_cb w"
  shows "udp_inv [] w'" "g_udp_fullcone_table w' = []" "g_udp_symmetric_table w' = []"
proof -
  define I where "I s \<longleftrightarrow> udp_inv [] s \<and> g_udp_fullcone_table s = []" for s :: "('x, 'u) udp_world"
  have s: "I w" "distinct (g_udp_symmetric_table w)" using assms(1,2) by (simp add: I_def) (use assms(1) in \<open>auto simp: udp_inv_def\<close>)
  note c = hash_for_clears [where I = I and tbl = g_udp_symmetric_table and body = udp_symmetric_session_clear_cb, OF _ s]
  have "g_udp_symmetric_table w' = [] \<and> I w'"
    unfolding assms(3) lru_clear_def
    by (intro conjI c) (auto simp: I_def udp_symmetric_session_clear_cb_def close_node_symmetric drop_other)
  then show "udp_inv [] w'" "g_udp_fullcone_table w' = []" "g_udp_symmetric_table w' = []" by (simp_all add: I_def)
qed

lemma clear_tproxy:
  fixes w :: "('x, 'u) udp_world"
  assumes "udp_inv [] w" "g_udp_fullcone_table w = []" "g_udp_symmetric_table w = []"
    "w' = lru_clear g_udp_tproxy_table udp_tproxy_entry_clear_cb w"
  shows "udp_inv [] w'" "g_udp_fullcone_table w' = []" "g_udp_symmetric_table w' = []" "g_udp_tproxy_table w' = []"
proof -
  define I where "I s \<longleftrightarrow> udp_inv [] s \<and> g_udp_fullcone_table s = [] \<and> g_udp_symmetric_table s = []" for s :: "('x, 'u) udp_world"
  have s: "I w" "distinct (g_udp_tproxy_table w)" using assms(1,2,3) by (simp add: I_def) (use assms(1) in \<open>auto simp: udp_inv_def\<close>)
  note c = hash_for_clears [where I = I and tbl = g_udp_tproxy_table and body = udp_tproxy_entry_clear_cb, OF _ s]
  have "g_udp_tproxy_table w' = [] \<and> I w'"
    unfolding assms(4) lru_clear_def
    by (intro conjI c) (auto simp: I_def udp_tproxy_entry_clear_cb_def close_entry)
  then show "udp_inv [] w'" "g_udp_fullcone_table w' = []" "g_udp_symmetric_table w' = []" "g_udp_tproxy_table w' = []"
    by (simp_all add: I_def)
qed

lemma udp_inv_timer: "udp_inv D w \<Longrightarrow> udp_inv D (w\<lparr>g_gc_timer := t\<rparr>)"
  by (rule udp_inv_same) (auto simp: session_fds_def tproxy_fds_def udp_reads udp_inv_def)

lemma close_all:
  fixes w :: "('x, 'u) udp_world"
  assumes "udp_inv [] w" "w' = udp_proxy_close_all_sessions w"
  shows "udp_inv [] w'" "g_udp_fullcone_table w' = []" "g_udp_symmetric_table w' = []" "g_udp_tproxy_table w' = []"
proof -
  let ?w1 = "lru_clear g_udp_fullcone_table udp_fullcone_session_clear_cb (udp_proxy_gc_stop w)"
  let ?w2 = "lru_clear g_udp_symmetric_table udp_symmetric_session_clear_cb ?w1"
  have 0: "udp_inv [] (udp_proxy_gc_stop w)" using udp_inv_timer [OF assms(1)] by (simp add: udp_proxy_gc_stop_def)
  note 1 = clear_fullcone [OF 0 refl]
  note 2 = clear_symmetric [OF 1 refl]
  have w: "w' = lru_clear g_udp_tproxy_table udp_tproxy_entry_clear_cb ?w2" by (simp add: assms(2) udp_proxy_close_all_sessions_def)
  from clear_tproxy [OF 2 w] show "udp_inv [] w'" "g_udp_fullcone_table w' = []" "g_udp_symmetric_table w' = []" "g_udp_tproxy_table w' = []" .
qed

text \<open>With no tables left nothing else is left either.\<close>

lemma no_tables_empty:
  assumes "udp_inv [] w" "g_udp_fullcone_table w = []" "g_udp_symmetric_table w = []" "g_udp_tproxy_table w = []"
  shows "session_mem w = Map.empty" "fullcone_mem w = Map.empty" "symmetric_mem w = Map.empty" "tproxy_mem w = Map.empty" "udp_fds w = []"
proof -
  have d: "dom (fullcone_mem w) = {}" "dom (symmetric_mem w) = {}" "dom (tproxy_mem w) = {}"
    using assms unfolding udp_inv_def by auto
  have l: "session_linked w p" if "p \<in> dom (session_mem w)" for p using assms(1) that by (simp add: udp_inv_def)
  have s: "dom (session_mem w) = {}"
  proof (rule equals0I)
    fix p assume "p \<in> dom (session_mem w)"
    then show False using l [of p] d by (simp add: session_linked_def split: if_splits)
  qed
  have "mset (udp_fds w) = session_fds w + tproxy_fds w" using assms(1) by (simp add: udp_inv_def)
  then show "udp_fds w = []" by (simp add: session_fds_def tproxy_fds_def s d)
  show "session_mem w = Map.empty" "fullcone_mem w = Map.empty" "symmetric_mem w = Map.empty" "tproxy_mem w = Map.empty"
    using s d by simp_all
qed

end
