(* ===== verification/UdpRuns.thy ===== *)
theory UdpRuns
  imports UdpLife
begin

text \<open>
  A UDP thread from its start to its end: the pools that \<^verbatim>\<open>run_event_loop\<close> of
  \<^verbatim>\<open>src/src/main.c\<close> creates for it, the events of its loop as a step relation, and the properties of
  every world it can reach.
\<close>

section \<open>The start of a thread\<close>

definition MEMPOOL_INITIAL_SIZE :: nat where "MEMPOOL_INITIAL_SIZE = 128"

record udp_pool_envs =
  env_session :: pool_env
  env_fullcone :: pool_env
  env_symmetric :: pool_env
  env_tproxy :: pool_env

definition udp_thread_start :: "udp_config \<Rightarrow> udp_pool_envs \<Rightarrow> ('x, 'u) udp_world option" where
  "udp_thread_start cfg env =
     (let fullcone_max_blocks = unat (g_fullcone_cache_maxsize (uc_caches cfg));
          symmetric_max_blocks = (if uc_fakedns cfg then unat (g_symmetric_cache_maxsize (uc_caches cfg)) else 0);
          session_max_blocks = fullcone_max_blocks + symmetric_max_blocks + 1;
          fullcone_node_max_blocks = fullcone_max_blocks + 1;
          symmetric_node_max_blocks = (if uc_fakedns cfg then symmetric_max_blocks + 1 else 0);
          tproxy_pool_max_blocks = unat (g_tproxy_cache_maxsize (uc_caches cfg)) + UDP_BATCH_SIZE
      in case thread_pool (env_session env) (min MEMPOOL_INITIAL_SIZE session_max_blocks) session_max_blocks of
           None \<Rightarrow> None
         | Some sp \<Rightarrow>
             (case thread_pool (env_fullcone env) (min MEMPOOL_INITIAL_SIZE fullcone_node_max_blocks) fullcone_node_max_blocks of
                None \<Rightarrow> None
              | Some fp \<Rightarrow>
                  (case (if uc_fakedns cfg
                         then thread_pool (env_symmetric env) (min MEMPOOL_INITIAL_SIZE symmetric_node_max_blocks) symmetric_node_max_blocks
                         else Some (no_pool (pe_size (env_symmetric env)))) of
                     None \<Rightarrow> None
                   | Some yp \<Rightarrow>
                       (case thread_pool (env_tproxy env) (min MEMPOOL_INITIAL_SIZE tproxy_pool_max_blocks) tproxy_pool_max_blocks of
                          None \<Rightarrow> None
                        | Some tp \<Rightarrow>
                            Some (udp_proxy_gc_start
                              \<lparr>g_udp_fullcone_table = [], g_udp_symmetric_table = [], g_udp_tproxy_table = [],
                               g_udp_session_pool = sp, g_udp_fullcone_node_pool = fp, g_udp_symmetric_node_pool = yp,
                               g_udp_tproxy_pool = tp, session_mem = Map.empty, fullcone_mem = Map.empty,
                               symmetric_mem = Map.empty, tproxy_mem = Map.empty,
                               g_udp_ss_ctx = replicate SS_MAX_SERVERS None, g_gc_timer = False, udp_fds = [], udp_sent = []\<rparr>)))))"

definition udp_pool_envs_ok :: "udp_pool_envs \<Rightarrow> bool" where
  "udp_pool_envs_ok env \<longleftrightarrow>
     pool_env_ok (env_session env) \<and> pool_env_ok (env_fullcone env) \<and> pool_env_ok (env_symmetric env) \<and> pool_env_ok (env_tproxy env)"

lemma thread_start_inv:
  fixes w :: "('x, 'u) udp_world"
  assumes "udp_thread_start cfg env = Some w" "udp_pool_envs_ok env"
  shows "udp_inv [] w" "udp_caps cfg w"
proof -
  have some: "(case x of None \<Rightarrow> None | Some y \<Rightarrow> f y) = Some z \<longleftrightarrow> (\<exists>y. x = Some y \<and> f y = Some z)"
    for x :: "mempool_state option" and f :: "mempool_state \<Rightarrow> ('x, 'u) udp_world option" and z by (cases x) auto
  obtain sp fp yp tp ib1 ib2 ib3 ib4 mb1 mb2 mb3 mb4 where
    t: "thread_pool (env_session env) ib1 mb1 = Some sp" "thread_pool (env_fullcone env) ib2 mb2 = Some fp"
      "(if uc_fakedns cfg then thread_pool (env_symmetric env) ib3 mb3 else Some (no_pool (pe_size (env_symmetric env)))) = Some yp"
      "thread_pool (env_tproxy env) ib4 mb4 = Some tp" and
    w: "Some (udp_proxy_gc_start
      \<lparr>g_udp_fullcone_table = [], g_udp_symmetric_table = [], g_udp_tproxy_table = [],
       g_udp_session_pool = sp, g_udp_fullcone_node_pool = fp, g_udp_symmetric_node_pool = yp,
       g_udp_tproxy_pool = tp, session_mem = Map.empty, fullcone_mem = Map.empty,
       symmetric_mem = Map.empty, tproxy_mem = Map.empty,
       g_udp_ss_ctx = replicate SS_MAX_SERVERS None, g_gc_timer = False, udp_fds = [], udp_sent = []\<rparr>) = Some w"
    using assms(1) unfolding udp_thread_start_def Let_def some by blast
  have p: "pool_of sp {}" "pool_of fp {}" "pool_of yp {}" "pool_of tp {}"
    using t thread_pool_of no_pool_of assms(2) by (auto simp: udp_pool_envs_ok_def pool_env_ok_def split: if_splits)
  show "udp_inv [] w" using p w unfolding udp_proxy_gc_start_def
    by (auto simp: udp_inv_def session_fds_def tproxy_fds_def)
  show "udp_caps cfg w" using w by (auto simp: udp_caps_def udp_proxy_gc_start_def)
qed

section \<open>The events of a thread\<close>

text \<open>What \<^verbatim>\<open>posix_memalign\<close> is relied upon for during a batch, each answer in the world it is given in.\<close>

fun batch_env_ok ::
  "udp_config \<Rightarrow> fakedns \<Rightarrow> 'u ss2022_udp \<Rightarrow> ev_tstamp \<Rightarrow> bool \<Rightarrow>
   (udp_msg \<times> 'x selectors \<times> ('x, 'u) udp_session_env \<times> nat io list) list \<Rightarrow> fakedns_mru \<times> ('x, 'u) udp_world \<Rightarrow> bool" where
  "batch_env_ok cfg dns lib now v4 [] s = True"
| "batch_env_ok cfg dns lib now v4 ((msg, sel, env, sends) # msgs) s =
     (udp_session_env_ok env (snd s) \<and>
      batch_env_ok cfg dns lib now v4 msgs (udp_proxy_handle_ingress cfg dns sel lib env sends now v4 msg (fst s) (snd s)))"

definition recv_env_ok ::
  "udp_config \<Rightarrow> fakedns \<Rightarrow> 'u ss2022_udp \<Rightarrow> ev_tstamp \<Rightarrow> bool \<Rightarrow>
   (udp_msg \<times> 'x selectors \<times> ('x, 'u) udp_session_env \<times> nat io list) list io list \<Rightarrow> fakedns_mru \<Rightarrow> ('x, 'u) udp_world \<Rightarrow> bool" where
  "recv_env_ok cfg dns lib now v4 recvs m w \<longleftrightarrow>
     (case fst (retry_eintr recvs) of IoErr _ \<Rightarrow> True
      | IoOk msgs \<Rightarrow> batch_env_ok cfg dns lib now v4 (take UDP_BATCH_SIZE msgs) (m, w))"

definition replies_env_ok ::
  "udp_config \<Rightarrow> 'u ss2022_udp \<Rightarrow> ev_tstamp \<Rightarrow> (bytes \<times> udp_tproxy_env) list io list \<Rightarrow> ptr \<Rightarrow> ('x, 'u) udp_world \<Rightarrow> bool" where
  "replies_env_ok cfg lib now recvs p w \<longleftrightarrow>
     (case fst (retry_eintr recvs) of IoErr _ \<Rightarrow> True
      | IoOk msgs \<Rightarrow> reply_env_ok cfg lib now p (take UDP_BATCH_SIZE msgs) ([], [], udp_session_touch p now w))"

text \<open>
  The callbacks the event loop of a UDP thread makes: the listening socket is readable, a session's socket is, the
  timer has run out. Time, the domains the fake addresses stand for and the selector's choice can be anything.
\<close>

inductive udp_step :: "udp_config \<Rightarrow> 'u ss2022_udp \<Rightarrow> ('x, 'u) udp_world \<Rightarrow> ('x, 'u) udp_world \<Rightarrow> bool"
  for cfg lib where
  step_recvmsg: "recv_env_ok cfg dns lib now v4 recvs m w \<Longrightarrow>
    udp_step cfg lib w (snd (udp_proxy_on_recvmsg cfg dns lib now v4 recvs m w))"
| step_reply: "p \<in> dom (session_mem w) \<Longrightarrow> replies_env_ok cfg lib now recvs p w \<Longrightarrow>
    udp_step cfg lib w (udp_relay_on_server_reply cfg lib now recvs sends p w)"
| step_tick: "udp_step cfg lib w (udp_gc_on_tick cfg now w)"

inductive udp_reachable :: "udp_config \<Rightarrow> 'u ss2022_udp \<Rightarrow> udp_pool_envs \<Rightarrow> ('x, 'u) udp_world \<Rightarrow> bool"
  for cfg lib env where
  reach_start: "udp_thread_start cfg env = Some w \<Longrightarrow> udp_reachable cfg lib env w"
| reach_step: "udp_reachable cfg lib env w \<Longrightarrow> udp_step cfg lib w w' \<Longrightarrow> udp_reachable cfg lib env w'"

lemma recv_fold_inv:
  "udp_inv [] (snd s) \<Longrightarrow> udp_caps cfg (snd s) \<Longrightarrow> batch_env_ok cfg dns lib now v4 msgs s \<Longrightarrow>
   s' = fold (\<lambda>(msg, sel, env, sends) (m, w). udp_proxy_handle_ingress cfg dns sel lib env sends now v4 msg m w) msgs s \<Longrightarrow>
   udp_inv [] (snd s') \<and> udp_caps cfg (snd s')"
proof (induction msgs arbitrary: s)
  case (Cons x msgs)
  obtain msg sel env sends where x: "x = (msg, sel, env, sends)" by (metis prod_cases4)
  obtain m w where s: "s = (m, w)" by (cases s)
  show ?case
    using Cons.prems unfolding x s
    by (intro Cons.IH [of "udp_proxy_handle_ingress cfg dns sel lib env sends now v4 msg m w"])
      (simp_all add: handle_ingress_inv handle_ingress_caps)
qed simp

lemma recvmsg_inv:
  assumes "udp_inv [] w" "udp_caps cfg w" "recv_env_ok cfg dns lib now v4 recvs m w" "w' = snd (udp_proxy_on_recvmsg cfg dns lib now v4 recvs m w)"
  shows "udp_inv [] w' \<and> udp_caps cfg w'"
proof (cases "fst (retry_eintr recvs)")
  case (IoOk msgs)
  show ?thesis
    unfolding assms(4)
    using recv_fold_inv [of "(m, w)" cfg dns lib now v4 "take UDP_BATCH_SIZE msgs"] assms(1-3) IoOk
    by (simp add: udp_proxy_on_recvmsg_def recv_env_ok_def)
qed (use assms in \<open>simp add: udp_proxy_on_recvmsg_def\<close>)

lemma filter_caps:
  assumes "udp_caps cfg w" "length (g_udp_fullcone_table w') \<le> length (g_udp_fullcone_table w)"
    "length (g_udp_symmetric_table w') \<le> length (g_udp_symmetric_table w)" "length (g_udp_tproxy_table w') \<le> length (g_udp_tproxy_table w)"
  shows "udp_caps cfg w'"
  using assms by (simp add: udp_caps_def)

text \<open>A tick takes the idle ones, and only those, out of each table, each judged by the time stamps before the tick.\<close>

lemma gc_tick:
  fixes w :: "('x, 'u) udp_world"
  assumes "udp_inv [] w" "w' = udp_gc_on_tick cfg now w"
  shows "udp_inv [] w'"
    "g_udp_fullcone_table w' =
       filter (\<lambda>n. \<not> udp_gc_is_idle now (un_last_active (full w n)) (of_nat (unat (uc_idletimeout_sec cfg)))) (g_udp_fullcone_table w)"
    "g_udp_symmetric_table w' =
       filter (\<lambda>n. \<not> udp_gc_is_idle now (un_last_active (symm w n)) (of_nat (unat (uc_idletimeout_sec cfg)))) (g_udp_symmetric_table w)"
    "g_udp_tproxy_table w' =
       filter (\<lambda>e. \<not> udp_gc_is_idle now (te_last_active (tpro w e)) (udp_gc_tproxy_timeout cfg)) (g_udp_tproxy_table w)"
proof -
  let ?T = "of_nat (unat (uc_idletimeout_sec cfg)) :: ev_tstamp"
  note 1 = gc_fullcone [OF assms(1) refl, of now ?T]
  note 2 = gc_symmetric [OF 1(1) refl, of now ?T]
  have w: "w' = udp_gc_sweep_tproxy_entries now (udp_gc_tproxy_timeout cfg)
     (udp_gc_sweep_symmetric_sessions now ?T (udp_gc_sweep_fullcone_sessions now ?T w))"
    by (simp add: assms(2) udp_gc_on_tick_def Let_def)
  note 3 = gc_tproxy [OF 2(1) w]
  show "udp_inv [] w'" by (rule 3)
  show "g_udp_fullcone_table w' = filter (\<lambda>n. \<not> udp_gc_is_idle now (un_last_active (full w n)) ?T) (g_udp_fullcone_table w)"
    by (simp only: 3 2 1)
  show "g_udp_symmetric_table w' = filter (\<lambda>n. \<not> udp_gc_is_idle now (un_last_active (symm w n)) ?T) (g_udp_symmetric_table w)"
    by (simp only: 3 2 1)
  show "g_udp_tproxy_table w' = filter (\<lambda>e. \<not> udp_gc_is_idle now (te_last_active (tpro w e)) (udp_gc_tproxy_timeout cfg)) (g_udp_tproxy_table w)"
    by (simp only: 3 2 1)
qed

lemma udp_step_inv:
  assumes "udp_step cfg lib w w'" "udp_inv [] w" "udp_caps cfg w" shows "udp_inv [] w' \<and> udp_caps cfg w'"
  using assms
proof (induction rule: udp_step.induct)
  case step_recvmsg
  then show ?case using recvmsg_inv by blast
next
  case (step_reply p w now recvs sends)
  then show ?case by (intro server_reply_inv) (auto simp: replies_env_ok_def)
next
  case (step_tick w now)
  note t = gc_tick [OF step_tick(1) refl, of cfg now]
  have "udp_caps cfg (udp_gc_on_tick cfg now w)" by (rule filter_caps [OF step_tick(2)]; unfold t(2-4); simp)
  then show ?case using t(1) by blast
qed

lemma udp_reachable_inv:
  assumes "udp_reachable cfg lib env w" "udp_pool_envs_ok env" shows "udp_inv [] w \<and> udp_caps cfg w"
  using assms
proof (induction rule: udp_reachable.induct)
  case (reach_start w)
  then show ?case using thread_start_inv by blast
next
  case reach_step
  then show ?case using udp_step_inv by blast
qed

section \<open>Counting descriptors\<close>

lemma inv_fullcone_link:
  "udp_inv D w \<Longrightarrow> n \<in> dom (fullcone_mem w) \<Longrightarrow>
   un_session (full w n) \<in> dom (session_mem w) \<and> \<not> us_uses_fakedns (sess w (un_session (full w n))) \<and>
   us_fullcone_node (sess w (un_session (full w n))) = Some n"
  by (simp add: udp_inv_def fullcone_linked_def Let_def)

lemma inv_symmetric_link:
  "udp_inv D w \<Longrightarrow> n \<in> dom (symmetric_mem w) \<Longrightarrow>
   un_session (symm w n) \<in> dom (session_mem w) \<and> us_uses_fakedns (sess w (un_session (symm w n))) \<and>
   us_symmetric_node (sess w (un_session (symm w n))) = Some n"
  by (simp add: udp_inv_def symmetric_linked_def Let_def)

lemma inv_session_link:
  "udp_inv D w \<Longrightarrow> p \<in> dom (session_mem w) \<Longrightarrow>
   (if us_uses_fakedns (sess w p) then \<exists>n \<in> dom (symmetric_mem w). un_session (symm w n) = p
    else \<exists>n \<in> dom (fullcone_mem w). un_session (full w n) = p)"
proof -
  assume a: "udp_inv D w" "p \<in> dom (session_mem w)"
  then have "session_linked w p" by (simp add: udp_inv_def)
  then show ?thesis unfolding session_linked_def by (metis (full_types))
qed

lemma session_count:
  assumes "udp_inv D w"
  shows "card (dom (session_mem w)) = length (g_udp_fullcone_table w) + length (g_udp_symmetric_table w)"
proof -
  let ?P = "{p \<in> dom (session_mem w). \<not> us_uses_fakedns (sess w p)}" and ?Q = "{p \<in> dom (session_mem w). us_uses_fakedns (sess w p)}"
  have "bij_betw (\<lambda>n. un_session (full w n)) (dom (fullcone_mem w)) ?P"
    unfolding bij_betw_def inj_on_def
  proof (intro conjI ballI impI)
    fix n m assume "n \<in> dom (fullcone_mem w)" "m \<in> dom (fullcone_mem w)" "un_session (full w n) = un_session (full w m)"
    then show "n = m" using inv_fullcone_link [OF assms, of n] inv_fullcone_link [OF assms, of m] by (metis option.inject)
  qed (use inv_fullcone_link [OF assms] inv_session_link [OF assms] in \<open>force simp: image_iff\<close>)
  moreover have "bij_betw (\<lambda>n. un_session (symm w n)) (dom (symmetric_mem w)) ?Q"
    unfolding bij_betw_def inj_on_def
  proof (intro conjI ballI impI)
    fix n m assume "n \<in> dom (symmetric_mem w)" "m \<in> dom (symmetric_mem w)" "un_session (symm w n) = un_session (symm w m)"
    then show "n = m" using inv_symmetric_link [OF assms, of n] inv_symmetric_link [OF assms, of m] by (metis option.inject)
  qed (use inv_symmetric_link [OF assms] inv_session_link [OF assms] in \<open>force simp: image_iff\<close>)
  ultimately have c: "card ?P = card (dom (fullcone_mem w))" "card ?Q = card (dom (symmetric_mem w))"
    by (simp_all add: bij_betw_same_card)
  have t: "distinct (g_udp_fullcone_table w)" "set (g_udp_fullcone_table w) = dom (fullcone_mem w)"
    "distinct (g_udp_symmetric_table w)" "set (g_udp_symmetric_table w) = dom (symmetric_mem w)"
    using assms by (simp_all add: udp_inv_def)
  have fin: "finite (dom (session_mem w))" using assms by (simp add: udp_inv_def pool_of_def)
  have "card (?P \<union> ?Q) = card ?P + card ?Q" using fin by (intro card_Un_disjoint) auto
  moreover have "?P \<union> ?Q = dom (session_mem w)" by auto
  ultimately show ?thesis unfolding c t(2,4) [symmetric] by (simp add: distinct_card t(1,3))
qed

lemma descriptor_count:
  assumes "udp_inv [] w"
  shows "length (udp_fds w) = length (g_udp_fullcone_table w) + length (g_udp_symmetric_table w) + length (g_udp_tproxy_table w)"
proof -
  have t: "distinct (g_udp_tproxy_table w)" "set (g_udp_tproxy_table w) = dom (tproxy_mem w)"
    using assms unfolding udp_inv_def by auto
  have "mset (udp_fds w) = session_fds w + tproxy_fds w" using assms by (simp add: udp_inv_def)
  then have "length (udp_fds w) = size (session_fds w) + size (tproxy_fds w)" by (metis size_mset size_union)
  also have "\<dots> = card (dom (session_mem w)) + card (dom (tproxy_mem w))" by (simp add: session_fds_def tproxy_fds_def)
  finally show ?thesis unfolding session_count [OF assms] t(2) [symmetric] by (simp add: distinct_card t(1))
qed

section \<open>Opening a session sends nothing\<close>

lemma register_sent:
  "udp_sent (snd (udp_session_register_fullcone cfg memalign p now w)) = udp_sent w"
  "udp_sent (snd (udp_session_register_symmetric cfg memalign p k now w)) = udp_sent w"
  by (simp_all add: udp_session_register_fullcone_def udp_session_register_symmetric_def udp_session_close_detached_def
      udp_session_close_def udp_session_free_def udp_close_def Let_def split: prod.split option.split)

lemma close_sent: "udp_sent (udp_session_close_indexed p w) = udp_sent w" "udp_sent (udp_session_touch p now w) = udp_sent w"
  by (simp_all add: udp_session_close_indexed_def udp_session_close_def udp_session_free_def udp_close_def udp_session_touch_def
      Let_def split: option.split)

lemma register_sentD:
  "udp_session_register_fullcone cfg memalign p now w = (b, w') \<Longrightarrow> udp_sent w' = udp_sent w"
  "udp_session_register_symmetric cfg memalign p k now w = (b, w') \<Longrightarrow> udp_sent w' = udp_sent w"
  using register_sent by (metis snd_conv)+

lemma create_sent: "udp_sent (snd (udp_session_create cfg env now pkt k i w)) = udp_sent w"
  by (auto simp: udp_session_create_def udp_relay_connect_server_def udp_open_def udp_close_def udp_ctx_get_def udp_session_free_def Let_def
      split: prod.split option.split if_split bool.split dest!: register_sentD)

lemma get_or_create_sent: "udp_session_get_or_create cfg sel env now pkt k w = (r, w') \<Longrightarrow> udp_sent w' = udp_sent w"
proof -
  assume "udp_session_get_or_create cfg sel env now pkt k w = (r, w')"
  then have "w' = snd (udp_session_get_or_create cfg sel env now pkt k w)" by simp
  then show ?thesis by (simp add: udp_session_get_or_create_def Let_def create_sent close_sent split: option.split)
qed

section \<open>A small thread\<close>

definition demo_udp_config :: udp_config where
  "demo_udp_config =
     \<lparr>uc_caches = \<lparr>g_fullcone_cache_maxsize = 1, g_symmetric_cache_maxsize = 1, g_tproxy_cache_maxsize = 1\<rparr>,
      uc_fakedns = False, uc_idletimeout_sec = 60, uc_domain_name_size = 255\<rparr>"

definition demo_pool_envs :: udp_pool_envs where
  "demo_pool_envs = \<lparr>env_session = demo_pool_env, env_fullcone = demo_pool_env, env_symmetric = demo_pool_env, env_tproxy = demo_pool_env\<rparr>"

lemma demo_pool_envs_ok: "udp_pool_envs_ok demo_pool_envs"
  by (simp add: udp_pool_envs_ok_def pool_env_ok_def demo_pool_envs_def demo_pool_env_def demo_memalign_ok)

definition demo_udp_start :: "(unit, nat) udp_world" where
  "demo_udp_start =
     \<lparr>g_udp_fullcone_table = [], g_udp_symmetric_table = [], g_udp_tproxy_table = [], g_udp_session_pool = demo_mempool,
      g_udp_fullcone_node_pool = demo_mempool, g_udp_symmetric_node_pool = no_pool 100,
      g_udp_tproxy_pool = the (thread_pool demo_pool_env 17 17), session_mem = Map.empty, fullcone_mem = Map.empty,
      symmetric_mem = Map.empty, tproxy_mem = Map.empty, g_udp_ss_ctx = replicate 8 None, g_gc_timer = True,
      udp_fds = [], udp_sent = []\<rparr>"

lemma demo_udp_started: "udp_thread_start demo_udp_config demo_pool_envs = Some demo_udp_start"
proof -
  obtain tp where tp: "thread_pool demo_pool_env 17 17 = Some tp"
    by (simp add: thread_pool_def demo_pool_env_def mempool_create_def expand_pool_batch_def demo_memalign_def round_up_cacheline_def
        CACHELINE_SIZE_def SIZE_T_MAX_def Let_def)
  have dp: "thread_pool demo_pool_env 2 2 = Some demo_mempool"
    using demo_mempool_create by (simp add: thread_pool_def demo_pool_env_def)
  have b: "UDP_BATCH_SIZE = 16" "MEMPOOL_INITIAL_SIZE = 128" "SS_MAX_SERVERS = 8" "pe_size demo_pool_env = 100"
    by (simp_all add: UDP_BATCH_SIZE_def MEMPOOL_INITIAL_SIZE_def SS_MAX_SERVERS_def demo_pool_env_def)
  show ?thesis
    using tp dp
    by (simp add: udp_thread_start_def demo_pool_envs_def demo_udp_config_def Let_def b udp_proxy_gc_start_def demo_udp_start_def
        flip: numeral_2_eq_2 One_nat_def)
qed

text \<open>A datagram of 10.0.0.1, port 4660, to 8.8.8.8, port 53, and the answers of a system where all goes well.\<close>

definition demo_msg :: udp_msg where
  "demo_msg =
     \<lparr>msg_namelen = 16, msg_name = [2, 0, 0x12, 0x34, 10, 0, 0, 1] @ replicate 8 0,
      msg_control = [(Cmsg_origdst4, [2, 0, 0, 53, 8, 8, 8, 8] @ replicate 8 0)], msg_len = 2, msg_buffer = [7, 7]\<rparr>"

definition demo_session_env :: "(unit, nat) udp_session_env" where
  "demo_session_env =
     \<lparr>se_fd = 9, se_connect_ok = True, se_session_mem = (\<lambda>_. None), se_node_mem = (\<lambda>_. None), se_ctx = Some (), se_session = Some 0\<rparr>"

definition demo_udp_lib :: "nat ss2022_udp" where
  "demo_udp_lib =
     \<lparr>udp_client_open = (\<lambda>u d n. (Some (\<lparr>addr_port = 53, addr_host = SS2022_ADDR_IPV4 [8, 8, 8, 8]\<rparr>, d), u)),
      udp_client_seal = (\<lambda>u a p n. (Some (1 # p), u + 1))\<rparr>"

definition demo_recvs :: "(udp_msg \<times> unit selectors \<times> (unit, nat) udp_session_env \<times> nat io list) list io list" where
  "demo_recvs = [IoErr EINTR, IoOk [(demo_msg, demo_selectors, demo_session_env, [IoOk 3])]]"

definition demo_udp_open :: "(unit, nat) udp_world" where
  "demo_udp_open = snd (udp_proxy_on_recvmsg demo_udp_config fakedns_static demo_udp_lib 5 True demo_recvs fakedns_mru_static demo_udp_start)"

lemma demo_udp_reachable:
  "udp_reachable demo_udp_config demo_udp_lib demo_pool_envs demo_udp_start"
  "udp_reachable demo_udp_config demo_udp_lib demo_pool_envs demo_udp_open"
proof -
  show s: "udp_reachable demo_udp_config demo_udp_lib demo_pool_envs demo_udp_start" by (rule reach_start [OF demo_udp_started])
  have "recv_env_ok demo_udp_config fakedns_static demo_udp_lib 5 True demo_recvs fakedns_mru_static demo_udp_start"
    by (simp add: recv_env_ok_def demo_recvs_def UDP_BATCH_SIZE_def udp_session_env_ok_def demo_session_env_def demo_memalign_ok)
  then show "udp_reachable demo_udp_config demo_udp_lib demo_pool_envs demo_udp_open"
    unfolding demo_udp_open_def by (intro reach_step [OF s] step_recvmsg)
qed

definition demo_pkt :: udp_ingress where
  "demo_pkt =
     \<lparr>ui_client_endpoint = \<lparr>ep_family = AF_INET, ep_port = mk16 0x34 0x12, ep_addr = [10, 0, 0, 1] @ replicate 12 0\<rparr>,
      ui_original_target_endpoint = \<lparr>ep_family = AF_INET, ep_port = mk16 53 0, ep_addr = [8, 8, 8, 8] @ replicate 12 0\<rparr>,
      ui_uses_fakedns = False, ui_ss_target = \<lparr>addr_port = 53, addr_host = SS2022_ADDR_IPV4 [8, 8, 8, 8]\<rparr>\<rparr>"

lemma demo_parse: "udp_ingress_parse demo_udp_config dns demo_msg True m = (Some demo_pkt, m)"
  by (simp add: udp_ingress_parse_def udp_ingress_get_sender_def demo_msg_def demo_pkt_def udp_ingress_resolve_fakedns_def
      demo_udp_config_def SIZEOF_SKADDR4_def UDP_DATAGRAM_MAXSIZ_def UDP_SS2022_SEAL_OVERHEAD_def udp_endpoint_from_skaddr_def
      sa_port_def sin_addr_def ntohs_def mk16_def byte16_def)

definition demo_session :: "nat udp_session" where
  "demo_session = \<lparr>us_fd = 9, us_client_endpoint = ui_client_endpoint demo_pkt,
     us_original_target_endpoint = ui_original_target_endpoint demo_pkt, us_uses_fakedns = False, us_server_idx = 0,
     us_fullcone_node = Some 4224, us_symmetric_node = None, us_ss_session = 0\<rparr>"

lemma demo_created:
  "udp_session_get_or_create demo_udp_config demo_selectors demo_session_env 5 demo_pkt None demo_udp_start =
   (Some 4224, demo_udp_start\<lparr>udp_fds := [9], g_udp_session_pool := demo_mempool1, g_udp_fullcone_node_pool := demo_mempool1,
      g_udp_ss_ctx := Some () # replicate 7 None, session_mem := [4224 \<mapsto> demo_session],
      fullcone_mem := [4224 \<mapsto> \<lparr>un_key = ui_client_endpoint demo_pkt, un_session = 4224, un_last_active = 5\<rparr>],
      g_udp_fullcone_table := [4224]\<rparr>)"
  by (simp add: udp_session_get_or_create_def udp_session_lookup_def lru_find_def hash_get_def demo_udp_start_def
      udp_session_create_def udp_relay_connect_server_def demo_session_env_def demo_pool_alloc udp_open_def udp_ctx_get_def
      server_selector_best_udp_def demo_selectors_def demo_selector_def demo_session_def demo_pkt_def
      udp_session_register_fullcone_def lru_add_def hash_add_def hash_cnt_def demo_udp_config_def sess_def Let_def numeral_nat)

lemma demo_udp_opened:
  "demo_udp_open = demo_udp_start\<lparr>udp_fds := [9], g_udp_session_pool := demo_mempool1, g_udp_fullcone_node_pool := demo_mempool1,
      g_udp_ss_ctx := Some () # replicate 7 None, session_mem := [4224 \<mapsto> demo_session\<lparr>us_ss_session := 1\<rparr>],
      fullcone_mem := [4224 \<mapsto> \<lparr>un_key = ui_client_endpoint demo_pkt, un_session = 4224, un_last_active = 5\<rparr>],
      g_udp_fullcone_table := [4224], udp_sent := [To_server 9 [1, 7, 7]]\<rparr>"
proof -
  have u: "ui_uses_fakedns demo_pkt = False" by (simp add: demo_pkt_def)
  have "udp_proxy_handle_ingress demo_udp_config fakedns_static demo_selectors demo_udp_lib demo_session_env [IoOk 3] 5 True demo_msg
      fakedns_mru_static demo_udp_start =
    (fakedns_mru_static, udp_relay_send_to_server demo_udp_lib [IoOk 3] 4224 (ui_ss_target demo_pkt) [7, 7]
      (snd (udp_session_get_or_create demo_udp_config demo_selectors demo_session_env 5 demo_pkt None demo_udp_start)))"
    by (simp add: udp_proxy_handle_ingress_def demo_parse u demo_created Let_def) (simp add: demo_msg_def)
  then have "demo_udp_open = udp_relay_send_to_server demo_udp_lib [IoOk 3] 4224 (ui_ss_target demo_pkt) [7, 7]
      (snd (udp_session_get_or_create demo_udp_config demo_selectors demo_session_env 5 demo_pkt None demo_udp_start))"
    by (simp add: demo_udp_open_def udp_proxy_on_recvmsg_def demo_recvs_def UDP_BATCH_SIZE_def)
  then show ?thesis
    unfolding demo_created snd_conv
    by (simp add: udp_relay_send_to_server_def demo_udp_lib_def sess_def demo_session_def demo_udp_start_def)
qed

section \<open>Properties\<close>

text \<open>C4. In every world that a UDP thread can reach, sessions and nodes of the tables are linked one to one, with the
  key of each node that of its session and no key twice; every block handed out by the four pools is a session, a node or
  an entry of a table; the tables keep to their capacities; and the open descriptors are exactly those of the
  sessions and the entries, so none is lost or closed twice.\<close>

theorem udp_accounting:
  assumes "udp_reachable cfg lib env w" "udp_pool_envs_ok env"
  shows "udp_inv [] w \<and> udp_caps cfg w \<and>
    length (udp_fds w) = length (g_udp_fullcone_table w) + length (g_udp_symmetric_table w) + length (g_udp_tproxy_table w)"
  using udp_reachable_inv [OF assms] descriptor_count by blast

theorem udp_accounting_witness: "udp_fds demo_udp_open = [9] \<and> session_linked demo_udp_open 4224 \<and> length (udp_fds demo_udp_open) = 1"
  using udp_accounting [OF demo_udp_reachable(2) demo_pool_envs_ok]
  by (simp add: demo_udp_opened udp_inv_def)

text \<open>C13. A datagram from a client is sent, if at all, through the session of its own client endpoint, or of its client
  and fake target, and it is what the library makes of the target and the payload of this datagram.\<close>

theorem udp_ingress_routed:
  assumes "udp_reachable cfg lib penv w" "udp_pool_envs_ok penv" "udp_session_env_ok env w"
    "udp_proxy_handle_ingress cfg dns sel lib env sends now v4 msg m w = (m', w')" "udp_sent w' \<noteq> udp_sent w"
  shows "\<exists>pkt p u out. fst (udp_ingress_parse cfg dns msg v4 m) = Some pkt \<and> session_for pkt p w' \<and>
    udp_client_seal lib u (ui_ss_target pkt) (msg_buffer msg) UDP_DATAGRAM_MAXSIZ = (Some out, us_ss_session (sess w' p)) \<and>
    udp_sent w' = udp_sent w @ [To_server (us_fd (sess w' p)) out]"
proof -
  have inv: "udp_inv [] w" using udp_reachable_inv [OF assms(1,2)] by blast
  obtain pkt m1 where pkt: "udp_ingress_parse cfg dns msg v4 m = (Some pkt, m1)"
    using assms(4,5) by (auto simp: udp_proxy_handle_ingress_def split: prod.splits option.splits)
  obtain r w1 where c: "udp_session_get_or_create cfg sel env now pkt (key_of pkt) w = (r, w1)" by (metis surj_pair)
  note i = get_or_create_inv [OF inv assms(3) c] and s = get_or_create_sent [OF c]
  have "r \<noteq> None" using assms(4,5) pkt c s unfolding udp_proxy_handle_ingress_def Let_def key_of_def by (cases r) auto
  then obtain p where p: "r = Some p" by blast
  have w': "w' = udp_relay_send_to_server lib sends p (ui_ss_target pkt) (msg_buffer msg) w1"
    using assms(4) pkt c p unfolding udp_proxy_handle_ingress_def Let_def key_of_def by auto
  then have "udp_sent w' \<noteq> udp_sent w1" using assms(5) s by simp
  then obtain out where out: "fst (udp_client_seal lib (us_ss_session (sess w1 p)) (ui_ss_target pkt) (msg_buffer msg) UDP_DATAGRAM_MAXSIZ) = Some out"
    "us_ss_session (sess w' p) = snd (udp_client_seal lib (us_ss_session (sess w1 p)) (ui_ss_target pkt) (msg_buffer msg) UDP_DATAGRAM_MAXSIZ)"
    "udp_sent w' = udp_sent w1 @ [To_server (us_fd (sess w' p)) out]"
    unfolding w' by (auto simp: udp_relay_send_to_server_def Let_def sess_def split: prod.splits option.splits io.splits if_splits)
  have "session_for pkt p w'"
    using i unfolding w' p
    by (auto simp: session_for_def udp_relay_send_to_server_def Let_def sess_def split: prod.splits option.splits io.splits)
  then show ?thesis using pkt out s by (metis fst_conv prod.collapse)
qed

theorem udp_ingress_routed_witness:
  "\<exists>pkt p. session_for pkt p demo_udp_open \<and> udp_sent demo_udp_open = [To_server (us_fd (sess demo_udp_open p)) [1, 7, 7]]"
proof -
  have e: "udp_session_env_ok demo_session_env demo_udp_start" by (simp add: udp_session_env_ok_def demo_session_env_def demo_memalign_ok)
  have h: "udp_proxy_handle_ingress demo_udp_config fakedns_static demo_selectors demo_udp_lib demo_session_env [IoOk 3] 5 True demo_msg
      fakedns_mru_static demo_udp_start = (fakedns_mru_static, demo_udp_open)"
    by (simp add: demo_udp_open_def udp_proxy_on_recvmsg_def demo_recvs_def UDP_BATCH_SIZE_def)
      (simp add: udp_proxy_handle_ingress_def demo_parse Let_def split: option.split prod.split)
  have s: "udp_sent demo_udp_open \<noteq> udp_sent demo_udp_start" "udp_sent demo_udp_start = []"
    by (simp_all add: demo_udp_opened demo_udp_start_def)
  show ?thesis
    using udp_ingress_routed [OF demo_udp_reachable(1) demo_pool_envs_ok e h s(1)] s(2)
    by (auto simp: demo_udp_lib_def demo_msg_def)
qed

text \<open>C14. A tick of the timer takes exactly the idle sessions and reply sockets out of the tables, each judged by
  its own last activity; the rest keep their order.\<close>

theorem udp_gc_exact:
  fixes now :: ev_tstamp
  assumes "udp_reachable cfg lib env w" "udp_pool_envs_ok env"
  defines "w' \<equiv> udp_gc_on_tick cfg now w" and "T \<equiv> of_nat (unat (uc_idletimeout_sec cfg))"
  shows "g_udp_fullcone_table w' = filter (\<lambda>n. \<not> udp_gc_is_idle now (un_last_active (full w n)) T) (g_udp_fullcone_table w) \<and>
    g_udp_symmetric_table w' = filter (\<lambda>n. \<not> udp_gc_is_idle now (un_last_active (symm w n)) T) (g_udp_symmetric_table w) \<and>
    g_udp_tproxy_table w' = filter (\<lambda>e. \<not> udp_gc_is_idle now (te_last_active (tpro w e)) (udp_gc_tproxy_timeout cfg)) (g_udp_tproxy_table w) \<and>
    length (udp_fds w') = length (g_udp_fullcone_table w') + length (g_udp_symmetric_table w') + length (g_udp_tproxy_table w')"
proof -
  have "udp_inv [] w" using udp_reachable_inv [OF assms(1,2)] by blast
  note t = gc_tick [OF this refl, of cfg now]
  show ?thesis unfolding w'_def T_def using descriptor_count [OF t(1)] t(2-4) by blast
qed

theorem udp_gc_exact_witness:
  "udp_fds (udp_gc_on_tick demo_udp_config 66 demo_udp_open) = [] \<and> udp_fds (udp_gc_on_tick demo_udp_config 64 demo_udp_open) \<noteq> []"
proof -
  have s: "g_udp_symmetric_table demo_udp_open = []" "g_udp_tproxy_table demo_udp_open = []" "g_udp_fullcone_table demo_udp_open = [4224]"
    "un_last_active (full demo_udp_open 4224) = 5" "uc_idletimeout_sec demo_udp_config = 60"
    by (simp_all add: demo_udp_opened full_def) (simp_all add: demo_udp_start_def demo_udp_config_def)
  have i: "udp_gc_is_idle 66 5 60" "\<not> udp_gc_is_idle 64 5 60" by (simp_all add: udp_gc_is_idle_def fsub_def)
  note g = udp_gc_exact [OF demo_udp_reachable(2) demo_pool_envs_ok]
  have "length (udp_fds (udp_gc_on_tick demo_udp_config 66 demo_udp_open)) = 0"
    "length (udp_fds (udp_gc_on_tick demo_udp_config 64 demo_udp_open)) = 1"
    using g [of 66] g [of 64] i by (simp_all add: s)
  then show ?thesis by auto
qed

text \<open>C15. The shutdown of a thread leaves nothing behind: the tables are empty, every descriptor is closed, and the
  destruction of the pools reports no leak.\<close>

theorem udp_shutdown_clean:
  assumes "udp_reachable cfg lib env w" "udp_pool_envs_ok env"
  defines "w' \<equiv> udp_proxy_ctx_cleanup (udp_proxy_close_all_sessions w)"
  shows "udp_fds w' = [] \<and> g_udp_fullcone_table w' = [] \<and> g_udp_symmetric_table w' = [] \<and> g_udp_tproxy_table w' = [] \<and>
    mempool_destroy (g_udp_session_pool w') = 0 \<and> mempool_destroy (g_udp_fullcone_node_pool w') = 0 \<and>
    mempool_destroy (g_udp_symmetric_node_pool w') = 0 \<and> mempool_destroy (g_udp_tproxy_pool w') = 0"
proof -
  have "udp_inv [] w" using udp_reachable_inv [OF assms(1,2)] by blast
  note c = close_all [OF this refl]
  note e = no_tables_empty [OF c]
  have d: "mempool_destroy pool = 0" if "pool_of pool {}" for pool
    using that mempool_destroy_ok [of pool] by (simp add: pool_of_def mempool_inv_def)
  show ?thesis
    using udp_inv_pools [OF c(1)] c(2-4) e by (simp add: w'_def udp_proxy_ctx_cleanup_def d)
qed

theorem udp_shutdown_clean_witness:
  "mempool_destroy (g_udp_session_pool demo_udp_open) = 1 \<and>
   mempool_destroy (g_udp_session_pool (udp_proxy_ctx_cleanup (udp_proxy_close_all_sessions demo_udp_open))) = 0"
proof -
  have "mempool_destroy (g_udp_session_pool demo_udp_open) = 1"
    using mempool_destroy_ok [OF demo_mempool1_ok(1)] demo_mempool1_ok(2) by (simp add: demo_udp_opened)
  then show ?thesis using udp_shutdown_clean [OF demo_udp_reachable(2) demo_pool_envs_ok] by blast
qed

end
