(* ===== verification/UdpFlush.thy ===== *)
theory UdpFlush
  imports UdpRuns
begin

text \<open>
  How a batch of replies is sent: the grouping of its messages by socket in \<^verbatim>\<open>udp_tproxy_flush_client_sends\<close>, an
  in-place partition of an array of indices, and the conversions between endpoints and socket addresses.
\<close>

section \<open>Grouping\<close>

text \<open>
  Up to \<open>j\<close> the inner loop has the positions from \<open>i\<close> on partitioned: \<open>g\<close> slots of the entry, then the others. It only
  permutes, and leaves what is before \<open>i\<close> alone.
\<close>

definition grouped :: "('s \<Rightarrow> ptr) \<Rightarrow> 's list \<Rightarrow> ptr \<Rightarrow> nat \<Rightarrow> nat \<Rightarrow> nat \<Rightarrow> nat list \<Rightarrow> bool" where
  "grouped src batch entry i j g idx \<longleftrightarrow> i + g \<le> j \<and>
     (\<forall>k. i \<le> k \<longrightarrow> k < i + g \<longrightarrow> src (batch ! (idx ! k)) = entry) \<and>
     (\<forall>k. i + g \<le> k \<longrightarrow> k < j \<longrightarrow> src (batch ! (idx ! k)) \<noteq> entry)"

lemma group_loop_spec:
  assumes "group_loop src batch entry i [j..<n] g idx = (g', idx')" "grouped src batch entry i j g idx" "j \<le> n" "n = length idx"
  shows "grouped src batch entry i n g' idx' \<and> mset idx' = mset idx \<and> take i idx' = take i idx"
  using assms
proof (induction "n - j" arbitrary: j g idx)
  case 0
  then show ?case by simp
next
  case (Suc d)
  then have j: "j < n" "[j..<n] = j # [Suc j..<n]" by (simp_all add: upt_conv_Cons)
  show ?case
  proof (cases "src (batch ! (idx ! j)) = entry")
    case False
    have "grouped src batch entry i (Suc j) g idx"
      using Suc.prems(2) False by (auto simp: grouped_def less_Suc_eq)
    then show ?thesis using Suc.hyps(1) [of "Suc j" g idx] Suc.hyps(2) Suc.prems(1,4) j False by simp
  next
    case True
    define idx1 where "idx1 = (if j \<noteq> i + g then idx[i + g := idx ! j, j := idx ! (i + g)] else idx)"
    have b: "i + g \<le> j" "i + g < length idx" "j < length idx" using Suc.prems(2,4) j by (auto simp: grouped_def)
    have at: "idx1 ! k = (if k = i + g then idx ! j else if k = j then idx ! (i + g) else idx ! k)" if "k < length idx" for k
      using that b by (auto simp: idx1_def nth_list_update)
    have "grouped src batch entry i (Suc j) (Suc g) idx1"
      using Suc.prems(2) True b at unfolding grouped_def by (auto simp: less_Suc_eq)
    moreover have "mset idx1 = mset idx" using b mset_swap [of j idx "i + g"] by (auto simp: idx1_def)
    moreover have "take i idx1 = take i idx" using b by (auto simp: idx1_def)
    moreover have "group_loop src batch entry i [Suc j..<n] (Suc g) idx1 = (g', idx')"
      using Suc.prems(1) j True by (simp add: idx1_def)
    moreover have "length idx1 = length idx" by (simp add: idx1_def)
    ultimately show ?thesis using Suc.hyps(1) [of "Suc j" "Suc g" idx1] Suc.hyps(2) Suc.prems(4) j by simp
  qed
qed

lemma group_loop_first:
  assumes "i < n" "n = length idx" "group_loop src batch (src (batch ! (idx ! i))) i [i..<n] 0 idx = (g, idx')"
  shows "grouped src batch (src (batch ! (idx ! i))) i n g idx'" "mset (drop i idx') = mset (drop i idx)" "length idx' = length idx" "0 < g"
proof -
  have "grouped src batch (src (batch ! (idx ! i))) i i 0 idx" by (simp add: grouped_def)
  note s = group_loop_spec [OF assms(3) this _ assms(2)]
  show "grouped src batch (src (batch ! (idx ! i))) i n g idx'" using s assms(1) by simp
  have m: "mset idx' = mset idx" "take i idx' = take i idx" using s assms(1) by simp_all
  then show "mset (drop i idx') = mset (drop i idx)" by (metis append_take_drop_id mset_append add_left_cancel)
  show "length idx' = length idx" using m by (metis size_mset)
  show "0 < g" using group_loop_some [OF assms(1), of src batch idx] assms(3) by simp
qed

lemma segment: "i + g \<le> length idx \<Longrightarrow> map (\<lambda>k. idx ! (i + k)) [0..<g] = take g (drop i idx)"
  by (rule nth_equalityI) simp_all

text \<open>What the outer loop does: every slot goes into one group, that of its own entry, and no entry has two groups.\<close>

lemma flush_loop_spec:
  assumes "n = length idx" "i \<le> n"
  shows "mset (concat (map snd (flush_loop src batch n i idx))) = mset (drop i idx) \<and>
    (\<forall>(e, ks) \<in> set (flush_loop src batch n i idx). ks \<noteq> [] \<and> (\<forall>k \<in> set ks. src (batch ! k) = e)) \<and>
    distinct (map fst (flush_loop src batch n i idx))"
  using assms
proof (induction src batch n i idx rule: flush_loop.induct)
  case (1 src batch n i idx)
  show ?case
  proof (cases "i < n")
    case False
    then have "flush_loop src batch n i idx = []" "drop i idx = []" using 1(2,3) by (simp_all add: flush_loop.simps)
    then show ?thesis by simp
  next
    case True
    let ?e = "src (batch ! (idx ! i))"
    obtain g idx' where l: "group_loop src batch ?e i [i..<n] 0 idx = (g, idx')" by (metis surj_pair)
    note f = group_loop_first [OF True 1(2) l]
    have g: "i + g \<le> n" "n = length idx'" using f(1,3) 1(2) by (simp_all add: grouped_def)
    let ?rest = "flush_loop src batch n (i + g) idx'"
    have e: "flush_loop src batch n i idx = (?e, take g (drop i idx')) # ?rest"
      using True l g segment [of i g idx'] by (subst flush_loop.simps) simp
    have IH: "mset (concat (map snd ?rest)) = mset (drop (i + g) idx')"
      "\<forall>(e, ks) \<in> set ?rest. ks \<noteq> [] \<and> (\<forall>k \<in> set ks. src (batch ! k) = e)" "distinct (map fst ?rest)"
      using 1(1) [OF True refl l [symmetric] g(2,1)] by simp_all
    have seg: "src (batch ! k) = ?e" if k: "k \<in> set (take g (drop i idx'))" for k
    proof -
      obtain m where "m < g" "k = idx' ! (i + m)" using k g by (auto simp: in_set_conv_nth)
      then show ?thesis using f(1) by (auto simp: grouped_def)
    qed
    have rest: "src (batch ! k) \<noteq> ?e" if k: "k \<in> set (drop (i + g) idx')" for k
    proof -
      obtain m where m: "m < length (drop (i + g) idx')" "k = drop (i + g) idx' ! m" using k by (metis in_set_conv_nth)
      then have "i + g + m < n" "k = idx' ! (i + g + m)" using g by simp_all
      then show ?thesis using f(1) by (auto simp: grouped_def)
    qed
    have "?e \<notin> fst ` set ?rest"
    proof
      assume "?e \<in> fst ` set ?rest"
      then obtain ks where ks: "(?e, ks) \<in> set ?rest" by auto
      then have "ks \<noteq> []" "\<forall>k \<in> set ks. src (batch ! k) = ?e" using IH(2) by blast+
      moreover have "set ks \<subseteq> set (drop (i + g) idx')"
      proof -
        have "set ks \<subseteq> set (concat (map snd ?rest))" using ks by force
        then show ?thesis using mset_eq_setD [OF IH(1)] by simp
      qed
      ultimately show False using rest by (meson list.set_sel(1) subsetD)
    qed
    moreover have "take g (drop i idx') \<noteq> []" using f(4) True g by simp
    moreover have "mset (take g (drop i idx')) + mset (drop (i + g) idx') = mset (drop i idx)"
      using f(2) by (metis append_take_drop_id drop_drop add.commute mset_append)
    ultimately show ?thesis unfolding e using IH seg by simp
  qed
qed

text \<open>The swaps do not keep the order of the messages of the later sockets.\<close>

lemma flush_not_stable: "flush_loop fst [(1, ''a''), (2, ''b''), (2, ''c''), (1, ''d'')] 4 0 [0, 1, 2, 3] = [(1, [0, 3]), (2, [2, 1])]"
  by (simp add: flush_loop.simps upt_rec numeral_nat)

section \<open>Sending\<close>

definition own_datagram :: "(ptr \<Rightarrow> int) \<Rightarrow> udp_tproxy_send \<Rightarrow> udp_datagram" where
  "own_datagram fd_of s = To_client (fd_of (ts_source_entry s)) (ts_client_addr s) (ts_payload s)"

lemma send_groups_subset:
  assumes "\<forall>(e, ks) \<in> set groups. \<forall>k \<in> set ks. ts_source_entry (batch ! k) = e"
  shows "mset (send_groups fd_of batch groups sends) \<subseteq># image_mset (\<lambda>k. own_datagram fd_of (batch ! k)) (mset (concat (map snd groups)))"
  using assms
proof (induction groups arbitrary: sends)
  case (Cons x groups)
  obtain e ks where x: "x = (e, ks)" by (cases x)
  obtain r sends' where r: "retry_eintr sends = (r, sends')" by (metis surj_pair)
  let ?c = "case r of IoOk n \<Rightarrow> n | IoErr _ \<Rightarrow> 0"
  have o: "map (\<lambda>k. To_client (fd_of e) (ts_client_addr (batch ! k)) (ts_payload (batch ! k))) (take ?c ks) =
      map (\<lambda>k. own_datagram fd_of (batch ! k)) (take ?c ks)"
    using Cons.prems x by (auto simp: own_datagram_def dest!: in_set_takeD)
  have "mset (map (\<lambda>k. own_datagram fd_of (batch ! k)) (take ?c ks)) \<subseteq># image_mset (\<lambda>k. own_datagram fd_of (batch ! k)) (mset ks)"
    unfolding mset_map by (intro image_mset_subseteq_mono) (metis append_take_drop_id mset_append mset_subset_eq_add_left)
  moreover have "mset (send_groups fd_of batch groups sends') \<subseteq># image_mset (\<lambda>k. own_datagram fd_of (batch ! k)) (mset (concat (map snd groups)))"
    using Cons.IH Cons.prems by simp
  ultimately show ?case by (simp add: x r o subset_mset.add_mono del: map_eq_conv mset_map)
qed simp

text \<open>Of each group as many messages go as its call answers, its first ones, whatever the calls before it answered.\<close>

definition answered :: "nat io \<Rightarrow> nat" where
  "answered r = (case r of IoOk n \<Rightarrow> n | IoErr _ \<Rightarrow> 0)"

lemma send_groups_each:
  assumes "\<forall>(e, ks) \<in> set groups. \<forall>k \<in> set ks. ts_source_entry (batch ! k) = e"
    "length rs = length groups" "IoErr EINTR \<notin> set rs"
  shows "send_groups fd_of batch groups rs =
    concat (map (\<lambda>(r, _, ks). map (\<lambda>k. own_datagram fd_of (batch ! k)) (take (answered r) ks)) (zip rs groups))"
  using assms
proof (induction groups arbitrary: rs)
  case (Cons x groups)
  obtain e ks where x: "x = (e, ks)" by (cases x)
  obtain r rs' where r: "rs = r # rs'" "r \<noteq> IoErr EINTR" using Cons.prems(2,3) by (cases rs) auto
  have "map (\<lambda>k. To_client (fd_of e) (ts_client_addr (batch ! k)) (ts_payload (batch ! k))) (take (answered r) ks) =
      map (\<lambda>k. own_datagram fd_of (batch ! k)) (take (answered r) ks)"
    using Cons.prems(1) x by (auto simp: own_datagram_def dest!: in_set_takeD)
  then show ?case using Cons.IH [of rs'] Cons.prems r x by (simp add: answered_def del: map_eq_conv)
qed simp

lemma all_taken:
  assumes "map answered rs = map (\<lambda>(e, ks). length ks) groups"
  shows "concat (map (\<lambda>(r, _, ks). map f (take (answered r) ks)) (zip rs groups)) = map f (concat (map snd groups))"
  using assms
proof (induction groups arbitrary: rs)
  case (Cons x groups)
  then show ?case by (cases rs; cases x) auto
qed simp

lemma batch_image: "image_mset (\<lambda>k. f (batch ! k)) (mset [0..<length batch]) = mset (map f batch)"
proof -
  have "map (\<lambda>k. f (batch ! k)) [0..<length batch] = map f batch" by (rule nth_equalityI) simp_all
  then show ?thesis by (metis mset_map)
qed

section \<open>Endpoints\<close>

lemma sa_family_head: "sa_family ([byte16 0 f, byte16 1 f, p, q] @ rest) = f"
  by (simp add: sa_family_def)

lemma key_to_skaddr:
  assumes "length (ep_addr ep) = 16" "ep_family ep = AF_INET \<and> drop 4 (ep_addr ep) = replicate 12 0 \<or> ep_family ep = AF_INET6"
  shows "sa_family (udp_endpoint_to_skaddr ep) = ep_family ep \<and> length (udp_endpoint_to_skaddr ep) = SIZEOF_SKADDR6 \<and>
    udp_endpoint_from_skaddr (udp_endpoint_to_skaddr ep) (sa_family (udp_endpoint_to_skaddr ep) = AF_INET) = ep"
proof -
  obtain f p a where ep: "ep = \<lparr>ep_family = f, ep_port = p, ep_addr = a\<rparr>" by (cases ep)
  show ?thesis
  proof (cases "f = AF_INET")
    case True
    then have "drop 4 a = replicate 12 0" using assms(2) ep by (auto simp: AF_INET_def AF_INET6_def)
    then have a: "a = take 4 a @ replicate 12 0" by (metis append_take_drop_id)
    have "length (take 4 a) = Suc (Suc (Suc (Suc 0)))" using assms(1) ep by simp
    then obtain a0 a1 a2 a3 where "take 4 a = [a0, a1, a2, a3]"
      unfolding length_Suc_conv length_0_conv by blast
    then have "a = [a0, a1, a2, a3] @ replicate 12 0" using a by simp
    then show ?thesis
      using True ep
      by (simp add: udp_endpoint_from_skaddr_def udp_endpoint_to_skaddr_def Let_def sa_port_def sa_family_def sin_addr_def SIZEOF_SKADDR6_def)
  next
    case False
    then have "f = AF_INET6" "length a = 16" using assms ep by auto
    then show ?thesis
      using False ep
      by (simp add: udp_endpoint_from_skaddr_def udp_endpoint_to_skaddr_def Let_def sa_port_def sa_family_def sin6_addr_def SIZEOF_SKADDR6_def)
  qed
qed

lemma skaddr_to_key:
  assumes "length sk = SIZEOF_SKADDR6"
    "sa_family sk = AF_INET \<and> drop 8 sk = replicate 20 0 \<or>
     sa_family sk = AF_INET6 \<and> take 4 (drop 4 sk) = replicate 4 0 \<and> drop 24 sk = replicate 4 0"
  shows "udp_endpoint_to_skaddr (udp_endpoint_from_skaddr sk (sa_family sk = AF_INET)) = sk"
proof -
  have "4 \<le> length sk" using assms(1) by (simp add: SIZEOF_SKADDR6_def)
  then obtain b0 b1 b2 b3 r where sk: "sk = b0 # b1 # b2 # b3 # r"
    by (auto simp: numeral_eq_Suc Suc_le_length_iff)
  have f: "byte16 0 (sa_family sk) = b0" "byte16 1 (sa_family sk) = b1" by (simp_all add: sa_family_def sk)
  show ?thesis
  proof (cases "sa_family sk = AF_INET")
    case True
    then have "drop 4 r = replicate 20 0" using assms(2) by (auto simp: sk AF_INET_def AF_INET6_def)
    then have "take 4 r @ replicate 20 0 = r" by (metis append_take_drop_id)
    then show ?thesis
      using True f assms(1)
      by (simp add: sk udp_endpoint_from_skaddr_def udp_endpoint_to_skaddr_def Let_def sa_port_def sin_addr_def SIZEOF_SKADDR6_def)
  next
    case False
    then have six: "sa_family sk = AF_INET6" "take 4 r = replicate 4 0" "drop 20 r = replicate 4 0" using assms(2) by (auto simp: sk)
    have "r = take 4 r @ take 16 (drop 4 r) @ drop 20 r"
      using append_take_drop_id [of 4 r] append_take_drop_id [of 16 "drop 4 r"] by (simp add: drop_drop)
    then have r: "replicate 4 0 @ take 16 (drop 4 r) @ replicate 4 0 = r" unfolding six(2,3) by (rule sym)
    have "udp_endpoint_from_skaddr sk (sa_family sk = AF_INET) =
        \<lparr>ep_family = AF_INET6, ep_port = mk16 b3 b2, ep_addr = take 16 (drop 4 r)\<rparr>"
      using False by (simp add: udp_endpoint_from_skaddr_def sa_port_def sin6_addr_def) (simp add: sk)
    then show ?thesis
      using f six(1) False r by (simp add: udp_endpoint_to_skaddr_def Let_def) (simp add: sk)
  qed
qed

section \<open>Properties\<close>

text \<open>C39. A batch is split by socket: one group, and one call, for each socket that a message is to leave from. Whatever the calls
  answer, no message is sent twice, and each leaves for its client from the socket that is bound to the address the reply
  came from. Of each group the first messages go, as many as its own call answers, however few an earlier call took or
  whether it failed; so when every call takes its group, every message of the batch is sent exactly once.\<close>

theorem udp_flush_once:
  fixes batch :: "udp_tproxy_send list" and w :: "('x, 'u) udp_world"
  defines "own \<equiv> own_datagram (\<lambda>e. te_sockfd (tpro w e))"
    and "groups \<equiv> flush_loop ts_source_entry batch (length batch) 0 [0..<length batch]"
  shows "mset (concat (map snd groups)) = mset [0..<length batch] \<and> distinct (map fst groups) \<and>
    (\<forall>(e, ks) \<in> set groups. ks \<noteq> [] \<and> (\<forall>k \<in> set ks. ts_source_entry (batch ! k) = e)) \<and>
    (\<exists>ds. udp_sent (udp_tproxy_flush_client_sends batch sends w) = udp_sent w @ ds \<and> mset ds \<subseteq># mset (map own batch) \<and>
      (length sends = length groups \<and> IoErr EINTR \<notin> set sends \<longrightarrow>
         ds = concat (map (\<lambda>(r, _, ks). map (\<lambda>k. own (batch ! k)) (take (answered r) ks)) (zip sends groups)) \<and>
         (map answered sends = map (\<lambda>(e, ks). length ks) groups \<longrightarrow> mset ds = mset (map own batch))))"
proof -
  let ?fd = "\<lambda>e. te_sockfd (tpro w e)"
  have s: "mset (concat (map snd groups)) = mset [0..<length batch]" "distinct (map fst groups)"
    "\<forall>(e, ks) \<in> set groups. ks \<noteq> [] \<and> (\<forall>k \<in> set ks. ts_source_entry (batch ! k) = e)"
    using flush_loop_spec [of "length batch" "[0..<length batch]" 0 ts_source_entry batch] by (simp_all add: groups_def)
  have src: "\<forall>(e, ks) \<in> set groups. \<forall>k \<in> set ks. ts_source_entry (batch ! k) = e" using s(3) by blast
  have img: "image_mset (\<lambda>k. own (batch ! k)) (mset (concat (map snd groups))) = mset (map own batch)"
    unfolding s(1) by (rule batch_image)
  let ?ds = "send_groups ?fd batch groups sends"
  have once: "mset ?ds \<subseteq># mset (map own batch)"
    using send_groups_subset [OF src, of ?fd sends] unfolding own_def [symmetric] img .
  have each: "?ds = concat (map (\<lambda>(r, _, ks). map (\<lambda>k. own (batch ! k)) (take (answered r) ks)) (zip sends groups))"
    if "length sends = length groups" "IoErr EINTR \<notin> set sends"
    using send_groups_each [OF src that, of ?fd] unfolding own_def .
  have all: "mset ?ds = mset (map own batch)"
    if "length sends = length groups" "IoErr EINTR \<notin> set sends" "map answered sends = map (\<lambda>(e, ks). length ks) groups"
    unfolding each [OF that(1,2)] all_taken [OF that(3)] by (simp only: mset_map img)
  have "\<exists>ds. udp_sent (udp_tproxy_flush_client_sends batch sends w) = udp_sent w @ ds \<and> mset ds \<subseteq># mset (map own batch) \<and>
      (length sends = length groups \<and> IoErr EINTR \<notin> set sends \<longrightarrow>
         ds = concat (map (\<lambda>(r, _, ks). map (\<lambda>k. own (batch ! k)) (take (answered r) ks)) (zip sends groups)) \<and>
         (map answered sends = map (\<lambda>(e, ks). length ks) groups \<longrightarrow> mset ds = mset (map own batch)))"
  proof (intro exI [of _ ?ds] conjI impI)
    show "udp_sent (udp_tproxy_flush_client_sends batch sends w) = udp_sent w @ ?ds"
      by (simp add: udp_tproxy_flush_client_sends_def groups_def)
  qed (use once each all in blast)+
  then show ?thesis using s by blast
qed

definition demo_reply :: "ptr \<Rightarrow> u8 \<Rightarrow> udp_tproxy_send" where
  "demo_reply e b = \<lparr>ts_source_entry = e, ts_client_addr = [2, 0], ts_payload = [b]\<rparr>"

definition demo_sockets :: "(unit, nat) udp_world" where
  "demo_sockets = demo_udp_start\<lparr>tproxy_mem := [
     1 \<mapsto> \<lparr>te_key = ui_client_endpoint demo_pkt, te_sockfd = 31, te_last_active = 0\<rparr>,
     2 \<mapsto> \<lparr>te_key = ui_original_target_endpoint demo_pkt, te_sockfd = 32, te_last_active = 0\<rparr>]\<rparr>"

lemma demo_groups:
  "flush_loop ts_source_entry [demo_reply 1 5, demo_reply 2 6, demo_reply 1 7] 3 0 [0, 1, 2] = [(1, [0, 2]), (2, [1])]"
  by (simp add: flush_loop.simps upt_rec numeral_nat demo_reply_def)

theorem udp_flush_once_witness:
  "\<exists>ds. udp_sent (udp_tproxy_flush_client_sends [demo_reply 1 5, demo_reply 2 6, demo_reply 1 7] [IoOk 2, IoOk 1] demo_sockets) =
     udp_sent demo_sockets @ ds \<and>
     mset ds = {#To_client 31 [2, 0] [5], To_client 32 [2, 0] [6], To_client 31 [2, 0] [7]#}"
proof -
  let ?batch = "[demo_reply 1 5, demo_reply 2 6, demo_reply 1 7]"
  have len: "length ?batch = 3" and u: "[0..<3] = [0::nat, 1, 2]" by (simp_all add: upt_rec numeral_nat)
  note flushed = udp_flush_once [of ?batch "[IoOk 2, IoOk 1]" demo_sockets, unfolded len u demo_groups]
  have fd: "te_sockfd (tpro demo_sockets 1) = 31" "te_sockfd (tpro demo_sockets 2) = 32"
    by (simp_all add: demo_sockets_def tpro_def)
  show ?thesis using flushed by (auto simp: answered_def own_datagram_def fd [simplified]) (simp add: demo_reply_def fd [simplified])
qed

text \<open>A socket address becomes a key of the tables and a socket address again, and a key a socket address and a key, without
  loss: the family, read from the two bytes of the address that hold it, the port and the address come back, for both
  families. An IPv6 address must have no flow information and no scope, which a key does not hold.\<close>

theorem udp_endpoint_roundtrip:
  assumes "length (ep_addr ep) = 16" "ep_family ep = AF_INET \<and> drop 4 (ep_addr ep) = replicate 12 0 \<or> ep_family ep = AF_INET6"
    "length sk = SIZEOF_SKADDR6"
    "sa_family sk = AF_INET \<and> drop 8 sk = replicate 20 0 \<or>
     sa_family sk = AF_INET6 \<and> take 4 (drop 4 sk) = replicate 4 0 \<and> drop 24 sk = replicate 4 0"
  shows "sa_family (udp_endpoint_to_skaddr ep) = ep_family ep \<and> length (udp_endpoint_to_skaddr ep) = SIZEOF_SKADDR6 \<and>
    udp_endpoint_from_skaddr (udp_endpoint_to_skaddr ep) (sa_family (udp_endpoint_to_skaddr ep) = AF_INET) = ep \<and>
    udp_endpoint_to_skaddr (udp_endpoint_from_skaddr sk (sa_family sk = AF_INET)) = sk"
  using key_to_skaddr [OF assms(1,2)] skaddr_to_key [OF assms(3,4)] by blast

theorem udp_endpoint_roundtrip_witness:
  "sa_family (udp_endpoint_to_skaddr (ui_client_endpoint demo_pkt)) = AF_INET \<and>
   udp_endpoint_to_skaddr (udp_endpoint_from_skaddr ([10, 0, 0, 53] @ replicate 4 0 @ replicate 16 7 @ replicate 4 0) False) =
     [10, 0, 0, 53] @ replicate 4 0 @ replicate 16 7 @ replicate 4 0"
  using udp_endpoint_roundtrip [of "ui_client_endpoint demo_pkt" "[10, 0, 0, 53] @ replicate 4 0 @ replicate 16 7 @ replicate 4 0"]
  by (simp add: demo_pkt_def sa_family_def mk16_def SIZEOF_SKADDR6_def AF_INET_def AF_INET6_def)

end
