(* ===== verification/TcpRelay.thy ===== *)
theory TcpRelay
  imports Pools SelectorRanking Netutils Ss2022
begin

text \<open>
  The relay of \<^verbatim>\<open>src/src/tcp_proxy.c\<close>: a session whose request header has been sent copies bytes
  both ways. From the client, each piece read is sealed in place and sent before the next is read. From the server,
  the input buffer collects the stream; each complete chunk is opened in place, sent to the client from where it
  stands, and then consumed.

  The buffers are arrays with the offsets of the code. A handler is given the results of the system calls it makes; what
  has an effect outside, in the order of the calls, is in the list it returns. A handler that closes the
  session returns \<open>Inl\<close> with the argument of \<^verbatim>\<open>tcp_session_close\<close>, which the caller applies to the thread's
  state (theory \<open>TcpHandshake\<close>); every caller in the code returns at once in that case. \<^verbatim>\<open>recv\<close> and
  \<^verbatim>\<open>send\<close> never report more bytes than they were asked for. Log output is left out.
\<close>

section \<open>State\<close>

definition TCP_SS2022_TAG_LEN :: nat where "TCP_SS2022_TAG_LEN = 16"
definition TCP_SS2022_LEN_FIELD_LEN :: nat where "TCP_SS2022_LEN_FIELD_LEN = 2"
definition TCP_SS_PLAIN_BUFSIZ :: nat where "TCP_SS_PLAIN_BUFSIZ = 16384"
definition TCP_SS_CIPHER_BUFSIZ :: nat where
  "TCP_SS_CIPHER_BUFSIZ = TCP_SS_PLAIN_BUFSIZ + TCP_SS2022_LEN_FIELD_LEN + TCP_SS2022_TAG_LEN + TCP_SS2022_TAG_LEN"
definition TCP_SS2022_MAX_PAYLOAD_LEN :: nat where "TCP_SS2022_MAX_PAYLOAD_LEN = 65535"
definition TCP_SS2022_RESP_READ_SLACK :: nat where "TCP_SS2022_RESP_READ_SLACK = 64"
definition TCP_SS_RESP_IN_BUFSIZ :: nat where
  "TCP_SS_RESP_IN_BUFSIZ =
     TCP_SS2022_MAX_PAYLOAD_LEN + TCP_SS2022_LEN_FIELD_LEN + TCP_SS2022_TAG_LEN + TCP_SS2022_RESP_READ_SLACK"
definition TCP_LENGTH_CHUNK_LEN :: nat where "TCP_LENGTH_CHUNK_LEN = TCP_SS2022_LEN_FIELD_LEN + TCP_SS2022_TAG_LEN"

lemmas tcp_consts = TCP_SS2022_TAG_LEN_def TCP_SS2022_LEN_FIELD_LEN_def TCP_SS_PLAIN_BUFSIZ_def TCP_SS_CIPHER_BUFSIZ_def
  TCP_SS2022_MAX_PAYLOAD_LEN_def TCP_SS2022_RESP_READ_SLACK_def TCP_SS_RESP_IN_BUFSIZ_def TCP_LENGTH_CHUNK_LEN_def

datatype tcp_cb = Cb_relay | Cb_initial_payload_read | Cb_server_connected | Cb_server_writable
datatype tcp_timer = Timer_initial_payload | Timer_connect

text \<open>An active I/O watcher: its callback, and whether it waits for \<^verbatim>\<open>EV_READ\<close> and for \<^verbatim>\<open>EV_WRITE\<close>.\<close>

type_synonym io_watch = "(tcp_cb \<times> bool \<times> bool) option"

text \<open>A session; the union of the two phases is the type variable \<open>'p\<close>.\<close>

record ('c, 'p) tcp_session =
  ts_client_fd :: int
  ts_server_fd :: int
  ts_client_io :: io_watch
  ts_server_io :: io_watch
  ts_phase_timer :: "tcp_timer option"
  ts_server_idx :: u8
  ts_relay_in :: "ptr option" \<comment> \<open>\<open>Some\<close> when \<^verbatim>\<open>relay_in_allocated\<close>\<close>
  ts_tried_servers_mask :: u8
  ts_retry_count :: u8
  ts_selector_attempt_epoch :: u64
  ts_client_peer_addr :: bytes
  ts_ss_client :: "'c option"
  ts_phase :: 'p

record tcp_relay =
  rl_client_eof :: bool
  rl_server_eof :: bool
  rl_client_shutdown_sent :: bool
  rl_server_shutdown_sent :: bool
  rl_response_header_done :: bool
  rl_response_payload_len :: u16
  rl_response_header_len :: nat
  rl_c2s_buf :: bytes
  rl_c2s_off :: nat
  rl_c2s_len :: nat
  rl_in :: bytes \<comment> \<open>the block \<^verbatim>\<open>server_to_client_in\<close> points to\<close>
  rl_in_head :: nat
  rl_in_len :: nat
  rl_need_len :: bool
  rl_out_off :: nat
  rl_out_len :: nat
  rl_in_consume :: nat

type_synonym 'c relay_session = "('c, tcp_relay) tcp_session"

text \<open>The calls with an effect outside the thread, and what was received.\<close>

datatype tcp_call =
    Call_recv int bytes
  | Call_send int bytes
  | Call_shutdown_wr int
  | Call_report selector_event
  | Call_request bytes \<comment> \<open>the library has built a request header\<close>
  | Call_connect int int \<comment> \<open>a server, the descriptor\<close>
  | Call_close int
  | Call_rst int

type_synonym 'c relay_result = "(bool + 'c relay_session) \<times> tcp_call list"

section \<open>Buffers\<close>

definition slice :: "nat \<Rightarrow> nat \<Rightarrow> bytes \<Rightarrow> bytes" where
  "slice p n b = take n (drop p b)"

definition write_at :: "nat \<Rightarrow> bytes \<Rightarrow> bytes \<Rightarrow> bytes" where
  "write_at p d b = take p b @ d @ drop (p + length d) b"

definition tcp_buf_consume :: "nat \<Rightarrow> tcp_relay \<Rightarrow> tcp_relay" where
  "tcp_buf_consume n r =
     (if n \<ge> rl_in_len r then r\<lparr>rl_in_head := 0, rl_in_len := 0\<rparr>
      else r\<lparr>rl_in_head := rl_in_head r + n, rl_in_len := rl_in_len r - n\<rparr>)"

section \<open>Sending\<close>

text \<open>
  The loop over the results of \<^verbatim>\<open>send\<close>, from the buffer at \<open>off\<close>; a list that has run out would
  block. \<open>None\<close> closes the session by reset.
\<close>

fun tcp_relay_drain :: "int \<Rightarrow> bytes \<Rightarrow> nat io list \<Rightarrow> nat \<Rightarrow> nat \<Rightarrow> (nat \<times> nat) option \<times> tcp_call list" where
  "tcp_relay_drain fd buf [] off len = (Some (if len = 0 then 0 else off, len), [])"
| "tcp_relay_drain fd buf (r # rs) off len =
     (if len = 0 then (Some (0, 0), [])
      else (case r of
              IoErr e \<Rightarrow> if e = EINTR then tcp_relay_drain fd buf rs off len
                         else if e = EAGAIN then (Some (off, len), []) else (None, [])
            | IoOk n \<Rightarrow> if n = 0 then (None, [])
                        else (let k = min n len in
                              case tcp_relay_drain fd buf rs (off + k) (len - k) of
                                (res, calls) \<Rightarrow> (res, Call_send fd (slice off k buf) # calls))))"

definition tcp_relay_write_to_client :: "nat io list \<Rightarrow> 'c relay_session \<Rightarrow> 'c relay_result" where
  "tcp_relay_write_to_client sends s =
     (let r = ts_phase s; out = drop (rl_in_head r) (rl_in r) in
      case tcp_relay_drain (ts_client_fd s) out sends (rl_out_off r) (rl_out_len r) of
        (None, calls) \<Rightarrow> (Inl True, calls)
      | (Some (off, len), calls) \<Rightarrow>
          (let r = r\<lparr>rl_out_off := off, rl_out_len := len\<rparr>;
               r = (if len = 0 \<and> rl_in_consume r > 0
                    then (tcp_buf_consume (rl_in_consume r) r)\<lparr>rl_in_consume := 0\<rparr> else r)
           in (Inr (s\<lparr>ts_phase := r\<rparr>), calls)))"

definition tcp_relay_write_to_server :: "nat io list \<Rightarrow> 'c relay_session \<Rightarrow> 'c relay_result" where
  "tcp_relay_write_to_server sends s =
     (let r = ts_phase s in
      case tcp_relay_drain (ts_server_fd s) (rl_c2s_buf r) sends (rl_c2s_off r) (rl_c2s_len r) of
        (None, calls) \<Rightarrow> (Inl True, calls)
      | (Some (off, len), calls) \<Rightarrow> (Inr (s\<lparr>ts_phase := r\<lparr>rl_c2s_off := off, rl_c2s_len := len\<rparr>\<rparr>), calls))"

section \<open>Opening what the server sent\<close>

text \<open>A part of the loop's body: the input is short, or does not open, or the part is done.\<close>

datatype 's part = Short | Broken | Opened 's

definition open_header_part :: "'c ss2022_tcp \<Rightarrow> 'c relay_session \<Rightarrow> 'c relay_session part \<times> tcp_call list" where
  "open_header_part lib s =
     (let r = ts_phase s in
      if rl_response_header_done r then (Opened s, [])
      else if rl_in_len r < rl_response_header_len r then (Short, [])
      else (case tcp_open_response_header lib (the (ts_ss_client s)) (slice (rl_in_head r) (rl_response_header_len r) (rl_in r)) of
              None \<Rightarrow> (Broken, [])
            | Some (n, c) \<Rightarrow>
                (Opened (s\<lparr>ts_ss_client := Some c,
                           ts_phase := (tcp_buf_consume (rl_response_header_len r) r)
                             \<lparr>rl_response_payload_len := n, rl_response_header_done := True, rl_need_len := False\<rparr>\<rparr>),
                 [Call_report (Tcp_success (uint (ts_server_idx s)) (ts_selector_attempt_epoch s))])))"

definition open_length_part :: "'c ss2022_tcp \<Rightarrow> 'c relay_session \<Rightarrow> 'c relay_session part" where
  "open_length_part lib s =
     (let r = ts_phase s in
      if \<not> rl_need_len r then Opened s
      else if rl_in_len r < TCP_LENGTH_CHUNK_LEN then Short
      else (case tcp_open_length lib (the (ts_ss_client s)) (slice (rl_in_head r) TCP_LENGTH_CHUNK_LEN (rl_in r)) of
              None \<Rightarrow> Broken
            | Some (n, c) \<Rightarrow>
                Opened (s\<lparr>ts_ss_client := Some c,
                          ts_phase := (tcp_buf_consume TCP_LENGTH_CHUNK_LEN r)\<lparr>rl_response_payload_len := n, rl_need_len := False\<rparr>\<rparr>)))"

definition open_payload_part :: "'c ss2022_tcp \<Rightarrow> 'c relay_session \<Rightarrow> 'c relay_session part" where
  "open_payload_part lib s =
     (let r = ts_phase s; need = unat (rl_response_payload_len r) + TCP_SS2022_TAG_LEN in
      if rl_in_len r < need then Short
      else (case tcp_open_payload lib (the (ts_ss_client s)) (slice (rl_in_head r) need (rl_in r)) (need - TCP_SS2022_TAG_LEN) of
              None \<Rightarrow> Broken
            | Some (plain, c) \<Rightarrow>
                (let r = r\<lparr>rl_in := write_at (rl_in_head r) plain (rl_in r)\<rparr>;
                     r = (if plain = [] then (tcp_buf_consume need r)\<lparr>rl_in_consume := 0\<rparr> else r\<lparr>rl_in_consume := need\<rparr>)
                 in Opened (s\<lparr>ts_ss_client := Some c,
                              ts_phase := r\<lparr>rl_out_off := 0, rl_out_len := length plain, rl_need_len := True\<rparr>\<rparr>))))"

text \<open>Only an empty chunk makes the loop go round again, and it has been consumed.\<close>

lemma tcp_buf_consume_len: "rl_in_len (tcp_buf_consume n r) = rl_in_len r - n"
  by (simp add: tcp_buf_consume_def)

lemma open_header_part_len: "open_header_part lib s = (Opened s1, calls) \<Longrightarrow> rl_in_len (ts_phase s1) \<le> rl_in_len (ts_phase s)"
  by (auto simp: open_header_part_def Let_def tcp_buf_consume_len split: if_splits option.splits prod.splits)

lemma open_length_part_len: "open_length_part lib s = Opened s1 \<Longrightarrow> rl_in_len (ts_phase s1) \<le> rl_in_len (ts_phase s)"
  by (auto simp: open_length_part_def Let_def tcp_buf_consume_len split: if_splits option.splits prod.splits)

lemma open_payload_part_len:
  "open_payload_part lib s = Opened s1 \<Longrightarrow> rl_out_len (ts_phase s1) = 0 \<Longrightarrow> rl_in_len (ts_phase s1) < rl_in_len (ts_phase s)"
  by (auto simp: open_payload_part_def Let_def tcp_buf_consume_len TCP_SS2022_TAG_LEN_def split: if_splits option.splits prod.splits)

function tcp_relay_process_server_data :: "'c ss2022_tcp \<Rightarrow> 'c relay_session \<Rightarrow> 'c relay_result" where
  "tcp_relay_process_server_data lib s =
     (if rl_out_len (ts_phase s) \<noteq> 0 then (Inr s, [])
      else (case open_header_part lib s of
              (Short, calls) \<Rightarrow> (Inr s, calls)
            | (Broken, calls) \<Rightarrow> (Inl True, calls)
            | (Opened s1, calls) \<Rightarrow>
                (case open_length_part lib s1 of
                   Short \<Rightarrow> (Inr s1, calls)
                 | Broken \<Rightarrow> (Inl True, calls)
                 | Opened s2 \<Rightarrow>
                     (case open_payload_part lib s2 of
                        Short \<Rightarrow> (Inr s2, calls)
                      | Broken \<Rightarrow> (Inl True, calls)
                      | Opened s3 \<Rightarrow>
                          if rl_out_len (ts_phase s3) \<noteq> 0 then (Inr s3, calls)
                          else (case tcp_relay_process_server_data lib s3 of (res, calls2) \<Rightarrow> (res, calls @ calls2))))))"
  by pat_completeness auto
termination
proof (relation "measure (\<lambda>(lib, s). rl_in_len (ts_phase s))", goal_cases)
  case (2 lib s x calls s1 s2 s3)
  have "rl_in_len (ts_phase s1) \<le> rl_in_len (ts_phase s)" using 2(2,3) open_header_part_len by metis
  moreover have "rl_in_len (ts_phase s2) \<le> rl_in_len (ts_phase s1)" using 2(4) by (rule open_length_part_len)
  moreover have "rl_in_len (ts_phase s3) < rl_in_len (ts_phase s2)" using 2(5,6) open_payload_part_len by blast
  ultimately show ?case by simp
qed simp

declare tcp_relay_process_server_data.simps [simp del]

definition tcp_relay_process_pending_server_data :: "'c ss2022_tcp \<Rightarrow> 'c relay_session \<Rightarrow> 'c relay_result" where
  "tcp_relay_process_pending_server_data lib s =
     (if rl_out_len (ts_phase s) \<noteq> 0 \<or> rl_in_len (ts_phase s) = 0 then (Inr s, []) else tcp_relay_process_server_data lib s)"

section \<open>Reading\<close>

text \<open>
  \<open>prefix_len\<close> is \<^verbatim>\<open>SS2022_TCP_PAYLOAD_CHUNK_PREFIX_LEN\<close> of the library: the room a sealed chunk needs
  before its payload.
\<close>

definition tcp_relay_read_from_client :: "'c ss2022_tcp \<Rightarrow> nat \<Rightarrow> bytes io list \<Rightarrow> 'c relay_session \<Rightarrow> 'c relay_result" where
  "tcp_relay_read_from_client lib prefix_len recvs s =
     (case fst (retry_eintr recvs) of
        IoErr e \<Rightarrow> if e = EAGAIN then (Inr s, []) else (Inl True, [])
      | IoOk d \<Rightarrow>
          (let d = take TCP_SS_PLAIN_BUFSIZ d; r = ts_phase s; calls = [Call_recv (ts_client_fd s) d] in
           if d = [] then (Inr (s\<lparr>ts_phase := r\<lparr>rl_client_eof := True\<rparr>\<rparr>), calls)
           else (let buf = write_at prefix_len d (rl_c2s_buf r) in
                 case tcp_seal_payload lib (the (ts_ss_client s)) (slice prefix_len (length d) buf) TCP_SS_CIPHER_BUFSIZ of
                   None \<Rightarrow> (Inl True, calls)
                 | Some (cipher, c) \<Rightarrow>
                     (Inr (s\<lparr>ts_ss_client := Some c,
                             ts_phase := r\<lparr>rl_c2s_buf := write_at 0 cipher buf, rl_c2s_off := 0, rl_c2s_len := length cipher\<rparr>\<rparr>),
                      calls))))"

definition tcp_relay_compact_server_input :: "tcp_relay \<Rightarrow> tcp_relay" where
  "tcp_relay_compact_server_input r =
     (if rl_in_head r = 0 then r
      else if TCP_SS_RESP_IN_BUFSIZ - rl_in_head r - rl_in_len r \<noteq> 0 then r
      else r\<lparr>rl_in := write_at 0 (slice (rl_in_head r) (rl_in_len r) (rl_in r)) (rl_in r), rl_in_head := 0\<rparr>)"

definition tcp_relay_server_eof_is_clean :: "tcp_relay \<Rightarrow> bool" where
  "tcp_relay_server_eof_is_clean r \<longleftrightarrow> rl_in_len r = 0 \<and> rl_response_header_done r \<and> rl_need_len r"

definition tcp_relay_handle_server_eof :: "'c relay_session \<Rightarrow> bool + 'c relay_session" where
  "tcp_relay_handle_server_eof s =
     (if \<not> tcp_relay_server_eof_is_clean (ts_phase s) then Inl True else Inr (s\<lparr>ts_phase := (ts_phase s)\<lparr>rl_server_eof := True\<rparr>\<rparr>))"

text \<open>The room behind the bytes collected, and what \<^verbatim>\<open>recv\<close> puts there.\<close>

definition server_input_room :: "tcp_relay \<Rightarrow> nat" where
  "server_input_room r = TCP_SS_RESP_IN_BUFSIZ - rl_in_head r - rl_in_len r"

definition server_input_append :: "bytes \<Rightarrow> tcp_relay \<Rightarrow> tcp_relay" where
  "server_input_append d r =
     r\<lparr>rl_in := write_at (rl_in_head r + rl_in_len r) d (rl_in r), rl_in_len := rl_in_len r + length d\<rparr>"

definition tcp_relay_read_from_server :: "'c ss2022_tcp \<Rightarrow> bytes io list \<Rightarrow> 'c relay_session \<Rightarrow> 'c relay_result" where
  "tcp_relay_read_from_server lib recvs s =
     (let r = tcp_relay_compact_server_input (ts_phase s);
          s = s\<lparr>ts_phase := r\<rparr>
      in case fst (retry_eintr recvs) of
           IoErr e \<Rightarrow> if e = EAGAIN then (Inr s, []) else (Inl True, [])
         | IoOk d \<Rightarrow>
             (let d = take (server_input_room r) d; calls = [Call_recv (ts_server_fd s) d] in
              if d = [] then (tcp_relay_handle_server_eof s, calls)
              else (case tcp_relay_process_server_data lib (s\<lparr>ts_phase := server_input_append d r\<rparr>) of
                      (res, calls2) \<Rightarrow> (res, calls @ calls2))))"

section \<open>Events\<close>

definition tcp_relay_update_watchers :: "'c relay_session \<Rightarrow> 'c relay_result" where
  "tcp_relay_update_watchers s =
     (let r = ts_phase s;
          shut_server = rl_client_eof r \<and> rl_c2s_len r = 0 \<and> \<not> rl_server_shutdown_sent r;
          shut_client = rl_server_eof r \<and> rl_out_len r = 0 \<and> rl_in_len r = 0 \<and> \<not> rl_client_shutdown_sent r;
          calls = (if shut_server then [Call_shutdown_wr (ts_server_fd s)] else []) @
                  (if shut_client then [Call_shutdown_wr (ts_client_fd s)] else []);
          r = r\<lparr>rl_server_shutdown_sent := rl_server_shutdown_sent r \<or> shut_server,
                rl_client_shutdown_sent := rl_client_shutdown_sent r \<or> shut_client\<rparr>
      in if rl_client_eof r \<and> rl_server_eof r \<and> rl_c2s_len r = 0 \<and> rl_out_len r = 0 \<and> rl_in_len r = 0 then (Inl False, calls)
         else (let client_read = (\<not> rl_client_eof r \<and> rl_c2s_len r = 0);
                   client_write = (rl_out_len r > 0);
                   server_read = (\<not> rl_server_eof r \<and> rl_out_len r = 0 \<and> rl_in_len r < TCP_SS_RESP_IN_BUFSIZ);
                   server_write = (rl_c2s_len r > 0)
               in (Inr (s\<lparr>ts_phase := r,
                          ts_client_io := (if client_read \<or> client_write then Some (Cb_relay, client_read, client_write) else None),
                          ts_server_io := (if server_read \<or> server_write then Some (Cb_relay, server_read, server_write) else None)\<rparr>),
                   calls)))"

definition tcp_relay_handle_write :: "nat io list \<Rightarrow> bool \<Rightarrow> bool \<Rightarrow> 'c relay_session \<Rightarrow> 'c relay_result" where
  "tcp_relay_handle_write sends is_client ev_write s =
     (if \<not> ev_write then (Inr s, [])
      else if is_client then tcp_relay_write_to_client sends s else tcp_relay_write_to_server sends s)"

definition tcp_relay_handle_read :: "'c ss2022_tcp \<Rightarrow> nat \<Rightarrow> bytes io list \<Rightarrow> bool \<Rightarrow> bool \<Rightarrow> 'c relay_session \<Rightarrow> 'c relay_result" where
  "tcp_relay_handle_read lib prefix_len recvs is_client ev_read s =
     (if \<not> ev_read then (Inr s, [])
      else if is_client
           then (if rl_c2s_len (ts_phase s) \<noteq> 0 then (Inr s, []) else tcp_relay_read_from_client lib prefix_len recvs s)
           else (if rl_out_len (ts_phase s) \<noteq> 0 then (Inr s, []) else tcp_relay_read_from_server lib recvs s))"

text \<open>One step of a handler after another: a closed session ends it.\<close>

definition and_then :: "'c relay_result \<Rightarrow> ('c relay_session \<Rightarrow> 'c relay_result) \<Rightarrow> 'c relay_result" where
  "and_then res f =
     (case res of (Inl rst, calls) \<Rightarrow> (Inl rst, calls)
      | (Inr s, calls) \<Rightarrow> (case f s of (res, calls2) \<Rightarrow> (res, calls @ calls2)))"

record relay_env =
  re_sends :: "nat io list"
  re_recvs :: "bytes io list"

definition tcp_relay_on_event ::
  "'c ss2022_tcp \<Rightarrow> nat \<Rightarrow> relay_env \<Rightarrow> bool \<Rightarrow> bool \<Rightarrow> bool \<Rightarrow> 'c relay_session \<Rightarrow> 'c relay_result" where
  "tcp_relay_on_event lib prefix_len env is_client ev_read ev_write s =
     and_then (and_then (and_then
       (tcp_relay_handle_write (re_sends env) is_client ev_write s)
       (tcp_relay_process_pending_server_data lib))
       (tcp_relay_handle_read lib prefix_len (re_recvs env) is_client ev_read))
       tcp_relay_update_watchers"

section \<open>The start of the relay\<close>

text \<open>
  What \<^verbatim>\<open>tcp_session_enter_relay\<close> leaves once the input block is there and the header length is known to fit: the
  union is cleared, and the block keeps whatever bytes it had.
\<close>

definition relay_entered :: "bool \<Rightarrow> bytes \<Rightarrow> nat \<Rightarrow> tcp_relay" where
  "relay_entered client_eof block header_len =
     \<lparr>rl_client_eof = client_eof, rl_server_eof = False, rl_client_shutdown_sent = False, rl_server_shutdown_sent = False,
      rl_response_header_done = False, rl_response_payload_len = 0, rl_response_header_len = header_len,
      rl_c2s_buf = replicate TCP_SS_CIPHER_BUFSIZ 0, rl_c2s_off = 0, rl_c2s_len = 0,
      rl_in = block, rl_in_head = 0, rl_in_len = 0, rl_need_len = False, rl_out_off = 0, rl_out_len = 0, rl_in_consume = 0\<rparr>"

definition with_phase :: "'q \<Rightarrow> ('c, 'p) tcp_session \<Rightarrow> ('c, 'q) tcp_session" where
  "with_phase ph s =
     \<lparr>ts_client_fd = ts_client_fd s, ts_server_fd = ts_server_fd s, ts_client_io = ts_client_io s, ts_server_io = ts_server_io s,
      ts_phase_timer = ts_phase_timer s, ts_server_idx = ts_server_idx s, ts_relay_in = ts_relay_in s,
      ts_tried_servers_mask = ts_tried_servers_mask s, ts_retry_count = ts_retry_count s,
      ts_selector_attempt_epoch = ts_selector_attempt_epoch s, ts_client_peer_addr = ts_client_peer_addr s,
      ts_ss_client = ts_ss_client s, ts_phase = ph\<rparr>"

definition relay_begin :: "bool \<Rightarrow> bytes \<Rightarrow> nat \<Rightarrow> ('c, 'p) tcp_session \<Rightarrow> 'c relay_result" where
  "relay_begin client_eof block header_len s = tcp_relay_update_watchers (with_phase (relay_entered client_eof block header_len) s)"

end
