(* ===== verification/TcpHandshake.thy ===== *)
theory TcpHandshake
  imports FakednsReverse TcpRelay
begin

text \<open>
  The life of a session in \<^verbatim>\<open>src/src/tcp_proxy.c\<close>, from the accepted connection to its close. The client's first bytes
  are awaited for a short time, so that they can go with the request header; then the best server is tried,
  and after a failure the next best that has not been tried, until a header has been sent and the relay (theory
  \<open>TcpRelay\<close>) begins.

  A session lives in a memory pool: a pointer is the number the pool hands out, and the map \<open>tcp_mem\<close> is the memory behind it.
  The list of all sessions is kept as the code keeps it, by a head and two links per session. A handler that frees its session
  or goes on with another server does so as its last action, so a handler is a function from the
  session to an outcome, which \<open>tcp_finish\<close> applies to the memory. The calls with an effect outside are in
  \<open>tcp_log\<close>. The results of system calls, the states in which the shared selectors are found, and the
  constructors of the library are arguments, one record for each attempt to reach a server. Log output is left out.
\<close>

section \<open>State\<close>

definition TCP_ACCEPT_BATCH :: nat where "TCP_ACCEPT_BATCH = 16"
definition TCP_SS2022_REQ_HDR_OVERHEAD :: nat where "TCP_SS2022_REQ_HDR_OVERHEAD = 32 + 11 + 16 + (1 + 1 + 255 + 2) + 2 + 16"
definition TCP_SS2022_REQ_HDR_BUFSIZ :: nat where
  "TCP_SS2022_REQ_HDR_BUFSIZ = TCP_SS2022_REQ_HDR_OVERHEAD + max 900 TCP_SS_PLAIN_BUFSIZ"

record tcp_handshake =
  th_request_header :: bytes
  th_initial_payload :: bytes \<comment> \<open>the first \<^verbatim>\<open>initial_payload_len\<close> bytes\<close>
  th_target :: ss2022_addr
  th_request_header_len :: u16
  th_request_header_sent :: u16
  th_client_eof :: bool

type_synonym 'c hs_session = "('c, tcp_handshake) tcp_session"

datatype 'c tcp_object = Handshaking "'c hs_session" | Relaying "'c relay_session"

record ('x, 'c) tcp_world =
  g_tcp_session_head :: "ptr option"
  tcp_prev :: "ptr \<Rightarrow> ptr option"
  tcp_next :: "ptr \<Rightarrow> ptr option"
  tcp_mem :: "ptr \<rightharpoonup> 'c tcp_object"
  g_tcp_session_pool :: mempool_state
  g_tcp_relay_in_pool :: mempool_state
  g_tcp_ss_ctx :: "'x option list" \<comment> \<open>\<open>Some\<close> when ready\<close>
  tcp_fds :: "int list"
  tcp_log :: "tcp_call list"

record tcp_config =
  tc_fakedns :: bool \<comment> \<open>\<^verbatim>\<open>OPT_ENABLE_FAKEDNS\<close>\<close>
  tc_tfo_connect :: bool \<comment> \<open>\<^verbatim>\<open>OPT_ENABLE_TFO_CONNECT\<close>\<close>
  tc_domain_name_size :: nat \<comment> \<open>the size of the name field of the library's address type\<close>
  tc_prefix_len :: nat \<comment> \<open>\<^verbatim>\<open>SS2022_TCP_PAYLOAD_CHUNK_PREFIX_LEN\<close>\<close>

definition tcp_call :: "tcp_call list \<Rightarrow> ('x, 'c) tcp_world \<Rightarrow> ('x, 'c) tcp_world" where
  "tcp_call calls w = w\<lparr>tcp_log := tcp_log w @ calls\<rparr>"

definition tcp_open :: "int \<Rightarrow> ('x, 'c) tcp_world \<Rightarrow> ('x, 'c) tcp_world" where
  "tcp_open fd w = w\<lparr>tcp_fds := fd # tcp_fds w\<rparr>"

text \<open>\<^verbatim>\<open>close\<close>, or \<^verbatim>\<open>tcp_close_by_rst\<close>.\<close>

definition tcp_shut :: "bool \<Rightarrow> int \<Rightarrow> ('x, 'c) tcp_world \<Rightarrow> ('x, 'c) tcp_world" where
  "tcp_shut rst fd w = tcp_call [if rst then Call_rst fd else Call_close fd] (w\<lparr>tcp_fds := remove1 fd (tcp_fds w)\<rparr>)"

definition tcp_ctx_get :: "'x option \<Rightarrow> nat \<Rightarrow> ('x, 'c) tcp_world \<Rightarrow> 'x option \<times> ('x, 'c) tcp_world" where
  "tcp_ctx_get init idx w =
     (case g_tcp_ss_ctx w ! idx of
        Some c \<Rightarrow> (Some c, w)
      | None \<Rightarrow> (case init of
                   None \<Rightarrow> (None, w)
                 | Some c \<Rightarrow> (Some c, w\<lparr>g_tcp_ss_ctx := (g_tcp_ss_ctx w)[idx := Some c]\<rparr>)))"

section \<open>The list of sessions\<close>

definition tcp_session_link :: "ptr \<Rightarrow> ('x, 'c) tcp_world \<Rightarrow> ('x, 'c) tcp_world" where
  "tcp_session_link p w =
     (let w = w\<lparr>tcp_prev := (tcp_prev w)(p := None), tcp_next := (tcp_next w)(p := g_tcp_session_head w)\<rparr>;
          w = (case tcp_next w p of None \<Rightarrow> w | Some n \<Rightarrow> w\<lparr>tcp_prev := (tcp_prev w)(n := Some p)\<rparr>)
      in w\<lparr>g_tcp_session_head := Some p\<rparr>)"

definition tcp_session_unlink :: "ptr \<Rightarrow> ('x, 'c) tcp_world \<Rightarrow> ('x, 'c) tcp_world" where
  "tcp_session_unlink p w =
     (let w = (case tcp_next w p of None \<Rightarrow> w | Some n \<Rightarrow> w\<lparr>tcp_prev := (tcp_prev w)(n := tcp_prev w p)\<rparr>)
      in case tcp_prev w p of
           Some q \<Rightarrow> w\<lparr>tcp_next := (tcp_next w)(q := tcp_next w p)\<rparr>
         | None \<Rightarrow> w\<lparr>g_tcp_session_head := tcp_next w p\<rparr>)"

section \<open>Closing\<close>

text \<open>What a handler leaves: a session to be closed (by reset or not, its descriptors, its relay block), or one that goes on.\<close>

datatype 'c tcp_outcome = Closing bool int int "ptr option" | Going "'c tcp_object"

definition closing :: "bool \<Rightarrow> ('c, 'p) tcp_session \<Rightarrow> 'c tcp_outcome" where
  "closing rst s = Closing rst (ts_client_fd s) (ts_server_fd s) (ts_relay_in s)"

definition tcp_session_close :: "ptr \<Rightarrow> bool \<Rightarrow> int \<Rightarrow> int \<Rightarrow> ptr option \<Rightarrow> ('x, 'c) tcp_world \<Rightarrow> ('x, 'c) tcp_world" where
  "tcp_session_close p rst client_fd server_fd relay_in w =
     (let w = (if client_fd \<ge> 0 then tcp_shut rst client_fd w else w);
          w = (if server_fd \<ge> 0 then tcp_shut rst server_fd w else w);
          w = (case relay_in of None \<Rightarrow> w | Some b \<Rightarrow> w\<lparr>g_tcp_relay_in_pool := pool_free b (g_tcp_relay_in_pool w)\<rparr>);
          w = tcp_session_unlink p w
      in w\<lparr>g_tcp_session_pool := pool_free p (g_tcp_session_pool w), tcp_mem := (tcp_mem w)(p := None)\<rparr>)"

definition tcp_finish :: "ptr \<Rightarrow> 'c tcp_outcome \<times> ('x, 'c) tcp_world \<Rightarrow> ('x, 'c) tcp_world" where
  "tcp_finish p res =
     (case res of
        (Closing rst client_fd server_fd relay_in, w) \<Rightarrow> tcp_session_close p rst client_fd server_fd relay_in w
      | (Going obj, w) \<Rightarrow> w\<lparr>tcp_mem := (tcp_mem w)(p \<mapsto> obj)\<rparr>)"

section \<open>The target of a connection\<close>

definition tcp_proxy_resolve_target ::
  "tcp_config \<Rightarrow> fakedns \<Rightarrow> bool \<Rightarrow> bytes io \<Rightarrow> fakedns_mru \<Rightarrow> ss2022_addr option \<times> fakedns_mru" where
  "tcp_proxy_resolve_target cfg dns isipv4 getsockname m =
     (case get_tcp_orig_dstaddr (if isipv4 then AF_INET else AF_INET6) getsockname of
        None \<Rightarrow> (None, m)
      | Some sk \<Rightarrow>
          (case (if tc_fakedns cfg \<and> isipv4 then fakedns_try_resolve dns (sin_s_addr sk) m else ((None, False), m)) of
             ((fake_domain, is_miss), m) \<Rightarrow>
               if is_miss then (None, m)
               else (case fake_domain of
                       Some d \<Rightarrow>
                         if length d = 0 \<or> length d > tc_domain_name_size cfg then (None, m)
                         else (Some \<lparr>addr_port = ntohs (sa_port sk), addr_host = SS2022_ADDR_DOMAIN d\<rparr>, m)
                     | None \<Rightarrow>
                         (Some \<lparr>addr_port = ntohs (sa_port sk),
                                addr_host = (if sa_family sk = AF_INET then SS2022_ADDR_IPV4 (sin_addr sk)
                                             else SS2022_ADDR_IPV6 (sin6_addr sk))\<rparr>, m))))"

section \<open>The start of the relay\<close>

record relay_start_env =
  rs_memalign :: "nat \<Rightarrow> nat option"
  rs_block :: bytes \<comment> \<open>what the block holds\<close>

definition tcp_session_enter_relay ::
  "'c ss2022_tcp \<Rightarrow> relay_start_env \<Rightarrow> 'c hs_session \<Rightarrow> ('x, 'c) tcp_world \<Rightarrow> 'c tcp_outcome \<times> ('x, 'c) tcp_world" where
  "tcp_session_enter_relay lib env s w =
     (let s = s\<lparr>ts_phase_timer := None\<rparr> in
      case pool_alloc (rs_memalign env) (g_tcp_relay_in_pool w) of
        (None, pool) \<Rightarrow> (closing True s, w\<lparr>g_tcp_relay_in_pool := pool\<rparr>)
      | (Some b, pool) \<Rightarrow>
          (let w = w\<lparr>g_tcp_relay_in_pool := pool\<rparr>;
               s = s\<lparr>ts_relay_in := Some b\<rparr>;
               header_len = tcp_response_header_size lib (the (ts_ss_client s))
           in if header_len = 0 \<or> header_len > TCP_SS_RESP_IN_BUFSIZ then (closing True s, w)
              else (case relay_begin (th_client_eof (ts_phase s)) (rs_block env) header_len s of
                      (Inl rst, calls) \<Rightarrow> (closing rst s, tcp_call calls w)
                    | (Inr r, calls) \<Rightarrow> (Going (Relaying r), tcp_call calls w))))"

section \<open>Reaching a server\<close>

text \<open>What one attempt finds: the selectors when they are read, and the results of its calls.\<close>

record ('y, 'x, 'c) attempt_env =
  ae_client_error :: "errno option io" \<comment> \<open>\<^verbatim>\<open>SO_ERROR\<close> of the client's socket\<close>
  ae_next :: "'y selectors"
  ae_ctx :: "'x option"
  ae_client :: "'c option"
  ae_attempt :: "'y selectors"
  ae_fd :: int \<comment> \<open>of \<^verbatim>\<open>new_tcp_connect_sockfd\<close>\<close>
  ae_sendto :: "nat io"
  ae_connect :: "unit io"
  ae_so_error :: "errno option io" \<comment> \<open>\<^verbatim>\<open>SO_ERROR\<close> of the server's socket\<close>
  ae_send :: "nat io"
  ae_relay :: relay_start_env

text \<open>A step is done with the session or calls \<^verbatim>\<open>tcp_handshake_retry\<close>, with the argument \<^verbatim>\<open>node_failure\<close>.\<close>

datatype 'c hs_step = Hs_done "'c tcp_outcome" | Hs_retry bool "'c hs_session"

definition tcp_handshake_build_request_header :: "'c ss2022_tcp \<Rightarrow> 'c hs_session \<Rightarrow> 'c hs_session option" where
  "tcp_handshake_build_request_header lib s =
     (let h = ts_phase s in
      case tcp_build_request_header lib (the (ts_ss_client s)) (th_target h) (th_initial_payload h) TCP_SS2022_REQ_HDR_BUFSIZ of
        None \<Rightarrow> None
      | Some (b, c) \<Rightarrow>
          if length b > 65535 then None
          else Some (s\<lparr>ts_ss_client := Some c,
                       ts_phase := h\<lparr>th_request_header := b, th_request_header_len := of_nat (length b), th_request_header_sent := 0\<rparr>\<rparr>))"

definition tcp_handshake_connect_server ::
  "tcp_config \<Rightarrow> ('y, 'x, 'c) attempt_env \<Rightarrow> int \<Rightarrow> bytes \<Rightarrow> ('x, 'c) tcp_world \<Rightarrow>
   (int \<times> nat option \<times> tcp_connect_result \<times> bool) \<times> ('x, 'c) tcp_world" where
  "tcp_handshake_connect_server cfg env idx request_header w =
     (if ae_fd env < 0 then ((-1, None, TCP_CONNECT_FAILED, False), w)
      else (let fd = ae_fd env;
                w = tcp_call [Call_connect idx fd] (tcp_open fd w);
                tfo_data = (if tc_tfo_connect cfg \<and> request_header \<noteq> [] then Some request_header else None)
            in case tcp_connect (ae_sendto env) (ae_connect env) tfo_data of
                 (conn, tfo_nsend, err) \<Rightarrow>
                   if conn = TCP_CONNECT_FAILED
                   then ((-1, tfo_nsend, conn, \<not> socket_error_is_local err), tcp_shut False fd w)
                   else ((fd, tfo_nsend, conn, False),
                         case tfo_nsend of None \<Rightarrow> w | Some n \<Rightarrow> tcp_call [Call_send fd (take n request_header)] w)))"

definition tcp_session_attach_server :: "int \<Rightarrow> nat option \<Rightarrow> 'c hs_session \<Rightarrow> 'c hs_session" where
  "tcp_session_attach_server fd tfo_nsend s =
     (let h = ts_phase s;
          h = (case tfo_nsend of
                 Some n \<Rightarrow> if n > 0 then h\<lparr>th_request_header_sent := of_nat (min n (unat (th_request_header_len h)))\<rparr> else h
               | None \<Rightarrow> h)
      in s\<lparr>ts_server_fd := fd, ts_phase := h\<rparr>)"

text \<open>The result of sending: 1 when the header is sent, 0 when more is to be sent later, or the step that ends it.\<close>

datatype 'c send_header = Header_sent "'c hs_session" | Header_more "'c hs_session" | Header_failed "'c hs_step"

definition tcp_handshake_send_request_header ::
  "nat io \<Rightarrow> 'c hs_session \<Rightarrow> ('x, 'c) tcp_world \<Rightarrow> 'c send_header \<times> ('x, 'c) tcp_world" where
  "tcp_handshake_send_request_header send s w =
     (let h = ts_phase s; len = unat (th_request_header_len h); sent = unat (th_request_header_sent h) in
      if sent > len then (Header_failed (Hs_done (closing True s)), w)
      else if sent = len then (Header_sent s, w)
      else (case send of
              IoErr e \<Rightarrow>
                if e = EINTR then (Header_more s, w)
                else if e \<noteq> EAGAIN then (Header_failed (Hs_retry (\<not> socket_error_is_local e) s), w)
                else (Header_more s, w)
            | IoOk n \<Rightarrow>
                if n = 0 then (Header_failed (Hs_retry True s), w)
                else (let w = tcp_call [Call_send (ts_server_fd s) (slice sent n (th_request_header h))] w;
                          new_offset = sent + n
                      in if new_offset > len then (Header_failed (Hs_done (closing True s)), w)
                         else (let s = s\<lparr>ts_phase := h\<lparr>th_request_header_sent := of_nat new_offset\<rparr>\<rparr>
                               in (if new_offset = len then Header_sent s else Header_more s, w)))))"

definition tcp_handshake_on_server_writable ::
  "'c ss2022_tcp \<Rightarrow> nat io \<Rightarrow> relay_start_env \<Rightarrow> 'c hs_session \<Rightarrow> ('x, 'c) tcp_world \<Rightarrow> 'c hs_step \<times> ('x, 'c) tcp_world" where
  "tcp_handshake_on_server_writable lib send relay s w =
     (case tcp_handshake_send_request_header send s w of
        (Header_failed step, w) \<Rightarrow> (step, w)
      | (Header_more s, w) \<Rightarrow> (Hs_done (Going (Handshaking s)), w)
      | (Header_sent s, w) \<Rightarrow> (case tcp_session_enter_relay lib relay s w of (out, w) \<Rightarrow> (Hs_done out, w)))"

definition tcp_handshake_on_server_connected ::
  "'c ss2022_tcp \<Rightarrow> errno option io \<Rightarrow> nat io \<Rightarrow> relay_start_env \<Rightarrow> 'c hs_session \<Rightarrow> ('x, 'c) tcp_world \<Rightarrow>
   'c hs_step \<times> ('x, 'c) tcp_world" where
  "tcp_handshake_on_server_connected lib so_error send relay s w =
     (case so_error of
        IoErr err \<Rightarrow> (Hs_retry (\<not> socket_error_is_local err) s, w)
      | IoOk (Some err) \<Rightarrow> (Hs_retry (\<not> socket_error_is_local err) s, w)
      | IoOk None \<Rightarrow>
          if th_request_header_sent (ts_phase s) \<ge> th_request_header_len (ts_phase s)
          then (case tcp_session_enter_relay lib relay s w of (out, w) \<Rightarrow> (Hs_done out, w))
          else tcp_handshake_on_server_writable lib send relay
                 (s\<lparr>ts_server_io := map_option (\<lambda>(_, ev). (Cb_server_writable, ev)) (ts_server_io s)\<rparr>) w)"

definition tcp_handshake_try_connect ::
  "tcp_config \<Rightarrow> 'c ss2022_tcp \<Rightarrow> ('y, 'x, 'c) attempt_env \<Rightarrow> 'c hs_session \<Rightarrow> ('x, 'c) tcp_world \<Rightarrow>
   'c hs_step \<times> ('x, 'c) tcp_world" where
  "tcp_handshake_try_connect cfg lib env s w =
     (let idx = uint (ts_server_idx s);
          s = s\<lparr>ts_selector_attempt_epoch := server_selector_tcp_attempt idx (ae_attempt env)\<rparr>
      in case tcp_handshake_build_request_header lib s of
           None \<Rightarrow> (Hs_retry False s, w)
         | Some s \<Rightarrow>
             (case tcp_handshake_connect_server cfg env idx (th_request_header (ts_phase s))
                     (tcp_call [Call_request (th_request_header (ts_phase s))] w) of
                ((fd, tfo_nsend, conn, node_failure), w) \<Rightarrow>
                  if fd < 0 then (Hs_retry node_failure s, w)
                  else (let s = (tcp_session_attach_server fd tfo_nsend s)
                                  \<lparr>ts_server_io := Some (Cb_server_connected, False, True), ts_phase_timer := Some Timer_connect\<rparr>
                        in if conn = TCP_CONNECT_CONNECTED
                           then tcp_handshake_on_server_connected lib (ae_so_error env) (ae_send env) (ae_relay env) s w
                           else (Hs_done (Going (Handshaking s)), w))))"

text \<open>The whole request, with some payload, has been queued.\<close>

definition request_queued :: "tcp_handshake \<Rightarrow> bool" where
  "request_queued h \<longleftrightarrow> length (th_initial_payload h) > 0 \<and> th_request_header_len h > 0 \<and>
     th_request_header_sent h \<ge> th_request_header_len h"

text \<open>The session without the server that failed, and with the next one.\<close>

definition drop_server :: "'c hs_session \<Rightarrow> 'c hs_session" where
  "drop_server s = (if ts_server_fd s \<ge> 0 then s\<lparr>ts_server_io := None, ts_server_fd := -1\<rparr> else s)\<lparr>ts_phase_timer := None, ts_ss_client := None\<rparr>"

definition next_server :: "int \<Rightarrow> 'c hs_session \<Rightarrow> 'c hs_session" where
  "next_server next_idx s = s\<lparr>ts_server_idx := word_of_int next_idx,
     ts_tried_servers_mask := ts_tried_servers_mask s OR push_bit (nat next_idx) 1, ts_retry_count := ts_retry_count s + 1\<rparr>"

text \<open>One turn of the loop of \<^verbatim>\<open>tcp_handshake_retry\<close>.\<close>

definition tcp_handshake_next ::
  "tcp_config \<Rightarrow> 'c ss2022_tcp \<Rightarrow> ('y, 'x, 'c) attempt_env \<Rightarrow> bool \<Rightarrow> 'c hs_session \<Rightarrow> ('x, 'c) tcp_world \<Rightarrow>
   'c hs_step \<times> ('x, 'c) tcp_world" where
  "tcp_handshake_next cfg lib env node_failure s w =
     (let w = (if node_failure then tcp_call [Call_report (Tcp_failure (uint (ts_server_idx s)))] w else w) in
      if request_queued (ts_phase s) then (Hs_done (closing True s), w)
      else
        (let w = (if ts_server_fd s \<ge> 0 then tcp_shut False (ts_server_fd s) w else w);
             s = drop_server s
         in if tcp_has_error (ae_client_error env) then (Hs_done (closing False s), w)
            else
              (let next_idx = server_selector_next_best_tcp (ucast (ts_tried_servers_mask s)) (ae_next env) in
               if next_idx < 0 then (Hs_done (closing True s), w)
               else
                 (let s = next_server next_idx s
                  in case tcp_ctx_get (ae_ctx env) (nat next_idx) w of
                       (None, w) \<Rightarrow> (Hs_retry False s, w)
                     | (Some ctx, w) \<Rightarrow>
                         (case ae_client env of
                            None \<Rightarrow> (Hs_retry False s, w)
                          | Some c \<Rightarrow> tcp_handshake_try_connect cfg lib env (s\<lparr>ts_ss_client := Some c\<rparr>) w)))))"

text \<open>The loop; \<open>None\<close> if it does not end. Each turn has an environment of its own.\<close>

partial_function (option) tcp_handshake_retry ::
  "tcp_config \<Rightarrow> 'c ss2022_tcp \<Rightarrow> (nat \<Rightarrow> ('y, 'x, 'c) attempt_env) \<Rightarrow> bool \<Rightarrow> 'c hs_session \<Rightarrow> ('x, 'c) tcp_world \<Rightarrow>
   ('c tcp_outcome \<times> ('x, 'c) tcp_world) option" where
  "tcp_handshake_retry cfg lib envs node_failure s w =
     (case tcp_handshake_next cfg lib (envs 0) node_failure s w of
        (Hs_done out, w) \<Rightarrow> Some (out, w)
      | (Hs_retry node_failure s, w) \<Rightarrow> tcp_handshake_retry cfg lib (\<lambda>n. envs (Suc n)) node_failure s w)"

definition after_step ::
  "tcp_config \<Rightarrow> 'c ss2022_tcp \<Rightarrow> (nat \<Rightarrow> ('y, 'x, 'c) attempt_env) \<Rightarrow> 'c hs_step \<times> ('x, 'c) tcp_world \<Rightarrow>
   ('c tcp_outcome \<times> ('x, 'c) tcp_world) option" where
  "after_step cfg lib envs res =
     (case res of
        (Hs_done out, w) \<Rightarrow> Some (out, w)
      | (Hs_retry node_failure s, w) \<Rightarrow> tcp_handshake_retry cfg lib envs node_failure s w)"

text \<open>The first attempt is made with the first environment.\<close>

definition tcp_handshake_start ::
  "tcp_config \<Rightarrow> 'c ss2022_tcp \<Rightarrow> (nat \<Rightarrow> ('y, 'x, 'c) attempt_env) \<Rightarrow> 'c hs_session \<Rightarrow> ('x, 'c) tcp_world \<Rightarrow>
   ('c tcp_outcome \<times> ('x, 'c) tcp_world) option" where
  "tcp_handshake_start cfg lib envs s w =
     after_step cfg lib (\<lambda>n. envs (Suc n))
       (tcp_handshake_try_connect cfg lib (envs 0) (s\<lparr>ts_phase_timer := None, ts_client_io := None\<rparr>) w)"

section \<open>The client's first bytes\<close>

text \<open>The loop over the results of \<^verbatim>\<open>recv\<close>; \<open>None\<close> closes the session by reset, else the result is \<^verbatim>\<open>need_wait\<close>.\<close>

fun tcp_handshake_read_initial_payload ::
  "int \<Rightarrow> bytes io list \<Rightarrow> tcp_handshake \<Rightarrow> (bool \<times> tcp_handshake) option \<times> tcp_call list" where
  "tcp_handshake_read_initial_payload fd [] h =
     (Some (length (th_initial_payload h) < TCP_SS_PLAIN_BUFSIZ \<and> th_initial_payload h = [], h), [])"
| "tcp_handshake_read_initial_payload fd (r # rs) h =
     (let got = th_initial_payload h in
      if length got \<ge> TCP_SS_PLAIN_BUFSIZ then (Some (False, h), [])
      else (case r of
              IoErr e \<Rightarrow>
                if e = EINTR then tcp_handshake_read_initial_payload fd rs h
                else if e = EAGAIN then (Some (got = [], h), [])
                else (None, [])
            | IoOk d \<Rightarrow>
                (let d = take (TCP_SS_PLAIN_BUFSIZ - length got) d in
                 if d = [] then (Some (False, h\<lparr>th_client_eof := True\<rparr>), [Call_recv fd d])
                 else (case tcp_handshake_read_initial_payload fd rs (h\<lparr>th_initial_payload := got @ d\<rparr>) of
                         (res, calls) \<Rightarrow> (res, Call_recv fd d # calls)))))"

definition tcp_handshake_start_after_initial_payload ::
  "tcp_config \<Rightarrow> 'c ss2022_tcp \<Rightarrow> (nat \<Rightarrow> ('y, 'x, 'c) attempt_env) \<Rightarrow> 'c hs_session \<Rightarrow> ('x, 'c) tcp_world \<Rightarrow>
   ('c tcp_outcome \<times> ('x, 'c) tcp_world) option" where
  "tcp_handshake_start_after_initial_payload cfg lib envs s w =
     (let s = s\<lparr>ts_phase_timer := None, ts_client_io := None\<rparr> in
      if th_initial_payload (ts_phase s) = [] \<and> th_client_eof (ts_phase s) then Some (closing False s, w)
      else tcp_handshake_start cfg lib envs s w)"

text \<open>
  The three places that read: when the session is new, when the client has sent something, and when it has been
  waited for long enough. \<open>wait\<close> is what to do when nothing has come.
\<close>

definition read_then ::
  "tcp_config \<Rightarrow> 'c ss2022_tcp \<Rightarrow> bytes io list \<Rightarrow> (nat \<Rightarrow> ('y, 'x, 'c) attempt_env) \<Rightarrow> ('c hs_session \<Rightarrow> 'c hs_session) option \<Rightarrow>
   'c hs_session \<Rightarrow> ('x, 'c) tcp_world \<Rightarrow> ('c tcp_outcome \<times> ('x, 'c) tcp_world) option" where
  "read_then cfg lib recvs envs wait s w =
     (case tcp_handshake_read_initial_payload (ts_client_fd s) recvs (ts_phase s) of
        (None, calls) \<Rightarrow> Some (closing True s, tcp_call calls w)
      | (Some (need_wait, h), calls) \<Rightarrow>
          (let s = s\<lparr>ts_phase := h\<rparr>; w = tcp_call calls w in
           case wait of
             Some f \<Rightarrow> if need_wait then Some (Going (Handshaking (f s)), w)
                       else tcp_handshake_start_after_initial_payload cfg lib envs s w
           | None \<Rightarrow> tcp_handshake_start_after_initial_payload cfg lib envs s w))"

definition tcp_handshake_on_initial_payload_read ::
  "tcp_config \<Rightarrow> 'c ss2022_tcp \<Rightarrow> bytes io list \<Rightarrow> (nat \<Rightarrow> ('y, 'x, 'c) attempt_env) \<Rightarrow> 'c hs_session \<Rightarrow>
   ('x, 'c) tcp_world \<Rightarrow> ('c tcp_outcome \<times> ('x, 'c) tcp_world) option" where
  "tcp_handshake_on_initial_payload_read cfg lib recvs envs s w = read_then cfg lib recvs envs (Some (\<lambda>s. s)) s w"

definition tcp_handshake_on_initial_payload_timeout ::
  "tcp_config \<Rightarrow> 'c ss2022_tcp \<Rightarrow> bytes io list \<Rightarrow> (nat \<Rightarrow> ('y, 'x, 'c) attempt_env) \<Rightarrow> 'c hs_session \<Rightarrow>
   ('x, 'c) tcp_world \<Rightarrow> ('c tcp_outcome \<times> ('x, 'c) tcp_world) option" where
  "tcp_handshake_on_initial_payload_timeout cfg lib recvs envs s w = read_then cfg lib recvs envs None s w"

definition tcp_handshake_wait_initial_payload ::
  "tcp_config \<Rightarrow> 'c ss2022_tcp \<Rightarrow> bytes io list \<Rightarrow> (nat \<Rightarrow> ('y, 'x, 'c) attempt_env) \<Rightarrow> 'c hs_session \<Rightarrow>
   ('x, 'c) tcp_world \<Rightarrow> ('c tcp_outcome \<times> ('x, 'c) tcp_world) option" where
  "tcp_handshake_wait_initial_payload cfg lib recvs envs s w =
     read_then cfg lib recvs envs
       (Some (\<lambda>s. s\<lparr>ts_client_io := Some (Cb_initial_payload_read, True, False), ts_phase_timer := Some Timer_initial_payload\<rparr>)) s w"

section \<open>The connect timeout\<close>

definition tcp_handshake_on_timeout ::
  "tcp_config \<Rightarrow> 'c ss2022_tcp \<Rightarrow> (nat \<Rightarrow> ('y, 'x, 'c) attempt_env) \<Rightarrow> 'c hs_session \<Rightarrow> ('x, 'c) tcp_world \<Rightarrow>
   ('c tcp_outcome \<times> ('x, 'c) tcp_world) option" where
  "tcp_handshake_on_timeout cfg lib envs s w = tcp_handshake_retry cfg lib envs True s w"

section \<open>Accepting\<close>

text \<open>What the choice of a server for a new session finds.\<close>

record ('y, 'x, 'c) choice_env =
  ce_sel :: "'y selectors"
  ce_ctx :: "'x option"
  ce_client :: "'c option"

text \<open>The loop of \<^verbatim>\<open>tcp_session_create\<close>: the server, the servers tried and the client; \<open>Some (None, w)\<close> when there is none.\<close>

partial_function (option) tcp_choose_server ::
  "(nat \<Rightarrow> ('y, 'x, 'c) choice_env) \<Rightarrow> bool \<Rightarrow> u8 \<Rightarrow> ('x, 'c) tcp_world \<Rightarrow>
   ((u8 \<times> u8 \<times> 'c) option \<times> ('x, 'c) tcp_world) option" where
  "tcp_choose_server envs first_time tried_mask w =
     (let next_idx = (if first_time then server_selector_best_tcp (ce_sel (envs 0))
                      else server_selector_next_best_tcp (ucast tried_mask) (ce_sel (envs 0)));
          tried_mask' = tried_mask OR push_bit (nat next_idx) 1
      in if next_idx < 0 then Some (None, w)
         else (case tcp_ctx_get (ce_ctx (envs 0)) (nat next_idx) w of
                 (ctx, w) \<Rightarrow>
                   (case (ctx, ce_client (envs 0)) of
                      (Some _, Some c) \<Rightarrow> Some (Some (word_of_int next_idx, tried_mask', c), w)
                    | _ \<Rightarrow> tcp_choose_server (\<lambda>n. envs (Suc n)) False tried_mask' w)))"

definition new_session :: "int \<Rightarrow> ss2022_addr \<Rightarrow> bytes \<Rightarrow> u8 \<times> u8 \<times> 'c \<Rightarrow> 'c hs_session" where
  "new_session client_fd target client_peer_addr choice =
     (case choice of
        (idx, tried_mask, c) \<Rightarrow>
          \<lparr>ts_client_fd = client_fd, ts_server_fd = -1, ts_client_io = None, ts_server_io = None, ts_phase_timer = None,
           ts_server_idx = idx, ts_relay_in = None, ts_tried_servers_mask = tried_mask, ts_retry_count = 0,
           ts_selector_attempt_epoch = 0, ts_client_peer_addr = client_peer_addr, ts_ss_client = Some c,
           ts_phase = \<lparr>th_request_header = [], th_initial_payload = [], th_target = target, th_request_header_len = 0,
                       th_request_header_sent = 0, th_client_eof = False\<rparr>\<rparr>)"

definition tcp_session_create ::
  "(nat \<Rightarrow> nat option) \<Rightarrow> (nat \<Rightarrow> ('y, 'x, 'c) choice_env) \<Rightarrow> int \<Rightarrow> ss2022_addr \<Rightarrow> bytes \<Rightarrow> ('x, 'c) tcp_world \<Rightarrow>
   (ptr option \<times> ('x, 'c) tcp_world) option" where
  "tcp_session_create memalign envs client_fd target client_peer_addr w =
     (case pool_alloc memalign (g_tcp_session_pool w) of
        (None, pool) \<Rightarrow> Some (None, w\<lparr>g_tcp_session_pool := pool\<rparr>)
      | (Some p, pool) \<Rightarrow>
          (case tcp_choose_server envs True 0 (w\<lparr>g_tcp_session_pool := pool\<rparr>) of
             None \<Rightarrow> None
           | Some (None, w) \<Rightarrow> Some (None, w\<lparr>g_tcp_session_pool := pool_free p (g_tcp_session_pool w)\<rparr>)
           | Some (Some choice, w) \<Rightarrow>
               Some (Some p, tcp_session_link p
                 (w\<lparr>tcp_mem := (tcp_mem w)(p \<mapsto> Handshaking (new_session client_fd target client_peer_addr choice))\<rparr>))))"

text \<open>The answers to the calls made for one connection.\<close>

record ('y, 'x, 'c) accept_env =
  ac_getsockname :: "bytes io"
  ac_memalign :: "nat \<Rightarrow> nat option"
  ac_choice :: "nat \<Rightarrow> ('y, 'x, 'c) choice_env"
  ac_recvs :: "bytes io list"
  ac_attempts :: "nat \<Rightarrow> ('y, 'x, 'c) attempt_env"

definition hs_of :: "'c tcp_object \<Rightarrow> 'c hs_session" where
  "hs_of obj = (case obj of Handshaking s \<Rightarrow> s)"

definition tcp_proxy_accepted ::
  "tcp_config \<Rightarrow> fakedns \<Rightarrow> 'c ss2022_tcp \<Rightarrow> bool \<Rightarrow> int \<Rightarrow> bytes \<Rightarrow> ('y, 'x, 'c) accept_env \<Rightarrow>
   fakedns_mru \<times> ('x, 'c) tcp_world \<Rightarrow> (fakedns_mru \<times> ('x, 'c) tcp_world) option" where
  "tcp_proxy_accepted cfg dns lib isipv4 client_fd skaddr env st =
     (case st of (m, w) \<Rightarrow>
        let w = tcp_open client_fd w in
        case tcp_proxy_resolve_target cfg dns isipv4 (ac_getsockname env) m of
          (None, m) \<Rightarrow> Some (m, tcp_shut True client_fd w)
        | (Some target, m) \<Rightarrow>
            (case tcp_session_create (ac_memalign env) (ac_choice env) client_fd target skaddr w of
               None \<Rightarrow> None
             | Some (None, w) \<Rightarrow> Some (m, tcp_shut True client_fd w)
             | Some (Some p, w) \<Rightarrow>
                 (case tcp_handshake_wait_initial_payload cfg lib (ac_recvs env) (ac_attempts env) (hs_of (the (tcp_mem w p))) w of
                    None \<Rightarrow> None
                  | Some res \<Rightarrow> Some (m, tcp_finish p res))))"

text \<open>The batch: an interrupted call is not counted; another error, or an empty queue, ends it.\<close>

fun tcp_proxy_on_accept ::
  "tcp_config \<Rightarrow> fakedns \<Rightarrow> 'c ss2022_tcp \<Rightarrow> bool \<Rightarrow> nat \<Rightarrow> (int \<times> bytes \<times> ('y, 'x, 'c) accept_env) io list \<Rightarrow>
   fakedns_mru \<times> ('x, 'c) tcp_world \<Rightarrow> (fakedns_mru \<times> ('x, 'c) tcp_world) option" where
  "tcp_proxy_on_accept cfg dns lib isipv4 left [] st = Some st"
| "tcp_proxy_on_accept cfg dns lib isipv4 0 (r # rs) st = Some st"
| "tcp_proxy_on_accept cfg dns lib isipv4 (Suc left) (r # rs) st =
     (case r of
        IoErr e \<Rightarrow> if e = EINTR then tcp_proxy_on_accept cfg dns lib isipv4 (Suc left) rs st else Some st
      | IoOk (fd, skaddr, env) \<Rightarrow>
          (case tcp_proxy_accepted cfg dns lib isipv4 fd skaddr env st of
             None \<Rightarrow> None
           | Some st \<Rightarrow> tcp_proxy_on_accept cfg dns lib isipv4 left rs st))"

section \<open>Events of a session\<close>

text \<open>The callbacks of the session's watchers and of its timer, applied to the session at \<open>p\<close>.\<close>

datatype ('y, 'x, 'c) tcp_event =
    Ev_initial_payload_read "bytes io list" "nat \<Rightarrow> ('y, 'x, 'c) attempt_env"
  | Ev_initial_payload_timeout "bytes io list" "nat \<Rightarrow> ('y, 'x, 'c) attempt_env"
  | Ev_connect_timeout "nat \<Rightarrow> ('y, 'x, 'c) attempt_env"
  | Ev_server_connected "errno option io" "nat io" relay_start_env "nat \<Rightarrow> ('y, 'x, 'c) attempt_env"
  | Ev_server_writable "nat io" relay_start_env "nat \<Rightarrow> ('y, 'x, 'c) attempt_env"
  | Ev_relay relay_env bool bool bool

fun tcp_handle ::
  "tcp_config \<Rightarrow> 'c ss2022_tcp \<Rightarrow> ('y, 'x, 'c) tcp_event \<Rightarrow> 'c tcp_object \<Rightarrow> ('x, 'c) tcp_world \<Rightarrow>
   ('c tcp_outcome \<times> ('x, 'c) tcp_world) option" where
  "tcp_handle cfg lib (Ev_initial_payload_read recvs envs) (Handshaking s) w =
     tcp_handshake_on_initial_payload_read cfg lib recvs envs s w"
| "tcp_handle cfg lib (Ev_initial_payload_timeout recvs envs) (Handshaking s) w =
     tcp_handshake_on_initial_payload_timeout cfg lib recvs envs s w"
| "tcp_handle cfg lib (Ev_connect_timeout envs) (Handshaking s) w = tcp_handshake_on_timeout cfg lib envs s w"
| "tcp_handle cfg lib (Ev_server_connected so_error send relay envs) (Handshaking s) w =
     after_step cfg lib envs (tcp_handshake_on_server_connected lib so_error send relay s w)"
| "tcp_handle cfg lib (Ev_server_writable send relay envs) (Handshaking s) w =
     after_step cfg lib envs (tcp_handshake_on_server_writable lib send relay s w)"
| "tcp_handle cfg lib (Ev_relay env is_client ev_read ev_write) (Relaying s) w =
     (case tcp_relay_on_event lib (tc_prefix_len cfg) env is_client ev_read ev_write s of
        (Inl rst, calls) \<Rightarrow> Some (closing rst s, tcp_call calls w)
      | (Inr s, calls) \<Rightarrow> Some (Going (Relaying s), tcp_call calls w))"
| "tcp_handle cfg lib _ obj w = Some (Going obj, w)"

text \<open>Which callbacks a session waits for.\<close>

fun tcp_waits :: "('y, 'x, 'c) tcp_event \<Rightarrow> 'c tcp_object \<Rightarrow> bool" where
  "tcp_waits (Ev_initial_payload_read _ _) (Handshaking s) \<longleftrightarrow> ts_client_io s = Some (Cb_initial_payload_read, True, False)"
| "tcp_waits (Ev_initial_payload_timeout _ _) (Handshaking s) \<longleftrightarrow> ts_phase_timer s = Some Timer_initial_payload"
| "tcp_waits (Ev_connect_timeout _) (Handshaking s) \<longleftrightarrow> ts_phase_timer s = Some Timer_connect"
| "tcp_waits (Ev_server_connected _ _ _ _) (Handshaking s) \<longleftrightarrow> ts_server_io s = Some (Cb_server_connected, False, True)"
| "tcp_waits (Ev_server_writable _ _ _) (Handshaking s) \<longleftrightarrow> ts_server_io s = Some (Cb_server_writable, False, True)"
| "tcp_waits (Ev_relay _ is_client ev_read ev_write) (Relaying s) \<longleftrightarrow>
     (case (if is_client then ts_client_io s else ts_server_io s) of
        None \<Rightarrow> False
      | Some (_, rd, wr) \<Rightarrow> (ev_read \<longrightarrow> rd) \<and> (ev_write \<longrightarrow> wr) \<and> (ev_read \<or> ev_write))"
| "tcp_waits _ _ \<longleftrightarrow> False"

section \<open>Shutting down\<close>

text \<open>The walk along the list: the link is read before the session is freed. \<open>None\<close> if it does not end.\<close>

definition close_object :: "ptr \<Rightarrow> ('x, 'c) tcp_world \<Rightarrow> ('x, 'c) tcp_world" where
  "close_object p w =
     (case the (tcp_mem w p) of
        Handshaking s \<Rightarrow> tcp_session_close p False (ts_client_fd s) (ts_server_fd s) (ts_relay_in s) w
      | Relaying s \<Rightarrow> tcp_session_close p False (ts_client_fd s) (ts_server_fd s) (ts_relay_in s) w)"

partial_function (option) close_from :: "ptr option \<Rightarrow> ('x, 'c) tcp_world \<Rightarrow> ('x, 'c) tcp_world option" where
  "close_from cur w =
     (case cur of
        None \<Rightarrow> Some w
      | Some p \<Rightarrow> (let n = tcp_next w p in close_from n (close_object p w)))"

definition tcp_proxy_close_all_sessions :: "('x, 'c) tcp_world \<Rightarrow> ('x, 'c) tcp_world option" where
  "tcp_proxy_close_all_sessions w = close_from (g_tcp_session_head w) w"

definition tcp_proxy_ctx_cleanup :: "('x, 'c) tcp_world \<Rightarrow> ('x, 'c) tcp_world" where
  "tcp_proxy_ctx_cleanup w = w\<lparr>g_tcp_ss_ctx := map (\<lambda>_. None) (g_tcp_ss_ctx w)\<rparr>"

end
