(* ===== verification/TcpStream.thy ===== *)
theory TcpStream
  imports TcpRelay "HOL-Library.Sublist"
begin

text \<open>
  What the relay of a session delivers. The input buffer is seen as a window of bytes; the bytes waiting to be sent
  to the client and the bytes not yet opened are parts of it. The specification of the way from the server is a decoder
  that reads the whole stream at once; that of the way to the server is the sequence of sealed pieces.
\<close>

section \<open>The library's two directions\<close>

text \<open>
  A client of the library has a key and a nonce per direction: opening depends on what was opened before and sealing on what
  was sealed before. \<open>rx\<close> is the part of a client's state that opening uses, \<open>tx\<close> the part that sealing uses.
\<close>

definition rx_result :: "('c \<Rightarrow> 'r) \<Rightarrow> ('a \<times> 'c) option \<Rightarrow> ('a \<times> 'r) option" where
  "rx_result rx x = map_option (\<lambda>(a, c). (a, rx c)) x"

definition ss2022_rx :: "('c \<Rightarrow> 'r) \<Rightarrow> 'c ss2022_tcp \<Rightarrow> bool" where
  "ss2022_rx rx lib \<longleftrightarrow>
     (\<forall>c d b. rx c = rx d \<longrightarrow>
        rx_result rx (tcp_open_response_header lib c b) = rx_result rx (tcp_open_response_header lib d b) \<and>
        rx_result rx (tcp_open_length lib c b) = rx_result rx (tcp_open_length lib d b) \<and>
        (\<forall>n. rx_result rx (tcp_open_payload lib c b n) = rx_result rx (tcp_open_payload lib d b n))) \<and>
     (\<forall>c p n b c'. tcp_seal_payload lib c p n = Some (b, c') \<longrightarrow> rx c' = rx c)"

definition ss2022_tx :: "('c \<Rightarrow> 't) \<Rightarrow> 'c ss2022_tcp \<Rightarrow> bool" where
  "ss2022_tx tx lib \<longleftrightarrow>
     (\<forall>c d p n. tx c = tx d \<longrightarrow> rx_result tx (tcp_seal_payload lib c p n) = rx_result tx (tcp_seal_payload lib d p n)) \<and>
     (\<forall>c b n c'. tcp_open_response_header lib c b = Some (n, c') \<longrightarrow> tx c' = tx c) \<and>
     (\<forall>c b n c'. tcp_open_length lib c b = Some (n, c') \<longrightarrow> tx c' = tx c) \<and>
     (\<forall>c b n p c'. tcp_open_payload lib c b n = Some (p, c') \<longrightarrow> tx c' = tx c)"

section \<open>The stream from the server, decoded at once\<close>

datatype chunk = Want_header | Want_length | Want_payload u16

text \<open>The plaintext, and what is left: what comes next, the client and the bytes of an incomplete chunk; \<open>None\<close> after a chunk that does not open.\<close>

function decode :: "'c ss2022_tcp \<Rightarrow> nat \<Rightarrow> chunk \<Rightarrow> 'c \<Rightarrow> bytes \<Rightarrow> bytes \<times> (chunk \<times> 'c \<times> bytes) option" where
  "decode lib H Want_header c b =
     (if length b < H then ([], Some (Want_header, c, b))
      else (case tcp_open_response_header lib c (take H b) of
              None \<Rightarrow> ([], None)
            | Some (n, c) \<Rightarrow> decode lib H (Want_payload n) c (drop H b)))"
| "decode lib H Want_length c b =
     (if length b < TCP_LENGTH_CHUNK_LEN then ([], Some (Want_length, c, b))
      else (case tcp_open_length lib c (take TCP_LENGTH_CHUNK_LEN b) of
              None \<Rightarrow> ([], None)
            | Some (n, c) \<Rightarrow> decode lib H (Want_payload n) c (drop TCP_LENGTH_CHUNK_LEN b)))"
| "decode lib H (Want_payload n) c b =
     (let need = unat n + TCP_SS2022_TAG_LEN in
      if length b < need then ([], Some (Want_payload n, c, b))
      else (case tcp_open_payload lib c (take need b) (unat n) of
              None \<Rightarrow> ([], None)
            | Some (plain, c) \<Rightarrow> (case decode lib H Want_length c (drop need b) of (out, st) \<Rightarrow> (plain @ out, st))))"
  by pat_completeness auto
termination
  by (relation "measure (\<lambda>(lib, H, k, c, b). length b + (if k = Want_header then 1 else 0))")
    (auto simp: TCP_LENGTH_CHUNK_LEN_def TCP_SS2022_TAG_LEN_def TCP_SS2022_LEN_FIELD_LEN_def)

declare decode.simps [simp del]

definition then_decode ::
  "'c ss2022_tcp \<Rightarrow> nat \<Rightarrow> bytes \<times> (chunk \<times> 'c \<times> bytes) option \<Rightarrow> bytes \<Rightarrow> bytes \<times> (chunk \<times> 'c \<times> bytes) option" where
  "then_decode lib H x b =
     (case x of (out, None) \<Rightarrow> (out, None)
      | (out, Some (k, c, rest)) \<Rightarrow> (case decode lib H k c (rest @ b) of (out2, st) \<Rightarrow> (out @ out2, st)))"

text \<open>How the stream is cut into pieces does not matter.\<close>

lemma decode_append: "decode lib H k c (a @ b) = then_decode lib H (decode lib H k c a) b"
proof (induction lib H k c a rule: decode.induct)
  case (1 lib H c a)
  show ?case
  proof (cases "length a < H")
    case False
    then show ?thesis
      using 1 by (simp add: decode.simps(1) [of lib H c] split: option.split prod.split) (simp add: then_decode_def)
  qed (simp add: decode.simps(1) [of lib H c a] then_decode_def split: prod.split)
next
  case (2 lib H c a)
  show ?case
  proof (cases "length a < TCP_LENGTH_CHUNK_LEN")
    case False
    then show ?thesis
      using 2 by (simp add: decode.simps(2) [of lib H c] split: option.split prod.split) (simp add: then_decode_def)
  qed (simp add: decode.simps(2) [of lib H c a] then_decode_def split: prod.split)
next
  case (3 lib H n c a)
  show ?case
  proof (cases "length a < unat n + TCP_SS2022_TAG_LEN")
    case False
    show ?thesis
    proof (cases "tcp_open_payload lib c (take (unat n + TCP_SS2022_TAG_LEN) a) (unat n)")
      case None
      then show ?thesis using False by (simp add: decode.simps(3) [of lib H n c] then_decode_def Let_def)
    next
      case (Some pc)
      then obtain plain c' where pc: "pc = (plain, c')" by (cases pc)
      note ih = 3 [OF refl False Some pc [symmetric]]
      show ?thesis
        using False Some pc ih
        by (simp add: decode.simps(3) [of lib H n c] Let_def) (auto simp: then_decode_def split: prod.splits option.splits)
    qed
  qed (simp add: decode.simps(3) [of lib H n c a] then_decode_def Let_def split: prod.split)
qed

text \<open>Decoding sees of a client only what opening uses.\<close>

definition same_rx ::
  "('c \<Rightarrow> 'r) \<Rightarrow> bytes \<times> (chunk \<times> 'c \<times> bytes) option \<Rightarrow> bytes \<times> (chunk \<times> 'c \<times> bytes) option \<Rightarrow> bool" where
  "same_rx rx x y \<longleftrightarrow> fst x = fst y \<and> map_option (\<lambda>(k, c, b). (k, rx c, b)) (snd x) = map_option (\<lambda>(k, c, b). (k, rx c, b)) (snd y)"

lemma rx_cases:
  assumes "rx_result rx x = rx_result rx y"
  shows "x = None \<and> y = None \<or> (\<exists>a c d. x = Some (a, c) \<and> y = Some (a, d) \<and> rx c = rx d)"
  using assms by (cases x; cases y) (auto simp: rx_result_def)

lemma decode_rx:
  assumes "ss2022_rx rx lib" "rx c = rx d" shows "same_rx rx (decode lib H k c b) (decode lib H k d b)"
  using assms
proof (induction lib H k c b arbitrary: d rule: decode.induct)
  case (1 lib H c b)
  have "rx_result rx (tcp_open_response_header lib c (take H b)) = rx_result rx (tcp_open_response_header lib d (take H b))"
    using 1(2,3) unfolding ss2022_rx_def by blast
  from rx_cases [OF this] show ?case
    using 1 by (auto simp: decode.simps(1) [of lib H] same_rx_def)
next
  case (2 lib H c b)
  have "rx_result rx (tcp_open_length lib c (take TCP_LENGTH_CHUNK_LEN b)) = rx_result rx (tcp_open_length lib d (take TCP_LENGTH_CHUNK_LEN b))"
    using 2(2,3) unfolding ss2022_rx_def by blast
  from rx_cases [OF this] show ?case
    using 2 by (auto simp: decode.simps(2) [of lib H] same_rx_def)
next
  case (3 lib H n c b)
  let ?need = "unat n + TCP_SS2022_TAG_LEN"
  have "rx_result rx (tcp_open_payload lib c (take ?need b) (unat n)) = rx_result rx (tcp_open_payload lib d (take ?need b) (unat n))"
    using 3(2,3) unfolding ss2022_rx_def by blast
  from rx_cases [OF this] show ?case
    using 3 by (auto simp: decode.simps(3) [of lib H] same_rx_def Let_def split: prod.splits)
qed

lemma then_decode_rx:
  assumes "ss2022_rx rx lib" "same_rx rx x y" shows "same_rx rx (then_decode lib H x b) (then_decode lib H y b)"
proof (cases "snd x")
  case None
  then show ?thesis using assms(2) by (auto simp: same_rx_def then_decode_def split: prod.splits option.splits)
next
  case (Some st)
  obtain k c rest where st: "st = (k, c, rest)" by (cases st)
  then obtain d where d: "snd y = Some (k, d, rest)" "rx c = rx d" using Some assms(2) by (cases "snd y") (auto simp: same_rx_def)
  show ?thesis
    using decode_rx [OF assms(1) d(2), of H k "rest @ b"] assms(2) Some st d
    by (cases x; cases y) (auto simp: same_rx_def then_decode_def split: prod.splits)
qed

lemma same_rx_trans: "same_rx rx x y \<Longrightarrow> same_rx rx y z \<Longrightarrow> same_rx rx x z"
  by (simp add: same_rx_def)

section \<open>The window\<close>

definition window :: "tcp_relay \<Rightarrow> bytes" where
  "window r = slice (rl_in_head r) (rl_in_len r) (rl_in r)"

definition in_bounds :: "tcp_relay \<Rightarrow> bool" where
  "in_bounds r \<longleftrightarrow> length (rl_in r) = TCP_SS_RESP_IN_BUFSIZ \<and> rl_in_head r + rl_in_len r \<le> TCP_SS_RESP_IN_BUFSIZ"

definition next_chunk :: "tcp_relay \<Rightarrow> chunk" where
  "next_chunk r = (if \<not> rl_response_header_done r then Want_header else if rl_need_len r then Want_length
                   else Want_payload (rl_response_payload_len r))"

definition chunk_size :: "nat \<Rightarrow> chunk \<Rightarrow> nat" where
  "chunk_size H k = (case k of Want_header \<Rightarrow> H | Want_length \<Rightarrow> TCP_LENGTH_CHUNK_LEN | Want_payload n \<Rightarrow> unat n + TCP_SS2022_TAG_LEN)"

lemma length_slice: "p + n \<le> length b \<Longrightarrow> length (slice p n b) = n"
  by (simp add: slice_def)

lemma length_write_at: "p + length d \<le> length b \<Longrightarrow> length (write_at p d b) = length b"
  by (simp add: write_at_def)

lemma slice_write_at: "p + length d \<le> length b \<Longrightarrow> slice p (length d) (write_at p d b) = d"
  by (simp add: slice_def write_at_def)

lemma slice_slice: "p + m \<le> n \<Longrightarrow> slice p m (slice q n b) = slice (q + p) m b"
  by (simp add: slice_def take_drop add.commute min_absorb2)

lemma window_length: "in_bounds r \<Longrightarrow> length (window r) = rl_in_len r"
  by (simp add: window_def in_bounds_def length_slice)

lemma window_consume: "in_bounds r \<Longrightarrow> window (tcp_buf_consume n r) = drop n (window r)"
  by (auto simp: window_def tcp_buf_consume_def slice_def in_bounds_def drop_take add.commute)

lemma consume_bounds: "in_bounds r \<Longrightarrow> in_bounds (tcp_buf_consume n r)"
  by (auto simp: in_bounds_def tcp_buf_consume_def)

text \<open>Opening in place: what was not opened stays as it was.\<close>

lemma window_write_front:
  assumes "in_bounds r" "length d \<le> rl_in_len r"
  shows "window (r\<lparr>rl_in := write_at (rl_in_head r) d (rl_in r)\<rparr>) = d @ drop (length d) (window r)"
    "in_bounds (r\<lparr>rl_in := write_at (rl_in_head r) d (rl_in r)\<rparr>)"
proof -
  show "in_bounds (r\<lparr>rl_in := write_at (rl_in_head r) d (rl_in r)\<rparr>)"
    using assms by (simp add: in_bounds_def length_write_at)
  show "window (r\<lparr>rl_in := write_at (rl_in_head r) d (rl_in r)\<rparr>) = d @ drop (length d) (window r)"
    using assms by (simp add: window_def slice_def write_at_def in_bounds_def drop_take add.commute)
qed

text \<open>Receiving behind the window.\<close>

lemma window_write_back:
  assumes "in_bounds r" "length d \<le> server_input_room r"
  shows "window (server_input_append d r) = window r @ d" "in_bounds (server_input_append d r)"
proof -
  have "rl_in_head r + rl_in_len r \<le> TCP_SS_RESP_IN_BUFSIZ" using assms(1) by (simp add: in_bounds_def)
  then have fits: "rl_in_head r + rl_in_len r + length d \<le> TCP_SS_RESP_IN_BUFSIZ" using assms(2) unfolding server_input_room_def by linarith
  then show "in_bounds (server_input_append d r)" using assms(1) by (simp add: server_input_append_def in_bounds_def length_write_at add.assoc)
  have "drop (rl_in_head r) (take (rl_in_head r + rl_in_len r) (rl_in r)) = take (rl_in_len r) (drop (rl_in_head r) (rl_in r))"
    by (simp add: take_drop add.commute)
  then show "window (server_input_append d r) = window r @ d"
    using assms(1) fits by (simp add: server_input_append_def window_def slice_def write_at_def in_bounds_def)
qed

lemma window_compact:
  assumes "in_bounds r"
  shows "window (tcp_relay_compact_server_input r) = window r" "in_bounds (tcp_relay_compact_server_input r)"
proof -
  let ?r = "r\<lparr>rl_in := write_at 0 (window r) (rl_in r), rl_in_head := 0\<rparr>"
  have l: "length (window r) = rl_in_len r" "rl_in_len r \<le> length (rl_in r)" using assms window_length [OF assms] by (auto simp: in_bounds_def)
  have "window ?r = window r" using l unfolding window_def [of ?r] by (simp add: slice_def write_at_def)
  moreover have "in_bounds ?r" using assms l by (simp add: in_bounds_def length_write_at)
  ultimately show "window (tcp_relay_compact_server_input r) = window r" "in_bounds (tcp_relay_compact_server_input r)"
    using assms by (simp_all add: tcp_relay_compact_server_input_def window_def [symmetric])
qed

section \<open>The loop that opens chunks\<close>

definition pending :: "tcp_relay \<Rightarrow> bytes" where
  "pending r = slice (rl_out_off r) (rl_out_len r) (window r)"

definition unopened :: "tcp_relay \<Rightarrow> bytes" where
  "unopened r = drop (rl_in_consume r) (window r)"

definition out_ok :: "tcp_relay \<Rightarrow> bool" where
  "out_ok r \<longleftrightarrow>
     (if rl_out_len r = 0 then rl_in_consume r = 0
      else rl_out_off r + rl_out_len r \<le> rl_in_consume r \<and> rl_in_consume r \<le> rl_in_len r \<and>
        rl_response_header_done r \<and> rl_need_len r)"

text \<open>Nothing is left to open: the chunk that comes next is not complete.\<close>

definition settled :: "tcp_relay \<Rightarrow> bool" where
  "settled r \<longleftrightarrow> rl_out_len r = 0 \<longrightarrow> rl_in_len r < chunk_size (rl_response_header_len r) (next_chunk r)"

text \<open>What opening leaves alone.\<close>

definition opened_from :: "'c relay_session \<Rightarrow> 'c relay_session \<Rightarrow> bool" where
  "opened_from s s' \<longleftrightarrow>
     s' = s\<lparr>ts_ss_client := ts_ss_client s', ts_phase := ts_phase s'\<rparr> \<and>
     (let r = ts_phase s; r' = ts_phase s' in
      rl_client_eof r' = rl_client_eof r \<and> rl_server_eof r' = rl_server_eof r \<and>
      rl_client_shutdown_sent r' = rl_client_shutdown_sent r \<and> rl_server_shutdown_sent r' = rl_server_shutdown_sent r \<and>
      rl_response_header_len r' = rl_response_header_len r \<and> rl_c2s_buf r' = rl_c2s_buf r \<and>
      rl_c2s_off r' = rl_c2s_off r \<and> rl_c2s_len r' = rl_c2s_len r)"

lemma opened_from_refl: "opened_from s s"
  by (simp add: opened_from_def Let_def)

lemma opened_from_trans: "opened_from s s' \<Longrightarrow> opened_from s' s'' \<Longrightarrow> opened_from s s''"
  by (cases s; cases s'; cases s'') (auto simp: opened_from_def Let_def)

definition waiting :: "'c relay_session \<Rightarrow> bool" where
  "waiting s \<longleftrightarrow> in_bounds (ts_phase s) \<and> rl_out_len (ts_phase s) = 0 \<and> rl_in_consume (ts_phase s) = 0 \<and> ts_ss_client s \<noteq> None"

definition decode_from :: "'c ss2022_tcp \<Rightarrow> 'c relay_session \<Rightarrow> bytes \<times> (chunk \<times> 'c \<times> bytes) option" where
  "decode_from lib s = decode lib (rl_response_header_len (ts_phase s)) (next_chunk (ts_phase s)) (the (ts_ss_client s)) (unopened (ts_phase s))"

lemma waiting_unopened: "waiting s \<Longrightarrow> unopened (ts_phase s) = window (ts_phase s)"
  by (simp add: waiting_def unopened_def)

lemma slice_window: "p + n \<le> rl_in_len r \<Longrightarrow> slice p n (window r) = slice (rl_in_head r + p) n (rl_in r)"
  by (simp add: window_def slice_slice)

lemma slice_window0: "n \<le> rl_in_len r \<Longrightarrow> slice (rl_in_head r) n (rl_in r) = take n (window r)"
  using slice_window [of 0 n r] by (simp add: slice_def)

lemma next_chunk_upd [simp]:
  "next_chunk (r\<lparr>rl_in_head := x\<rparr>) = next_chunk r" "next_chunk (r\<lparr>rl_in_len := y\<rparr>) = next_chunk r"
  "next_chunk (r\<lparr>rl_in := z\<rparr>) = next_chunk r" "next_chunk (r\<lparr>rl_in_consume := y\<rparr>) = next_chunk r"
  "next_chunk (r\<lparr>rl_out_len := y\<rparr>) = next_chunk r" "next_chunk (r\<lparr>rl_out_off := y\<rparr>) = next_chunk r"
  by (simp_all add: next_chunk_def)

lemma window_upd [simp]:
  "window (r\<lparr>rl_response_payload_len := a\<rparr>) = window r" "window (r\<lparr>rl_response_header_done := b\<rparr>) = window r"
  "window (r\<lparr>rl_need_len := b\<rparr>) = window r" "window (r\<lparr>rl_in_consume := n\<rparr>) = window r"
  "window (r\<lparr>rl_out_off := n\<rparr>) = window r" "window (r\<lparr>rl_out_len := n\<rparr>) = window r"
  by (simp_all add: window_def)

lemma in_bounds_upd [simp]:
  "in_bounds (r\<lparr>rl_response_payload_len := a\<rparr>) = in_bounds r" "in_bounds (r\<lparr>rl_response_header_done := b\<rparr>) = in_bounds r"
  "in_bounds (r\<lparr>rl_need_len := b\<rparr>) = in_bounds r" "in_bounds (r\<lparr>rl_in_consume := n\<rparr>) = in_bounds r"
  "in_bounds (r\<lparr>rl_out_off := n\<rparr>) = in_bounds r" "in_bounds (r\<lparr>rl_out_len := n\<rparr>) = in_bounds r"
  by (simp_all add: in_bounds_def)

lemma consume_fields:
  "rl_out_len (tcp_buf_consume n r) = rl_out_len r" "rl_in_consume (tcp_buf_consume n r) = rl_in_consume r"
  "rl_response_header_len (tcp_buf_consume n r) = rl_response_header_len r" "next_chunk (tcp_buf_consume n r) = next_chunk r"
  "rl_response_header_done (tcp_buf_consume n r) = rl_response_header_done r" "rl_need_len (tcp_buf_consume n r) = rl_need_len r"
  "rl_client_eof (tcp_buf_consume n r) = rl_client_eof r" "rl_server_eof (tcp_buf_consume n r) = rl_server_eof r"
  "rl_client_shutdown_sent (tcp_buf_consume n r) = rl_client_shutdown_sent r"
  "rl_server_shutdown_sent (tcp_buf_consume n r) = rl_server_shutdown_sent r"
  "rl_c2s_buf (tcp_buf_consume n r) = rl_c2s_buf r" "rl_c2s_off (tcp_buf_consume n r) = rl_c2s_off r"
  "rl_c2s_len (tcp_buf_consume n r) = rl_c2s_len r" "rl_out_off (tcp_buf_consume n r) = rl_out_off r"
  "rl_response_payload_len (tcp_buf_consume n r) = rl_response_payload_len r"
  by (simp_all add: tcp_buf_consume_def next_chunk_def)

lemma header_part_spec:
  assumes "waiting s" "open_header_part lib s = (part, calls)"
  shows "case part of
      Short \<Rightarrow> calls = [] \<and> settled (ts_phase s) \<and> next_chunk (ts_phase s) = Want_header
    | Broken \<Rightarrow> calls = [] \<and> decode_from lib s = ([], None)
    | Opened s1 \<Rightarrow> waiting s1 \<and> opened_from s s1 \<and> next_chunk (ts_phase s1) \<noteq> Want_header \<and> decode_from lib s = decode_from lib s1 \<and>
        (\<forall>c \<in> set calls. \<exists>i e. c = Call_report (Tcp_success i e)) \<and>
        (\<forall>tx :: 'c \<Rightarrow> 't. ss2022_tx tx lib \<longrightarrow> tx (the (ts_ss_client s1)) = tx (the (ts_ss_client s)))"
proof (cases "rl_response_header_done (ts_phase s)")
  case True
  then show ?thesis using assms by (auto simp: open_header_part_def Let_def next_chunk_def opened_from_refl)
next
  case False
  let ?r = "ts_phase s"
  let ?H = "rl_response_header_len ?r"
  have k: "next_chunk ?r = Want_header" using False by (simp add: next_chunk_def)
  have b: "in_bounds ?r" "rl_out_len ?r = 0" "rl_in_consume ?r = 0" using assms(1) by (auto simp: waiting_def)
  show ?thesis
  proof (cases "rl_in_len ?r < ?H")
    case True
    then show ?thesis using assms(2) False k by (auto simp: open_header_part_def Let_def settled_def chunk_size_def)
  next
    case full: False
    then have sl: "slice (rl_in_head ?r) ?H (rl_in ?r) = take ?H (window ?r)" by (simp add: slice_window0)
    have dec: "decode_from lib s = (case tcp_open_response_header lib (the (ts_ss_client s)) (take ?H (window ?r)) of None \<Rightarrow> ([], None)
       | Some (n, c) \<Rightarrow> decode lib ?H (Want_payload n) c (drop ?H (window ?r)))"
      using full b k by (simp add: decode_from_def unopened_def decode.simps(1) window_length)
    show ?thesis
    proof (cases "tcp_open_response_header lib (the (ts_ss_client s)) (take ?H (window ?r))")
      case None
      then show ?thesis using assms(2) False full sl dec by (auto simp: open_header_part_def Let_def)
    next
      case (Some nc)
      then show ?thesis
        using assms False full sl dec b
        by (cases nc) (auto simp: open_header_part_def Let_def waiting_def consume_bounds consume_fields next_chunk_def decode_from_def
            unopened_def window_consume opened_from_def ss2022_tx_def)
    qed
  qed
qed

lemma length_part_spec:
  assumes "waiting s" "next_chunk (ts_phase s) \<noteq> Want_header"
  shows "case open_length_part lib s of
      Short \<Rightarrow> settled (ts_phase s)
    | Broken \<Rightarrow> decode_from lib s = ([], None)
    | Opened s1 \<Rightarrow> waiting s1 \<and> opened_from s s1 \<and> next_chunk (ts_phase s1) = Want_payload (rl_response_payload_len (ts_phase s1)) \<and>
        decode_from lib s = decode_from lib s1 \<and>
        (\<forall>tx :: 'c \<Rightarrow> 't. ss2022_tx tx lib \<longrightarrow> tx (the (ts_ss_client s1)) = tx (the (ts_ss_client s)))"
proof (cases "rl_need_len (ts_phase s)")
  case False
  then show ?thesis using assms by (auto simp: open_length_part_def Let_def next_chunk_def opened_from_refl split: if_splits)
next
  case True
  let ?r = "ts_phase s"
  let ?H = "rl_response_header_len ?r" and ?L = TCP_LENGTH_CHUNK_LEN
  have k: "next_chunk ?r = Want_length" "rl_response_header_done ?r" using True assms(2) by (auto simp: next_chunk_def split: if_splits)
  have b: "in_bounds ?r" "rl_out_len ?r = 0" "rl_in_consume ?r = 0" using assms(1) by (auto simp: waiting_def)
  show ?thesis
  proof (cases "rl_in_len ?r < ?L")
    case short: True
    then show ?thesis using True k by (auto simp: open_length_part_def Let_def settled_def chunk_size_def)
  next
    case full: False
    then have sl: "slice (rl_in_head ?r) ?L (rl_in ?r) = take ?L (window ?r)" by (simp add: slice_window0)
    have dec: "decode_from lib s = (case tcp_open_length lib (the (ts_ss_client s)) (take ?L (window ?r)) of None \<Rightarrow> ([], None)
       | Some (n, c) \<Rightarrow> decode lib ?H (Want_payload n) c (drop ?L (window ?r)))"
      using full b k by (simp add: decode_from_def unopened_def decode.simps(2) window_length)
    show ?thesis
    proof (cases "tcp_open_length lib (the (ts_ss_client s)) (take ?L (window ?r))")
      case None
      then show ?thesis using True full sl dec by (auto simp: open_length_part_def Let_def)
    next
      case (Some nc)
      then show ?thesis
        using assms True full sl dec b k
        by (cases nc) (auto simp: open_length_part_def Let_def waiting_def consume_bounds consume_fields next_chunk_def decode_from_def
            unopened_def window_consume opened_from_def ss2022_tx_def)
    qed
  qed
qed

lemma payload_part_spec:
  assumes "waiting s" "next_chunk (ts_phase s) = Want_payload (rl_response_payload_len (ts_phase s))" "ss2022_tcp_ok lib"
  shows "case open_payload_part lib s of
      Short \<Rightarrow> settled (ts_phase s)
    | Broken \<Rightarrow> decode_from lib s = ([], None)
    | Opened s1 \<Rightarrow> in_bounds (ts_phase s1) \<and> out_ok (ts_phase s1) \<and> ts_ss_client s1 \<noteq> None \<and> opened_from s s1 \<and>
        next_chunk (ts_phase s1) = Want_length \<and>
        decode_from lib s = (case decode_from lib s1 of (out, st) \<Rightarrow> (pending (ts_phase s1) @ out, st)) \<and>
        (\<forall>tx :: 'c \<Rightarrow> 't. ss2022_tx tx lib \<longrightarrow> tx (the (ts_ss_client s1)) = tx (the (ts_ss_client s)))"
proof -
  let ?r = "ts_phase s"
  let ?need = "unat (rl_response_payload_len ?r) + TCP_SS2022_TAG_LEN" and ?H = "rl_response_header_len ?r"
  have b: "in_bounds ?r" "rl_out_len ?r = 0" "rl_in_consume ?r = 0" using assms(1) by (auto simp: waiting_def)
  have hd: "rl_response_header_done ?r" "\<not> rl_need_len ?r" using assms(2) by (auto simp: next_chunk_def split: if_splits)
  show ?thesis
  proof (cases "rl_in_len ?r < ?need")
    case True
    then show ?thesis using assms(2) by (auto simp: open_payload_part_def Let_def settled_def chunk_size_def)
  next
    case full: False
    then have sl: "slice (rl_in_head ?r) ?need (rl_in ?r) = take ?need (window ?r)" by (simp add: slice_window0)
    have dec: "decode_from lib s = (case tcp_open_payload lib (the (ts_ss_client s)) (take ?need (window ?r)) (unat (rl_response_payload_len ?r)) of
         None \<Rightarrow> ([], None)
       | Some (plain, c) \<Rightarrow> (case decode lib ?H Want_length c (drop ?need (window ?r)) of (out, st) \<Rightarrow> (plain @ out, st)))"
      using full b assms(2) by (simp add: decode_from_def unopened_def decode.simps(3) window_length Let_def)
    show ?thesis
    proof (cases "tcp_open_payload lib (the (ts_ss_client s)) (take ?need (window ?r)) (unat (rl_response_payload_len ?r))")
      case None
      then show ?thesis using full sl dec by (auto simp: open_payload_part_def Let_def)
    next
      case (Some pc)
      obtain plain c where pc: "pc = (plain, c)" by (cases pc)
      have len: "length plain \<le> unat (rl_response_payload_len ?r)" using assms(3) Some unfolding ss2022_tcp_ok_def pc by blast
      then have fits: "length plain \<le> rl_in_len ?r" "length plain \<le> ?need" using full by auto
      let ?w = "?r\<lparr>rl_in := write_at (rl_in_head ?r) plain (rl_in ?r)\<rparr>"
      note front = window_write_front [OF b(1) fits(1)]
      have rest: "drop ?need (window ?w) = drop ?need (window ?r)" using fits by (simp add: front)
      have tx: "ss2022_tx tx lib \<Longrightarrow> tx c = tx (the (ts_ss_client s))" for tx :: "'c \<Rightarrow> 't"
        using Some pc unfolding ss2022_tx_def by blast
      show ?thesis
      proof (cases "plain = []")
        case True
        let ?r1 = "(tcp_buf_consume ?need ?w)\<lparr>rl_in_consume := 0, rl_out_off := 0, rl_out_len := 0, rl_need_len := True\<rparr>"
        have part: "open_payload_part lib s = Opened (s\<lparr>ts_ss_client := Some c, ts_phase := ?r1\<rparr>)"
          using full sl Some pc True by (simp add: open_payload_part_def Let_def)
        have w: "window ?r1 = drop ?need (window ?r)" using rest window_consume [OF front(2)] by simp
        have "in_bounds ?r1" using consume_bounds [OF front(2)] by simp
        moreover have "next_chunk ?r1 = Want_length" using hd by (simp add: next_chunk_def consume_fields)
        moreover have "out_ok ?r1" by (simp add: out_ok_def)
        moreover have "opened_from s (s\<lparr>ts_ss_client := Some c, ts_phase := ?r1\<rparr>)" by (simp add: opened_from_def consume_fields)
        ultimately show ?thesis
          using part dec Some pc True tx w
          by (simp add: decode_from_def unopened_def pending_def consume_fields) (simp add: slice_def)
      next
        case False
        let ?r1 = "?w\<lparr>rl_in_consume := ?need, rl_out_off := 0, rl_out_len := length plain, rl_need_len := True\<rparr>"
        have part: "open_payload_part lib s = Opened (s\<lparr>ts_ss_client := Some c, ts_phase := ?r1\<rparr>)"
          using full sl Some pc False by (simp add: open_payload_part_def Let_def)
        have "next_chunk ?r1 = Want_length" using hd by (simp add: next_chunk_def)
        moreover have "out_ok ?r1" using hd full fits False by (simp add: out_ok_def)
        moreover have "opened_from s (s\<lparr>ts_ss_client := Some c, ts_phase := ?r1\<rparr>)" by (simp add: opened_from_def)
        moreover have "pending ?r1 = plain" by (simp add: pending_def front slice_def)
        moreover have "unopened ?r1 = drop ?need (window ?r)" using rest by (simp add: unopened_def)
        ultimately show ?thesis
          using part dec Some pc False tx front(2) by (simp add: decode_from_def)
      qed
    qed
  qed
qed

text \<open>The loop: what it leaves to send, followed by the decoding of what it leaves unopened, is the decoding of what it found.\<close>

definition only_reports :: "tcp_call list \<Rightarrow> bool" where
  "only_reports calls \<longleftrightarrow> (\<forall>c \<in> set calls. \<exists>i e. c = Call_report (Tcp_success i e))"

definition process_result ::
  "('c \<Rightarrow> 't) \<Rightarrow> 'c ss2022_tcp \<Rightarrow> 'c relay_session \<Rightarrow> 'c relay_result \<Rightarrow> bool" where
  "process_result tx lib s res \<longleftrightarrow> only_reports (snd res) \<and>
     (case fst res of
        Inl rst \<Rightarrow> rst \<and> decode_from lib s = ([], None)
      | Inr s' \<Rightarrow> in_bounds (ts_phase s') \<and> out_ok (ts_phase s') \<and> settled (ts_phase s') \<and> ts_ss_client s' \<noteq> None \<and> opened_from s s' \<and>
          decode_from lib s = (case decode_from lib s' of (out, st) \<Rightarrow> (pending (ts_phase s') @ out, st)) \<and>
          (ss2022_tx tx lib \<longrightarrow> tx (the (ts_ss_client s')) = tx (the (ts_ss_client s))))"


lemma out_ok_waiting:
  "out_ok (ts_phase s) \<Longrightarrow> rl_out_len (ts_phase s) = 0 \<Longrightarrow> in_bounds (ts_phase s) \<Longrightarrow> ts_ss_client s \<noteq> None \<Longrightarrow> waiting s"
  by (simp add: out_ok_def waiting_def)

lemma waiting_out_ok: "waiting s \<Longrightarrow> out_ok (ts_phase s)"
  by (simp add: out_ok_def waiting_def)

lemma pending_none: "rl_out_len r = 0 \<Longrightarrow> pending r = []"
  by (simp add: pending_def slice_def)

lemma process_spec:
  fixes tx :: "'c \<Rightarrow> 't"
  assumes "ss2022_tcp_ok lib" "waiting s"
  shows "process_result tx lib s (tcp_relay_process_server_data lib s)"
  using assms
proof (induction lib s rule: tcp_relay_process_server_data.induct)
  case (1 lib s)
  have out: "rl_out_len (ts_phase s) = 0" using 1(3) by (simp add: waiting_def)
  note simps = tcp_relay_process_server_data.simps [of lib s] out process_result_def only_reports_def
  have keep: "in_bounds (ts_phase x) \<and> out_ok (ts_phase x) \<and> ts_ss_client x \<noteq> None \<and> pending (ts_phase x) = []" if "waiting x" for x :: "'c relay_session"
    using that waiting_out_ok by (auto simp: waiting_def pending_none)
  obtain p1 calls where h: "open_header_part lib s = (p1, calls)" by (metis surj_pair)
  note hs = header_part_spec [OF 1(3) h, where 't = 't]
  show ?case
  proof (cases p1)
    case Short
    then show ?thesis using hs h keep [OF 1(3)] by (simp add: simps opened_from_refl split_beta)
  next
    case Broken
    then show ?thesis using hs h by (simp add: simps)
  next
    case (Opened s1)
    have w1: "waiting s1" "next_chunk (ts_phase s1) \<noteq> Want_header" "opened_from s s1" "decode_from lib s = decode_from lib s1"
      "only_reports calls" "ss2022_tx tx lib \<longrightarrow> tx (the (ts_ss_client s1)) = tx (the (ts_ss_client s))"
      using hs Opened by (auto simp: only_reports_def)
    note ls = length_part_spec [OF w1(1,2), of lib, where 't = 't]
    show ?thesis
    proof (cases "open_length_part lib s1")
      case Short
      then show ?thesis using h Opened ls keep [OF w1(1)] w1 by (simp add: simps split_beta)
    next
      case Broken
      then show ?thesis using h Opened ls w1 by (simp add: simps)
    next
      case Opened2: (Opened s2)
      have w2: "waiting s2" "next_chunk (ts_phase s2) = Want_payload (rl_response_payload_len (ts_phase s2))" "opened_from s s2"
        "decode_from lib s = decode_from lib s2" "ss2022_tx tx lib \<longrightarrow> tx (the (ts_ss_client s2)) = tx (the (ts_ss_client s))"
        using ls Opened2 w1 opened_from_trans by auto
      note ps = payload_part_spec [OF w2(1,2) 1(2), where 't = 't]
      show ?thesis
      proof (cases "open_payload_part lib s2")
        case Short
        then show ?thesis using h Opened Opened2 ps keep [OF w2(1)] w1(5) w2 by (simp add: simps split_beta)
      next
        case Broken
        then show ?thesis using h Opened Opened2 ps w1(5) w2 by (simp add: simps)
      next
        case Opened3: (Opened s3)
        have w3: "in_bounds (ts_phase s3)" "out_ok (ts_phase s3)" "ts_ss_client s3 \<noteq> None" "opened_from s s3"
          "decode_from lib s = (case decode_from lib s3 of (out, st) \<Rightarrow> (pending (ts_phase s3) @ out, st))"
          "ss2022_tx tx lib \<longrightarrow> tx (the (ts_ss_client s3)) = tx (the (ts_ss_client s))"
          using ps Opened3 w2 opened_from_trans by auto
        show ?thesis
        proof (cases "rl_out_len (ts_phase s3) = 0")
          case False
          then show ?thesis using h Opened Opened2 Opened3 w1(5) w3 by (simp add: simps settled_def)
        next
          case True
          have w: "waiting s3" using w3 True out_ok_waiting by blast
          have "process_result tx lib s3 (tcp_relay_process_server_data lib s3)"
            using 1(1) [OF _ h [symmetric] Opened Opened2 Opened3] out True 1(2) w by simp
          then show ?thesis
            using h Opened Opened2 Opened3 True w1(5) w3 pending_none [OF True]
            by (cases "tcp_relay_process_server_data lib s3")
              (auto simp: simps split: sum.splits intro: opened_from_trans)
        qed
      qed
    qed
  qed
qed

section \<open>What goes over the two connections\<close>

fun sent :: "int \<Rightarrow> tcp_call list \<Rightarrow> bytes" where
  "sent fd [] = []"
| "sent fd (c # calls) = (case c of Call_send f d \<Rightarrow> if f = fd then d else [] | _ \<Rightarrow> []) @ sent fd calls"

text \<open>An empty piece is the end of the stream.\<close>

fun pieces :: "int \<Rightarrow> tcp_call list \<Rightarrow> bytes list" where
  "pieces fd [] = []"
| "pieces fd (c # calls) = (case c of Call_recv f d \<Rightarrow> if f = fd \<and> d \<noteq> [] then [d] else [] | _ \<Rightarrow> []) @ pieces fd calls"

definition received :: "int \<Rightarrow> tcp_call list \<Rightarrow> bytes" where
  "received fd calls = concat (pieces fd calls)"

lemma sent_append [simp]: "sent fd (a @ b) = sent fd a @ sent fd b"
  by (induction a) auto

lemma pieces_append [simp]: "pieces fd (a @ b) = pieces fd a @ pieces fd b"
  by (induction a) auto

lemma only_reports_silent: "only_reports calls \<Longrightarrow> sent fd calls = [] \<and> pieces fd calls = []"
  by (induction calls) (auto simp: only_reports_def)

text \<open>The stream to the server: the pieces, sealed one after the other; \<open>None\<close> after one that cannot be sealed.\<close>

fun seal_all :: "'c ss2022_tcp \<Rightarrow> 'c \<Rightarrow> bytes list \<Rightarrow> bytes \<times> 'c option" where
  "seal_all lib c [] = ([], Some c)"
| "seal_all lib c (p # ps) =
     (case tcp_seal_payload lib c p TCP_SS_CIPHER_BUFSIZ of
        None \<Rightarrow> ([], None)
      | Some (b, c') \<Rightarrow> (case seal_all lib c' ps of (out, x) \<Rightarrow> (b @ out, x)))"

lemma seal_all_append:
  "seal_all lib c (a @ b) =
     (case seal_all lib c a of (out, None) \<Rightarrow> (out, None)
      | (out, Some c') \<Rightarrow> (case seal_all lib c' b of (out2, x) \<Rightarrow> (out @ out2, x)))"
  by (induction a arbitrary: c) (auto split: option.split prod.split)

lemma seal_all_tx:
  assumes "ss2022_tx tx lib" "tx c = tx d"
  shows "fst (seal_all lib c ps) = fst (seal_all lib d ps) \<and> map_option tx (snd (seal_all lib c ps)) = map_option tx (snd (seal_all lib d ps))"
  using assms(2)
proof (induction ps arbitrary: c d)
  case (Cons p ps)
  have "rx_result tx (tcp_seal_payload lib c p TCP_SS_CIPHER_BUFSIZ) = rx_result tx (tcp_seal_payload lib d p TCP_SS_CIPHER_BUFSIZ)"
    using assms(1) Cons.prems unfolding ss2022_tx_def by blast
  from rx_cases [OF this] show ?case using Cons.IH by (auto split: prod.split) (metis fst_conv snd_conv)+
qed simp

section \<open>Progress of a session\<close>

definition to_deliver :: "'c ss2022_tcp \<Rightarrow> 'c relay_session \<Rightarrow> bytes \<times> (chunk \<times> 'c \<times> bytes) option" where
  "to_deliver lib s = (pending (ts_phase s) @ fst (decode_from lib s), snd (decode_from lib s))"

definition to_upload :: "'c relay_session \<Rightarrow> bytes" where
  "to_upload s = slice (rl_c2s_off (ts_phase s)) (rl_c2s_len (ts_phase s)) (rl_c2s_buf (ts_phase s))"

text \<open>Everything that can be decoded after \<open>calls\<close>, whatever was sent of it.\<close>

definition stream_to_client :: "'c ss2022_tcp \<Rightarrow> 'c relay_session \<Rightarrow> tcp_call list \<Rightarrow> bytes \<times> (chunk \<times> 'c \<times> bytes) option" where
  "stream_to_client lib s calls =
     then_decode lib (rl_response_header_len (ts_phase s)) (to_deliver lib s) (received (ts_server_fd s) calls)"

definition stream_to_server :: "'c ss2022_tcp \<Rightarrow> 'c relay_session \<Rightarrow> tcp_call list \<Rightarrow> bytes" where
  "stream_to_server lib s calls = to_upload s @ fst (seal_all lib (the (ts_ss_client s)) (pieces (ts_client_fd s) calls))"

definition sends_first :: "bytes \<Rightarrow> bytes \<times> 'x \<Rightarrow> bytes \<times> 'x" where
  "sends_first d x = (d @ fst x, snd x)"

definition delivers :: "('c \<Rightarrow> 'r) \<Rightarrow> 'c ss2022_tcp \<Rightarrow> 'c relay_session \<Rightarrow> tcp_call list \<Rightarrow> 'c relay_session \<Rightarrow> bool" where
  "delivers rx lib s calls s' \<longleftrightarrow>
     same_rx rx (stream_to_client lib s calls) (sends_first (sent (ts_client_fd s) calls) (to_deliver lib s'))"

definition uploads :: "('c \<Rightarrow> 't) \<Rightarrow> 'c ss2022_tcp \<Rightarrow> 'c relay_session \<Rightarrow> tcp_call list \<Rightarrow> 'c relay_session \<Rightarrow> bool" where
  "uploads tx lib s calls s' \<longleftrightarrow>
     stream_to_server lib s calls = sent (ts_server_fd s) calls @ to_upload s' \<and>
     map_option tx (snd (seal_all lib (the (ts_ss_client s)) (pieces (ts_client_fd s) calls))) = Some (tx (the (ts_ss_client s')))"

text \<open>At a close: what was sent is a prefix; it is all when the close is not a reset, and then the last chunk was complete.\<close>

definition cut_off :: "'c ss2022_tcp \<Rightarrow> 'c relay_session \<Rightarrow> bool \<Rightarrow> tcp_call list \<Rightarrow> bool" where
  "cut_off lib s rst calls \<longleftrightarrow>
     prefix (sent (ts_client_fd s) calls) (fst (stream_to_client lib s calls)) \<and>
     prefix (sent (ts_server_fd s) calls) (stream_to_server lib s calls) \<and>
     (\<not> rst \<longrightarrow> sent (ts_client_fd s) calls = fst (stream_to_client lib s calls) \<and>
        sent (ts_server_fd s) calls = stream_to_server lib s calls \<and>
        (\<exists>c. snd (stream_to_client lib s calls) = Some (Want_length, c, [])))"

lemma then_decode_append: "then_decode lib H (then_decode lib H x a) b = then_decode lib H x (a @ b)"
proof (cases x)
  case (Pair out st)
  show ?thesis
  proof (cases st)
    case None
    then show ?thesis using Pair by (simp add: then_decode_def)
  next
    case (Some kcr)
    obtain k c rest where kcr: "kcr = (k, c, rest)" by (cases kcr)
    show ?thesis
      using decode_append [of lib H k c "rest @ a" b] Pair Some kcr
      by (cases "decode lib H k c (rest @ a)") (auto simp: then_decode_def split: prod.splits option.splits)
  qed
qed

lemma then_decode_first: "then_decode lib H (sends_first d x) b = sends_first d (then_decode lib H x b)"
  by (auto simp: then_decode_def sends_first_def split: prod.splits option.splits)

lemma same_rx_first: "same_rx rx x y \<Longrightarrow> same_rx rx (sends_first d x) (sends_first d y)"
  by (simp add: same_rx_def sends_first_def)

lemma sends_first_append: "sends_first a (sends_first b x) = sends_first (a @ b) x"
  by (simp add: sends_first_def)

definition relay_mid :: "'c relay_session \<Rightarrow> bool" where
  "relay_mid s \<longleftrightarrow>
     (let r = ts_phase s in
      in_bounds r \<and> out_ok r \<and> ts_ss_client s \<noteq> None \<and> ts_client_fd s \<noteq> ts_server_fd s \<and>
      length (rl_c2s_buf r) = TCP_SS_CIPHER_BUFSIZ \<and> rl_c2s_off r + rl_c2s_len r \<le> TCP_SS_CIPHER_BUFSIZ \<and>
      0 < rl_response_header_len r \<and> rl_response_header_len r \<le> TCP_SS_RESP_IN_BUFSIZ \<and>
      (rl_server_eof r \<longrightarrow> rl_in_len r = 0 \<and> rl_out_len r = 0 \<and> next_chunk r = Want_length) \<and>
      (rl_server_shutdown_sent r \<longrightarrow> rl_client_eof r \<and> rl_c2s_len r = 0) \<and>
      (rl_client_shutdown_sent r \<longrightarrow> rl_server_eof r))"

definition same_conn :: "'c relay_session \<Rightarrow> 'c relay_session \<Rightarrow> bool" where
  "same_conn s s' \<longleftrightarrow> ts_client_fd s' = ts_client_fd s \<and> ts_server_fd s' = ts_server_fd s \<and>
     ts_relay_in s' = ts_relay_in s \<and> rl_response_header_len (ts_phase s') = rl_response_header_len (ts_phase s)"

definition step_ok :: "('c \<Rightarrow> 'r) \<Rightarrow> ('c \<Rightarrow> 't) \<Rightarrow> 'c ss2022_tcp \<Rightarrow> 'c relay_session \<Rightarrow> 'c relay_result \<Rightarrow> bool" where
  "step_ok rx tx lib s res \<longleftrightarrow>
     (case fst res of
        Inl rst \<Rightarrow> cut_off lib s rst (snd res)
      | Inr s' \<Rightarrow> relay_mid s' \<and> same_conn s s' \<and> delivers rx lib s (snd res) s' \<and> uploads tx lib s (snd res) s')"

definition relay_lib_ok :: "('c \<Rightarrow> 'r) \<Rightarrow> ('c \<Rightarrow> 't) \<Rightarrow> 'c ss2022_tcp \<Rightarrow> bool" where
  "relay_lib_ok rx tx lib \<longleftrightarrow> ss2022_tcp_ok lib \<and> ss2022_rx rx lib \<and> ss2022_tx tx lib"

lemma to_deliver_simp: "to_deliver lib s = sends_first (pending (ts_phase s)) (decode_from lib s)"
  by (simp add: to_deliver_def sends_first_def)

lemma decode_idle:
  "rl_out_len (ts_phase s) = 0 \<Longrightarrow> rl_in_len (ts_phase s) = 0 \<Longrightarrow> next_chunk (ts_phase s) = Want_length \<Longrightarrow>
   to_deliver lib s = ([], Some (Want_length, the (ts_ss_client s), []))"
  by (simp add: to_deliver_def pending_none decode_from_def unopened_def window_def slice_def decode.simps(2) TCP_LENGTH_CHUNK_LEN_def
      TCP_SS2022_LEN_FIELD_LEN_def)

lemma stream_to_client_nil: "same_rx rx (stream_to_client lib s []) (to_deliver lib s)"
proof -
  have "then_decode lib H (decode lib H k c b) [] = decode lib H k c b" for H k c b
    using decode_append [of lib H k c b "[]"] by simp
  then show ?thesis
    by (simp add: stream_to_client_def received_def to_deliver_simp then_decode_first same_rx_def decode_from_def)
qed

lemma stream_to_client_quiet: "pieces (ts_server_fd s) calls = [] \<Longrightarrow> stream_to_client lib s calls = stream_to_client lib s []"
  by (simp add: stream_to_client_def received_def)

lemma delivers_append:
  assumes "ss2022_rx rx lib" "same_conn s s1" "delivers rx lib s a s1"
  shows "same_rx rx (stream_to_client lib s (a @ b)) (sends_first (sent (ts_client_fd s) a) (stream_to_client lib s1 b))"
proof -
  let ?H = "rl_response_header_len (ts_phase s)" and ?b = "received (ts_server_fd s) b"
  have "same_rx rx (then_decode lib ?H (stream_to_client lib s a) ?b)
      (then_decode lib ?H (sends_first (sent (ts_client_fd s) a) (to_deliver lib s1)) ?b)"
    using then_decode_rx [OF assms(1)] assms(3) by (simp add: delivers_def)
  moreover have "then_decode lib ?H (stream_to_client lib s a) ?b = stream_to_client lib s (a @ b)"
    by (simp add: stream_to_client_def then_decode_append received_def)
  moreover have "then_decode lib ?H (sends_first (sent (ts_client_fd s) a) (to_deliver lib s1)) ?b =
      sends_first (sent (ts_client_fd s) a) (stream_to_client lib s1 b)"
    using assms(2) by (simp add: then_decode_first stream_to_client_def same_conn_def)
  ultimately show ?thesis by simp
qed

lemma uploads_append:
  assumes "ss2022_tx tx lib" "same_conn s s1" "uploads tx lib s a s1"
  shows "stream_to_server lib s (a @ b) = sent (ts_server_fd s) a @ stream_to_server lib s1 b"
    "map_option tx (snd (seal_all lib (the (ts_ss_client s)) (pieces (ts_client_fd s) (a @ b)))) =
     map_option tx (snd (seal_all lib (the (ts_ss_client s1)) (pieces (ts_client_fd s) b)))"
proof -
  obtain out c where a: "seal_all lib (the (ts_ss_client s)) (pieces (ts_client_fd s) a) = (out, Some c)" "tx c = tx (the (ts_ss_client s1))"
    using assms(3) by (cases "seal_all lib (the (ts_ss_client s)) (pieces (ts_client_fd s) a)") (auto simp: uploads_def)
  note b = seal_all_tx [OF assms(1) a(2), of "pieces (ts_client_fd s) b"]
  have e: "to_upload s @ out = sent (ts_server_fd s) a @ to_upload s1" using assms(3) a by (simp add: uploads_def stream_to_server_def)
  show "stream_to_server lib s (a @ b) = sent (ts_server_fd s) a @ stream_to_server lib s1 b"
    using a b assms(2) e
    by (simp add: stream_to_server_def seal_all_append split_beta same_conn_def flip: append_assoc)
  show "map_option tx (snd (seal_all lib (the (ts_ss_client s)) (pieces (ts_client_fd s) (a @ b)))) =
     map_option tx (snd (seal_all lib (the (ts_ss_client s1)) (pieces (ts_client_fd s) b)))"
    using a b by (simp add: seal_all_append split_beta)
qed

lemma step_append:
  assumes lib: "relay_lib_ok rx tx lib" and one: "step_ok rx tx lib s (Inr s1, a)" and two: "step_ok rx tx lib s1 (res, b)"
  shows "step_ok rx tx lib s (res, a @ b)"
proof -
  have s1: "same_conn s s1" "delivers rx lib s a s1" "uploads tx lib s a s1" using one by (auto simp: step_ok_def)
  have l: "ss2022_rx rx lib" "ss2022_tx tx lib" using lib by (auto simp: relay_lib_ok_def)
  note d = delivers_append [OF l(1) s1(1,2), of b] and u = uploads_append [OF l(2) s1(1,3), of b]
  have fd: "ts_client_fd s1 = ts_client_fd s" "ts_server_fd s1 = ts_server_fd s" using s1(1) by (auto simp: same_conn_def)
  show ?thesis
  proof (cases res)
    case (Inl rst)
    have c: "cut_off lib s1 rst b" using two Inl by (simp add: step_ok_def)
    have "fst (stream_to_client lib s (a @ b)) = sent (ts_client_fd s) a @ fst (stream_to_client lib s1 b)"
      "map_option (\<lambda>(k, c, b). (k, rx c, b)) (snd (stream_to_client lib s (a @ b))) =
       map_option (\<lambda>(k, c, b). (k, rx c, b)) (snd (stream_to_client lib s1 b))"
      using d by (auto simp: same_rx_def sends_first_def)
    then have "cut_off lib s rst (a @ b)" using c u(1) fd by (auto simp: cut_off_def)
    then show ?thesis using Inl by (simp add: step_ok_def)
  next
    case (Inr s2)
    have t: "relay_mid s2" "same_conn s1 s2" "delivers rx lib s1 b s2" "uploads tx lib s1 b s2" using two Inr by (auto simp: step_ok_def)
    have "delivers rx lib s (a @ b) s2"
      using d t(3) same_rx_trans same_rx_first fd unfolding delivers_def sent_append sends_first_append [symmetric] by metis
    moreover have "uploads tx lib s (a @ b) s2" using u t(4) fd by (simp add: uploads_def)
    moreover have "same_conn s s2" using s1(1) t(2) by (simp add: same_conn_def)
    ultimately show ?thesis using Inr t(1) by (simp add: step_ok_def)
  qed
qed

lemma step_and_then:
  assumes "relay_lib_ok rx tx lib" "step_ok rx tx lib s res" "\<And>s1. fst res = Inr s1 \<Longrightarrow> relay_mid s1 \<Longrightarrow> step_ok rx tx lib s1 (f s1)"
  shows "step_ok rx tx lib s (and_then res f)"
proof (cases "fst res")
  case (Inl rst)
  then show ?thesis using assms(2) by (cases res) (simp add: and_then_def)
next
  case (Inr s1)
  then have "step_ok rx tx lib s1 (f s1)" using assms(2,3) by (auto simp: step_ok_def)
  then show ?thesis using step_append [OF assms(1), of s s1 "snd res"] assms(2) Inr
    by (cases res; cases "f s1") (auto simp: and_then_def)
qed

lemma step_none: "relay_mid s \<Longrightarrow> step_ok rx tx lib s (Inr s, [])"
  using stream_to_client_nil
  by (auto simp: step_ok_def same_conn_def delivers_def uploads_def stream_to_server_def sends_first_def)

lemma cut_off_nothing: "cut_off lib s True []"
  by (simp add: cut_off_def)

section \<open>The handlers\<close>

lemma step_silent:
  assumes "relay_mid s'" "same_conn s s'" "\<And>fd. pieces fd calls = []"
    "to_deliver lib s = sends_first (sent (ts_client_fd s) calls) (to_deliver lib s')"
    "to_upload s = sent (ts_server_fd s) calls @ to_upload s'" "tx (the (ts_ss_client s')) = tx (the (ts_ss_client s))"
  shows "step_ok rx tx lib s (Inr s', calls)"
  using assms stream_to_client_nil [of rx lib s] stream_to_client_quiet [of s calls lib]
  by (simp add: step_ok_def delivers_def uploads_def stream_to_server_def)

lemma cut_silent:
  assumes "\<And>fd. pieces fd calls = []" "prefix (sent (ts_client_fd s) calls) (fst (to_deliver lib s))"
    "prefix (sent (ts_server_fd s) calls) (to_upload s)"
  shows "step_ok rx tx lib s (Inl True, calls)"
  using assms stream_to_client_nil [of "\<lambda>c. c" lib s] stream_to_client_quiet [of s calls lib]
  by (simp add: step_ok_def cut_off_def stream_to_server_def same_rx_def)

lemma slice_add: "slice p (k + m) b = slice p k b @ slice (p + k) m b"
  by (simp add: slice_def take_add add.commute)

lemma drain_spec:
  assumes "tcp_relay_drain fd buf rs off len = (res, calls)"
  shows "\<exists>k \<le> len. (\<forall>f. sent f calls = (if f = fd then slice off k buf else []) \<and> pieces f calls = []) \<and>
     (case res of None \<Rightarrow> True | Some (off', len') \<Rightarrow> len' = len - k \<and> off' = (if len' = 0 then 0 else off + k))"
  using assms
proof (induction fd buf rs off len arbitrary: res calls rule: tcp_relay_drain.induct)
  case (1 fd buf off len)
  then show ?case by (intro exI [of _ 0]) (auto simp: slice_def)
next
  case (2 fd buf r rs off len)
  show ?case
  proof (cases "len = 0 \<or> (\<exists>e. r = IoErr e \<and> e \<noteq> EINTR) \<or> r = IoOk 0")
    case True
    then show ?thesis using 2(3) by (intro exI [of _ 0]) (auto simp: slice_def split: if_splits)
  next
    case go: False
    show ?thesis
    proof (cases r)
      case (IoErr e)
      then show ?thesis using 2 go by auto
    next
      case (IoOk n)
      let ?k = "min n len"
      obtain res1 calls1 where rec: "tcp_relay_drain fd buf rs (off + ?k) (len - ?k) = (res1, calls1)" by (metis surj_pair)
      obtain m where m: "m \<le> len - ?k" "\<forall>f. sent f calls1 = (if f = fd then slice (off + ?k) m buf else []) \<and> pieces f calls1 = []"
        "case res1 of None \<Rightarrow> True | Some (off', len') \<Rightarrow> len' = len - ?k - m \<and> off' = (if len' = 0 then 0 else off + ?k + m)"
        using 2(1) [OF _ IoOk _ refl rec] go IoOk by auto
      have eq: "res = res1" "calls = Call_send fd (slice off ?k buf) # calls1"
        using 2(3) rec go IoOk by (auto simp: Let_def split: if_splits)
      have "\<forall>f. sent f calls = (if f = fd then slice off (?k + m) buf else []) \<and> pieces f calls = []"
        using m(2) by (simp add: eq slice_add)
      then show ?thesis using m by (intro exI [of _ "?k + m"]) (auto simp: eq add.assoc split: option.splits)
    qed
  qed
qed

lemma write_to_server_step:
  assumes "relay_mid s" shows "step_ok rx tx lib s (tcp_relay_write_to_server sends s)"
proof -
  let ?r = "ts_phase s"
  obtain res calls where d: "tcp_relay_drain (ts_server_fd s) (rl_c2s_buf ?r) sends (rl_c2s_off ?r) (rl_c2s_len ?r) = (res, calls)" by (metis surj_pair)
  obtain k where k: "k \<le> rl_c2s_len ?r" "\<forall>f. sent f calls = (if f = ts_server_fd s then slice (rl_c2s_off ?r) k (rl_c2s_buf ?r) else []) \<and> pieces f calls = []"
    "case res of None \<Rightarrow> True | Some (off', len') \<Rightarrow> len' = rl_c2s_len ?r - k \<and> off' = (if len' = 0 then 0 else rl_c2s_off ?r + k)"
    using drain_spec [OF d] by blast
  have fd: "ts_client_fd s \<noteq> ts_server_fd s" using assms by (simp add: relay_mid_def Let_def)
  have up: "to_upload s = slice (rl_c2s_off ?r) k (rl_c2s_buf ?r) @ slice (rl_c2s_off ?r + k) (rl_c2s_len ?r - k) (rl_c2s_buf ?r)"
    using k(1) slice_add [of "rl_c2s_off ?r" k "rl_c2s_len ?r - k"] by (simp add: to_upload_def)
  show ?thesis
  proof (cases res)
    case None
    then show ?thesis using d k fd up cut_silent [of calls s lib rx tx] by (simp add: tcp_relay_write_to_server_def)
  next
    case (Some x)
    obtain off len where x: "x = (off, len)" by (cases x)
    let ?s = "s\<lparr>ts_phase := ?r\<lparr>rl_c2s_off := off, rl_c2s_len := len\<rparr>\<rparr>"
    have ol: "len = rl_c2s_len ?r - k" "off = (if len = 0 then 0 else rl_c2s_off ?r + k)" using k(3) Some x by auto
    have "relay_mid ?s" using assms ol k(1) by (auto simp: relay_mid_def Let_def in_bounds_def out_ok_def next_chunk_def)
    moreover have "to_deliver lib ?s = to_deliver lib s"
      by (simp add: to_deliver_def pending_def window_def decode_from_def unopened_def next_chunk_def)
    moreover have "to_upload ?s = slice (rl_c2s_off ?r + k) (rl_c2s_len ?r - k) (rl_c2s_buf ?r)"
      using ol by (auto simp: to_upload_def slice_def)
    moreover have "same_conn s ?s" by (simp add: same_conn_def)
    ultimately have "step_ok rx tx lib s (Inr ?s, calls)"
      using k(2) fd up by (intro step_silent) (simp_all add: sends_first_def)
    then show ?thesis using d Some x by (simp add: tcp_relay_write_to_server_def)
  qed
qed

lemma relay_mid_narrower:
  assumes "relay_mid s" "in_bounds r" "out_ok r" "rl_in_len r \<le> rl_in_len (ts_phase s)" "rl_out_len r \<le> rl_out_len (ts_phase s)"
    "rl_c2s_buf r = rl_c2s_buf (ts_phase s)" "rl_c2s_off r = rl_c2s_off (ts_phase s)" "rl_c2s_len r = rl_c2s_len (ts_phase s)"
    "rl_server_eof r = rl_server_eof (ts_phase s)" "rl_client_eof r = rl_client_eof (ts_phase s)"
    "rl_server_shutdown_sent r = rl_server_shutdown_sent (ts_phase s)" "rl_client_shutdown_sent r = rl_client_shutdown_sent (ts_phase s)"
    "next_chunk r = next_chunk (ts_phase s)" "rl_response_header_len r = rl_response_header_len (ts_phase s)"
  shows "relay_mid (s\<lparr>ts_phase := r\<rparr>)" "to_upload (s\<lparr>ts_phase := r\<rparr>) = to_upload s" "same_conn s (s\<lparr>ts_phase := r\<rparr>)"
  using assms by (auto simp: relay_mid_def to_upload_def same_conn_def Let_def)

lemma write_to_client_step:
  assumes "relay_mid s" shows "step_ok rx tx lib s (tcp_relay_write_to_client sends s)"
proof -
  let ?r = "ts_phase s"
  let ?out = "drop (rl_in_head ?r) (rl_in ?r)"
  obtain res calls where d: "tcp_relay_drain (ts_client_fd s) ?out sends (rl_out_off ?r) (rl_out_len ?r) = (res, calls)" by (metis surj_pair)
  obtain k where k: "k \<le> rl_out_len ?r" "\<forall>f. sent f calls = (if f = ts_client_fd s then slice (rl_out_off ?r) k ?out else []) \<and> pieces f calls = []"
    "case res of None \<Rightarrow> True | Some (off', len') \<Rightarrow> len' = rl_out_len ?r - k \<and> off' = (if len' = 0 then 0 else rl_out_off ?r + k)"
    using drain_spec [OF d] by blast
  have mid: "ts_client_fd s \<noteq> ts_server_fd s" "in_bounds ?r" "out_ok ?r" using assms by (auto simp: relay_mid_def Let_def)
  have out: "slice (rl_out_off ?r) k ?out = slice (rl_out_off ?r) k (window ?r)"
  proof (cases "rl_out_len ?r = 0")
    case False
    then have "k \<le> rl_in_len ?r - rl_out_off ?r" using mid(3) k(1) by (auto simp: out_ok_def)
    then show ?thesis by (simp add: slice_def window_def drop_take min_absorb1)
  qed (use k(1) in \<open>simp add: slice_def\<close>)
  have pend: "pending ?r = slice (rl_out_off ?r) k (window ?r) @ slice (rl_out_off ?r + k) (rl_out_len ?r - k) (window ?r)"
    using k(1) slice_add [of "rl_out_off ?r" k "rl_out_len ?r - k"] by (simp add: pending_def)
  show ?thesis
  proof (cases res)
    case None
    then show ?thesis using d k mid(1) pend out cut_silent [of calls s lib rx tx]
      by (simp add: tcp_relay_write_to_client_def Let_def to_deliver_def)
  next
    case (Some x)
    obtain off len where x: "x = (off, len)" by (cases x)
    have ol: "len = rl_out_len ?r - k" "off = (if len = 0 then 0 else rl_out_off ?r + k)" using k(3) Some x by auto
    let ?r1 = "?r\<lparr>rl_out_off := off, rl_out_len := len\<rparr>"
    let ?r2 = "if len = 0 \<and> rl_in_consume ?r > 0 then (tcp_buf_consume (rl_in_consume ?r) ?r1)\<lparr>rl_in_consume := 0\<rparr> else ?r1"
    let ?s = "s\<lparr>ts_phase := ?r2\<rparr>"
    have b: "in_bounds ?r1" using mid(2) by simp
    have c: "rl_in_consume ?r \<le> rl_in_len ?r" using mid(3) by (auto simp: out_ok_def split: if_splits)
    have "unopened ?r2 = unopened ?r" using window_consume [OF b] by (auto simp: unopened_def)
    moreover have "next_chunk ?r2 = next_chunk ?r" by (simp add: consume_fields)
    moreover have "pending ?r2 = slice (rl_out_off ?r + k) (rl_out_len ?r - k) (window ?r)"
      using ol by (auto simp: pending_def consume_fields slice_def)
    moreover have H: "rl_response_header_len ?r2 = rl_response_header_len ?r" by (simp add: consume_fields)
    ultimately have td: "to_deliver lib s = sends_first (slice (rl_out_off ?r) k (window ?r)) (to_deliver lib ?s)"
      using pend by (simp add: to_deliver_def sends_first_def decode_from_def)
    have "in_bounds ?r2" using consume_bounds [OF b, of "rl_in_consume ?r"] b by (cases "len = 0") auto
    moreover have "out_ok ?r2" using mid(3) ol k(1) by (auto simp: out_ok_def consume_fields tcp_buf_consume_def split: if_splits)
    moreover have "rl_in_len ?r2 \<le> rl_in_len ?r" "rl_out_len ?r2 \<le> rl_out_len ?r" using ol by (auto simp: tcp_buf_consume_def)
    ultimately have "relay_mid ?s" "to_upload ?s = to_upload s" "same_conn s ?s"
      by (intro relay_mid_narrower [OF assms]; simp add: consume_fields del: if_cancel)+
    moreover have "ts_ss_client ?s = ts_ss_client s" by simp
    ultimately have "step_ok rx tx lib s (Inr ?s, calls)"
      using k(2) mid(1) td out by (intro step_silent) simp_all
    moreover have "tcp_relay_write_to_client sends s = (Inr ?s, calls)" using d Some x by (simp add: tcp_relay_write_to_client_def Let_def)
    ultimately show ?thesis by (simp only:)
  qed
qed

text \<open>Opening; the bytes received behind the window, if any, have been put there by the caller.\<close>

lemma relay_mid_opened:
  assumes "relay_mid s" "\<not> rl_server_eof (ts_phase s)" "opened_from s s'" "in_bounds (ts_phase s')" "out_ok (ts_phase s')" "ts_ss_client s' \<noteq> None"
  shows "relay_mid s'" "same_conn s s'" "to_upload s' = to_upload s"
proof -
  have "ts_client_fd s' = ts_client_fd s" "ts_server_fd s' = ts_server_fd s" "ts_relay_in s' = ts_relay_in s"
    using assms(3) unfolding opened_from_def by (cases s, cases s', simp)+
  moreover have "rl_client_eof (ts_phase s') = rl_client_eof (ts_phase s)" "rl_server_eof (ts_phase s') = rl_server_eof (ts_phase s)"
    "rl_client_shutdown_sent (ts_phase s') = rl_client_shutdown_sent (ts_phase s)"
    "rl_server_shutdown_sent (ts_phase s') = rl_server_shutdown_sent (ts_phase s)"
    "rl_response_header_len (ts_phase s') = rl_response_header_len (ts_phase s)" "rl_c2s_buf (ts_phase s') = rl_c2s_buf (ts_phase s)"
    "rl_c2s_off (ts_phase s') = rl_c2s_off (ts_phase s)" "rl_c2s_len (ts_phase s') = rl_c2s_len (ts_phase s)"
    using assms(3) by (auto simp: opened_from_def Let_def)
  ultimately show "relay_mid s'" "same_conn s s'" "to_upload s' = to_upload s"
    using assms by (simp_all add: relay_mid_def Let_def same_conn_def to_upload_def)
qed

lemma process_step:
  assumes lib: "relay_lib_ok rx tx lib" and mid: "relay_mid s" "rl_out_len (ts_phase s) = 0" "\<not> rl_server_eof (ts_phase s)"
  shows "step_ok rx tx lib s (tcp_relay_process_server_data lib s)"
proof -
  obtain res calls where p: "tcp_relay_process_server_data lib s = (res, calls)" by (metis surj_pair)
  have w: "waiting s" using mid by (auto simp: relay_mid_def Let_def intro: out_ok_waiting)
  have l: "ss2022_tcp_ok lib" "ss2022_tx tx lib" using lib by (auto simp: relay_lib_ok_def)
  have spec: "process_result tx lib s (res, calls)" using process_spec [OF l(1) w, of tx] p by simp
  then have silent: "sent fd calls = []" "pieces fd calls = []" for fd using only_reports_silent by (auto simp: process_result_def)
  show ?thesis
  proof (cases res)
    case (Inl rst)
    then have "rst" using spec by (simp add: process_result_def)
    then show ?thesis using Inl silent p by (simp add: cut_silent)
  next
    case (Inr s')
    then have s': "in_bounds (ts_phase s')" "out_ok (ts_phase s')" "ts_ss_client s' \<noteq> None" "opened_from s s'"
      "decode_from lib s = (case decode_from lib s' of (out, st) \<Rightarrow> (pending (ts_phase s') @ out, st))"
      "tx (the (ts_ss_client s')) = tx (the (ts_ss_client s))"
      using spec l(2) by (auto simp: process_result_def)
    have "to_deliver lib s = to_deliver lib s'"
      using s'(5) mid(2) by (simp add: to_deliver_def pending_none split_beta)
    then show ?thesis
      using Inr p silent s'(6) relay_mid_opened [OF mid(1,3) s'(4,1,2,3)]
      by (simp add: step_silent sends_first_def)
  qed
qed

lemma process_settled:
  assumes "ss2022_tcp_ok lib" "relay_mid s" "tcp_relay_process_server_data lib s = (Inr s', calls)" "rl_out_len (ts_phase s) = 0"
  shows "settled (ts_phase s')" "opened_from s s'"
proof -
  have "waiting s" using assms(2,4) by (auto simp: relay_mid_def Let_def intro: out_ok_waiting)
  from process_spec [OF assms(1) this, of "\<lambda>c. c"] show "settled (ts_phase s')" "opened_from s s'"
    using assms(3) by (auto simp: process_result_def)
qed

lemma pending_step:
  assumes "relay_lib_ok rx tx lib" "relay_mid s"
  shows "step_ok rx tx lib s (tcp_relay_process_pending_server_data lib s)"
proof (cases "rl_out_len (ts_phase s) \<noteq> 0 \<or> rl_in_len (ts_phase s) = 0")
  case True
  then show ?thesis using step_none [OF assms(2)] by (auto simp: tcp_relay_process_pending_server_data_def)
next
  case False
  then have "\<not> rl_server_eof (ts_phase s)" using assms(2) by (auto simp: relay_mid_def Let_def)
  then show ?thesis using process_step [OF assms] False by (simp add: tcp_relay_process_pending_server_data_def)
qed

text \<open>Reading from the client.\<close>

lemma upd_c2s [simp]:
  "in_bounds (r\<lparr>rl_c2s_buf := x\<rparr>) = in_bounds r" "in_bounds (r\<lparr>rl_c2s_off := y\<rparr>) = in_bounds r" "in_bounds (r\<lparr>rl_c2s_len := y\<rparr>) = in_bounds r"
  "in_bounds (r\<lparr>rl_client_eof := b\<rparr>) = in_bounds r" "in_bounds (r\<lparr>rl_server_eof := b\<rparr>) = in_bounds r"
  "out_ok (r\<lparr>rl_c2s_buf := x\<rparr>) = out_ok r" "out_ok (r\<lparr>rl_c2s_off := y\<rparr>) = out_ok r" "out_ok (r\<lparr>rl_c2s_len := y\<rparr>) = out_ok r"
  "out_ok (r\<lparr>rl_client_eof := b\<rparr>) = out_ok r" "out_ok (r\<lparr>rl_server_eof := b\<rparr>) = out_ok r"
  "next_chunk (r\<lparr>rl_c2s_buf := x\<rparr>) = next_chunk r" "next_chunk (r\<lparr>rl_c2s_off := y\<rparr>) = next_chunk r" "next_chunk (r\<lparr>rl_c2s_len := y\<rparr>) = next_chunk r"
  "next_chunk (r\<lparr>rl_client_eof := b\<rparr>) = next_chunk r" "next_chunk (r\<lparr>rl_server_eof := b\<rparr>) = next_chunk r"
  "window (r\<lparr>rl_c2s_buf := x\<rparr>) = window r" "window (r\<lparr>rl_c2s_off := y\<rparr>) = window r" "window (r\<lparr>rl_c2s_len := y\<rparr>) = window r"
  "window (r\<lparr>rl_client_eof := b\<rparr>) = window r" "window (r\<lparr>rl_server_eof := b\<rparr>) = window r"
  by (simp_all add: in_bounds_def out_ok_def next_chunk_def window_def)

lemma read_from_client_step:
  assumes lib: "relay_lib_ok rx tx lib" and mid: "relay_mid s" "rl_c2s_len (ts_phase s) = 0" "\<not> rl_client_eof (ts_phase s)"
    and room: "prefix_len + TCP_SS_PLAIN_BUFSIZ \<le> TCP_SS_CIPHER_BUFSIZ"
  shows "step_ok rx tx lib s (tcp_relay_read_from_client lib prefix_len recvs s)"
proof (cases "fst (retry_eintr recvs)")
  case (IoErr e)
  then show ?thesis using step_none [OF mid(1), of rx tx lib] cut_silent [of "[]" s lib rx tx] by (simp add: tcp_relay_read_from_client_def)
next
  case (IoOk d0)
  let ?r = "ts_phase s" and ?c = "the (ts_ss_client s)"
  define d where "d = take TCP_SS_PLAIN_BUFSIZ d0"
  let ?buf = "write_at prefix_len d (rl_c2s_buf ?r)" and ?calls = "[Call_recv (ts_client_fd s) d]"
  have fd: "ts_client_fd s \<noteq> ts_server_fd s" and up: "to_upload s = []"
    using mid by (simp_all add: relay_mid_def Let_def to_upload_def slice_def)
  show ?thesis
  proof (cases "d = []")
    case True
    let ?s = "s\<lparr>ts_phase := ?r\<lparr>rl_client_eof := True\<rparr>\<rparr>"
    have "relay_mid ?s" using mid by (simp add: relay_mid_def Let_def)
    moreover have "to_deliver lib ?s = to_deliver lib s" "to_upload ?s = to_upload s"
      by (simp_all add: to_deliver_def pending_def decode_from_def unopened_def to_upload_def)
    ultimately have "step_ok rx tx lib s (Inr ?s, ?calls)"
      using True by (intro step_silent) (simp_all add: same_conn_def sends_first_def)
    then show ?thesis using IoOk True by (simp add: tcp_relay_read_from_client_def d_def Let_def)
  next
    case False
    have "length (rl_c2s_buf ?r) = TCP_SS_CIPHER_BUFSIZ" using mid(1) by (simp add: relay_mid_def Let_def)
    moreover have "length d \<le> TCP_SS_PLAIN_BUFSIZ" by (simp add: d_def)
    ultimately have b: "slice prefix_len (length d) ?buf = d" "length ?buf = TCP_SS_CIPHER_BUFSIZ"
      using room by (simp_all add: slice_write_at length_write_at)
    show ?thesis
    proof (cases "tcp_seal_payload lib ?c d TCP_SS_CIPHER_BUFSIZ")
      case None
      then have "step_ok rx tx lib s (Inl True, ?calls)" by (simp add: step_ok_def cut_off_def)
      then show ?thesis using IoOk False None b by (simp add: tcp_relay_read_from_client_def d_def [symmetric] Let_def)
    next
      case (Some bc)
      obtain cipher c where bc: "bc = (cipher, c)" by (cases bc)
      let ?s = "s\<lparr>ts_ss_client := Some c, ts_phase := ?r\<lparr>rl_c2s_buf := write_at 0 cipher ?buf, rl_c2s_off := 0, rl_c2s_len := length cipher\<rparr>\<rparr>"
      have len: "length cipher \<le> TCP_SS_CIPHER_BUFSIZ" and rx: "rx c = rx ?c"
        using lib Some bc unfolding relay_lib_ok_def ss2022_tcp_ok_def ss2022_rx_def by blast+
      have "relay_mid ?s" using mid len b(2) by (simp add: relay_mid_def Let_def length_write_at)
      moreover have u: "to_upload ?s = cipher"
        using slice_write_at [of 0 cipher ?buf] len b(2) by (simp add: to_upload_def)
      moreover have "uploads tx lib s ?calls ?s"
        using Some bc False fd up u by (simp add: uploads_def stream_to_server_def)
      moreover have "delivers rx lib s ?calls ?s"
      proof -
        have "same_rx rx (stream_to_client lib s ?calls) (to_deliver lib s)"
          using stream_to_client_nil [of rx lib s] stream_to_client_quiet [of s ?calls lib] fd by simp
        moreover have "same_rx rx (decode_from lib s) (decode_from lib ?s)"
          using decode_rx [of rx lib ?c c] lib rx by (simp add: relay_lib_ok_def decode_from_def unopened_def)
        then have "same_rx rx (to_deliver lib s) (to_deliver lib ?s)"
          using same_rx_first by (simp add: to_deliver_simp pending_def)
        ultimately show ?thesis using same_rx_trans by (simp add: delivers_def sends_first_def) blast
      qed
      ultimately have "step_ok rx tx lib s (Inr ?s, ?calls)" by (simp add: step_ok_def same_conn_def)
      then show ?thesis using IoOk False Some bc b by (simp add: tcp_relay_read_from_client_def d_def [symmetric] Let_def)
    qed
  qed
qed

text \<open>Reading from the server.\<close>

lemma compact_fields:
  "rl_in_len (tcp_relay_compact_server_input r) = rl_in_len r" "rl_out_len (tcp_relay_compact_server_input r) = rl_out_len r"
  "rl_c2s_buf (tcp_relay_compact_server_input r) = rl_c2s_buf r" "rl_c2s_off (tcp_relay_compact_server_input r) = rl_c2s_off r"
  "rl_c2s_len (tcp_relay_compact_server_input r) = rl_c2s_len r" "rl_server_eof (tcp_relay_compact_server_input r) = rl_server_eof r"
  "rl_client_eof (tcp_relay_compact_server_input r) = rl_client_eof r"
  "rl_server_shutdown_sent (tcp_relay_compact_server_input r) = rl_server_shutdown_sent r"
  "rl_client_shutdown_sent (tcp_relay_compact_server_input r) = rl_client_shutdown_sent r"
  "next_chunk (tcp_relay_compact_server_input r) = next_chunk r"
  "rl_response_header_len (tcp_relay_compact_server_input r) = rl_response_header_len r"
  "rl_in_consume (tcp_relay_compact_server_input r) = rl_in_consume r" "rl_out_off (tcp_relay_compact_server_input r) = rl_out_off r"
  "out_ok (tcp_relay_compact_server_input r) = out_ok r"
  by (simp_all add: tcp_relay_compact_server_input_def next_chunk_def out_ok_def)

text \<open>There is always room, so \<^verbatim>\<open>recv\<close> returns 0 only at the end of the stream.\<close>

lemma compact_room:
  assumes "in_bounds r" "rl_in_len r < TCP_SS_RESP_IN_BUFSIZ"
  shows "rl_in_head (tcp_relay_compact_server_input r) + rl_in_len r < TCP_SS_RESP_IN_BUFSIZ"
  using assms by (simp add: tcp_relay_compact_server_input_def in_bounds_def)

lemma compact_step:
  assumes "relay_mid s"
  shows "step_ok rx tx lib s (Inr (s\<lparr>ts_phase := tcp_relay_compact_server_input (ts_phase s)\<rparr>), [])"
proof -
  let ?s = "s\<lparr>ts_phase := tcp_relay_compact_server_input (ts_phase s)\<rparr>"
  have b: "in_bounds (ts_phase s)" "out_ok (ts_phase s)" using assms by (auto simp: relay_mid_def Let_def)
  have "relay_mid ?s" "to_upload ?s = to_upload s" "same_conn s ?s"
    using window_compact [OF b(1)] b(2) by (intro relay_mid_narrower [OF assms]; simp add: compact_fields)+
  moreover have "to_deliver lib ?s = to_deliver lib s"
    using window_compact [OF b(1)] by (simp add: to_deliver_def pending_def decode_from_def unopened_def compact_fields)
  ultimately show ?thesis by (intro step_silent) (simp_all add: sends_first_def)
qed

lemma read_from_server_step:
  assumes lib: "relay_lib_ok rx tx lib" and mid: "relay_mid s" "rl_out_len (ts_phase s) = 0" "\<not> rl_server_eof (ts_phase s)"
  shows "step_ok rx tx lib s (tcp_relay_read_from_server lib recvs s)"
proof -
  let ?r = "tcp_relay_compact_server_input (ts_phase s)"
  let ?s1 = "s\<lparr>ts_phase := ?r\<rparr>"
  have one: "step_ok rx tx lib s (Inr ?s1, [])" by (rule compact_step) (rule mid(1))
  then have m1: "relay_mid ?s1" "rl_out_len ?r = 0" "\<not> rl_server_eof ?r" using mid(2,3) by (auto simp: step_ok_def compact_fields)
  have w1: "in_bounds ?r" "out_ok ?r" "ts_client_fd s \<noteq> ts_server_fd s" "rl_in_consume ?r = 0"
    using m1(1,2) by (auto simp: relay_mid_def Let_def out_ok_def)
  have cut: "step_ok rx tx lib s (Inl True, calls)" if "\<And>fd. pieces fd calls = []" "\<And>fd. sent fd calls = []" for calls
    using that by (intro cut_silent) simp_all
  show ?thesis
  proof (cases "fst (retry_eintr recvs)")
    case (IoErr e)
    then show ?thesis using one cut [of "[]"] by (simp add: tcp_relay_read_from_server_def Let_def)
  next
    case (IoOk d0)
    define d where "d = take (server_input_room ?r) d0"
    let ?call = "[Call_recv (ts_server_fd s) d]"
    let ?r2 = "server_input_append d ?r"
    have code: "tcp_relay_read_from_server lib recvs s =
      (if d = [] then (tcp_relay_handle_server_eof ?s1, [Call_recv (ts_server_fd ?s1) d])
       else (case tcp_relay_process_server_data lib (?s1\<lparr>ts_phase := ?r2\<rparr>) of (res, calls2) \<Rightarrow> (res, [Call_recv (ts_server_fd ?s1) d] @ calls2)))"
      unfolding tcp_relay_read_from_server_def Let_def IoOk io.case d_def ..
    show ?thesis
    proof (cases "d = []")
      case True
      have res: "tcp_relay_read_from_server lib recvs s = (tcp_relay_handle_server_eof ?s1, ?call)"
        using True by (simp add: code)
      show ?thesis
      proof (cases "tcp_relay_server_eof_is_clean ?r")
        case False
        then show ?thesis using res cut [of ?call] True by (simp add: tcp_relay_handle_server_eof_def)
      next
        case clean: True
        let ?s2 = "?s1\<lparr>ts_phase := ?r\<lparr>rl_server_eof := True\<rparr>\<rparr>"
        have "relay_mid ?s2" using m1 clean by (simp add: relay_mid_def Let_def tcp_relay_server_eof_is_clean_def next_chunk_def)
        moreover have "to_deliver lib ?s2 = to_deliver lib ?s1" "to_upload ?s2 = to_upload ?s1"
          by (simp_all add: to_deliver_def pending_def decode_from_def unopened_def to_upload_def)
        ultimately have "step_ok rx tx lib ?s1 (Inr ?s2, ?call)"
          using True by (intro step_silent) (simp_all add: same_conn_def sends_first_def)
        then have "step_ok rx tx lib s (Inr ?s2, ?call)" using step_append [OF lib one] by simp
        then show ?thesis using res clean by (simp add: tcp_relay_handle_server_eof_def)
      qed
    next
      case False
      let ?s2 = "s\<lparr>ts_phase := ?r2\<rparr>"
      have room: "length d \<le> server_input_room ?r" by (simp add: d_def)
      note behind = window_write_back [OF w1(1) room]
      have unop: "unopened ?r2 = unopened ?r @ d" using behind(1) w1(4) by (simp add: unopened_def server_input_append_def)
      have fields: "rl_out_len ?r2 = 0" "rl_response_header_len ?r2 = rl_response_header_len ?r" "next_chunk ?r2 = next_chunk ?r"
        "\<not> rl_server_eof ?r2"
        using m1 by (simp_all add: next_chunk_def server_input_append_def)
      have "out_ok ?r2" using w1(4) fields(1) by (simp add: out_ok_def server_input_append_def)
      then have "relay_mid ?s2" using m1 behind(2) fields by (simp add: relay_mid_def Let_def) (simp add: server_input_append_def)
      moreover have "delivers rx lib ?s1 ?call ?s2"
        using decode_append [of lib "rl_response_header_len ?r" "next_chunk ?r" "the (ts_ss_client s)" "unopened ?r" d] False fields unop m1(2)
        by (simp add: delivers_def stream_to_client_def to_deliver_def pending_none decode_from_def received_def sends_first_def same_rx_def)
      moreover have "uploads tx lib ?s1 ?call ?s2" using w1(3) by (simp add: uploads_def stream_to_server_def to_upload_def server_input_append_def)
      ultimately have "step_ok rx tx lib ?s1 (Inr ?s2, ?call)" using fields(2) by (simp add: step_ok_def same_conn_def)
      then have two: "step_ok rx tx lib s (Inr ?s2, ?call)" using step_append [OF lib one] by simp
      then have m2: "relay_mid ?s2" by (simp add: step_ok_def)
      obtain res calls where p: "tcp_relay_process_server_data lib ?s2 = (res, calls)" by (metis surj_pair)
      have "step_ok rx tx lib ?s2 (res, calls)" using process_step [OF lib m2] fields p by simp
      then have "step_ok rx tx lib s (res, ?call @ calls)" using step_append [OF lib two] by simp
      moreover have "tcp_relay_read_from_server lib recvs s = (res, ?call @ calls)"
        using False p by (simp add: code)
      ultimately show ?thesis by simp
    qed
  qed
qed

section \<open>A session between two events\<close>

definition client_interest :: "tcp_relay \<Rightarrow> io_watch" where
  "client_interest r =
     (let rd = (\<not> rl_client_eof r \<and> rl_c2s_len r = 0); wr = (rl_out_len r > 0) in if rd \<or> wr then Some (Cb_relay, rd, wr) else None)"

definition server_interest :: "tcp_relay \<Rightarrow> io_watch" where
  "server_interest r =
     (let rd = (\<not> rl_server_eof r \<and> rl_out_len r = 0 \<and> rl_in_len r < TCP_SS_RESP_IN_BUFSIZ); wr = (rl_c2s_len r > 0)
      in if rd \<or> wr then Some (Cb_relay, rd, wr) else None)"

definition relay_ready :: "'c relay_session \<Rightarrow> bool" where
  "relay_ready s \<longleftrightarrow>
     (let r = ts_phase s in
      relay_mid s \<and> settled r \<and> ts_client_io s = client_interest r \<and> ts_server_io s = server_interest r \<and>
      (rl_server_shutdown_sent r \<longleftrightarrow> rl_client_eof r \<and> rl_c2s_len r = 0) \<and> (rl_client_shutdown_sent r \<longleftrightarrow> rl_server_eof r) \<and>
      \<not> (rl_client_eof r \<and> rl_server_eof r \<and> rl_c2s_len r = 0))"

text \<open>What the event loop may report: events the watcher waits for, and at least one.\<close>

definition relay_event :: "'c relay_session \<Rightarrow> bool \<Rightarrow> bool \<Rightarrow> bool \<Rightarrow> bool" where
  "relay_event s is_client ev_read ev_write \<longleftrightarrow>
     (case (if is_client then ts_client_io s else ts_server_io s) of
        None \<Rightarrow> False
      | Some (_, rd, wr) \<Rightarrow> (ev_read \<longrightarrow> rd) \<and> (ev_write \<longrightarrow> wr) \<and> (ev_read \<or> ev_write))"

lemma relay_event_ready:
  assumes "relay_ready s"
  shows "relay_event s True rd wr \<longleftrightarrow>
      (rd \<or> wr) \<and> (rd \<longrightarrow> \<not> rl_client_eof (ts_phase s) \<and> rl_c2s_len (ts_phase s) = 0) \<and> (wr \<longrightarrow> rl_out_len (ts_phase s) > 0)"
    "relay_event s False rd wr \<longleftrightarrow>
      (rd \<or> wr) \<and> (rd \<longrightarrow> \<not> rl_server_eof (ts_phase s) \<and> rl_out_len (ts_phase s) = 0 \<and> rl_in_len (ts_phase s) < TCP_SS_RESP_IN_BUFSIZ) \<and>
      (wr \<longrightarrow> rl_c2s_len (ts_phase s) > 0)"
  using assms by (auto simp: relay_event_def relay_ready_def Let_def client_interest_def server_interest_def)

text \<open>The bytes of an incomplete chunk never fill the buffer.\<close>

lemma settled_room:
  assumes "relay_mid s" "settled (ts_phase s)" "rl_out_len (ts_phase s) = 0"
  shows "rl_in_len (ts_phase s) < TCP_SS_RESP_IN_BUFSIZ"
proof -
  let ?r = "ts_phase s"
  have "rl_in_len ?r < chunk_size (rl_response_header_len ?r) (next_chunk ?r)" using assms(2,3) by (simp add: settled_def)
  moreover have "chunk_size (rl_response_header_len ?r) (next_chunk ?r) \<le> TCP_SS_RESP_IN_BUFSIZ"
    using assms(1) unsigned_less [of "rl_response_payload_len ?r", where ?'a = nat]
    by (auto simp: chunk_size_def next_chunk_def tcp_consts relay_mid_def Let_def)
  ultimately show ?thesis by simp
qed

definition after_update :: "tcp_relay \<Rightarrow> tcp_relay" where
  "after_update r = r\<lparr>rl_server_shutdown_sent := rl_server_shutdown_sent r \<or> rl_client_eof r \<and> rl_c2s_len r = 0,
     rl_client_shutdown_sent := rl_client_shutdown_sent r \<or> rl_server_eof r\<rparr>"

lemma update_result:
  assumes "relay_mid s"
  shows "fst (tcp_relay_update_watchers s) =
    (let r = ts_phase s in
     if rl_client_eof r \<and> rl_server_eof r \<and> rl_c2s_len r = 0 then Inl False
     else Inr (s\<lparr>ts_phase := after_update r, ts_client_io := client_interest r, ts_server_io := server_interest r\<rparr>))"
proof -
  let ?r = "ts_phase s"
  have eof: "rl_server_eof ?r \<Longrightarrow> rl_out_len ?r = 0 \<and> rl_in_len ?r = 0" using assms by (simp add: relay_mid_def Let_def)
  have "(rl_client_shutdown_sent ?r \<or> rl_server_eof ?r \<and> rl_out_len ?r = 0 \<and> rl_in_len ?r = 0 \<and> \<not> rl_client_shutdown_sent ?r) =
      (rl_client_shutdown_sent ?r \<or> rl_server_eof ?r)"
    "(rl_server_shutdown_sent ?r \<or> rl_client_eof ?r \<and> rl_c2s_len ?r = 0 \<and> \<not> rl_server_shutdown_sent ?r) =
      (rl_server_shutdown_sent ?r \<or> rl_client_eof ?r \<and> rl_c2s_len ?r = 0)"
    using eof by auto
  then show ?thesis
    using eof by (cases "rl_server_eof ?r") (simp_all add: tcp_relay_update_watchers_def Let_def client_interest_def server_interest_def after_update_def)
qed

lemma after_update_same:
  "client_interest (after_update r) = client_interest r" "server_interest (after_update r) = server_interest r" "settled (after_update r) = settled r"
  "in_bounds (after_update r) = in_bounds r" "out_ok (after_update r) = out_ok r" "next_chunk (after_update r) = next_chunk r"
  "window (after_update r) = window r" "pending (after_update r) = pending r" "unopened (after_update r) = unopened r"
  by (simp_all add: after_update_def client_interest_def server_interest_def settled_def in_bounds_def out_ok_def next_chunk_def window_def
      pending_def unopened_def)

lemma update_step:
  assumes "relay_mid s" "settled (ts_phase s)" "tcp_relay_update_watchers s = (res, calls)"
  shows "step_ok rx tx lib s (res, calls)" "case res of Inl rst \<Rightarrow> \<not> rst | Inr s' \<Rightarrow> relay_ready s'"
proof -
  let ?r = "ts_phase s"
  let ?s = "s\<lparr>ts_phase := after_update ?r, ts_client_io := client_interest ?r, ts_server_io := server_interest ?r\<rparr>"
  have eof: "rl_server_eof ?r \<Longrightarrow> rl_out_len ?r = 0 \<and> rl_in_len ?r = 0 \<and> next_chunk ?r = Want_length"
    using assms(1) by (simp add: relay_mid_def Let_def)
  have calls: "calls = snd (tcp_relay_update_watchers s)" and res: "res = fst (tcp_relay_update_watchers s)" using assms(3) by simp_all
  have quiet: "sent fd calls = []" "pieces fd calls = []" for fd by (simp_all add: calls tcp_relay_update_watchers_def Let_def)
  have mid: "relay_mid ?s" using assms(1) by (simp add: relay_mid_def Let_def after_update_same) (auto simp: after_update_def)
  show "case res of Inl rst \<Rightarrow> \<not> rst | Inr s' \<Rightarrow> relay_ready s'"
  proof (cases "rl_client_eof ?r \<and> rl_server_eof ?r \<and> rl_c2s_len ?r = 0")
    case True
    then show ?thesis using update_result [OF assms(1)] res by (simp add: Let_def)
  next
    case False
    have "relay_ready ?s"
      using mid False assms(1,2) by (simp add: relay_ready_def Let_def after_update_same) (auto simp: after_update_def relay_mid_def Let_def)
    then show ?thesis using False update_result [OF assms(1)] res by (simp add: Let_def)
  qed
  show "step_ok rx tx lib s (res, calls)"
  proof (cases "rl_client_eof ?r \<and> rl_server_eof ?r \<and> rl_c2s_len ?r = 0")
    case True
    then have "res = Inl False" using update_result [OF assms(1)] res by (simp add: Let_def)
    have td: "to_deliver lib s = ([], Some (Want_length, the (ts_ss_client s), []))" using True eof by (intro decode_idle) auto
    have "fst (stream_to_client lib s calls) = [] \<and> (\<exists>c. snd (stream_to_client lib s calls) = Some (Want_length, c, []))"
      using stream_to_client_nil [of "\<lambda>c. c" lib s] stream_to_client_quiet [of s calls lib] quiet td by (simp add: same_rx_def)
    then show ?thesis
      using \<open>res = Inl False\<close> quiet True by (simp add: step_ok_def cut_off_def stream_to_server_def to_upload_def slice_def)
  next
    case False
    then have "res = Inr ?s" using update_result [OF assms(1)] res by (simp add: Let_def)
    moreover have "to_deliver lib s = to_deliver lib ?s" "to_upload s = to_upload ?s" "same_conn s ?s"
      by (simp_all add: same_conn_def to_deliver_def decode_from_def to_upload_def after_update_same) (simp_all add: after_update_def)
    ultimately show ?thesis using quiet mid by (auto simp: sends_first_def intro!: step_silent)
  qed
qed

section \<open>An event\<close>

lemma and_then_inr: "fst (and_then res f) = Inr s2 \<Longrightarrow> \<exists>s1. fst res = Inr s1 \<and> fst (f s1) = Inr s2"
  by (cases res) (auto simp: and_then_def split: sum.splits prod.splits)

definition eofs :: "'c relay_session \<Rightarrow> bool \<times> bool" where
  "eofs s = (rl_client_eof (ts_phase s), rl_server_eof (ts_phase s))"

lemma write_eofs: "fst (tcp_relay_handle_write sends is_client ev_write s) = Inr s' \<Longrightarrow> eofs s' = eofs s"
  by (auto simp: tcp_relay_handle_write_def tcp_relay_write_to_client_def tcp_relay_write_to_server_def eofs_def Let_def consume_fields
      split: if_splits prod.splits option.splits)

lemma write_step: "relay_mid s \<Longrightarrow> step_ok rx tx lib s (tcp_relay_handle_write sends is_client ev_write s)"
  by (simp add: tcp_relay_handle_write_def step_none write_to_client_step write_to_server_step)

lemma opened_eofs: "opened_from s s' \<Longrightarrow> eofs s' = eofs s"
  by (simp add: opened_from_def eofs_def Let_def)

lemma pending_settled:
  assumes "ss2022_tcp_ok lib" "relay_mid s" "fst (tcp_relay_process_pending_server_data lib s) = Inr s'"
  shows "settled (ts_phase s') \<and> eofs s' = eofs s"
proof (cases "rl_out_len (ts_phase s) \<noteq> 0 \<or> rl_in_len (ts_phase s) = 0")
  case True
  then have "s' = s" using assms(3) by (auto simp: tcp_relay_process_pending_server_data_def)
  moreover have "0 < chunk_size (rl_response_header_len (ts_phase s)) k" if "k = next_chunk (ts_phase s)" for k
    using assms(2) by (cases k) (auto simp: chunk_size_def relay_mid_def Let_def tcp_consts)
  ultimately show ?thesis using True by (auto simp: settled_def)
next
  case False
  then obtain calls where "tcp_relay_process_server_data lib s = (Inr s', calls)"
    using assms(3) by (cases "tcp_relay_process_server_data lib s") (auto simp: tcp_relay_process_pending_server_data_def)
  then show ?thesis using process_settled [OF assms(1,2)] False opened_eofs by blast
qed

lemma settled_client_side: "settled (r\<lparr>rl_client_eof := b\<rparr>) = settled r" "settled (r\<lparr>rl_server_eof := b\<rparr>) = settled r"
  "settled (r\<lparr>rl_c2s_buf := x, rl_c2s_off := y, rl_c2s_len := z\<rparr>) = settled r"
  "settled (tcp_relay_compact_server_input r) = settled r"
  by (simp_all add: settled_def compact_fields)

lemma read_client_settled:
  "fst (tcp_relay_read_from_client lib prefix_len recvs s) = Inr s' \<Longrightarrow> settled (ts_phase s) \<Longrightarrow> settled (ts_phase s')"
  by (auto simp: tcp_relay_read_from_client_def Let_def settled_client_side split: io.splits if_splits option.splits)

lemma read_server_settled:
  assumes "ss2022_tcp_ok lib" "relay_mid s" "settled (ts_phase s)" "rl_out_len (ts_phase s) = 0"
    "fst (tcp_relay_read_from_server lib recvs s) = Inr s'"
  shows "settled (ts_phase s')"
proof -
  let ?r = "tcp_relay_compact_server_input (ts_phase s)"
  have b: "in_bounds ?r" "in_bounds (ts_phase s)" using assms(2) window_compact by (auto simp: relay_mid_def Let_def)
  have c: "rl_in_consume ?r = 0" "ts_ss_client s \<noteq> None" using assms(2,4) by (auto simp: relay_mid_def Let_def out_ok_def compact_fields)
  have data: "settled (ts_phase s2)"
    if "length d \<le> server_input_room ?r" and p: "fst (tcp_relay_process_server_data lib (s\<lparr>ts_phase := server_input_append d ?r\<rparr>)) = Inr s2" for d s2
  proof -
    have "waiting (s\<lparr>ts_phase := server_input_append d ?r\<rparr>)"
      using window_write_back(2) [OF b(1) that(1)] c assms(4) by (simp add: waiting_def compact_fields server_input_append_def)
    from process_spec [OF assms(1) this, of "\<lambda>c. c"] p show ?thesis by (simp add: process_result_def)
  qed
  have keep: "settled (ts_phase (s\<lparr>ts_phase := ?r\<rparr>))" "settled (?r\<lparr>rl_server_eof := True\<rparr>)" using assms(3) by (simp_all add: settled_client_side)
  show ?thesis
  proof (cases "fst (retry_eintr recvs)")
    case (IoErr e)
    then show ?thesis using assms(5) keep by (auto simp: tcp_relay_read_from_server_def Let_def split: if_splits)
  next
    case (IoOk d)
    show ?thesis
    proof (cases "take (server_input_room ?r) d = []")
      case True
      then show ?thesis using assms(5) IoOk keep
        by (auto simp: tcp_relay_read_from_server_def tcp_relay_handle_server_eof_def Let_def split: if_splits)
    next
      case False
      then have "fst (tcp_relay_process_server_data lib (s\<lparr>ts_phase := server_input_append (take (server_input_room ?r) d) ?r\<rparr>)) = Inr s'"
        using assms(5) IoOk by (simp add: tcp_relay_read_from_server_def Let_def split: prod.splits)
      then show ?thesis by (rule data [rotated]) simp
    qed
  qed
qed

lemma read_step:
  assumes lib: "relay_lib_ok rx tx lib" and mid: "relay_mid s"
    and room: "prefix_len + TCP_SS_PLAIN_BUFSIZ \<le> TCP_SS_CIPHER_BUFSIZ"
    and ev: "ev_read \<Longrightarrow> is_client \<Longrightarrow> \<not> rl_client_eof (ts_phase s)" "ev_read \<Longrightarrow> \<not> is_client \<Longrightarrow> \<not> rl_server_eof (ts_phase s)"
  shows "step_ok rx tx lib s (tcp_relay_handle_read lib prefix_len recvs is_client ev_read s)"
  using read_from_client_step [OF lib mid _ _ room] read_from_server_step [OF lib mid] step_none [OF mid, of rx tx lib] ev
  by (simp add: tcp_relay_handle_read_def)

lemma event_step:
  assumes lib: "relay_lib_ok rx tx lib" and room: "prefix_len + TCP_SS_PLAIN_BUFSIZ \<le> TCP_SS_CIPHER_BUFSIZ"
    and ready: "relay_ready s" and ev: "relay_event s is_client ev_read ev_write"
    and run: "tcp_relay_on_event lib prefix_len env is_client ev_read ev_write s = (res, calls)"
  shows "step_ok rx tx lib s (res, calls)" "case res of Inl rst \<Rightarrow> True | Inr s' \<Rightarrow> relay_ready s'"
proof -
  let ?w = "tcp_relay_handle_write (re_sends env) is_client ev_write s"
  let ?p = "and_then ?w (tcp_relay_process_pending_server_data lib)"
  let ?q = "and_then ?p (tcp_relay_handle_read lib prefix_len (re_recvs env) is_client ev_read)"
  have l: "ss2022_tcp_ok lib" using lib by (simp add: relay_lib_ok_def)
  have mid: "relay_mid s" using ready by (simp add: relay_ready_def Let_def)
  have interest: "ev_read \<Longrightarrow> is_client \<Longrightarrow> \<not> rl_client_eof (ts_phase s)" "ev_read \<Longrightarrow> \<not> is_client \<Longrightarrow> \<not> rl_server_eof (ts_phase s)"
    using ready ev by (auto simp: relay_ready_def relay_event_def Let_def client_interest_def server_interest_def split: if_splits)
  have w: "step_ok rx tx lib s ?w" by (rule write_step) (rule mid)
  have p: "step_ok rx tx lib s ?p" by (rule step_and_then [OF lib w]) (rule pending_step [OF lib])
  have after_p: "settled (ts_phase s1) \<and> eofs s1 = eofs s" if "fst ?p = Inr s1" for s1
  proof -
    obtain s0 where s0: "fst ?w = Inr s0" "fst (tcp_relay_process_pending_server_data lib s0) = Inr s1" using and_then_inr [OF \<open>fst ?p = Inr s1\<close>] by blast
    moreover have "relay_mid s0" using w s0(1) by (simp add: step_ok_def)
    ultimately show ?thesis using pending_settled [OF l] write_eofs by metis
  qed
  have q: "step_ok rx tx lib s ?q"
    by (rule step_and_then [OF lib p], rule read_step [OF lib _ room]) (use after_p interest in \<open>auto simp: eofs_def\<close>)
  have after_q: "settled (ts_phase s2)" if q2: "fst ?q = Inr s2" for s2
  proof -
    obtain s1 where s1: "fst ?p = Inr s1" "fst (tcp_relay_handle_read lib prefix_len (re_recvs env) is_client ev_read s1) = Inr s2"
      using and_then_inr [OF q2] by blast
    then have "relay_mid s1" "settled (ts_phase s1)" using p after_p by (auto simp: step_ok_def)
    then show ?thesis
      using s1(2) read_client_settled [of lib prefix_len "re_recvs env" s1 s2] read_server_settled [OF l, of s1 "re_recvs env" s2]
      by (auto simp: tcp_relay_handle_read_def split: if_splits)
  qed
  have u: "step_ok rx tx lib s1 (tcp_relay_update_watchers s1)" if "fst ?q = Inr s1" "relay_mid s1" for s1
    using update_step(1) [OF that(2) after_q [OF that(1)], of "fst (tcp_relay_update_watchers s1)" "snd (tcp_relay_update_watchers s1)" rx tx lib]
    by simp
  show "step_ok rx tx lib s (res, calls)"
    using step_and_then [OF lib q u] run unfolding tcp_relay_on_event_def by simp
  show "case res of Inl rst \<Rightarrow> True | Inr s' \<Rightarrow> relay_ready s'"
  proof (cases res)
    case (Inr s')
    then have "fst (and_then ?q tcp_relay_update_watchers) = Inr s'" using run unfolding tcp_relay_on_event_def by simp
    then obtain s1 where s1: "fst ?q = Inr s1" "fst (tcp_relay_update_watchers s1) = Inr s'" using and_then_inr by blast
    then have "relay_mid s1" using q by (simp add: step_ok_def)
    from update_step(2) [OF this after_q [OF s1(1)], of "Inr s'" "snd (tcp_relay_update_watchers s1)"] s1(2)
    show ?thesis using Inr by (simp add: prod_eq_iff)
  qed simp
qed

section \<open>The life of a relay\<close>

text \<open>From a session to the result of a sequence of events, with everything that was called and received on the way.\<close>

inductive relay_run ::
  "'c ss2022_tcp \<Rightarrow> nat \<Rightarrow> 'c relay_session \<Rightarrow> tcp_call list \<Rightarrow> bool + 'c relay_session \<Rightarrow> bool"
  for lib prefix_len s0 where
  Run_start: "relay_run lib prefix_len s0 [] (Inr s0)"
| Run_event: "relay_run lib prefix_len s0 calls (Inr s) \<Longrightarrow> relay_event s is_client ev_read ev_write \<Longrightarrow>
     tcp_relay_on_event lib prefix_len env is_client ev_read ev_write s = (res, calls2) \<Longrightarrow>
     relay_run lib prefix_len s0 (calls @ calls2) res"

lemma run_step:
  assumes "relay_run lib prefix_len s0 calls res" "relay_ready s0" "relay_lib_ok rx tx lib"
    "prefix_len + TCP_SS_PLAIN_BUFSIZ \<le> TCP_SS_CIPHER_BUFSIZ"
  shows "step_ok rx tx lib s0 (res, calls) \<and> (case res of Inl rst \<Rightarrow> True | Inr s \<Rightarrow> relay_ready s)"
  using assms(1)
proof (induction rule: relay_run.induct)
  case Run_start
  then show ?case using assms(2) step_none by (auto simp: relay_ready_def Let_def)
next
  case (Run_event calls s is_client ev_read ev_write env res calls2)
  then have "relay_ready s" "step_ok rx tx lib s0 (Inr s, calls)" by simp_all
  with event_step [OF assms(3,4) \<open>relay_ready s\<close> Run_event(2,3)] show ?case using step_append [OF assms(3)] by blast
qed

section \<open>Properties\<close>

text \<open>A relay that starts: the block, the header length, the two descriptors and the client of the library.\<close>

definition relay_starts ::
  "('c \<Rightarrow> 'r) \<Rightarrow> ('c \<Rightarrow> 't) \<Rightarrow> 'c ss2022_tcp \<Rightarrow> nat \<Rightarrow> nat \<Rightarrow> 'c \<Rightarrow> ('c, 'p) tcp_session \<Rightarrow> 'c relay_session \<Rightarrow> bool" where
  "relay_starts rx tx lib prefix_len H c s s0 \<longleftrightarrow>
     relay_lib_ok rx tx lib \<and> prefix_len + TCP_SS_PLAIN_BUFSIZ \<le> TCP_SS_CIPHER_BUFSIZ \<and>
     0 < H \<and> H \<le> TCP_SS_RESP_IN_BUFSIZ \<and> ts_client_fd s \<noteq> ts_server_fd s \<and> ts_ss_client s = Some c \<and>
     (\<exists>client_eof block. length block = TCP_SS_RESP_IN_BUFSIZ \<and> fst (relay_begin client_eof block H s) = Inr s0)"

lemma relay_starts_ready:
  assumes "relay_starts rx tx lib prefix_len H c s s0"
  shows "relay_ready s0" "ts_client_fd s0 = ts_client_fd s" "ts_server_fd s0 = ts_server_fd s" "to_upload s0 = []"
    "ts_ss_client s0 = Some c" "rl_response_header_len (ts_phase s0) = H" "to_deliver lib s0 = ([], Some (Want_header, c, []))"
proof -
  obtain eof block where b: "length block = TCP_SS_RESP_IN_BUFSIZ" "fst (relay_begin eof block H s) = Inr s0"
    using assms by (auto simp: relay_starts_def)
  let ?s = "with_phase (relay_entered eof block H) s"
  have mid: "relay_mid ?s" "settled (ts_phase ?s)"
    using assms b(1) by (simp_all add: relay_starts_def relay_mid_def Let_def with_phase_def relay_entered_def in_bounds_def out_ok_def
        settled_def chunk_size_def next_chunk_def tcp_consts)
  have s0: "s0 = ?s\<lparr>ts_phase := after_update (ts_phase ?s), ts_client_io := client_interest (ts_phase ?s), ts_server_io := server_interest (ts_phase ?s)\<rparr>"
    using b(2) update_result [OF mid(1)] by (auto simp: relay_begin_def Let_def split: if_splits)
  show "relay_ready s0"
    using update_step(2) [OF mid, of "Inr s0" "snd (tcp_relay_update_watchers ?s)"] b(2) by (simp add: relay_begin_def prod_eq_iff)
  have "relay_starts rx tx lib prefix_len H c s s0" by (rule assms)
  then have c: "ts_ss_client s = Some c" "0 < H" by (auto simp: relay_starts_def)
  show "ts_client_fd s0 = ts_client_fd s" "ts_server_fd s0 = ts_server_fd s" "ts_ss_client s0 = Some c"
    using s0 c by (simp_all add: with_phase_def)
  show "rl_response_header_len (ts_phase s0) = H" "to_upload s0 = []"
    using s0 by (simp_all add: with_phase_def relay_entered_def after_update_def to_upload_def slice_def)
  show "to_deliver lib s0 = ([], Some (Want_header, c, []))"
    using s0 c
    by (simp add: to_deliver_def decode_from_def after_update_same)
      (simp add: with_phase_def relay_entered_def after_update_def pending_def slice_def window_def unopened_def next_chunk_def decode.simps(1))
qed

lemma relay_started_run:
  assumes "relay_starts rx tx lib prefix_len H c s s0" "relay_run lib prefix_len s0 calls res"
  shows "step_ok rx tx lib s0 (res, calls)" "case res of Inl rst \<Rightarrow> True | Inr s \<Rightarrow> relay_ready s"
    "stream_to_client lib s0 calls = decode lib H Want_header c (received (ts_server_fd s) calls)"
    "stream_to_server lib s0 calls = fst (seal_all lib c (pieces (ts_client_fd s) calls))"
proof -
  have "relay_lib_ok rx tx lib" "prefix_len + TCP_SS_PLAIN_BUFSIZ \<le> TCP_SS_CIPHER_BUFSIZ" using assms(1) by (auto simp: relay_starts_def)
  from run_step [OF assms(2) relay_starts_ready(1) [OF assms(1)] this]
  show "step_ok rx tx lib s0 (res, calls)" "case res of Inl rst \<Rightarrow> True | Inr s \<Rightarrow> relay_ready s" by blast+
  show "stream_to_client lib s0 calls = decode lib H Want_header c (received (ts_server_fd s) calls)"
    by (simp add: stream_to_client_def relay_starts_ready [OF assms(1)] then_decode_def split: prod.split)
  show "stream_to_server lib s0 calls = fst (seal_all lib c (pieces (ts_client_fd s) calls))"
    by (simp add: stream_to_server_def relay_starts_ready [OF assms(1)])
qed

section \<open>A small relay\<close>

text \<open>A library whose header takes 20 bytes and whose chunks carry 12; it seals nothing.\<close>

definition demo_relay_lib :: "unit ss2022_tcp" where
  "demo_relay_lib =
     \<lparr>tcp_response_header_size = (\<lambda>_. 20), tcp_build_request_header = (\<lambda>_ _ p n. Some (take n (22 # p), ())),
      tcp_open_response_header = (\<lambda>_ b. Some (12, ())), tcp_open_length = (\<lambda>_ b. Some (12, ())),
      tcp_open_payload = (\<lambda>_ b n. Some (take n b, ())), tcp_seal_payload = (\<lambda>_ p n. Some (take n p, ()))\<rparr>"

definition demo_tcp_session :: "(unit, unit) tcp_session" where
  "demo_tcp_session =
     \<lparr>ts_client_fd = 5, ts_server_fd = 6, ts_client_io = None, ts_server_io = None, ts_phase_timer = None, ts_server_idx = 0,
      ts_relay_in = Some 4224, ts_tried_servers_mask = 1, ts_retry_count = 0, ts_selector_attempt_epoch = 3,
      ts_client_peer_addr = [], ts_ss_client = Some (), ts_phase = ()\<rparr>"

definition demo_block :: bytes where "demo_block = replicate TCP_SS_RESP_IN_BUFSIZ 0"

definition demo_relay0 :: "unit relay_session" where
  "demo_relay0 = (with_phase ((relay_entered False demo_block 20)) demo_tcp_session)
     \<lparr>ts_client_io := Some (Cb_relay, True, False), ts_server_io := Some (Cb_relay, True, False)\<rparr>"

lemma demo_relay_starts: "relay_starts (\<lambda>_. ()) (\<lambda>_. ()) demo_relay_lib 34 20 () demo_tcp_session demo_relay0"
proof -
  have lib: "relay_lib_ok (\<lambda>_. ()) (\<lambda>_. ()) demo_relay_lib"
    by (simp add: relay_lib_ok_def ss2022_tcp_ok_def ss2022_rx_def ss2022_tx_def demo_relay_lib_def)
  have "fst (relay_begin False demo_block 20 demo_tcp_session) = Inr demo_relay0"
    by (simp add: relay_begin_def tcp_relay_update_watchers_def Let_def demo_relay0_def with_phase_def relay_entered_def tcp_consts)
  then show ?thesis
    using lib unfolding relay_starts_def
    by (intro conjI exI [of _ False] exI [of _ demo_block]) (simp_all add: demo_tcp_session_def demo_block_def tcp_consts)
qed

text \<open>The server's first 48 bytes come in; then the client takes what they held; then it sends three bytes.\<close>

definition demo_in :: bytes where "demo_in = replicate 20 1 @ replicate 28 2"

definition demo_relay1 :: "unit relay_session" where
  "demo_relay1 = demo_relay0\<lparr>ts_client_io := Some (Cb_relay, True, True), ts_server_io := None,
     ts_phase := (relay_entered False demo_block 20)
       \<lparr>rl_response_header_done := True, rl_response_payload_len := 12, rl_in := write_at 20 (replicate 12 2) (write_at 0 demo_in demo_block),
        rl_in_head := 20, rl_in_len := 28, rl_need_len := True, rl_out_len := 12, rl_in_consume := 28\<rparr>\<rparr>"

lemmas demo_relay_eval = tcp_relay_on_event_def and_then_def tcp_relay_handle_write_def tcp_relay_process_pending_server_data_def
  demo_relay0_def with_phase_def relay_entered_def tcp_relay_handle_read_def tcp_relay_read_from_server_def tcp_relay_handle_server_eof_def
  tcp_relay_compact_server_input_def server_input_room_def tcp_consts retry_eintr.simps Let_def demo_tcp_session_def tcp_relay_server_eof_is_clean_def
  server_input_append_def tcp_relay_process_server_data.simps open_header_part_def demo_relay_lib_def tcp_buf_consume_def
  open_length_part_def open_payload_part_def tcp_relay_update_watchers_def demo_relay1_def tcp_relay_write_to_client_def
  tcp_relay_write_to_server_def tcp_relay_read_from_client_def

lemma demo_relay_in:
  "tcp_relay_on_event demo_relay_lib 34 \<lparr>re_sends = [], re_recvs = [IoOk demo_in]\<rparr> False True False demo_relay0 =
   (Inr demo_relay1, [Call_recv 6 demo_in, Call_report (Tcp_success 0 3)])"
proof -
  have len: "length demo_block = 65617" "length demo_in = 48" "demo_in \<noteq> []" by (simp_all add: demo_block_def demo_in_def tcp_consts)
  have a: "slice 0 20 (write_at 0 demo_in demo_block) = replicate 20 1" "slice 20 28 (write_at 0 demo_in demo_block) = replicate 28 2"
    by (simp_all add: slice_def write_at_def demo_in_def)
  have b: "take 65617 demo_in = demo_in" using len by simp
  show ?thesis using len by (simp add: demo_relay_eval a b)
qed

definition demo_relay2 :: "unit relay_session" where
  "demo_relay2 = demo_relay1\<lparr>ts_client_io := None, ts_server_io := Some (Cb_relay, True, True),
     ts_phase := (ts_phase demo_relay1)
       \<lparr>rl_in_head := 0, rl_in_len := 0, rl_out_len := 0, rl_in_consume := 0, rl_c2s_len := 3,
        rl_c2s_buf := write_at 0 [7, 8, 9] (write_at 34 [7, 8, 9] (replicate TCP_SS_CIPHER_BUFSIZ 0))\<rparr>\<rparr>"

lemma demo_relay_both:
  "tcp_relay_on_event demo_relay_lib 34 \<lparr>re_sends = [IoOk 12], re_recvs = [IoOk [7, 8, 9]]\<rparr> True True True demo_relay1 =
   (Inr demo_relay2, [Call_send 5 (replicate 12 2), Call_recv 5 [7, 8, 9]])"
proof -
  have a: "slice 0 12 (drop 20 (write_at 20 (replicate 12 2) (write_at 0 demo_in demo_block))) = replicate 12 2"
    by (simp add: slice_def write_at_def demo_in_def demo_block_def tcp_consts)
  have b: "slice 34 (Suc (Suc (Suc 0))) (write_at 34 [7, 8, 9] (replicate 16418 0)) = [7, 8, 9 :: u8]"
    using slice_write_at [of 34 "[7, 8, 9 :: u8]" "replicate 16418 0"] by simp
  show ?thesis by (simp add: demo_relay_eval demo_relay2_def a b)
qed






definition demo_calls :: "tcp_call list" where
  "demo_calls = [Call_recv 6 demo_in, Call_report (Tcp_success 0 3), Call_send 5 (replicate 12 2), Call_recv 5 [7, 8, 9]]"

lemma demo_relay_run2: "relay_run demo_relay_lib 34 demo_relay0 demo_calls (Inr demo_relay2)"
proof -
  have "relay_run demo_relay_lib 34 demo_relay0 [Call_recv 6 demo_in, Call_report (Tcp_success 0 3)] (Inr demo_relay1)"
    using Run_event [OF Run_start _ demo_relay_in] by (simp add: relay_event_def demo_relay0_def)
  from Run_event [OF this _ demo_relay_both] show ?thesis by (simp add: relay_event_def demo_relay1_def demo_calls_def)
qed



lemma demo_sent: "sent 5 demo_calls = replicate 12 2" "sent 6 demo_calls = []" "pieces 5 demo_calls = [[7, 8, 9]]" "received 6 demo_calls = demo_in"
  by (simp_all add: demo_calls_def received_def demo_in_def)

text \<open>C1. What the client has been sent is at every moment a prefix of what the bytes received from the server
  decode to, read as one stream: how the stream was cut by \<^verbatim>\<open>recv\<close> and \<^verbatim>\<open>send\<close>, and how the session ended, does not matter.\<close>

theorem relay_to_client_prefix:
  assumes "relay_starts rx tx lib prefix_len H c s s0" "relay_run lib prefix_len s0 calls res"
  shows "prefix (sent (ts_client_fd s) calls) (fst (decode lib H Want_header c (received (ts_server_fd s) calls)))"
  using relay_started_run [OF assms] relay_starts_ready(2) [OF assms(1)]
  by (cases res) (auto simp: step_ok_def cut_off_def delivers_def same_rx_def sends_first_def)

theorem relay_to_client_prefix_witness:
  "prefix (replicate 12 2) (fst (decode demo_relay_lib 20 Want_header () demo_in))"
  using relay_to_client_prefix [OF demo_relay_starts demo_relay_run2] by (simp add: demo_tcp_session_def demo_sent)

text \<open>C8. What the server has been sent after the request header is at every moment a prefix of the pieces read from
  the client, sealed one after the other in the order they were read.\<close>

theorem relay_to_server_prefix:
  assumes "relay_starts rx tx lib prefix_len H c s s0" "relay_run lib prefix_len s0 calls res"
  shows "prefix (sent (ts_server_fd s) calls) (fst (seal_all lib c (pieces (ts_client_fd s) calls)))"
  using relay_started_run [OF assms] relay_starts_ready(3) [OF assms(1)]
  by (cases res) (auto simp: step_ok_def cut_off_def uploads_def)

theorem relay_to_server_prefix_witness: "prefix [] (fst (seal_all demo_relay_lib () [[7, 8, 9]]))"
  using relay_to_server_prefix [OF demo_relay_starts demo_relay_run2] by (simp add: demo_tcp_session_def demo_sent)



text \<open>C9. A session that is not closed waits for an event; when it does not wait to write to a side, that side has
  been sent everything there is for it.\<close>

theorem relay_keeps_going:
  assumes "relay_starts rx tx lib prefix_len H c s s0" "relay_run lib prefix_len s0 calls (Inr s1)"
  shows "(\<exists>is_client ev_read ev_write. relay_event s1 is_client ev_read ev_write) \<and>
    (\<not> relay_event s1 True False True \<longrightarrow>
       sent (ts_client_fd s) calls = fst (decode lib H Want_header c (received (ts_server_fd s) calls))) \<and>
    (\<not> relay_event s1 False False True \<longrightarrow>
       sent (ts_server_fd s) calls = fst (seal_all lib c (pieces (ts_client_fd s) calls)))"
proof -
  let ?r = "ts_phase s1"
  have run: "delivers rx lib s0 calls s1" "uploads tx lib s0 calls s1" "relay_ready s1"
    using relay_started_run(1,2) [OF assms] by (auto simp: step_ok_def)
  have mid: "relay_mid s1" "settled ?r" "\<not> (rl_client_eof ?r \<and> rl_server_eof ?r \<and> rl_c2s_len ?r = 0)"
    using run(3) by (auto simp: relay_ready_def Let_def)
  note event = relay_event_ready [OF run(3)]
  have "relay_event s1 True False True \<or> relay_event s1 False False True \<or> relay_event s1 True True False \<or> relay_event s1 False True False"
    using mid(3) settled_room [OF mid(1,2)] unfolding event by auto
  then have some: "\<exists>is_client ev_read ev_write. relay_event s1 is_client ev_read ev_write" by blast
  have "fst (decode_from lib s1) = []" if "rl_out_len ?r = 0"
  proof -
    have b: "in_bounds ?r" "rl_in_consume ?r = 0" using mid(1) that by (auto simp: relay_mid_def Let_def out_ok_def)
    have "rl_in_len ?r < chunk_size (rl_response_header_len ?r) (next_chunk ?r)" using mid(2) that by (simp add: settled_def)
    then show ?thesis
      using b by (cases "next_chunk ?r") (simp_all add: decode_from_def unopened_def decode.simps window_length chunk_size_def Let_def)
  qed
  then have "\<not> relay_event s1 True False True \<longrightarrow> fst (to_deliver lib s1) = []" unfolding event by (simp add: to_deliver_def pending_none)
  moreover have "\<not> relay_event s1 False False True \<longrightarrow> to_upload s1 = []" unfolding event by (simp add: to_upload_def slice_def)
  ultimately show ?thesis
    using some run(1,2) relay_started_run(3,4) [OF assms] relay_starts_ready(2,3) [OF assms(1)]
    by (auto simp: delivers_def uploads_def same_rx_def sends_first_def)
qed

theorem relay_keeps_going_witness:
  "(\<exists>is_client ev_read ev_write. relay_event demo_relay2 is_client ev_read ev_write) \<and> \<not> relay_event demo_relay2 True False True \<and>
   replicate 12 2 = fst (decode demo_relay_lib 20 Want_header () demo_in)"
proof -
  have "\<not> relay_event demo_relay2 True False True" by (simp add: relay_event_def demo_relay2_def)
  then show ?thesis using relay_keeps_going [OF demo_relay_starts demo_relay_run2] by (simp add: demo_tcp_session_def demo_sent)
qed

text \<open>C40. The offsets stay inside the two buffers, and whenever the server is read there is room for at least one
  byte, so that a count of 0 means that the server has closed.\<close>

theorem relay_buffers_bounded:
  assumes "relay_starts rx tx lib prefix_len H c s s0" "relay_run lib prefix_len s0 calls (Inr s1)"
  shows "let r = ts_phase s1 in
    rl_in_head r + rl_in_len r \<le> TCP_SS_RESP_IN_BUFSIZ \<and>
    (rl_out_len r > 0 \<longrightarrow> rl_out_off r + rl_out_len r \<le> rl_in_consume r \<and> rl_in_consume r \<le> rl_in_len r) \<and>
    rl_c2s_off r + rl_c2s_len r \<le> TCP_SS_CIPHER_BUFSIZ \<and>
    (relay_event s1 False True False \<longrightarrow> 0 < server_input_room (tcp_relay_compact_server_input r))"
proof -
  let ?r = "ts_phase s1"
  have ready: "relay_ready s1" using relay_started_run(2) [OF assms] by simp
  then have mid: "relay_mid s1" by (simp add: relay_ready_def Let_def)
  have "0 < server_input_room (tcp_relay_compact_server_input ?r)" if "relay_event s1 False True False"
    using that compact_room [of ?r] mid unfolding relay_event_ready(2) [OF ready]
    by (simp add: relay_mid_def Let_def server_input_room_def compact_fields)
  then show ?thesis using mid by (auto simp: relay_mid_def Let_def in_bounds_def out_ok_def split: if_splits)
qed

theorem relay_buffers_bounded_witness:
  "rl_c2s_off (ts_phase demo_relay2) + rl_c2s_len (ts_phase demo_relay2) \<le> TCP_SS_CIPHER_BUFSIZ \<and> rl_c2s_len (ts_phase demo_relay2) = 3"
  using relay_buffers_bounded [OF demo_relay_starts demo_relay_run2] by (simp add: Let_def demo_relay2_def)

end
