(* ===== verification/TcpSearch.thy ===== *)
theory TcpSearch
  imports TcpHandshake TcpStream
begin

text \<open>
  What holds of the sessions of \<open>TcpHandshake\<close> over their life: the doubly linked list is the list of the sessions, the
  search for a server ends and tries no server twice, a request that may have reached a server is not sent again, and
  descriptors and blocks are owned by exactly one session and given back when it is closed.
\<close>

section \<open>The list of sessions\<close>

text \<open>A piece of the list: from the pair of a predecessor and a current pointer to another such pair.\<close>

fun lseg ::
  "(ptr \<Rightarrow> ptr option) \<Rightarrow> (ptr \<Rightarrow> ptr option) \<Rightarrow> ptr option \<Rightarrow> ptr option \<Rightarrow> ptr list \<Rightarrow> ptr option \<Rightarrow> ptr option \<Rightarrow> bool" where
  "lseg P N pr cur [] pr' cur' \<longleftrightarrow> pr = pr' \<and> cur = cur'"
| "lseg P N pr cur (p # ps) pr' cur' \<longleftrightarrow> cur = Some p \<and> P p = pr \<and> lseg P N (Some p) (N p) ps pr' cur'"

definition session_list :: "('x, 'c) tcp_world \<Rightarrow> ptr list \<Rightarrow> bool" where
  "session_list w ps \<longleftrightarrow> distinct ps \<and> (\<exists>e. lseg (tcp_prev w) (tcp_next w) None (g_tcp_session_head w) ps e None)"

lemma lseg_append:
  "lseg P N pr cur (as @ bs) pr' cur' \<longleftrightarrow> (\<exists>q c. lseg P N pr cur as q c \<and> lseg P N q c bs pr' cur')"
  by (induction as arbitrary: pr cur) auto

lemma lseg_frame [simp]:
  "x \<notin> set ps \<Longrightarrow> lseg (P(x := a)) N pr cur ps pr' cur' \<longleftrightarrow> lseg P N pr cur ps pr' cur'"
  "x \<notin> set ps \<Longrightarrow> lseg P (N(x := a)) pr cur ps pr' cur' \<longleftrightarrow> lseg P N pr cur ps pr' cur'"
  by (induction ps arbitrary: pr cur) auto

lemma lseg_end:
  "lseg P N pr cur ps q c \<Longrightarrow> distinct ps \<Longrightarrow> ps \<noteq> [] \<Longrightarrow> q = Some (last ps) \<and> lseg P (N(last ps := c')) pr cur ps q c'"
proof (induction ps arbitrary: pr cur)
  case (Cons p ps)
  then show ?case by (cases "ps = []") auto
qed simp

lemma session_link_list:
  assumes "session_list w ps" "p \<notin> set ps" shows "session_list (tcp_session_link p w) (p # ps)"
proof (cases ps)
  case Nil
  then show ?thesis using assms by (auto simp: session_list_def tcp_session_link_def Let_def)
next
  case (Cons n ns)
  then have n: "g_tcp_session_head w = Some n" "n \<noteq> p" "n \<notin> set ns" "p \<notin> set ns" "distinct ns"
    and e: "\<exists>e. lseg (tcp_prev w) (tcp_next w) (Some n) (tcp_next w n) ns e None"
    using assms by (auto simp: session_list_def)
  then show ?thesis by (simp add: session_list_def tcp_session_link_def Let_def Cons)
qed

lemma session_unlink_list:
  assumes "session_list w (as @ p # bs)" shows "session_list (tcp_session_unlink p w) (as @ bs)"
proof -
  let ?P = "tcp_prev w" and ?N = "tcp_next w"
  obtain q e where d: "distinct (as @ p # bs)" and as: "lseg ?P ?N None (g_tcp_session_head w) as q (Some p)" "?P p = q"
    and bs: "lseg ?P ?N (Some p) (?N p) bs e None"
    using assms by (auto simp: session_list_def lseg_append)
  have q: "as \<noteq> [] \<Longrightarrow> q = Some (last as) \<and> lseg ?P (?N(last as := ?N p)) None (g_tcp_session_head w) as q (?N p)"
    using lseg_end [OF as(1)] d by auto
  have q0: "as = [] \<Longrightarrow> q = None \<and> g_tcp_session_head w = Some p" using as by simp
  have last: "as \<noteq> [] \<Longrightarrow> last as \<in> set as" by simp
  show ?thesis
  proof (cases bs)
    case Nil
    then have "?N p = None" using bs by simp
    then show ?thesis using q q0 d Nil as(2)
      by (cases "as = []") (auto simp: session_list_def tcp_session_unlink_def Let_def)
  next
    case (Cons n ns)
    then have n: "?N p = Some n" "lseg ?P ?N (Some n) (?N n) ns e None" using bs by auto
    have nd: "n \<notin> set as" "n \<notin> set ns" "n \<noteq> p" using d Cons by auto
    show ?thesis
    proof (cases "as = []")
      case True
      then show ?thesis using q0 n nd d Cons as(2) by (auto simp: session_list_def tcp_session_unlink_def Let_def)
    next
      case False
      have ln: "last as \<noteq> n" "last as \<notin> set ns" using last [OF False] d Cons by auto
      then have "lseg (?P(n := q)) (?N(last as := ?N p)) (Some n) (?N n) ns e None" using n nd by simp
      then have "lseg (?P(n := q)) (?N(last as := ?N p)) q (?N p) bs e None" using n ln Cons by simp
      moreover have "lseg (?P(n := q)) (?N(last as := ?N p)) None (g_tcp_session_head w) as q (?N p)"
        using conjunct2 [OF q [OF False]] nd by simp
      ultimately have "lseg (?P(n := q)) (?N(last as := ?N p)) None (g_tcp_session_head w) (as @ bs) e None"
        unfolding lseg_append by blast
      then show ?thesis using q [OF False] n as(2) d
        by (auto simp: session_list_def tcp_session_unlink_def Let_def)
    qed
  qed
qed

section \<open>The search for a server ends\<close>

text \<open>The servers of which the mask has no mark.\<close>

definition untried :: "u8 \<Rightarrow> nat set" where
  "untried m = {i. i < SS_MAX_SERVERS \<and> \<not> bit m i}"

lemma finite_untried [simp]: "finite (untried m)"
  by (simp add: untried_def)

lemma next_best_untried:
  assumes "selectors_ok S" "0 \<le> server_selector_next_best_tcp (ucast m) S"
  shows "nat (server_selector_next_best_tcp (ucast m) S) \<in> untried m"
proof -
  let ?c = "server_selector_next_best_tcp (ucast m) S"
  have n: "g_ss_server_count S \<le> 8" using assms(1) by (simp add: selectors_ok_def SS_MAX_SERVERS_def)
  have "?c < int (g_ss_server_count S) \<and> \<not> tried (ucast m) ?c"
    using ss_candidate_spec(1) [of "g_ss_servers S" "g_ss_server_count S" "g_tcp_selector S" "ucast m"] assms(2)
    unfolding server_selector_next_best_tcp_def by auto
  then have "nat ?c < 8" "\<not> tried (ucast m) (int (nat ?c))" using assms(2) n by auto
  then show ?thesis using tried_bit [of "nat ?c" "ucast m"] by (simp add: untried_def SS_MAX_SERVERS_def bit_ucast_iff)
qed

lemma untried_mark: "i \<in> untried m \<Longrightarrow> untried (m OR push_bit i 1) = untried m - {i}"
  by (auto simp: untried_def SS_MAX_SERVERS_def bit_simps)

lemma untried_less: "i \<in> untried m \<Longrightarrow> card (untried (m OR push_bit i 1)) < card (untried m)"
  unfolding untried_mark by (rule card_Diff1_less) simp_all

text \<open>A turn of the loop that goes on has marked an untried server.\<close>

lemma build_header_fields:
  "tcp_handshake_build_request_header lib s = Some s' \<Longrightarrow>
   ts_tried_servers_mask s' = ts_tried_servers_mask s \<and> ts_server_idx s' = ts_server_idx s \<and> ts_client_fd s' = ts_client_fd s \<and>
   ts_server_fd s' = ts_server_fd s \<and> ts_relay_in s' = ts_relay_in s \<and> ts_client_io s' = ts_client_io s"
  by (auto simp: tcp_handshake_build_request_header_def Let_def split: option.splits prod.splits if_splits)

lemma attach_fields [simp]:
  "ts_tried_servers_mask (tcp_session_attach_server fd n s) = ts_tried_servers_mask s"
  "ts_server_idx (tcp_session_attach_server fd n s) = ts_server_idx s" "ts_client_fd (tcp_session_attach_server fd n s) = ts_client_fd s"
  "ts_server_fd (tcp_session_attach_server fd n s) = fd" "ts_relay_in (tcp_session_attach_server fd n s) = ts_relay_in s"
  "ts_client_io (tcp_session_attach_server fd n s) = ts_client_io s" "ts_ss_client (tcp_session_attach_server fd n s) = ts_ss_client s"
  by (simp_all add: tcp_session_attach_server_def Let_def)

lemma writable_mask:
  "tcp_handshake_on_server_writable lib send relay s w = (Hs_retry nf s', w') \<Longrightarrow> ts_tried_servers_mask s' = ts_tried_servers_mask s"
  by (auto simp: tcp_handshake_on_server_writable_def tcp_handshake_send_request_header_def Let_def split: prod.splits io.splits if_splits)

lemma connected_mask:
  "tcp_handshake_on_server_connected lib so_error send relay s w = (Hs_retry nf s', w') \<Longrightarrow>
   ts_tried_servers_mask s' = ts_tried_servers_mask s"
  by (auto simp: tcp_handshake_on_server_connected_def split: io.splits option.splits if_splits prod.splits dest!: writable_mask)

lemma try_connect_mask:
  "tcp_handshake_try_connect cfg lib env s w = (Hs_retry nf s', w') \<Longrightarrow> ts_tried_servers_mask s' = ts_tried_servers_mask s"
  by (auto simp: tcp_handshake_try_connect_def Let_def split: option.splits prod.splits if_splits
      dest!: connected_mask build_header_fields)

lemma search_masks:
  "ts_tried_servers_mask (drop_server s) = ts_tried_servers_mask s"
  "ts_tried_servers_mask (next_server i s) = ts_tried_servers_mask s OR push_bit (nat i) 1"
  by (simp_all add: drop_server_def next_server_def)

lemma next_mask:
  assumes "tcp_handshake_next cfg lib env nf s w = (Hs_retry nf' s', w')" "selectors_ok (ae_next env)"
  shows "\<exists>i \<in> untried (ts_tried_servers_mask s). ts_tried_servers_mask s' = ts_tried_servers_mask s OR push_bit i 1"
proof -
  let ?i = "server_selector_next_best_tcp (ucast (ts_tried_servers_mask s)) (ae_next env)"
  have "0 \<le> ?i \<and> ts_tried_servers_mask s' = ts_tried_servers_mask s OR push_bit (nat ?i) 1"
    using assms(1)
    by (auto simp: tcp_handshake_next_def Let_def search_masks split: if_splits option.splits prod.splits dest!: try_connect_mask)
  then show ?thesis using next_best_untried [OF assms(2)] by blast
qed

text \<open>The selectors that a search finds are configured ones.\<close>

definition attempts_ok :: "(nat \<Rightarrow> ('y, 'x, 'c) attempt_env) \<Rightarrow> bool" where
  "attempts_ok envs \<longleftrightarrow> (\<forall>n. selectors_ok (ae_next (envs n)))"

definition choices_ok :: "(nat \<Rightarrow> ('y, 'x, 'c) choice_env) \<Rightarrow> bool" where
  "choices_ok envs \<longleftrightarrow> (\<forall>n. selectors_ok (ce_sel (envs n)))"

lemma shift_ok: "attempts_ok envs \<Longrightarrow> attempts_ok (\<lambda>n. envs (Suc n))" "choices_ok cs \<Longrightarrow> choices_ok (\<lambda>n. cs (Suc n))"
  by (simp_all add: attempts_ok_def choices_ok_def)

lemma handshake_retry_some: "attempts_ok envs \<Longrightarrow> tcp_handshake_retry cfg lib envs nf s w \<noteq> None"
proof (induction "card (untried (ts_tried_servers_mask s))" arbitrary: envs nf s w rule: less_induct)
  case less
  obtain step w1 where step: "tcp_handshake_next cfg lib (envs 0) nf s w = (step, w1)" by (metis surj_pair)
  show ?case
  proof (cases step)
    case (Hs_done out)
    then show ?thesis using step by (simp add: tcp_handshake_retry.simps [of cfg lib envs])
  next
    case (Hs_retry nf1 s1)
    have "selectors_ok (ae_next (envs 0))" using less.prems by (simp add: attempts_ok_def)
    then have "card (untried (ts_tried_servers_mask s1)) < card (untried (ts_tried_servers_mask s))"
      using next_mask [of cfg lib "envs 0" nf s w nf1 s1 w1] step Hs_retry untried_less by metis
    from less.hyps [OF this shift_ok(1) [OF less.prems]] show ?thesis
      using step Hs_retry by (simp add: tcp_handshake_retry.simps [of cfg lib envs])
  qed
qed

lemma after_step_some: "attempts_ok envs \<Longrightarrow> after_step cfg lib envs step \<noteq> None"
  by (cases step; cases "fst step") (simp_all add: after_step_def handshake_retry_some)

lemma start_after_some: "attempts_ok envs \<Longrightarrow> tcp_handshake_start_after_initial_payload cfg lib envs s w \<noteq> None"
  unfolding tcp_handshake_start_after_initial_payload_def Let_def tcp_handshake_start_def
  by (simp add: after_step_some shift_ok del: not_None_eq)

lemma read_then_some:
  assumes "attempts_ok envs" shows "read_then cfg lib recvs envs wait s w \<noteq> None"
proof -
  obtain res calls where r: "tcp_handshake_read_initial_payload (ts_client_fd s) recvs (ts_phase s) = (res, calls)" by (metis surj_pair)
  have some: "tcp_handshake_start_after_initial_payload cfg lib envs s1 w1 \<noteq> None" for s1 and w1 by (rule start_after_some) (rule assms)
  show ?thesis
  proof (cases res)
    case (Some x)
    then show ?thesis using r some by (cases x; cases wait) (simp_all add: read_then_def Let_def)
  qed (simp add: read_then_def r)
qed

lemma choose_server_some: "choices_ok envs \<Longrightarrow> tcp_choose_server envs False m w \<noteq> None"
proof (induction "card (untried m)" arbitrary: envs m w rule: less_induct)
  case less
  let ?i = "server_selector_next_best_tcp (ucast m) (ce_sel (envs 0))"
  show ?case
  proof (cases "?i < 0")
    case True
    then show ?thesis by (simp add: tcp_choose_server.simps [of envs False] Let_def)
  next
    case False
    have "selectors_ok (ce_sel (envs 0))" using less.prems by (simp add: choices_ok_def)
    then have "nat ?i \<in> untried m" using next_best_untried False by (meson not_less)
    note more = less.hyps [OF untried_less [OF this] shift_ok(2) [OF less.prems]]
    obtain ctx w1 where c: "tcp_ctx_get (ce_ctx (envs 0)) (nat ?i) w = (ctx, w1)" by (metis surj_pair)
    show ?thesis
      using False c more
      by (cases ctx; cases "ce_client (envs 0)") (simp_all add: tcp_choose_server.simps [of envs False] Let_def del: push_bit_of_1)
  qed
qed

lemma choose_server_some_first:
  assumes "choices_ok envs" shows "tcp_choose_server envs True m w \<noteq> None"
proof -
  let ?i = "server_selector_best_tcp (ce_sel (envs 0))"
  obtain ctx w1 where c: "tcp_ctx_get (ce_ctx (envs 0)) (nat ?i) w = (ctx, w1)" by (metis surj_pair)
  show ?thesis
    using c choose_server_some [OF shift_ok(2) [OF assms]]
    by (cases ctx; cases "ce_client (envs 0)") (simp_all add: tcp_choose_server.simps [of envs True] Let_def)
qed

fun event_selectors_ok :: "('y, 'x, 'c) tcp_event \<Rightarrow> bool" where
  "event_selectors_ok (Ev_initial_payload_read _ envs) = attempts_ok envs"
| "event_selectors_ok (Ev_initial_payload_timeout _ envs) = attempts_ok envs"
| "event_selectors_ok (Ev_connect_timeout envs) = attempts_ok envs"
| "event_selectors_ok (Ev_server_connected _ _ _ envs) = attempts_ok envs"
| "event_selectors_ok (Ev_server_writable _ _ envs) = attempts_ok envs"
| "event_selectors_ok (Ev_relay _ _ _ _) = True"

definition accept_selectors_ok :: "('y, 'x, 'c) accept_env \<Rightarrow> bool" where
  "accept_selectors_ok env \<longleftrightarrow> choices_ok (ac_choice env) \<and> attempts_ok (ac_attempts env)"

lemma handle_some:
  assumes "event_selectors_ok ev" shows "tcp_handle cfg lib ev obj w \<noteq> None"
proof -
  note some = read_then_some handshake_retry_some after_step_some
  show ?thesis
  proof (cases obj)
    case (Handshaking s)
    then show ?thesis
      using assms by (cases ev) (simp_all only: tcp_handle.simps event_selectors_ok.simps option.distinct not_False_eq_True some
          tcp_handshake_on_initial_payload_read_def tcp_handshake_on_initial_payload_timeout_def tcp_handshake_on_timeout_def)
  next
    case (Relaying s)
    then show ?thesis by (cases ev) (simp_all split: prod.split sum.split)
  qed
qed

lemma create_some:
  assumes "choices_ok envs" shows "tcp_session_create memalign envs fd target skaddr w \<noteq> None"
proof -
  obtain r pool where a: "pool_alloc memalign (g_tcp_session_pool w) = (r, pool)" by (metis surj_pair)
  show ?thesis
  proof (cases r)
    case (Some p)
    obtain c w1 where "tcp_choose_server envs True 0 (w\<lparr>g_tcp_session_pool := pool\<rparr>) = Some (c, w1)"
      using choose_server_some_first [OF assms] by (metis not_None_eq surj_pair)
    then show ?thesis using a Some by (cases c) (simp_all add: tcp_session_create_def)
  qed (simp add: tcp_session_create_def a)
qed

lemma accepted_some:
  assumes "accept_selectors_ok env" shows "tcp_proxy_accepted cfg dns lib isipv4 fd skaddr env st \<noteq> None"
proof -
  obtain m w where st: "st = (m, w)" by (cases st)
  have ok: "choices_ok (ac_choice env)" "attempts_ok (ac_attempts env)" using assms by (auto simp: accept_selectors_ok_def)
  obtain t m1 where t: "tcp_proxy_resolve_target cfg dns isipv4 (ac_getsockname env) m = (t, m1)" by (metis surj_pair)
  show ?thesis
  proof (cases t)
    case (Some target)
    obtain r w1 where r: "tcp_session_create (ac_memalign env) (ac_choice env) fd target skaddr (tcp_open fd w) = Some (r, w1)"
      using create_some [OF ok(1)] by (metis not_None_eq surj_pair)
    show ?thesis
    proof (cases r)
      case (Some p)
      obtain res where "tcp_handshake_wait_initial_payload cfg lib (ac_recvs env) (ac_attempts env) (hs_of (the (tcp_mem w1 p))) w1 = Some res"
        using read_then_some [OF ok(2)] unfolding tcp_handshake_wait_initial_payload_def by (metis not_None_eq)
      then show ?thesis using st t r Some \<open>t = Some target\<close> by (simp add: tcp_proxy_accepted_def Let_def)
    qed (simp add: tcp_proxy_accepted_def Let_def st t r Some)
  qed (simp add: tcp_proxy_accepted_def Let_def st t)
qed

lemma on_accept_some:
  assumes "\<And>fd skaddr env. IoOk (fd, skaddr, env) \<in> set rs \<Longrightarrow> accept_selectors_ok env"
  shows "tcp_proxy_on_accept cfg dns lib isipv4 left rs st \<noteq> None"
  using assms
proof (induction cfg dns lib isipv4 left rs st rule: tcp_proxy_on_accept.induct)
  case (3 cfg dns lib isipv4 left r rs st)
  show ?case
  proof (cases r)
    case (IoErr e)
    then show ?thesis using 3 by auto
  next
    case (IoOk x)
    obtain fd skaddr env where x: "x = (fd, skaddr, env)" by (cases x)
    obtain st1 where st1: "tcp_proxy_accepted cfg dns lib isipv4 fd skaddr env st = Some st1"
      using accepted_some [of env cfg dns lib isipv4 fd skaddr st] 3(3) [of fd skaddr env] IoOk x by auto
    have "tcp_proxy_on_accept cfg dns lib isipv4 left rs st1 \<noteq> None"
      by (rule 3(1) [OF IoOk x [symmetric] refl st1]) (use 3(3) in auto)
    then show ?thesis using IoOk x st1 by simp
  qed
qed simp_all

section \<open>Who owns what\<close>

definition fd_mset :: "int \<Rightarrow> int multiset" where
  "fd_mset fd = (if fd \<ge> 0 then {#fd#} else {#})"

definition session_fds :: "('c, 'p) tcp_session \<Rightarrow> int multiset" where
  "session_fds s = fd_mset (ts_client_fd s) + fd_mset (ts_server_fd s)"

text \<open>The thread has, beside \<open>R\<close> and \<open>A\<close>, the descriptors \<open>fds\<close> and the block \<open>blk\<close>.\<close>

definition holds :: "int multiset \<Rightarrow> ptr set \<Rightarrow> int multiset \<Rightarrow> ptr option \<Rightarrow> ('x, 'c) tcp_world \<Rightarrow> bool" where
  "holds R A fds blk w \<longleftrightarrow>
     mset (tcp_fds w) = R + fds \<and> set_option blk \<inter> A = {} \<and> pool_of (g_tcp_relay_in_pool w) (A \<union> set_option blk)"

definition same_store :: "('x, 'c) tcp_world \<Rightarrow> ('x, 'c) tcp_world \<Rightarrow> bool" where
  "same_store w w' \<longleftrightarrow> g_tcp_session_head w' = g_tcp_session_head w \<and> tcp_prev w' = tcp_prev w \<and> tcp_next w' = tcp_next w \<and>
     tcp_mem w' = tcp_mem w \<and> g_tcp_session_pool w' = g_tcp_session_pool w"

definition out_fds :: "'c tcp_outcome \<Rightarrow> int multiset" where
  "out_fds out = (case out of Closing _ c v _ \<Rightarrow> fd_mset c + fd_mset v
     | Going (Handshaking s) \<Rightarrow> session_fds s | Going (Relaying s) \<Rightarrow> session_fds s)"

definition out_block :: "'c tcp_outcome \<Rightarrow> ptr option" where
  "out_block out = (case out of Closing _ _ _ b \<Rightarrow> b
     | Going (Handshaking s) \<Rightarrow> ts_relay_in s | Going (Relaying s) \<Rightarrow> ts_relay_in s)"

lemma out_closing [simp]: "out_fds (closing rst s) = session_fds s" "out_block (closing rst s) = ts_relay_in s"
  by (simp_all add: out_fds_def out_block_def closing_def session_fds_def)

lemma closing_not_going [simp]: "closing rst s \<noteq> Going obj" "Going obj \<noteq> closing rst s"
  by (simp_all add: closing_def)

lemma out_going [simp]:
  "out_fds (Going (Handshaking s)) = session_fds s" "out_block (Going (Handshaking s)) = ts_relay_in s"
  "out_fds (Going (Relaying s')) = session_fds s'" "out_block (Going (Relaying s')) = ts_relay_in s'"
  by (simp_all add: out_fds_def out_block_def)

lemma world_calls [simp]:
  "same_store w (tcp_call calls w') = same_store w w'" "holds R A fds blk (tcp_call calls w) = holds R A fds blk w"
  "tcp_log (tcp_call calls w) = tcp_log w @ calls" "tcp_log (tcp_open fd w) = tcp_log w"
  "g_tcp_relay_in_pool (tcp_call calls w) = g_tcp_relay_in_pool w" "g_tcp_relay_in_pool (tcp_open fd w) = g_tcp_relay_in_pool w"
  "g_tcp_relay_in_pool (tcp_shut rst fd w) = g_tcp_relay_in_pool w"
  "tcp_log (tcp_shut rst fd w) = tcp_log w @ [if rst then Call_rst fd else Call_close fd]"
  "same_store w (tcp_open fd w') = same_store w w'" "same_store w (tcp_shut rst fd w') = same_store w w'"
  by (simp_all add: same_store_def holds_def tcp_call_def tcp_open_def tcp_shut_def)

lemma same_store_refl [simp]: "same_store w w"
  by (simp add: same_store_def)

lemma same_store_trans: "same_store w w1 \<Longrightarrow> same_store w1 w2 \<Longrightarrow> same_store w w2"
  by (simp add: same_store_def)

lemma holds_open: "holds R A fds blk w \<Longrightarrow> fd \<ge> 0 \<Longrightarrow> holds R A (fds + fd_mset fd) blk (tcp_open fd w)"
  by (simp add: holds_def tcp_open_def fd_mset_def)

lemma holds_shut:
  assumes "holds R A (fds + fd_mset fd) blk w" "fd \<ge> 0" shows "holds R A fds blk (tcp_shut rst fd w)"
  using assms by (simp add: holds_def tcp_shut_def tcp_call_def fd_mset_def)

lemma ctx_get_holds:
  assumes "tcp_ctx_get init idx w = (c, w')"
  shows "holds R A fds blk w' = holds R A fds blk w" "same_store w w'" "tcp_log w' = tcp_log w"
    "g_tcp_relay_in_pool w' = g_tcp_relay_in_pool w"
  using assms by (auto simp: tcp_ctx_get_def holds_def same_store_def split: option.splits)

lemma fd_mset_closed [simp]: "fd_mset (-1) = {#}"
  by (simp add: fd_mset_def)

lemma relay_begin_keeps:
  "fst (relay_begin eof block H s) = Inr r \<Longrightarrow>
   ts_client_fd r = ts_client_fd s \<and> ts_server_fd r = ts_server_fd s \<and> ts_relay_in r = ts_relay_in s"
  by (auto simp: relay_begin_def tcp_relay_update_watchers_def Let_def with_phase_def split: if_splits)

lemma enter_relay_holds:
  assumes "holds R A (session_fds s) None w" "ts_relay_in s = None" "posix_memalign_ok (rs_memalign env) (g_tcp_relay_in_pool w)"
    "tcp_session_enter_relay lib env s w = (out, w')"
  shows "holds R A (out_fds out) (out_block out) w' \<and> same_store w w' \<and> (\<forall>s'. out \<noteq> Going (Handshaking s'))"
proof -
  obtain r pool where a: "pool_alloc (rs_memalign env) (g_tcp_relay_in_pool w) = (r, pool)" by (metis surj_pair)
  have p: "pool_of (g_tcp_relay_in_pool w) A" using assms(1) by (simp add: holds_def)
  note alloc = pool_of_alloc [OF p assms(3) a]
  have m: "mset (tcp_fds w) = R + session_fds s" using assms(1) by (simp add: holds_def)
  show ?thesis
  proof (cases r)
    case None
    then show ?thesis using alloc assms(2,4) a m
      by (auto simp: tcp_session_enter_relay_def Let_def holds_def same_store_def session_fds_def)
  next
    case (Some b)
    let ?s = "s\<lparr>ts_phase_timer := None, ts_relay_in := Some b\<rparr>" and ?w = "w\<lparr>g_tcp_relay_in_pool := pool\<rparr>"
    have h: "holds R A (session_fds ?s) (Some b) ?w" "same_store w ?w"
      using alloc Some m by (auto simp: holds_def same_store_def session_fds_def)
    obtain res calls where b: "relay_begin (th_client_eof (ts_phase s)) (rs_block env) (tcp_response_header_size lib (the (ts_ss_client s))) ?s = (res, calls)"
      by (metis surj_pair)
    show ?thesis
    proof (cases res)
      case (Inl rst)
      then show ?thesis using h b Some a assms(4)
        by (auto simp: tcp_session_enter_relay_def Let_def session_fds_def split: if_splits)
    next
      case (Inr q)
      then have "session_fds q = session_fds ?s \<and> ts_relay_in q = Some b" using relay_begin_keeps [of _ _ _ ?s q] b by (simp add: session_fds_def) (metis fst_conv)
      then show ?thesis using Inr h b Some a assms(4)
        by (auto simp: tcp_session_enter_relay_def Let_def session_fds_def split: if_splits)
    qed
  qed
qed

section \<open>One step\<close>

definition step_fds :: "'c hs_step \<Rightarrow> int multiset" where
  "step_fds step = (case step of Hs_done out \<Rightarrow> out_fds out | Hs_retry _ s \<Rightarrow> session_fds s)"

definition step_block :: "'c hs_step \<Rightarrow> ptr option" where
  "step_block step = (case step of Hs_done out \<Rightarrow> out_block out | Hs_retry _ s \<Rightarrow> ts_relay_in s)"

text \<open>The session as it goes on in the handshake, waiting or with another server.\<close>

definition step_session :: "'c hs_step \<Rightarrow> 'c hs_session option" where
  "step_session step = (case step of Hs_retry _ s \<Rightarrow> Some s | Hs_done (Going (Handshaking s)) \<Rightarrow> Some s | _ \<Rightarrow> None)"

lemma step_simps [simp]:
  "step_fds (Hs_done out) = out_fds out" "step_fds (Hs_retry nf s) = session_fds s"
  "step_block (Hs_done out) = out_block out" "step_block (Hs_retry nf s) = ts_relay_in s"
  "step_session (Hs_retry nf s) = Some s" "step_session (Hs_done (Going (Handshaking s))) = Some s"
  "step_session (Hs_done (closing rst s)) = None" "step_session (Hs_done (Going (Relaying r))) = None"
  by (simp_all add: step_fds_def step_block_def step_session_def closing_def)

lemma step_session_cases:
  "step_session step = Some s \<Longrightarrow> (\<exists>nf. step = Hs_retry nf s) \<or> step = Hs_done (Going (Handshaking s))"
  by (auto simp: step_session_def split: hs_step.splits tcp_outcome.splits tcp_object.splits)

lemma step_session_owns: "step_session step = Some s \<Longrightarrow> step_fds step = session_fds s \<and> step_block step = ts_relay_in s"
  using step_session_cases by fastforce

text \<open>The header and what has been queued of it.\<close>

definition header_ok :: "tcp_handshake \<Rightarrow> bool" where
  "header_ok h \<longleftrightarrow> length (th_request_header h) = unat (th_request_header_len h) \<and> th_request_header_sent h \<le> th_request_header_len h"

definition header_len :: "'c hs_session \<Rightarrow> nat" where
  "header_len s = unat (th_request_header_len (ts_phase s))"

definition header_sent :: "'c hs_session \<Rightarrow> nat" where
  "header_sent s = unat (th_request_header_sent (ts_phase s))"

text \<open>The calls that neither build a request, nor connect, nor receive, and the number of bytes they queue.\<close>

fun quiet :: "tcp_call \<Rightarrow> bool" where
  "quiet (Call_recv _ _) = False"
| "quiet (Call_request _) = False"
| "quiet (Call_connect _ _) = False"
| "quiet _ = True"

fun queued :: "tcp_call list \<Rightarrow> nat" where
  "queued [] = 0"
| "queued (Call_send _ d # calls) = length d + queued calls"
| "queued (_ # calls) = queued calls"

lemma queued_append [simp]: "queued (a @ b) = queued a + queued b"
  by (induction a rule: queued.induct) simp_all

definition same_search :: "'c hs_session \<Rightarrow> 'c hs_session \<Rightarrow> bool" where
  "same_search s s' \<longleftrightarrow> ts_client_fd s' = ts_client_fd s \<and> ts_relay_in s' = ts_relay_in s \<and>
     th_initial_payload (ts_phase s') = th_initial_payload (ts_phase s) \<and> th_target (ts_phase s') = th_target (ts_phase s) \<and>
     th_client_eof (ts_phase s') = th_client_eof (ts_phase s)"

lemma same_search_refl [simp]: "same_search s s"
  by (simp add: same_search_def)

lemma same_search_trans: "same_search s s1 \<Longrightarrow> same_search s1 s2 \<Longrightarrow> same_search s s2"
  by (simp add: same_search_def)

definition step_ready :: "int multiset \<Rightarrow> ptr set \<Rightarrow> 'c hs_session \<Rightarrow> ('x, 'c) tcp_world \<Rightarrow> bool" where
  "step_ready R A s w \<longleftrightarrow> holds R A (session_fds s) None w \<and> ts_relay_in s = None \<and> header_ok (ts_phase s)"

text \<open>
  What every step keeps: ownership, the list and the memory of the sessions, and of a session that goes on its client's
  side and a consistent header.
\<close>

definition step_keeps ::
  "int multiset \<Rightarrow> ptr set \<Rightarrow> 'c hs_session \<Rightarrow> ('x, 'c) tcp_world \<Rightarrow> 'c hs_step \<times> ('x, 'c) tcp_world \<Rightarrow> bool" where
  "step_keeps R A s w res \<longleftrightarrow>
     (case res of (step, w') \<Rightarrow>
        holds R A (step_fds step) (step_block step) w' \<and> same_store w w' \<and>
        (\<forall>s'. step_session step = Some s' \<longrightarrow> same_search s s' \<and> header_ok (ts_phase s') \<and>
           g_tcp_relay_in_pool w' = g_tcp_relay_in_pool w))"

text \<open>A step that only sends: what it queues continues the header.\<close>

definition step_sends :: "'c hs_session \<Rightarrow> ('x, 'c) tcp_world \<Rightarrow> 'c hs_step \<times> ('x, 'c) tcp_world \<Rightarrow> bool" where
  "step_sends s w res \<longleftrightarrow>
     (case res of (step, w') \<Rightarrow>
        \<exists>calls. tcp_log w' = tcp_log w @ calls \<and> list_all quiet calls \<and>
          (\<forall>s'. step_session step = Some s' \<longrightarrow> header_len s' = header_len s \<and> header_sent s' = header_sent s + queued calls \<and>
             ts_tried_servers_mask s' = ts_tried_servers_mask s \<and> ts_server_idx s' = ts_server_idx s))"

lemma enter_relay_log:
  assumes "tcp_session_enter_relay lib env s w = (out, w')" shows "\<exists>calls. tcp_log w' = tcp_log w @ calls \<and> list_all quiet calls"
proof -
  have "list_all quiet (snd (relay_begin eof block H q))" for eof block H and q :: "'a hs_session"
    by (simp add: relay_begin_def tcp_relay_update_watchers_def Let_def)
  moreover have "tcp_log w' = tcp_log w \<or> (\<exists>eof block H q. tcp_log w' = tcp_log w @ snd (relay_begin eof block H (q :: 'a hs_session)))"
    using assms by (auto simp: tcp_session_enter_relay_def Let_def split: prod.splits option.splits if_splits sum.splits) (metis snd_conv)+
  ultimately show ?thesis by (elim disjE exE) (rule exI [of _ "[]"], simp, blast)
qed

lemma unat_sum16:
  fixes a b :: u16 assumes "unat a + n \<le> unat b"
  shows "unat (of_nat (unat a + n) :: u16) = unat a + n"
proof -
  have "unat a + n < 2 ^ 16" using assms unsigned_less [of b, where ?'a = nat] by simp
  then show ?thesis by (simp only: unsigned_of_nat take_bit_nat_eq_self_iff) (simp add: take_bit_nat_eq_self)
qed

lemma send_header_spec:
  assumes "step_ready R A s w" "tcp_handshake_send_request_header send s w = (r, w')"
  shows "same_store w w' \<and> g_tcp_relay_in_pool w' = g_tcp_relay_in_pool w \<and>
    (case r of
       Header_failed step \<Rightarrow> step_keeps R A s w (step, w') \<and> step_sends s w (step, w')
     | Header_more s' \<Rightarrow> step_keeps R A s w (Hs_done (Going (Handshaking s')), w') \<and> step_sends s w (Hs_done (Going (Handshaking s')), w')
     | Header_sent s' \<Rightarrow> step_ready R A s' w' \<and> header_sent s' = header_len s' \<and>
         step_keeps R A s w (Hs_retry False s', w') \<and> step_sends s w (Hs_retry False s', w'))"
proof -
  let ?h = "ts_phase s"
  let ?len = "unat (th_request_header_len ?h)" and ?sent = "unat (th_request_header_sent ?h)"
  have ready: "holds R A (session_fds s) None w" "ts_relay_in s = None" "header_ok ?h" using assms(1) by (auto simp: step_ready_def)
  have le: "?sent \<le> ?len" using ready(3) by (simp add: header_ok_def word_le_nat_alt)
  have stay: "step_keeps R A s w (Hs_retry nf s, w)" "step_sends s w (Hs_retry nf s, w)"
    "step_keeps R A s w (Hs_done (Going (Handshaking s)), w)" "step_sends s w (Hs_done (Going (Handshaking s)), w)" for nf
    using ready by (auto simp: step_keeps_def step_sends_def same_search_def intro: exI [of _ "[]"])
  show ?thesis
  proof (cases "?sent = ?len")
    case True
    then show ?thesis using assms stay
      by (auto simp: tcp_handshake_send_request_header_def Let_def header_sent_def header_len_def)
  next
    case more: False
    show ?thesis
    proof (cases send)
      case (IoErr e)
      then show ?thesis using assms(2) more le stay
        by (auto simp: tcp_handshake_send_request_header_def Let_def split: if_splits)
    next
      case (IoOk n)
      show ?thesis
      proof (cases "n = 0")
        case True
        then show ?thesis using assms(2) more le stay IoOk
          by (auto simp: tcp_handshake_send_request_header_def Let_def)
      next
        case n: False
        let ?call = "Call_send (ts_server_fd s) (slice ?sent n (th_request_header ?h))"
        show ?thesis
        proof (cases "?sent + n > ?len")
          case True
          then show ?thesis using assms(2) more le n IoOk ready
            by (auto simp: tcp_handshake_send_request_header_def Let_def step_keeps_def step_sends_def)
        next
          case fits: False
          define s1 where "s1 = s\<lparr>ts_phase := ?h\<lparr>th_request_header_sent := of_nat (?sent + n)\<rparr>\<rparr>"
          have u: "unat (of_nat (?sent + n) :: u16) = ?sent + n" using fits by (intro unat_sum16 [of _ _ "th_request_header_len ?h"]) simp
          have "length (slice ?sent n (th_request_header ?h)) = n" using fits ready(3) by (simp add: length_slice header_ok_def)
          then have q: "queued [?call] = n" by simp
          have s1: "session_fds s1 = session_fds s" "ts_relay_in s1 = None" "header_ok (ts_phase s1)" "header_len s1 = header_len s"
            "header_sent s1 = header_sent s + n" "same_search s s1" "ts_tried_servers_mask s1 = ts_tried_servers_mask s"
            "ts_server_idx s1 = ts_server_idx s" "header_sent s1 = ?sent + n" "header_len s1 = ?len"
            using ready u fits by (simp_all add: s1_def session_fds_def header_ok_def word_le_nat_alt header_len_def header_sent_def same_search_def)
          have c: "(?len < ?sent) = False" "(?sent = ?len) = False" "(n = 0) = False" "(?len < ?sent + n) = False" using more le n fits by auto
          have code: "tcp_handshake_send_request_header send s w =
              (if ?sent + n = ?len then Header_sent s1 else Header_more s1, tcp_call [?call] w)"
            unfolding tcp_handshake_send_request_header_def Let_def IoOk io.case c if_False s1_def ..
          have res: "w' = tcp_call [?call] w" "r = (if ?sent + n = ?len then Header_sent s1 else Header_more s1)"
            using assms(2) unfolding code by blast+
          have sends: "\<exists>calls. tcp_log w' = tcp_log w @ calls \<and> list_all quiet calls \<and> header_sent s1 = header_sent s + queued calls"
            using s1(5) q res(1) by (intro exI [of _ "[?call]"]) (simp only: world_calls, simp)
          have k: "step_keeps R A s w (Hs_retry False s1, w')" "step_sends s w (Hs_retry False s1, w')"
            "step_keeps R A s w (Hs_done (Going (Handshaking s1)), w')" "step_sends s w (Hs_done (Going (Handshaking s1)), w')"
            using ready s1 sends by (auto simp: step_keeps_def step_sends_def res(1))
          show ?thesis using res(2) k ready s1 by (simp add: step_ready_def res(1))
        qed
      qed
    qed
  qed
qed

lemma step_session_done: "\<forall>s'. out \<noteq> Going (Handshaking s') \<Longrightarrow> step_session (Hs_done out) = None"
  by (auto simp: step_session_def split: tcp_outcome.split tcp_object.split)

lemma stay_retry:
  "step_ready R A s w \<Longrightarrow> step_keeps R A s w (Hs_retry nf s, w) \<and> step_sends s w (Hs_retry nf s, w)"
  by (auto simp: step_ready_def step_keeps_def step_sends_def same_search_def intro: exI [of _ "[]"])

text \<open>A step that enters the relay.\<close>

lemma enter_relay_step:
  assumes "step_ready R A s w" "posix_memalign_ok (rs_memalign env) (g_tcp_relay_in_pool w)" "tcp_session_enter_relay lib env s w = (out, w')"
  shows "step_keeps R A s w (Hs_done out, w') \<and> step_sends s w (Hs_done out, w')"
  using enter_relay_holds [OF _ _ assms(2,3), of R A] enter_relay_log [OF assms(3)] step_session_done [of out] assms(1)
  by (auto simp: step_ready_def step_keeps_def step_sends_def)

lemma step_sends_then:
  assumes "step_sends s w (Hs_retry nf s1, w1)" "step_sends s1 w1 (step, w')"
  shows "step_sends s w (step, w')"
proof -
  obtain a where a: "tcp_log w1 = tcp_log w @ a" "list_all quiet a" "header_len s1 = header_len s" "header_sent s1 = header_sent s + queued a"
    "ts_tried_servers_mask s1 = ts_tried_servers_mask s" "ts_server_idx s1 = ts_server_idx s"
    using assms(1) by (auto simp: step_sends_def)
  obtain b where "tcp_log w' = tcp_log w1 @ b" "list_all quiet b"
    "\<forall>s'. step_session step = Some s' \<longrightarrow> header_len s' = header_len s1 \<and> header_sent s' = header_sent s1 + queued b \<and>
      ts_tried_servers_mask s' = ts_tried_servers_mask s1 \<and> ts_server_idx s' = ts_server_idx s1"
    using assms(2) by (auto simp: step_sends_def)
  then show ?thesis using a unfolding step_sends_def by (auto intro!: exI [of _ "a @ b"])
qed

lemma step_keeps_then:
  assumes "step_keeps R A s w (Hs_retry nf s1, w1)" "step_keeps R A s1 w1 res" shows "step_keeps R A s w res"
  using assms by (auto simp: step_keeps_def intro: same_store_trans same_search_trans)

lemma writable_spec:
  assumes "step_ready R A s w" "posix_memalign_ok (rs_memalign relay) (g_tcp_relay_in_pool w)"
  shows "step_keeps R A s w (tcp_handshake_on_server_writable lib send relay s w) \<and>
    step_sends s w (tcp_handshake_on_server_writable lib send relay s w)"
proof -
  obtain r w1 where r: "tcp_handshake_send_request_header send s w = (r, w1)" by (metis surj_pair)
  note spec = send_header_spec [OF assms(1) r]
  show ?thesis
  proof (cases r)
    case (Header_sent s1)
    obtain out w2 where e: "tcp_session_enter_relay lib relay s1 w1 = (out, w2)" by (metis surj_pair)
    have "step_ready R A s1 w1" "posix_memalign_ok (rs_memalign relay) (g_tcp_relay_in_pool w1)" using spec Header_sent assms(2) by auto
    from enter_relay_step [OF this e] spec Header_sent
    have "step_keeps R A s w (Hs_done out, w2) \<and> step_sends s w (Hs_done out, w2)"
      using step_keeps_then [of R A s w False s1 w1] step_sends_then [of s w False s1 w1] by auto
    then show ?thesis using r Header_sent e by (simp add: tcp_handshake_on_server_writable_def)
  qed (use spec r in \<open>simp_all add: tcp_handshake_on_server_writable_def\<close>)
qed

lemma io_irrelevant [simp]:
  "step_ready R A (s\<lparr>ts_server_io := io\<rparr>) w = step_ready R A s w" "step_keeps R A (s\<lparr>ts_server_io := io\<rparr>) w res = step_keeps R A s w res"
  "step_sends (s\<lparr>ts_server_io := io\<rparr>) w res = step_sends s w res"
  by (simp_all add: step_ready_def step_keeps_def step_sends_def session_fds_def same_search_def header_len_def header_sent_def)

lemma connected_spec:
  assumes "step_ready R A s w" "posix_memalign_ok (rs_memalign relay) (g_tcp_relay_in_pool w)"
  shows "step_keeps R A s w (tcp_handshake_on_server_connected lib so_error send relay s w) \<and>
    step_sends s w (tcp_handshake_on_server_connected lib so_error send relay s w)"
proof -
  obtain out w2 where e: "tcp_session_enter_relay lib relay s w = (out, w2)" by (metis surj_pair)
  note relay = enter_relay_step [OF assms e]
  have writable: "step_keeps R A s w (tcp_handshake_on_server_writable lib send relay (s\<lparr>ts_server_io := io\<rparr>) w) \<and>
      step_sends s w (tcp_handshake_on_server_writable lib send relay (s\<lparr>ts_server_io := io\<rparr>) w)" for io
    using writable_spec [of R A "s\<lparr>ts_server_io := io\<rparr>" w] assms by simp
  show ?thesis
    using stay_retry [OF assms(1)] relay writable e
    by (simp add: tcp_handshake_on_server_connected_def split: io.split option.split)
qed

section \<open>One attempt\<close>

text \<open>Reading a log: the length of the last request and the number of its bytes queued; the servers connected to.\<close>

fun reach :: "nat \<times> nat \<Rightarrow> tcp_call list \<Rightarrow> nat \<times> nat" where
  "reach nk [] = nk"
| "reach nk (Call_request b # calls) = reach (length b, 0) calls"
| "reach nk (Call_send _ d # calls) = reach (fst nk, snd nk + length d) calls"
| "reach nk (_ # calls) = reach nk calls"

text \<open>A request is built although the one before it has been queued completely.\<close>

definition complete :: "nat \<times> nat \<Rightarrow> bool" where
  "complete nk \<longleftrightarrow> 0 < fst nk \<and> fst nk \<le> snd nk"

fun superseded :: "nat \<times> nat \<Rightarrow> tcp_call list \<Rightarrow> bool" where
  "superseded nk [] = False"
| "superseded nk (Call_request b # calls) = (complete nk \<or> superseded (length b, 0) calls)"
| "superseded nk (Call_send _ d # calls) = superseded (fst nk, snd nk + length d) calls"
| "superseded nk (_ # calls) = superseded nk calls"

fun connects :: "tcp_call list \<Rightarrow> int list" where
  "connects [] = []"
| "connects (Call_connect i _ # calls) = i # connects calls"
| "connects (_ # calls) = connects calls"

fun receives :: "tcp_call list \<Rightarrow> bool" where
  "receives [] = False"
| "receives (Call_recv _ _ # calls) = True"
| "receives (_ # calls) = receives calls"

lemma reach_append [simp]: "reach nk (a @ b) = reach (reach nk a) b"
  by (induction nk a rule: reach.induct) simp_all

lemma superseded_append [simp]: "superseded nk (a @ b) \<longleftrightarrow> superseded nk a \<or> superseded (reach nk a) b"
  by (induction nk a rule: superseded.induct) simp_all

lemma connects_append [simp]: "connects (a @ b) = connects a @ connects b"
  by (induction a rule: connects.induct) simp_all

lemma receives_append [simp]: "receives (a @ b) \<longleftrightarrow> receives a \<or> receives b"
  by (induction a rule: receives.induct) simp_all

lemma quiet_calls:
  assumes "list_all quiet calls"
  shows "reach nk calls = (fst nk, snd nk + queued calls) \<and> \<not> superseded nk calls \<and> connects calls = [] \<and> \<not> receives calls"
  using assms
proof (induction calls arbitrary: nk)
  case (Cons c calls)
  then show ?case by (cases c) simp_all
qed simp

definition progress_of :: "'c hs_session \<Rightarrow> nat \<times> nat" where
  "progress_of s = (header_len s, header_sent s)"

text \<open>What an attempt adds to the log.\<close>

definition step_tries :: "'c hs_session \<Rightarrow> ('x, 'c) tcp_world \<Rightarrow> 'c hs_step \<times> ('x, 'c) tcp_world \<Rightarrow> bool" where
  "step_tries s w res \<longleftrightarrow>
     (case res of (step, w') \<Rightarrow>
        \<exists>calls. tcp_log w' = tcp_log w @ calls \<and> \<not> receives calls \<and> connects calls \<in> {[], [uint (ts_server_idx s)]} \<and>
          (\<not> complete (progress_of s) \<longrightarrow> \<not> superseded (progress_of s) calls) \<and>
          (\<forall>s'. step_session step = Some s' \<longrightarrow> progress_of s' = reach (progress_of s) calls \<and>
             ts_tried_servers_mask s' = ts_tried_servers_mask s \<and> ts_server_idx s' = ts_server_idx s))"

lemma connect_server_spec:
  assumes "tcp_handshake_connect_server cfg env idx hdr w = ((fd, n, conn, nf), w')" "holds R A fds blk w"
  shows "same_store w w' \<and> g_tcp_relay_in_pool w' = g_tcp_relay_in_pool w \<and>
    (if fd < 0 then holds R A fds blk w' else holds R A (fds + fd_mset fd) blk w') \<and>
    (\<exists>calls. tcp_log w' = tcp_log w @ calls \<and> \<not> receives calls \<and> connects calls \<in> {[], [idx]} \<and> \<not> superseded nk calls \<and>
       (if fd < 0 then reach nk calls = nk
        else reach nk calls = (fst nk, snd nk + (case n of None \<Rightarrow> 0 | Some n \<Rightarrow> min n (length hdr)))))"
proof (cases "ae_fd env < 0")
  case True
  then show ?thesis using assms by (auto simp: tcp_handshake_connect_server_def intro: exI [of _ "[]"])
next
  case False
  let ?w = "tcp_call [Call_connect idx (ae_fd env)] (tcp_open (ae_fd env) w)"
  obtain c n1 e where t: "tcp_connect (ae_sendto env) (ae_connect env) (if tc_tfo_connect cfg \<and> hdr \<noteq> [] then Some hdr else None) = (c, n1, e)"
    by (metis prod_cases3)
  have h: "holds R A (fds + fd_mset (ae_fd env)) blk ?w" "same_store w ?w" using holds_open [OF assms(2)] False by simp_all
  show ?thesis
  proof (cases "c = TCP_CONNECT_FAILED")
    case True
    have res: "fd = -1" "w' = tcp_shut False (ae_fd env) ?w" using assms(1) False t True by (auto simp: tcp_handshake_connect_server_def Let_def)
    have "holds R A fds blk w'" unfolding res by (rule holds_shut [OF h(1)]) (use False in simp)
    then show ?thesis using res h(2)
      by (auto intro!: exI [of _ "[Call_connect idx (ae_fd env), Call_close (ae_fd env)]"])
  next
    case ok: False
    have res: "fd = ae_fd env" "n = n1" "w' = (case n1 of None \<Rightarrow> ?w | Some m \<Rightarrow> tcp_call [Call_send fd (take m hdr)] ?w)"
      using assms(1) False t ok by (auto simp: tcp_handshake_connect_server_def Let_def)
    show ?thesis
    proof (cases n1)
      case None
      then show ?thesis using res h False by (auto intro!: exI [of _ "[Call_connect idx fd]"])
    next
      case (Some m)
      then show ?thesis using res h False
        by (auto simp: min.commute intro!: exI [of _ "[Call_connect idx fd, Call_send fd (take m hdr)]"])
    qed
  qed
qed

lemma step_sends_calls:
  assumes "step_sends s w (step, w')"
  shows "\<exists>calls. tcp_log w' = tcp_log w @ calls \<and> \<not> receives calls \<and> connects calls = [] \<and> (\<forall>nk. \<not> superseded nk calls) \<and>
    (\<forall>s'. step_session step = Some s' \<longrightarrow> progress_of s' = reach (progress_of s) calls \<and>
       ts_tried_servers_mask s' = ts_tried_servers_mask s \<and> ts_server_idx s' = ts_server_idx s)"
proof -
  obtain calls where c: "tcp_log w' = tcp_log w @ calls" "list_all quiet calls"
    "\<forall>s'. step_session step = Some s' \<longrightarrow> header_len s' = header_len s \<and> header_sent s' = header_sent s + queued calls \<and>
      ts_tried_servers_mask s' = ts_tried_servers_mask s \<and> ts_server_idx s' = ts_server_idx s"
    using assms by (auto simp: step_sends_def)
  then show ?thesis
    using quiet_calls [OF c(2)] unfolding progress_of_def by (auto intro!: exI [of _ calls])
qed

lemma step_sends_tries:
  assumes "step_sends s w (step, w')" shows "step_tries s w (step, w')"
  using step_sends_calls [OF assms] unfolding step_tries_def by (auto simp del: split_paired_All)

text \<open>A request that has just been built and an attached socket.\<close>

lemma attach_progress:
  assumes "header_len s = length (th_request_header (ts_phase s))" "header_sent s = 0" "header_ok (ts_phase s)"
  shows "progress_of (tcp_session_attach_server fd n s) =
      (header_len s, case n of None \<Rightarrow> 0 | Some n \<Rightarrow> min n (length (th_request_header (ts_phase s))))"
    "header_ok (ts_phase (tcp_session_attach_server fd n s))" "same_search s (tcp_session_attach_server fd n s)"
proof -
  let ?len = "th_request_header_len (ts_phase s)"
  have u: "unat (of_nat (min m (unat ?len)) :: u16) = min m (unat ?len)" for m
    using unat_sum16 [of 0 "min m (unat ?len)" ?len] by simp
  have l: "length (th_request_header (ts_phase s)) = unat ?len" using assms(1) by (simp add: header_len_def)
  show "progress_of (tcp_session_attach_server fd n s) =
      (header_len s, case n of None \<Rightarrow> 0 | Some n \<Rightarrow> min n (length (th_request_header (ts_phase s))))"
    using assms(2) u l by (cases n) (auto simp: progress_of_def tcp_session_attach_server_def Let_def header_len_def header_sent_def)
  show "header_ok (ts_phase (tcp_session_attach_server fd n s))"
    using assms(3) u l by (cases n) (auto simp: tcp_session_attach_server_def Let_def header_ok_def word_le_nat_alt)
  show "same_search s (tcp_session_attach_server fd n s)"
    by (cases n) (auto simp: same_search_def tcp_session_attach_server_def Let_def)
qed

lemma build_header_spec:
  assumes "tcp_handshake_build_request_header lib s = Some s1"
  shows "header_len s1 = length (th_request_header (ts_phase s1)) \<and> header_sent s1 = 0 \<and> header_ok (ts_phase s1) \<and> same_search s s1"
proof -
  obtain b c where lib: "tcp_build_request_header lib (the (ts_ss_client s)) (th_target (ts_phase s)) (th_initial_payload (ts_phase s))
      TCP_SS2022_REQ_HDR_BUFSIZ = Some (b, c)"
    using assms by (auto simp: tcp_handshake_build_request_header_def Let_def split: option.splits)
  then have b: "length b \<le> 65535" "s1 = s\<lparr>ts_ss_client := Some c, ts_phase := (ts_phase s)
      \<lparr>th_request_header := b, th_request_header_len := of_nat (length b), th_request_header_sent := 0\<rparr>\<rparr>"
    using assms by (simp_all add: tcp_handshake_build_request_header_def Let_def split: if_splits)
  have "unat (of_nat (length b) :: u16) = length b" using unat_sum16 [of 0 "length b" 65535] b(1) by simp
  then show ?thesis unfolding b(2) by (simp add: header_len_def header_sent_def header_ok_def same_search_def)
qed

lemma epoch_irrelevant [simp]:
  "step_keeps R A (s\<lparr>ts_selector_attempt_epoch := x\<rparr>) w res = step_keeps R A s w res"
  "step_tries (s\<lparr>ts_selector_attempt_epoch := x\<rparr>) w res = step_tries s w res"
  "step_ready R A (s\<lparr>ts_selector_attempt_epoch := x\<rparr>) w = step_ready R A s w"
  by (simp_all add: step_ready_def step_keeps_def step_tries_def session_fds_def same_search_def progress_of_def header_len_def header_sent_def)

lemma timer_irrelevant [simp]:
  "step_keeps R A (s\<lparr>ts_phase_timer := x\<rparr>) w res = step_keeps R A s w res" "step_ready R A (s\<lparr>ts_phase_timer := x\<rparr>) w = step_ready R A s w"
  "step_sends (s\<lparr>ts_phase_timer := x\<rparr>) w res = step_sends s w res" "progress_of (s\<lparr>ts_phase_timer := x\<rparr>) = progress_of s"
  "progress_of (s\<lparr>ts_server_io := io\<rparr>) = progress_of s" "session_fds (s\<lparr>ts_phase_timer := x\<rparr>) = session_fds s"
  "session_fds (s\<lparr>ts_server_io := io\<rparr>) = session_fds s" "same_search s' (s\<lparr>ts_phase_timer := x\<rparr>) = same_search s' s"
  "same_search s' (s\<lparr>ts_server_io := io\<rparr>) = same_search s' s"
  by (simp_all add: step_ready_def step_keeps_def step_sends_def session_fds_def same_search_def progress_of_def header_len_def header_sent_def)

lemma try_connect_spec:
  assumes "step_ready R A s w" "ts_server_fd s < 0" "posix_memalign_ok (rs_memalign (ae_relay env)) (g_tcp_relay_in_pool w)"
  shows "step_keeps R A s w (tcp_handshake_try_connect cfg lib env s w) \<and> step_tries s w (tcp_handshake_try_connect cfg lib env s w)"
proof -
  let ?idx = "uint (ts_server_idx s)"
  let ?s = "s\<lparr>ts_selector_attempt_epoch := server_selector_tcp_attempt ?idx (ae_attempt env)\<rparr>"
  have r: "step_ready R A ?s w" using assms(1) by simp
  show ?thesis
  proof (cases "tcp_handshake_build_request_header lib ?s")
    case None
    then show ?thesis using stay_retry [OF r, of False] step_sends_tries [of ?s w "Hs_retry False ?s" w]
      by (simp add: tcp_handshake_try_connect_def Let_def)
  next
    case (Some s1)
    let ?hdr = "th_request_header (ts_phase s1)"
    let ?w = "tcp_call [Call_request ?hdr] w"
    note b = build_header_spec [OF Some] and f = build_header_fields [OF Some]
    have s1: "session_fds s1 = session_fds s" "session_fds s = fd_mset (ts_client_fd s)" "ts_relay_in s1 = None" "same_search s s1"
      using f b assms(1,2) by (auto simp: session_fds_def step_ready_def same_search_def fd_mset_def)
    obtain fd n conn nf w1 where c: "tcp_handshake_connect_server cfg env ?idx ?hdr ?w = ((fd, n, conn, nf), w1)" by (metis surj_pair)
    have h: "holds R A (session_fds s) None ?w" using assms(1) by (simp add: step_ready_def)
    note spec = connect_server_spec [OF c h, of "(length ?hdr, 0)"]
    then obtain calls where calls: "tcp_log w1 = tcp_log w @ Call_request ?hdr # calls" "\<not> receives calls" "connects calls \<in> {[], [?idx]}"
      "\<not> superseded (length ?hdr, 0) calls"
      "if fd < 0 then reach (length ?hdr, 0) calls = (length ?hdr, 0)
       else reach (length ?hdr, 0) calls = (length ?hdr, case n of None \<Rightarrow> 0 | Some n \<Rightarrow> min n (length ?hdr))"
      by auto
    show ?thesis
    proof (cases "fd < 0")
      case True
      have "progress_of s1 = (length ?hdr, 0)" using b by (simp add: progress_of_def)
      then have "step_tries s w (Hs_retry nf s1, w1)"
        using calls True f unfolding step_tries_def by (auto intro!: exI [of _ "Call_request ?hdr # calls"])
      moreover have "step_keeps R A s w (Hs_retry nf s1, w1)"
        using spec True s1 b by (auto simp: step_keeps_def same_store_def tcp_call_def)
      ultimately show ?thesis using Some c True f by (simp add: tcp_handshake_try_connect_def Let_def)
    next
      case False
      let ?s2 = "(tcp_session_attach_server fd n s1)\<lparr>ts_server_io := Some (Cb_server_connected, False, True), ts_phase_timer := Some Timer_connect\<rparr>"
      note at = attach_progress [of s1 fd n] b
      have p2: "progress_of ?s2 = reach (progress_of s) (Call_request ?hdr # calls)"
        using at(1) b calls(5) False by simp
      have f2: "ts_tried_servers_mask ?s2 = ts_tried_servers_mask s" "ts_server_idx ?s2 = ts_server_idx s" using f by simp_all
      have hold: "holds R A (session_fds ?s2) None w1" using spec False s1 f by (simp add: session_fds_def)
      have ready: "step_ready R A ?s2 w1" using hold s1 at(2,4) by (simp add: step_ready_def)
      have keep: "step_keeps R A s w (Hs_retry False ?s2, w1)"
        using hold spec s1 at(2,3,4) same_search_trans [OF s1(4)] by (auto simp: step_keeps_def same_store_def tcp_call_def)
      have first: "step_tries s w (step, w1)" if "step_session step = Some ?s2" for step
        using calls p2 f2 that unfolding step_tries_def by (auto intro!: exI [of _ "Call_request ?hdr # calls"])
      show ?thesis
      proof (cases "conn = TCP_CONNECT_CONNECTED")
        case False
        have "step_keeps R A s w (Hs_done (Going (Handshaking ?s2)), w1)" using keep by (simp add: step_keeps_def)
        then show ?thesis using Some c \<open>\<not> fd < 0\<close> False f first [of "Hs_done (Going (Handshaking ?s2))"]
          by (simp add: tcp_handshake_try_connect_def Let_def)
      next
        case True
        obtain step w2 where st: "tcp_handshake_on_server_connected lib (ae_so_error env) (ae_send env) (ae_relay env) ?s2 w1 = (step, w2)" by (metis surj_pair)
        have "posix_memalign_ok (rs_memalign (ae_relay env)) (g_tcp_relay_in_pool w1)" using spec assms(3) by simp
        from connected_spec [OF ready this, of lib "ae_so_error env" "ae_send env"]
        have k: "step_keeps R A ?s2 w1 (step, w2)" "step_sends ?s2 w1 (step, w2)" unfolding st by auto
        obtain more where more: "tcp_log w2 = tcp_log w1 @ more" "\<not> receives more" "connects more = []" "\<And>nk. \<not> superseded nk more"
          "\<And>s'. step_session step = Some s' \<Longrightarrow> progress_of s' = reach (progress_of ?s2) more \<and>
            ts_tried_servers_mask s' = ts_tried_servers_mask ?s2 \<and> ts_server_idx s' = ts_server_idx ?s2"
          using step_sends_calls [OF k(2)] by blast
        have "step_tries s w (step, w2)"
          unfolding step_tries_def prod.case
        proof (intro exI [of _ "(Call_request ?hdr # calls) @ more"] conjI allI impI)
          show "progress_of s' = reach (progress_of s) ((Call_request ?hdr # calls) @ more)" if "step_session step = Some s'" for s'
            using more(5) [OF that] p2 by (simp only: reach_append)
        qed (use calls more f2 in auto)
        moreover have "step_keeps R A s w (step, w2)" by (rule step_keeps_then [OF keep k(1)])
        ultimately show ?thesis using Some c \<open>\<not> fd < 0\<close> True f st by (simp add: tcp_handshake_try_connect_def Let_def)
      qed
    qed
  qed
qed

section \<open>The search\<close>

text \<open>What a step, one turn of the loop, or all of it adds to the log, with connections to servers of \<open>M\<close> only.\<close>

definition step_logs :: "nat set \<Rightarrow> 'c hs_session \<Rightarrow> ('x, 'c) tcp_world \<Rightarrow> 'c hs_step \<times> ('x, 'c) tcp_world \<Rightarrow> bool" where
  "step_logs M s w res \<longleftrightarrow>
     (case res of (step, w') \<Rightarrow>
        \<exists>calls. tcp_log w' = tcp_log w @ calls \<and> \<not> receives calls \<and>
          distinct (connects calls) \<and> set (connects calls) \<subseteq> int ` M \<and>
          (th_initial_payload (ts_phase s) \<noteq> [] \<longrightarrow> \<not> superseded (progress_of s) calls) \<and>
          (\<forall>s'. step_session step = Some s' \<longrightarrow> progress_of s' = reach (progress_of s) calls \<and>
             untried (ts_tried_servers_mask s') \<subseteq> untried (ts_tried_servers_mask s) - nat ` set (connects calls)))"

abbreviation step_nexts :: "'c hs_session \<Rightarrow> ('x, 'c) tcp_world \<Rightarrow> 'c hs_step \<times> ('x, 'c) tcp_world \<Rightarrow> bool" where
  "step_nexts s \<equiv> step_logs (untried (ts_tried_servers_mask s)) s"

lemma request_queued_complete: "request_queued (ts_phase s) \<longleftrightarrow> th_initial_payload (ts_phase s) \<noteq> [] \<and> complete (progress_of s)"
  by (auto simp: request_queued_def complete_def progress_of_def header_len_def header_sent_def word_less_nat_alt word_le_nat_alt)

lemma client_irrelevant [simp]:
  "step_ready R A (s\<lparr>ts_ss_client := c\<rparr>) w = step_ready R A s w" "step_keeps R A (s\<lparr>ts_ss_client := c\<rparr>) w res = step_keeps R A s w res"
  "step_tries (s\<lparr>ts_ss_client := c\<rparr>) w res = step_tries s w res" "session_fds (s\<lparr>ts_ss_client := c\<rparr>) = session_fds s"
  by (simp_all add: step_ready_def step_keeps_def step_tries_def session_fds_def same_search_def progress_of_def header_len_def header_sent_def)

lemma next_server_same [simp]:
  "step_ready R A (next_server i s) w = step_ready R A s w" "step_keeps R A (next_server i s) w res = step_keeps R A s w res"
  "progress_of (next_server i s) = progress_of s" "ts_server_fd (next_server i s) = ts_server_fd s"
  "ts_ss_client (next_server i s) = ts_ss_client s" "same_search s' (next_server i s) = same_search s' s"
  "th_initial_payload (ts_phase (next_server i s)) = th_initial_payload (ts_phase s)" "session_fds (next_server i s) = session_fds s"
  "ts_relay_in (next_server i s) = ts_relay_in s" "ts_phase (next_server i s) = ts_phase s"
  "ts_tried_servers_mask (next_server i s) = ts_tried_servers_mask s OR push_bit (nat i) 1" "ts_server_idx (next_server i s) = word_of_int i"
  by (simp_all add: next_server_def step_ready_def step_keeps_def session_fds_def same_search_def progress_of_def header_len_def header_sent_def)

lemma drop_server_same [simp]:
  "progress_of (drop_server s) = progress_of s" "ts_tried_servers_mask (drop_server s) = ts_tried_servers_mask s"
  "same_search s' (drop_server s) = same_search s' s" "ts_phase (drop_server s) = ts_phase s" "ts_relay_in (drop_server s) = ts_relay_in s"
  "ts_client_fd (drop_server s) = ts_client_fd s"
  by (simp_all add: drop_server_def progress_of_def header_len_def header_sent_def same_search_def)

lemma drop_server_ready:
  assumes "step_ready R A s w"
  defines "w1 \<equiv> (if ts_server_fd s \<ge> 0 then tcp_shut False (ts_server_fd s) w else w)"
  shows "step_ready R A (drop_server s) w1" "ts_server_fd (drop_server s) < 0" "same_store w w1" "g_tcp_relay_in_pool w1 = g_tcp_relay_in_pool w"
proof -
  have h: "holds R A (fd_mset (ts_client_fd s) + fd_mset (ts_server_fd s)) None w" using assms(1) by (simp add: step_ready_def session_fds_def)
  have "holds R A (fd_mset (ts_client_fd s)) None w1"
  proof (cases "ts_server_fd s \<ge> 0")
    case True
    then show ?thesis using holds_shut [OF h] by (simp add: w1_def)
  next
    case False
    then show ?thesis using h by (simp add: w1_def fd_mset_def)
  qed
  moreover show "ts_server_fd (drop_server s) < 0" by (simp add: drop_server_def)
  ultimately show "step_ready R A (drop_server s) w1"
    using assms(1) by (simp add: step_ready_def session_fds_def fd_mset_def)
  show "same_store w w1" "g_tcp_relay_in_pool w1 = g_tcp_relay_in_pool w" by (simp_all add: w1_def)
qed

lemma next_spec:
  assumes "step_ready R A s w" "selectors_ok (ae_next env)"
    "posix_memalign_ok (rs_memalign (ae_relay env)) (g_tcp_relay_in_pool w)"
  shows "step_keeps R A s w (tcp_handshake_next cfg lib env nf s w) \<and> step_nexts s w (tcp_handshake_next cfg lib env nf s w)"
proof -
  let ?report = "if nf then [Call_report (Tcp_failure (uint (ts_server_idx s)))] else []"
  let ?w0 = "if nf then tcp_call [Call_report (Tcp_failure (uint (ts_server_idx s)))] w else w"
  let ?w1 = "if ts_server_fd s \<ge> 0 then tcp_shut False (ts_server_fd s) ?w0 else ?w0"
  let ?close = "if ts_server_fd s \<ge> 0 then [Call_close (ts_server_fd s)] else []"
  have w0: "step_ready R A s ?w0" "same_store w ?w0" "tcp_log ?w0 = tcp_log w @ ?report" "g_tcp_relay_in_pool ?w0 = g_tcp_relay_in_pool w"
    using assms(1) by (simp_all add: step_ready_def)
  note d = drop_server_ready [OF w0(1)]
  have log1: "tcp_log ?w1 = tcp_log w @ ?report @ ?close" by simp
  have quiet1: "list_all quiet (?report @ ?close)" "queued (?report @ ?close) = 0" by simp_all
  have early: "step_nexts s w (step, w')" if "tcp_log w' = tcp_log w @ calls" "list_all quiet calls" "queued calls = 0"
    "\<And>s'. step_session step = Some s' \<Longrightarrow> progress_of s' = progress_of s \<and>
       untried (ts_tried_servers_mask s') \<subseteq> untried (ts_tried_servers_mask s)" for step w' calls
    unfolding step_logs_def prod.case using that quiet_calls [OF that(2)] by (auto intro!: exI [of _ calls])
  show ?thesis
  proof (cases "request_queued (ts_phase s)")
    case True
    have "step_keeps R A s w (Hs_done (closing True s), ?w0)" using w0 by (simp add: step_keeps_def step_ready_def)
    moreover have "step_nexts s w (Hs_done (closing True s), ?w0)" by (rule early [OF w0(3)]) simp_all
    ultimately show ?thesis using True by (simp add: tcp_handshake_next_def Let_def)
  next
    case fresh: False
    have st: "same_store w ?w1" using same_store_trans [OF w0(2) d(3)] .
    have stop: "step_keeps R A s w (Hs_done (closing rst (drop_server s)), ?w1) \<and> step_nexts s w (Hs_done (closing rst (drop_server s)), ?w1)" for rst
    proof
      show "step_keeps R A s w (Hs_done (closing rst (drop_server s)), ?w1)" using d(1) st by (simp add: step_keeps_def step_ready_def)
      show "step_nexts s w (Hs_done (closing rst (drop_server s)), ?w1)" by (rule early [OF log1 quiet1]) simp
    qed
    let ?i = "server_selector_next_best_tcp (ucast (ts_tried_servers_mask s)) (ae_next env)"
    have code: "tcp_handshake_next cfg lib env nf s w =
      (if tcp_has_error (ae_client_error env) then (Hs_done (closing False (drop_server s)), ?w1)
       else if ?i < 0 then (Hs_done (closing True (drop_server s)), ?w1)
       else (case tcp_ctx_get (ae_ctx env) (nat ?i) ?w1 of
               (None, w) \<Rightarrow> (Hs_retry False (next_server ?i (drop_server s)), w)
             | (Some ctx, w) \<Rightarrow>
                 (case ae_client env of
                    None \<Rightarrow> (Hs_retry False (next_server ?i (drop_server s)), w)
                  | Some c \<Rightarrow> tcp_handshake_try_connect cfg lib env ((next_server ?i (drop_server s))\<lparr>ts_ss_client := Some c\<rparr>) w)))"
      using fresh unfolding tcp_handshake_next_def Let_def drop_server_same by (simp only: if_False)
    show ?thesis
    proof (cases "tcp_has_error (ae_client_error env) \<or> ?i < 0")
      case True
      then show ?thesis using stop unfolding code by auto
    next
      case go: False
      define i where "i = nat ?i"
      define s2 where "s2 = next_server ?i (drop_server s)"
      have i: "?i = int i" using go by (simp add: i_def)
      have ui: "i \<in> untried (ts_tried_servers_mask s)" using next_best_untried [OF assms(2)] go by (simp add: i_def)
      have mask2: "untried (ts_tried_servers_mask s2) = untried (ts_tried_servers_mask s) - {i}" using untried_mark [OF ui] by (simp add: s2_def i)
      have idx2: "uint (ts_server_idx s2) = int i" using ui by (simp add: s2_def i untried_def SS_MAX_SERVERS_def unsigned_of_nat take_bit_nat_eq_self)
      have p2: "progress_of s2 = progress_of s" "same_search s s2" by (simp_all add: s2_def)
      obtain ctx w2 where c: "tcp_ctx_get (ae_ctx env) (nat ?i) ?w1 = (ctx, w2)" by (metis surj_pair)
      note cg = ctx_get_holds [OF c]
      have ready2: "step_ready R A s2 w2" using d(1) cg(1) by (simp add: s2_def step_ready_def)
      have st2: "same_store w w2" "g_tcp_relay_in_pool w2 = g_tcp_relay_in_pool w" "tcp_log w2 = tcp_log w @ ?report @ ?close"
        using same_store_trans [OF st cg(2)] cg(4) d(4) w0(4) cg(3) log1 by simp_all
      have keep2: "step_keeps R A s w (Hs_retry False s2, w2)"
        using ready2 st2 p2(2) by (simp add: step_keeps_def step_ready_def)
      have nope: "step_nexts s w (Hs_retry False s2, w2)"
        by (rule early [OF st2(3) quiet1]) (use p2 mask2 in auto)
      have code2: "tcp_handshake_next cfg lib env nf s w =
        (case ctx of None \<Rightarrow> (Hs_retry False s2, w2) | Some _ \<Rightarrow>
           (case ae_client env of None \<Rightarrow> (Hs_retry False s2, w2) | Some c \<Rightarrow> tcp_handshake_try_connect cfg lib env (s2\<lparr>ts_ss_client := Some c\<rparr>) w2))"
        using go c unfolding code s2_def by (simp split: option.split)
      show ?thesis
      proof (cases "ctx = None \<or> ae_client env = None")
        case True
        then show ?thesis using keep2 nope unfolding code2 by (auto split: option.split)
      next
        case False
        then obtain cl where cl: "ae_client env = Some cl" "ctx \<noteq> None" by auto
        let ?s3 = "s2\<lparr>ts_ss_client := Some cl\<rparr>"
        obtain step w3 where t: "tcp_handshake_try_connect cfg lib env ?s3 w2 = (step, w3)" by (metis surj_pair)
        have "step_ready R A ?s3 w2" "ts_server_fd ?s3 < 0" "posix_memalign_ok (rs_memalign (ae_relay env)) (g_tcp_relay_in_pool w2)"
          using ready2 d(2) st2 assms(3) by (simp_all add: s2_def)
        from try_connect_spec [OF this, of cfg lib] have k: "step_keeps R A s2 w2 (step, w3)" "step_tries s2 w2 (step, w3)" unfolding t by simp_all
        then obtain calls where calls: "tcp_log w3 = tcp_log w2 @ calls" "\<not> receives calls" "connects calls \<in> {[], [int i]}"
          "\<not> complete (progress_of s2) \<longrightarrow> \<not> superseded (progress_of s2) calls"
          "\<And>s'. step_session step = Some s' \<Longrightarrow> progress_of s' = reach (progress_of s2) calls \<and>
             ts_tried_servers_mask s' = ts_tried_servers_mask s2"
          using idx2 by (auto simp: step_tries_def)
        obtain pre where pre: "tcp_log w2 = tcp_log w @ pre" "\<And>nk. reach nk pre = nk" "\<And>nk. \<not> superseded nk pre" "connects pre = []" "\<not> receives pre"
          using st2(3) quiet_calls [OF quiet1(1)] quiet1(2) by (metis add_0_right prod.collapse)
        have "step_nexts s w (step, w3)"
          unfolding step_logs_def prod.case
        proof (intro exI [of _ "pre @ calls"] conjI allI impI)
          show "tcp_log w3 = tcp_log w @ pre @ calls" using calls(1) pre(1) by simp
          show "\<not> receives (pre @ calls)" using calls(2) pre(5) by simp
          show "distinct (connects (pre @ calls))" using calls(3) pre(4) by auto
          show "set (connects (pre @ calls)) \<subseteq> int ` untried (ts_tried_servers_mask s)" using calls(3) pre(4) ui by auto
          show "\<not> superseded (progress_of s) (pre @ calls)" if "th_initial_payload (ts_phase s) \<noteq> []"
            using calls(4) fresh that pre(2,3) p2(1) unfolding request_queued_complete superseded_append by simp
          fix s' assume s': "step_session step = Some s'"
          show "progress_of s' = reach (progress_of s) (pre @ calls)" using calls(5) [OF s'] p2(1) pre(2) by simp
          show "untried (ts_tried_servers_mask s') \<subseteq> untried (ts_tried_servers_mask s) - nat ` set (connects (pre @ calls))"
          proof -
            have "nat ` set (connects (pre @ calls)) \<subseteq> {i}" using calls(3) pre(4) by auto
            moreover have "untried (ts_tried_servers_mask s') = untried (ts_tried_servers_mask s) - {i}"
              using calls(5) [OF s'] mask2 by (simp only:)
            ultimately show ?thesis by blast
          qed
        qed
        moreover have "step_keeps R A s w (step, w3)" by (rule step_keeps_then [OF keep2 k(1)])
        moreover have "tcp_handshake_next cfg lib env nf s w = (step, w3)" unfolding code2 cl(1) option.case t using cl(2) by (cases ctx) simp_all
        ultimately show ?thesis by (simp only:)
      qed
    qed
  qed
qed

lemma step_logs_then:
  assumes "step_logs M s w (Hs_retry nf s1, w1)" "step_nexts s1 w1 (step, w')" "same_search s s1"
  shows "step_logs (M \<union> untried (ts_tried_servers_mask s)) s w (step, w')"
proof -
  obtain a where a: "tcp_log w1 = tcp_log w @ a" "\<not> receives a" "distinct (connects a)"
    "set (connects a) \<subseteq> int ` M"
    "th_initial_payload (ts_phase s) \<noteq> [] \<longrightarrow> \<not> superseded (progress_of s) a" "progress_of s1 = reach (progress_of s) a"
    "untried (ts_tried_servers_mask s1) \<subseteq> untried (ts_tried_servers_mask s) - nat ` set (connects a)"
    using assms(1) by (auto simp: step_logs_def)
  obtain b where b: "tcp_log w' = tcp_log w1 @ b" "\<not> receives b" "distinct (connects b)"
    "set (connects b) \<subseteq> int ` untried (ts_tried_servers_mask s1)"
    "th_initial_payload (ts_phase s1) \<noteq> [] \<longrightarrow> \<not> superseded (progress_of s1) b"
    "\<And>s'. step_session step = Some s' \<Longrightarrow> progress_of s' = reach (progress_of s1) b \<and>
       untried (ts_tried_servers_mask s') \<subseteq> untried (ts_tried_servers_mask s1) - nat ` set (connects b)"
    using assms(2) by (auto simp: step_logs_def)
  have "set (connects a) \<inter> set (connects b) = {}"
  proof -
    have "x \<notin> set (connects a)" if xb: "x \<in> set (connects b)" for x
    proof -
      obtain i where "x = int i" "i \<in> untried (ts_tried_servers_mask s1)" using b(4) xb by blast
      then show ?thesis using a(7) by force
    qed
    then show ?thesis by blast
  qed
  then have "distinct (connects (a @ b))" using a(3) b(3) by simp
  moreover have "set (connects (a @ b)) \<subseteq> int ` (M \<union> untried (ts_tried_servers_mask s))" using a(4,7) b(4) by fastforce
  moreover have "th_initial_payload (ts_phase s) \<noteq> [] \<longrightarrow> \<not> superseded (progress_of s) (a @ b)"
    using a(5,6) b(5) assms(3) by (simp add: same_search_def)
  moreover have "untried (ts_tried_servers_mask s') \<subseteq> untried (ts_tried_servers_mask s) - nat ` set (connects (a @ b))"
    if "step_session step = Some s'" for s'
    using a(7) b(6) [OF that] by (simp add: image_Un) blast
  ultimately show ?thesis
    unfolding step_logs_def prod.case using a(1,2,6) b(1,2,6) by (intro exI [of _ "a @ b"]) simp
qed

definition attempts_env_ok :: "(nat \<Rightarrow> ('y, 'x, 'c) attempt_env) \<Rightarrow> ('x, 'c) tcp_world \<Rightarrow> bool" where
  "attempts_env_ok envs w \<longleftrightarrow> attempts_ok envs \<and> (\<forall>n. posix_memalign_ok (rs_memalign (ae_relay (envs n))) (g_tcp_relay_in_pool w))"

lemma retry_spec:
  assumes "step_ready R A s w" "attempts_env_ok envs w" "tcp_handshake_retry cfg lib envs nf s w = Some (out, w')"
  shows "step_keeps R A s w (Hs_done out, w') \<and> step_nexts s w (Hs_done out, w')"
  using assms
proof (induction "card (untried (ts_tried_servers_mask s))" arbitrary: envs nf s w rule: less_induct)
  case less
  have ok: "selectors_ok (ae_next (envs 0))" "posix_memalign_ok (rs_memalign (ae_relay (envs 0))) (g_tcp_relay_in_pool w)"
    using less.prems(2) by (auto simp: attempts_env_ok_def attempts_ok_def)
  obtain step w1 where step: "tcp_handshake_next cfg lib (envs 0) nf s w = (step, w1)" by (metis surj_pair)
  from next_spec [OF less.prems(1) ok, of cfg lib nf] have one: "step_keeps R A s w (step, w1)" "step_nexts s w (step, w1)"
    unfolding step by auto
  show ?case
  proof (cases step)
    case (Hs_done out1)
    then show ?thesis using step less.prems(3) one by (simp add: tcp_handshake_retry.simps [of cfg lib envs])
  next
    case (Hs_retry nf1 s1)
    have s1: "step_ready R A s1 w1" "same_search s s1" "g_tcp_relay_in_pool w1 = g_tcp_relay_in_pool w"
      using one(1) Hs_retry less.prems(1) by (auto simp: step_keeps_def step_ready_def same_search_def)
    have less1: "card (untried (ts_tried_servers_mask s1)) < card (untried (ts_tried_servers_mask s))"
      using next_mask [of cfg lib "envs 0" nf s w nf1 s1 w1] step Hs_retry ok(1) untried_less by metis
    have "attempts_env_ok (\<lambda>n. envs (Suc n)) w1" using less.prems(2) s1(3) by (simp add: attempts_env_ok_def shift_ok)
    moreover have "tcp_handshake_retry cfg lib (\<lambda>n. envs (Suc n)) nf1 s1 w1 = Some (out, w')"
      using less.prems(3) step Hs_retry by (simp add: tcp_handshake_retry.simps [of cfg lib envs])
    ultimately have "step_keeps R A s1 w1 (Hs_done out, w') \<and> step_nexts s1 w1 (Hs_done out, w')"
      by (rule less.hyps [OF less1 s1(1)])
    then show ?thesis
      using one Hs_retry step_keeps_then [of R A s w nf1 s1 w1] s1(2)
        step_logs_then [of "untried (ts_tried_servers_mask s)" s w nf1 s1 w1 "Hs_done out" w'] by simp
  qed
qed

section \<open>Handlers of a session in its handshake\<close>

text \<open>The whole of a handler: what it keeps, and what it adds to the log.\<close>

definition handler_result ::
  "int multiset \<Rightarrow> ptr set \<Rightarrow> 'c hs_session \<Rightarrow> ('x, 'c) tcp_world \<Rightarrow> 'c tcp_outcome \<times> ('x, 'c) tcp_world \<Rightarrow> bool" where
  "handler_result R A s w res \<longleftrightarrow>
     (case res of (out, w') \<Rightarrow>
        holds R A (out_fds out) (out_block out) w' \<and> same_store w w' \<and>
        (\<forall>s'. out = Going (Handshaking s') \<longrightarrow> ts_relay_in s' = None \<and> header_ok (ts_phase s') \<and> ts_client_fd s' = ts_client_fd s))"

lemma step_session_going: "step_session (Hs_done out) = Some s' \<longleftrightarrow> out = Going (Handshaking s')"
  by (auto simp: step_session_def split: tcp_outcome.split tcp_object.split)

lemma step_keeps_result:
  assumes "step_keeps R A s w (Hs_done out, w')" "ts_relay_in s = None" shows "handler_result R A s w (out, w')"
proof -
  have k: "holds R A (step_fds (Hs_done out)) (step_block (Hs_done out)) w'" "same_store w w'"
    "\<And>s'. step_session (Hs_done out) = Some s' \<Longrightarrow> same_search s s' \<and> header_ok (ts_phase s')"
    using assms(1) unfolding step_keeps_def by blast+
  have A: "ts_relay_in s' = None \<and> header_ok (ts_phase s') \<and> ts_client_fd s' = ts_client_fd s" if "out = Going (Handshaking s')" for s'
  proof -
    have "same_search s s' \<and> header_ok (ts_phase s')" by (rule k(3)) (simp only: that step_simps)
    then show ?thesis using assms(2) unfolding same_search_def by (elim conjE) (intro conjI, simp_all only:)
  qed
  show ?thesis unfolding handler_result_def prod.case using k(1,2) A unfolding step_simps by blast
qed

lemma after_step_result:
  assumes "step_ready R A s w" "step_keeps R A s w step" "attempts_env_ok envs w" "after_step cfg lib envs step = Some res"
  shows "handler_result R A s w res"
proof -
  obtain st w1 where st: "step = (st, w1)" by (cases step)
  obtain out w' where res: "res = (out, w')" by (cases res)
  have r: "ts_relay_in s = None" using assms(1) by (simp add: step_ready_def)
  show ?thesis
  proof (cases st)
    case (Hs_done out1)
    then show ?thesis using assms(2,4) st r step_keeps_result by (auto simp: after_step_def)
  next
    case (Hs_retry nf s1)
    have k: "step_keeps R A s w (Hs_retry nf s1, w1)" using assms(2) st Hs_retry by simp
    then have "step_ready R A s1 w1" "attempts_env_ok envs w1"
      using assms(1,3) by (auto simp: step_keeps_def step_ready_def same_search_def attempts_env_ok_def)
    from retry_spec [OF this, of cfg lib nf out w'] assms(4) st Hs_retry res
    have "step_keeps R A s1 w1 (Hs_done out, w')" by (simp add: after_step_def)
    then have "step_keeps R A s w (Hs_done out, w')" by (rule step_keeps_then [OF k])
    from step_keeps_result [OF this r] show ?thesis by (simp only: res)
  qed
qed

lemma start_after_result:
  assumes "step_ready R A s w" "ts_server_fd s < 0" "attempts_env_ok envs w"
    "tcp_handshake_start_after_initial_payload cfg lib envs s w = Some res"
  shows "handler_result R A s w res"
proof -
  let ?s = "s\<lparr>ts_phase_timer := None, ts_client_io := None\<rparr>"
  have same: "step_ready R A ?s w" "\<And>res. handler_result R A ?s w res = handler_result R A s w res" "session_fds ?s = session_fds s"
    using assms(1) by (simp_all add: step_ready_def session_fds_def handler_result_def)
  show ?thesis
  proof (cases "th_initial_payload (ts_phase s) = [] \<and> th_client_eof (ts_phase s)")
    case True
    then have "res = (closing False ?s, w)" using assms(4) by (simp add: tcp_handshake_start_after_initial_payload_def)
    then show ?thesis using assms(1) same(3) by (simp add: handler_result_def step_ready_def)
  next
    case False
    have posix: "posix_memalign_ok (rs_memalign (ae_relay (envs 0))) (g_tcp_relay_in_pool w)" "attempts_env_ok (\<lambda>n. envs (Suc n)) w"
      using assms(3) by (simp_all add: attempts_env_ok_def shift_ok)
    have "ts_server_fd ?s < 0" using assms(2) by simp
    from try_connect_spec [OF same(1) this posix(1), of cfg lib]
    have "step_keeps R A ?s w (tcp_handshake_try_connect cfg lib (envs 0) ?s w)" by blast
    moreover have "after_step cfg lib (\<lambda>n. envs (Suc n)) (tcp_handshake_try_connect cfg lib (envs 0) ?s w) = Some res"
      using assms(4) False by (auto simp: tcp_handshake_start_after_initial_payload_def tcp_handshake_start_def)
    ultimately show ?thesis using after_step_result [OF same(1) _ posix(2)] same(2) by blast
  qed
qed

lemma read_initial_same:
  "tcp_handshake_read_initial_payload fd recvs h = (Some (need, h'), calls) \<Longrightarrow>
   th_request_header h' = th_request_header h \<and> th_request_header_len h' = th_request_header_len h \<and>
   th_request_header_sent h' = th_request_header_sent h \<and> th_target h' = th_target h"
proof (induction recvs arbitrary: h need h' calls)
  case (Cons r rs)
  show ?case
  proof (cases "length (th_initial_payload h) \<ge> TCP_SS_PLAIN_BUFSIZ")
    case True
    then show ?thesis using Cons.prems by simp
  next
    case False
    show ?thesis
    proof (cases r)
      case (IoErr e)
      then show ?thesis using Cons False by (auto split: if_splits)
    next
      case (IoOk d)
      let ?d = "take (TCP_SS_PLAIN_BUFSIZ - length (th_initial_payload h)) d"
      obtain res more where rec: "tcp_handshake_read_initial_payload fd rs (h\<lparr>th_initial_payload := th_initial_payload h @ ?d\<rparr>) = (res, more)"
        by (metis surj_pair)
      show ?thesis
      proof (cases "?d = []")
        case True
        then show ?thesis using Cons.prems False IoOk by (auto simp: Let_def)
      next
        case d: False
        then have "res = Some (need, h')" using Cons.prems False IoOk rec by (simp add: Let_def)
        then show ?thesis using Cons.IH rec by fastforce
      qed
    qed
  qed
qed auto

lemma read_then_result:
  assumes "step_ready R A s w" "ts_server_fd s < 0" "attempts_env_ok envs w" "read_then cfg lib recvs envs wait s w = Some res"
    "\<And>f x. wait = Some f \<Longrightarrow> \<exists>io t. f x = x\<lparr>ts_client_io := io, ts_phase_timer := t\<rparr>"
  shows "handler_result R A s w res"
proof -
  obtain r calls where r: "tcp_handshake_read_initial_payload (ts_client_fd s) recvs (ts_phase s) = (r, calls)" by (metis surj_pair)
  have base: "holds R A (session_fds s) None w" "ts_relay_in s = None" "header_ok (ts_phase s)" using assms(1) by (auto simp: step_ready_def)
  show ?thesis
  proof (cases r)
    case None
    then show ?thesis using assms(4) r base by (auto simp: read_then_def handler_result_def)
  next
    case (Some x)
    obtain need h where x: "x = (need, h)" by (cases x)
    let ?s = "s\<lparr>ts_phase := h\<rparr>" and ?w = "tcp_call calls w"
    have "header_ok h" using read_initial_same [of "ts_client_fd s" recvs "ts_phase s" need h calls] r Some x base(3) by (simp add: header_ok_def)
    then have ready: "step_ready R A ?s ?w" "ts_server_fd ?s < 0" "attempts_env_ok envs ?w"
      using base assms(2,3) by (simp_all add: step_ready_def session_fds_def attempts_env_ok_def)
    have go: "handler_result R A s w res" if "tcp_handshake_start_after_initial_payload cfg lib envs ?s ?w = Some res"
      using start_after_result [OF ready that] by (auto simp: handler_result_def same_store_def tcp_call_def)
    show ?thesis
    proof (cases wait)
      case None
      then show ?thesis using assms(4) r Some x go by (simp add: read_then_def Let_def)
    next
      case w: (Some f)
      obtain io t where f: "f ?s = ?s\<lparr>ts_client_io := io, ts_phase_timer := t\<rparr>" using assms(5) [OF w] by blast
      show ?thesis
      proof (cases need)
        case True
        then have "res = (Going (Handshaking (f ?s)), ?w)" using assms(4) r Some x w by (simp add: read_then_def Let_def)
        moreover have "f ?s = s\<lparr>ts_client_io := io, ts_phase_timer := t, ts_phase := h\<rparr>" by (simp add: f)
        ultimately show ?thesis using \<open>header_ok h\<close> base by (simp add: handler_result_def session_fds_def)
      next
        case False
        then show ?thesis using assms(4) r Some x w go by (simp add: read_then_def Let_def)
      qed
    qed
  qed
qed

end
