(* ===== verification/TcpLife.thy ===== *)
theory TcpLife
  imports TcpSearch
begin

text \<open>
  All sessions of a thread: every descriptor and every block belongs to exactly one session, whatever the handlers do, and
  closing all sessions gives everything back.
\<close>

section \<open>What a session in its handshake waits for\<close>

text \<open>Either for the client's first bytes, without a server; or for a server, for a limited time.\<close>

definition awaiting_payload :: "'c hs_session \<Rightarrow> bool" where
  "awaiting_payload s \<longleftrightarrow> ts_client_io s = Some (Cb_initial_payload_read, True, False) \<and>
     ts_phase_timer s = Some Timer_initial_payload \<and> ts_server_fd s < 0 \<and> ts_server_io s = None \<and> ts_ss_client s \<noteq> None"

definition connecting :: "'c hs_session \<Rightarrow> bool" where
  "connecting s \<longleftrightarrow> ts_client_io s = None \<and> ts_phase_timer s = Some Timer_connect \<and> 0 \<le> ts_server_fd s \<and> ts_ss_client s \<noteq> None \<and>
     (ts_server_io s = Some (Cb_server_connected, False, True) \<or> ts_server_io s = Some (Cb_server_writable, False, True))"

lemma enter_relay_going: "tcp_session_enter_relay lib env s w \<noteq> (Going (Handshaking s'), w')"
  by (auto simp: tcp_session_enter_relay_def Let_def split: prod.split option.split sum.split)

lemma send_header_going:
  assumes "tcp_handshake_send_request_header send s w = (r, w')"
  shows "case r of Header_more s1 \<Rightarrow> connecting s \<longrightarrow> connecting s1
    | Header_failed step \<Rightarrow> \<forall>s'. step \<noteq> Hs_done (Going (Handshaking s')) | Header_sent _ \<Rightarrow> True"
  using assms
  by (simp add: tcp_handshake_send_request_header_def Let_def split: io.splits if_splits) (auto simp: connecting_def)

lemma writable_going:
  assumes "connecting s" "tcp_handshake_on_server_writable lib send relay s w = (Hs_done (Going (Handshaking s')), w')"
  shows "connecting s'"
proof -
  obtain r w1 where r: "tcp_handshake_send_request_header send s w = (r, w1)" by (metis surj_pair)
  note spec = send_header_going [OF r]
  show ?thesis
  proof (cases r)
    case (Header_sent s1)
    obtain out w2 where "tcp_session_enter_relay lib relay s1 w1 = (out, w2)" by (metis surj_pair)
    then show ?thesis using assms(2) r Header_sent enter_relay_going [of lib relay s1 w1 s' w2]
      by (simp add: tcp_handshake_on_server_writable_def)
  qed (use assms r spec in \<open>auto simp: tcp_handshake_on_server_writable_def\<close>)
qed

lemma connected_going:
  assumes "connecting s" "tcp_handshake_on_server_connected lib so_error send relay s w = (Hs_done (Going (Handshaking s')), w')"
  shows "connecting s'"
proof -
  have "connecting (s\<lparr>ts_server_io := map_option (\<lambda>(_, ev). (Cb_server_writable, ev)) (ts_server_io s)\<rparr>)"
    using assms(1) by (auto simp: connecting_def)
  from writable_going [OF this] show ?thesis
    using assms(2) enter_relay_going [of lib relay s w s' w']
    by (auto simp: tcp_handshake_on_server_connected_def split: io.splits option.splits if_splits prod.splits)
qed

lemma try_connect_going:
  assumes "ts_client_io s = None" "ts_ss_client s \<noteq> None" "tcp_handshake_try_connect cfg lib env s w = (Hs_done (Going (Handshaking s')), w')"
  shows "connecting s'"
proof -
  let ?s = "s\<lparr>ts_selector_attempt_epoch := server_selector_tcp_attempt (uint (ts_server_idx s)) (ae_attempt env)\<rparr>"
  obtain s1 where b: "tcp_handshake_build_request_header lib ?s = Some s1"
    using assms(3) by (cases "tcp_handshake_build_request_header lib ?s") (auto simp: tcp_handshake_try_connect_def Let_def)
  then have s1: "ts_client_io s1 = None" "ts_ss_client s1 \<noteq> None"
    using assms(1) by (auto simp: tcp_handshake_build_request_header_def Let_def split: option.splits prod.splits if_splits)
  obtain fd n conn nf w1 where c: "tcp_handshake_connect_server cfg env (uint (ts_server_idx s)) (th_request_header (ts_phase s1))
      (tcp_call [Call_request (th_request_header (ts_phase s1))] w) = ((fd, n, conn, nf), w1)" by (metis surj_pair)
  have fd: "\<not> fd < 0" using assms(3) b c by (auto simp: tcp_handshake_try_connect_def Let_def)
  let ?s2 = "(tcp_session_attach_server fd n s1)\<lparr>ts_server_io := Some (Cb_server_connected, False, True), ts_phase_timer := Some Timer_connect\<rparr>"
  have s2: "connecting ?s2" using s1 fd by (simp add: connecting_def)
  show ?thesis
  proof (cases "conn = TCP_CONNECT_CONNECTED")
    case True
    then have "tcp_handshake_on_server_connected lib (ae_so_error env) (ae_send env) (ae_relay env) ?s2 w1 = (Hs_done (Going (Handshaking s')), w')"
      using assms(3) b c fd by (simp add: tcp_handshake_try_connect_def Let_def)
    from connected_going [OF s2 this] show ?thesis .
  next
    case False
    then have "s' = ?s2" using assms(3) b c fd by (simp add: tcp_handshake_try_connect_def Let_def)
    then show ?thesis using s2 by (simp only:)
  qed
qed

text \<open>The client's watcher stays as it is through the search.\<close>

lemma writable_io: "tcp_handshake_on_server_writable lib send relay s w = (Hs_retry nf s', w') \<Longrightarrow> ts_client_io s' = ts_client_io s"
  by (auto simp: tcp_handshake_on_server_writable_def tcp_handshake_send_request_header_def Let_def split: prod.splits io.splits if_splits)

lemma connected_io: "tcp_handshake_on_server_connected lib e send relay s w = (Hs_retry nf s', w') \<Longrightarrow> ts_client_io s' = ts_client_io s"
  by (auto simp: tcp_handshake_on_server_connected_def split: io.splits option.splits if_splits prod.splits dest!: writable_io)

lemma try_connect_io: "tcp_handshake_try_connect cfg lib env s w = (Hs_retry nf s', w') \<Longrightarrow> ts_client_io s' = ts_client_io s"
  by (auto simp: tcp_handshake_try_connect_def Let_def split: option.splits prod.splits if_splits dest!: connected_io build_header_fields)

lemma search_io: "ts_client_io (drop_server s) = ts_client_io s" "ts_client_io (next_server i s) = ts_client_io s"
  by (simp_all add: drop_server_def next_server_def)

lemma next_io: "tcp_handshake_next cfg lib env nf s w = (Hs_retry nf' s', w') \<Longrightarrow> ts_client_io s' = ts_client_io s"
  by (auto simp: tcp_handshake_next_def Let_def search_io split: if_splits option.splits prod.splits dest!: try_connect_io)

lemma next_going:
  assumes "ts_client_io s = None" "tcp_handshake_next cfg lib env nf s w = (Hs_done (Going (Handshaking s')), w')"
  shows "connecting s'"
proof -
  obtain s1 w1 c where "tcp_handshake_try_connect cfg lib env (s1\<lparr>ts_ss_client := Some c\<rparr>) w1 = (Hs_done (Going (Handshaking s')), w')"
    "ts_client_io s1 = ts_client_io s"
    using assms(2) by (auto simp: tcp_handshake_next_def Let_def search_io split: if_splits option.splits prod.splits)
  then show ?thesis using try_connect_going [of "s1\<lparr>ts_ss_client := Some c\<rparr>"] assms(1) by simp
qed

lemma retry_going:
  fixes res :: "'c tcp_outcome \<times> ('x, 'c) tcp_world"
  assumes "tcp_handshake_retry cfg lib envs nf s w = Some res"
  shows "ts_client_io s = None \<longrightarrow> (\<forall>s'. fst res = Going (Handshaking s') \<longrightarrow> connecting s')"
  using assms
proof (rule tcp_handshake_retry.raw_induct [of "\<lambda>cfg lib envs nf s w res.
    ts_client_io s = None \<longrightarrow> (\<forall>s'. fst res = Going (Handshaking s') \<longrightarrow> connecting s')", rotated])
  fix rec :: "tcp_config \<Rightarrow> 'c ss2022_tcp \<Rightarrow> (nat \<Rightarrow> ('y, 'x, 'c) attempt_env) \<Rightarrow> bool \<Rightarrow> 'c hs_session \<Rightarrow> ('x, 'c) tcp_world \<Rightarrow>
      ('c tcp_outcome \<times> ('x, 'c) tcp_world) option"
    and cfg lib nf and envs :: "nat \<Rightarrow> ('y, 'x, 'c) attempt_env" and s and w :: "('x, 'c) tcp_world" and res
  assume IH: "\<And>cfg lib envs nf s w res. rec cfg lib envs nf s w = Some res \<Longrightarrow>
      ts_client_io s = None \<longrightarrow> (\<forall>s'. fst res = Going (Handshaking s') \<longrightarrow> connecting s')"
    and res: "(case tcp_handshake_next cfg lib (envs 0) nf s w of
        (Hs_done out, w) \<Rightarrow> Some (out, w) | (Hs_retry nf s, w) \<Rightarrow> rec cfg lib (\<lambda>n. envs (Suc n)) nf s w) = Some res"
  obtain step w1 where step: "tcp_handshake_next cfg lib (envs 0) nf s w = (step, w1)" by (metis surj_pair)
  show "ts_client_io s = None \<longrightarrow> (\<forall>s'. fst res = Going (Handshaking s') \<longrightarrow> connecting s')"
  proof (cases step)
    case (Hs_done out)
    then show ?thesis using res step next_going [of s cfg lib "envs 0" nf w _ w1] by auto
  next
    case (Hs_retry nf1 s1)
    then have "rec cfg lib (\<lambda>n. envs (Suc n)) nf1 s1 w1 = Some res" using res step by simp
    from IH [OF this] show ?thesis using next_io [of cfg lib "envs 0" nf s w nf1 s1 w1] step Hs_retry by simp
  qed
qed

lemma after_step_going:
  assumes "after_step cfg lib envs (step, w) = Some (Going (Handshaking s'), w')"
    "\<And>s1. step = Hs_done (Going (Handshaking s1)) \<Longrightarrow> connecting s1" "\<And>nf s1. step = Hs_retry nf s1 \<Longrightarrow> ts_client_io s1 = None"
  shows "connecting s'"
proof (cases step)
  case (Hs_retry nf s1)
  then show ?thesis using assms(1,3) retry_going [of cfg lib envs nf s1 w "(Going (Handshaking s'), w')"] by (simp add: after_step_def)
qed (use assms in \<open>simp add: after_step_def\<close>)

lemma start_after_going:
  assumes "tcp_handshake_start_after_initial_payload cfg lib envs s w = Some (Going (Handshaking s'), w')" "ts_ss_client s \<noteq> None"
  shows "connecting s'"
proof -
  let ?s = "s\<lparr>ts_phase_timer := None, ts_client_io := None\<rparr>"
  obtain step w1 where t: "tcp_handshake_try_connect cfg lib (envs 0) ?s w = (step, w1)" by (metis surj_pair)
  have "after_step cfg lib (\<lambda>n. envs (Suc n)) (step, w1) = Some (Going (Handshaking s'), w')"
    using assms(1) t by (auto simp: tcp_handshake_start_after_initial_payload_def tcp_handshake_start_def Let_def split: if_splits)
  then show ?thesis
  proof (rule after_step_going)
    show "connecting s1" if "step = Hs_done (Going (Handshaking s1))" for s1
      using try_connect_going [of ?s cfg lib "envs 0" w s1 w1] t assms(2) that by simp
    show "ts_client_io s1 = None" if "step = Hs_retry nf s1" for nf s1
      using try_connect_io [of cfg lib "envs 0" ?s w nf s1 w1] t that by simp
  qed
qed

lemma read_then_going:
  assumes "read_then cfg lib recvs envs wait s w = Some (Going (Handshaking s'), w')" "ts_ss_client s \<noteq> None"
    "\<And>f h. wait = Some f \<Longrightarrow> awaiting_payload (f (s\<lparr>ts_phase := h\<rparr>))"
  shows "awaiting_payload s' \<or> connecting s'"
proof -
  obtain r calls where r: "tcp_handshake_read_initial_payload (ts_client_fd s) recvs (ts_phase s) = (r, calls)" by (metis surj_pair)
  then obtain need h where x: "r = Some (need, h)" using assms(1) by (cases r) (auto simp: read_then_def)
  have go: "connecting s'" if "tcp_handshake_start_after_initial_payload cfg lib envs (s\<lparr>ts_phase := h\<rparr>) (tcp_call calls w) = Some (Going (Handshaking s'), w')"
    by (rule start_after_going [OF that]) (use assms(2) in simp)
  show ?thesis
    using assms(1) r x go assms(3) [of _ h] by (auto simp: read_then_def Let_def split: option.splits if_splits)
qed

section \<open>The invariant\<close>

definition obj_ok :: "'c tcp_object \<Rightarrow> bool" where
  "obj_ok obj = (case obj of Handshaking s \<Rightarrow> ts_relay_in s = None \<and> header_ok (ts_phase s) \<and> (awaiting_payload s \<or> connecting s) | Relaying s \<Rightarrow> True)"

definition obj_fds :: "'c tcp_object \<Rightarrow> int multiset" where
  "obj_fds obj = out_fds (Going obj)"

definition obj_block :: "'c tcp_object \<Rightarrow> ptr option" where
  "obj_block obj = out_block (Going obj)"

definition all_fds :: "(ptr \<rightharpoonup> 'c tcp_object) \<Rightarrow> ptr list \<Rightarrow> int multiset" where
  "all_fds m ps = sum_list (map (\<lambda>p. obj_fds (the (m p))) ps)"

definition all_blocks :: "(ptr \<rightharpoonup> 'c tcp_object) \<Rightarrow> ptr list \<Rightarrow> ptr list" where
  "all_blocks m ps = List.map_filter (\<lambda>p. obj_block (the (m p))) ps"

definition tcp_inv :: "('x, 'c) tcp_world \<Rightarrow> ptr list \<Rightarrow> bool" where
  "tcp_inv w ps \<longleftrightarrow>
     session_list w ps \<and> dom (tcp_mem w) = set ps \<and> pool_of (g_tcp_session_pool w) (set ps) \<and>
     mset (tcp_fds w) = all_fds (tcp_mem w) ps \<and> distinct (all_blocks (tcp_mem w) ps) \<and>
     pool_of (g_tcp_relay_in_pool w) (set (all_blocks (tcp_mem w) ps)) \<and> (\<forall>p \<in> set ps. obj_ok (the (tcp_mem w p)))"

lemma all_append [simp]:
  "all_fds m (as @ bs) = all_fds m as + all_fds m bs" "all_blocks m (as @ bs) = all_blocks m as @ all_blocks m bs"
  "all_fds m (p # bs) = obj_fds (the (m p)) + all_fds m bs"
  "all_blocks m (p # bs) = (case obj_block (the (m p)) of None \<Rightarrow> [] | Some b \<Rightarrow> [b]) @ all_blocks m bs"
  "all_fds m [] = {#}" "all_blocks m [] = []"
  by (simp_all add: all_fds_def all_blocks_def List.map_filter_def split: option.split)

lemma all_upd [simp]:
  "p \<notin> set ps \<Longrightarrow> all_fds (m(p := x)) ps = all_fds m ps" "p \<notin> set ps \<Longrightarrow> all_blocks (m(p := x)) ps = all_blocks m ps"
proof -
  assume p: "p \<notin> set ps"
  have "map (\<lambda>q. obj_fds (the ((m(p := x)) q))) ps = map (\<lambda>q. obj_fds (the (m q))) ps"
    by (rule map_cong [OF refl]) (use p in auto)
  then show "all_fds (m(p := x)) ps = all_fds m ps" unfolding all_fds_def by (simp only:)
  have "filter (\<lambda>q. obj_block (the ((m(p := x)) q)) \<noteq> None) ps = filter (\<lambda>q. obj_block (the (m q)) \<noteq> None) ps"
    by (rule filter_cong [OF refl]) (use p in auto)
  moreover have "map (\<lambda>q. the (obj_block (the ((m(p := x)) q)))) (filter P ps) = map (\<lambda>q. the (obj_block (the (m q)))) (filter P ps)" for P
    by (rule map_cong [OF refl]) (use p in auto)
  ultimately show "all_blocks (m(p := x)) ps = all_blocks m ps" by (simp add: all_blocks_def List.map_filter_def comp_def)
qed

lemma all_set_perm: "set (all_blocks m (as @ p # bs)) = set (all_blocks m (as @ bs)) \<union> set_option (obj_block (the (m p)))"
  by (cases "obj_block (the (m p))") auto

lemma distinct_perm:
  "distinct (all_blocks m (as @ p # bs)) \<longleftrightarrow>
   distinct (all_blocks m (as @ bs)) \<and> set_option (obj_block (the (m p))) \<inter> set (all_blocks m (as @ bs)) = {}"
  by (cases "obj_block (the (m p))") auto

text \<open>One session and the others.\<close>

lemma inv_focus:
  assumes "tcp_inv w (as @ p # bs)"
  shows "holds (all_fds (tcp_mem w) (as @ bs)) (set (all_blocks (tcp_mem w) (as @ bs))) (obj_fds (the (tcp_mem w p))) (obj_block (the (tcp_mem w p))) w"
  using assms unfolding tcp_inv_def holds_def distinct_perm all_set_perm by (simp add: add_ac)

lemma inv_going:
  assumes "tcp_inv w (as @ p # bs)" "same_store w w'" "obj_ok obj"
    "holds (all_fds (tcp_mem w) (as @ bs)) (set (all_blocks (tcp_mem w) (as @ bs))) (obj_fds obj) (obj_block obj) w'"
  shows "tcp_inv (w'\<lparr>tcp_mem := (tcp_mem w')(p \<mapsto> obj)\<rparr>) (as @ p # bs)"
proof -
  have d: "p \<notin> set (as @ bs)" using assms(1) by (auto simp: tcp_inv_def session_list_def)
  let ?m = "(tcp_mem w)(p \<mapsto> obj)"
  have m: "tcp_mem w' = tcp_mem w" using assms(2) by (simp add: same_store_def)
  have "all_fds ?m (as @ p # bs) = all_fds (tcp_mem w) (as @ bs) + obj_fds obj" using d by (simp add: add_ac)
  moreover have "distinct (all_blocks (tcp_mem w) (as @ bs))" using assms(1) unfolding tcp_inv_def distinct_perm by blast
  then have "distinct (all_blocks ?m (as @ p # bs))" using assms(4) d unfolding distinct_perm holds_def by simp
  moreover have "set (all_blocks ?m (as @ p # bs)) = set (all_blocks (tcp_mem w) (as @ bs)) \<union> set_option (obj_block obj)"
    using d unfolding all_set_perm by simp
  moreover have "\<forall>q \<in> set (as @ p # bs). obj_ok (the (?m q))" using assms(1,3) by (auto simp: tcp_inv_def)
  moreover have "dom ?m = set (as @ p # bs)" using assms(1) by (auto simp: tcp_inv_def)
  moreover have "session_list (w'\<lparr>tcp_mem := ?m\<rparr>) (as @ p # bs)" using assms(1,2) by (simp add: tcp_inv_def session_list_def same_store_def)
  ultimately show ?thesis
    using assms(1,2,4) m by (simp add: tcp_inv_def holds_def same_store_def)
qed

lemma holds_fd:
  assumes "holds R A (fds + fd_mset fd) blk w"
  shows "holds R A fds blk (if fd \<ge> 0 then tcp_shut rst fd w else w)"
  using holds_shut [OF assms, of rst] assms by (cases "0 \<le> fd") (simp_all add: fd_mset_def)

lemma close_resources:
  fixes rst :: bool
  assumes "holds R A (fd_mset c + fd_mset v) blk w"
  defines "w1 \<equiv> (if c \<ge> 0 then tcp_shut rst c w else w)"
  defines "w2 \<equiv> (if v \<ge> 0 then tcp_shut rst v w1 else w1)"
  defines "w3 \<equiv> (case blk of None \<Rightarrow> w2 | Some b \<Rightarrow> w2\<lparr>g_tcp_relay_in_pool := pool_free b (g_tcp_relay_in_pool w2)\<rparr>)"
  shows "holds R A {#} None w3 \<and> same_store w w3"
proof -
  have "holds R A (fd_mset v + fd_mset c) blk w" using assms(1) by (simp add: add.commute)
  from holds_fd [OF this, of rst] have "holds R A ({#} + fd_mset v) blk w1" by (simp add: w1_def)
  from holds_fd [OF this, of rst] have h2: "holds R A {#} blk w2" by (simp add: w2_def)
  have "same_store w w2" by (simp add: w1_def w2_def)
  moreover have "holds R A {#} None w3"
  proof (cases blk)
    case (Some b)
    then have "pool_of (g_tcp_relay_in_pool w2) (insert b A)" "b \<notin> A" using h2 by (auto simp: holds_def)
    then show ?thesis using h2 Some pool_free_alloc by (auto simp: w3_def holds_def)
  qed (use h2 in \<open>simp add: w3_def\<close>)
  ultimately show ?thesis by (auto simp: w3_def same_store_def split: option.split)
qed

lemma inv_closing:
  assumes "tcp_inv w (as @ p # bs)" "same_store w w'"
    "holds (all_fds (tcp_mem w) (as @ bs)) (set (all_blocks (tcp_mem w) (as @ bs))) (fd_mset c + fd_mset v) blk w'"
  shows "tcp_inv (tcp_session_close p rst c v blk w') (as @ bs)"
proof -
  define w1 where "w1 = (if c \<ge> 0 then tcp_shut rst c w' else w')"
  define w2 where "w2 = (if v \<ge> 0 then tcp_shut rst v w1 else w1)"
  define w3 where "w3 = (case blk of None \<Rightarrow> w2 | Some b \<Rightarrow> w2\<lparr>g_tcp_relay_in_pool := pool_free b (g_tcp_relay_in_pool w2)\<rparr>)"
  have h: "holds (all_fds (tcp_mem w) (as @ bs)) (set (all_blocks (tcp_mem w) (as @ bs))) {#} None w3" "same_store w w3"
    using close_resources [OF assms(3), of rst] same_store_trans [OF assms(2)] unfolding w1_def w2_def w3_def by blast+
  have p: "p \<notin> set (as @ bs)" using assms(1) by (auto simp: tcp_inv_def session_list_def)
  have res: "tcp_session_close p rst c v blk w' =
      (tcp_session_unlink p w3)\<lparr>g_tcp_session_pool := pool_free p (g_tcp_session_pool w3), tcp_mem := (tcp_mem w3)(p := None)\<rparr>"
    unfolding tcp_session_close_def Let_def w1_def [symmetric] w2_def [symmetric] w3_def [symmetric]
    by (simp add: tcp_session_unlink_def Let_def split: option.split)
  have unlink: "tcp_fds (tcp_session_unlink p w3) = tcp_fds w3" "g_tcp_relay_in_pool (tcp_session_unlink p w3) = g_tcp_relay_in_pool w3"
    by (simp_all add: tcp_session_unlink_def Let_def split: option.split)
  have "session_list w3 (as @ p # bs)" using assms(1) h(2) by (simp add: tcp_inv_def session_list_def same_store_def)
  from session_unlink_list [OF this] have "session_list (tcp_session_unlink p w3) (as @ bs)" .
  moreover have "pool_of (pool_free p (g_tcp_session_pool w3)) (set (as @ bs))"
    using pool_free_alloc [of "g_tcp_session_pool w" p "set (as @ bs)"] p assms(1) h(2) by (simp add: tcp_inv_def same_store_def)
  moreover have "dom ((tcp_mem w3)(p := None)) = set (as @ bs)" using assms(1) h(2) p by (auto simp: tcp_inv_def same_store_def)
  moreover have "distinct (all_blocks (tcp_mem w) (as @ bs))" using assms(1) unfolding tcp_inv_def distinct_perm by blast
  moreover have "\<forall>q \<in> set (as @ bs). obj_ok (the (tcp_mem w q))" using assms(1) by (simp add: tcp_inv_def)
  ultimately show ?thesis
    using h p unfolding res by (simp add: tcp_inv_def session_list_def unlink holds_def same_store_def)
qed

lemma inv_finish:
  assumes "tcp_inv w (as @ p # bs)" "same_store w w'" "\<And>obj. out = Going obj \<Longrightarrow> obj_ok obj"
    "holds (all_fds (tcp_mem w) (as @ bs)) (set (all_blocks (tcp_mem w) (as @ bs))) (out_fds out) (out_block out) w'"
  shows "tcp_inv (tcp_finish p (out, w')) (case out of Going _ \<Rightarrow> as @ p # bs | Closing _ _ _ _ \<Rightarrow> as @ bs)"
proof (cases out)
  case (Closing rst c v blk)
  then show ?thesis using inv_closing [OF assms(1,2), of c v blk rst] assms(4) by (simp add: tcp_finish_def out_fds_def out_block_def)
next
  case (Going obj)
  then show ?thesis using inv_going [OF assms(1,2) assms(3)] assms(4) by (simp add: tcp_finish_def obj_fds_def obj_block_def)
qed

section \<open>Events\<close>

text \<open>The relay leaves the descriptors and the block of a session alone.\<close>

definition conn_of :: "('c, 'p) tcp_session \<Rightarrow> int \<times> int \<times> ptr option" where
  "conn_of s = (ts_client_fd s, ts_server_fd s, ts_relay_in s)"

lemma process_conn: "fst (tcp_relay_process_server_data lib s) = Inr s' \<Longrightarrow> conn_of s' = conn_of s"
proof (induction lib s arbitrary: s' rule: tcp_relay_process_server_data.induct)
  case (1 lib s)
  have h: "conn_of s1 = conn_of s" if "open_header_part lib s = (Opened s1, calls)" for s1 calls
    using that by (auto simp: open_header_part_def Let_def conn_of_def split: if_splits option.splits prod.splits)
  have l: "conn_of s2 = conn_of s1" if "open_length_part lib s1 = Opened s2" for s1 s2
    using that by (auto simp: open_length_part_def Let_def conn_of_def split: if_splits option.splits prod.splits)
  have p: "conn_of s3 = conn_of s2" if "open_payload_part lib s2 = Opened s3" for s2 s3
    using that by (auto simp: open_payload_part_def Let_def conn_of_def split: if_splits option.splits prod.splits)
  obtain p1 calls where h1: "open_header_part lib s = (p1, calls)" by (metis surj_pair)
  show ?case
  proof (cases "rl_out_len (ts_phase s) \<noteq> 0")
    case True
    then show ?thesis using 1(2) by (simp add: tcp_relay_process_server_data.simps [of lib s])
  next
    case False
    then have out: "rl_out_len (ts_phase s) = 0" by simp
    note code = tcp_relay_process_server_data.simps [of lib s] out h1
    show ?thesis
    proof (cases p1)
      case (Opened s1)
      then have c1: "conn_of s1 = conn_of s" using h h1 by blast
      show ?thesis
      proof (cases "open_length_part lib s1")
        case Opened2: (Opened s2)
        have c2: "conn_of s2 = conn_of s" using l [OF Opened2] c1 by simp
        show ?thesis
        proof (cases "open_payload_part lib s2")
          case Opened3: (Opened s3)
          have c3: "conn_of s3 = conn_of s" using p [OF Opened3] c2 by simp
          show ?thesis
          proof (cases "rl_out_len (ts_phase s3) = 0")
            case True
            obtain r more where rec: "tcp_relay_process_server_data lib s3 = (r, more)" by (metis surj_pair)
            have "tcp_relay_process_server_data lib s = (r, calls @ more)"
              using out h1 Opened Opened2 Opened3 True rec by (simp add: tcp_relay_process_server_data.simps [of lib s])
            then have "r = Inr s'" using 1(2) by simp
            then have "fst (tcp_relay_process_server_data lib s3) = Inr s'" by (simp add: rec)
            then show ?thesis using 1(1) [OF _ h1 [symmetric] Opened Opened2 Opened3] out True c3 by simp
          qed (use 1(2) Opened Opened2 Opened3 c3 in \<open>simp add: code\<close>)
        qed (use 1(2) Opened Opened2 c2 in \<open>simp_all add: code\<close>)
      qed (use 1(2) Opened c1 in \<open>simp_all add: code\<close>)
    qed (use 1(2) in \<open>simp_all add: code\<close>)
  qed
qed

lemma event_conn:
  assumes "fst (tcp_relay_on_event lib n env is_client rd wr s) = Inr s'" shows "conn_of s' = conn_of s"
proof -
  have w: "conn_of s2 = conn_of s1" if "fst (tcp_relay_handle_write sends is_client wr s1) = Inr s2" for s1 s2 sends
    using that by (auto simp: tcp_relay_handle_write_def tcp_relay_write_to_client_def tcp_relay_write_to_server_def conn_of_def Let_def
        split: if_splits prod.splits option.splits)
  have p: "conn_of s2 = conn_of s1" if "fst (tcp_relay_process_pending_server_data lib s1) = Inr s2" for s1 s2
    using that process_conn by (auto simp: tcp_relay_process_pending_server_data_def split: if_splits)
  have rs: "conn_of s2 = conn_of s1" if "fst (tcp_relay_read_from_server lib recvs s1) = Inr s2" for s1 s2 recvs
  proof -
    have up: "conn_of (s1\<lparr>ts_phase := r\<rparr>) = conn_of s1" for r by (simp add: conn_of_def)
    show ?thesis
      using that process_conn up unfolding tcp_relay_read_from_server_def tcp_relay_handle_server_eof_def Let_def
      by (auto split: io.splits if_splits prod.splits sum.splits) (metis fst_conv)
  qed
  have r: "conn_of s2 = conn_of s1" if "fst (tcp_relay_handle_read lib n recvs is_client rd s1) = Inr s2" for s1 s2 recvs
  proof -
    have "conn_of s4 = conn_of s3" if "fst (tcp_relay_read_from_client lib n recvs s3) = Inr s4" for s3 s4
      using that by (auto simp: tcp_relay_read_from_client_def conn_of_def Let_def split: io.splits if_splits prod.splits option.splits)
    then show ?thesis using that rs by (auto simp: tcp_relay_handle_read_def split: if_splits)
  qed
  have u: "conn_of s2 = conn_of s1" if "fst (tcp_relay_update_watchers s1) = Inr s2" for s1 s2
    using that by (auto simp: tcp_relay_update_watchers_def conn_of_def Let_def split: if_splits)
  obtain s3 where s3: "fst (tcp_relay_update_watchers s3) = Inr s'"
    "fst (and_then (and_then (tcp_relay_handle_write (re_sends env) is_client wr s) (tcp_relay_process_pending_server_data lib))
       (tcp_relay_handle_read lib n (re_recvs env) is_client rd)) = Inr s3"
    using and_then_inr [OF assms [unfolded tcp_relay_on_event_def]] by blast
  obtain s2 where s2: "fst (tcp_relay_handle_read lib n (re_recvs env) is_client rd s2) = Inr s3"
    "fst (and_then (tcp_relay_handle_write (re_sends env) is_client wr s) (tcp_relay_process_pending_server_data lib)) = Inr s2"
    using and_then_inr [OF s3(2)] by blast
  obtain s1 where s1: "fst (tcp_relay_process_pending_server_data lib s1) = Inr s2" "fst (tcp_relay_handle_write (re_sends env) is_client wr s) = Inr s1"
    using and_then_inr [OF s2(2)] by blast
  show ?thesis using w [OF s1(2)] p [OF s1(1)] r [OF s2(1)] u [OF s3(1)] by simp
qed

text \<open>What the environment of an event has to respect: well-formed selectors, and memory that does not overlap what is in use.\<close>

fun event_env_ok :: "('y, 'x, 'c) tcp_event \<Rightarrow> ('x, 'c) tcp_world \<Rightarrow> bool" where
  "event_env_ok (Ev_initial_payload_read _ envs) w = attempts_env_ok envs w"
| "event_env_ok (Ev_initial_payload_timeout _ envs) w = attempts_env_ok envs w"
| "event_env_ok (Ev_connect_timeout envs) w = attempts_env_ok envs w"
| "event_env_ok (Ev_server_connected _ _ relay envs) w =
     (posix_memalign_ok (rs_memalign relay) (g_tcp_relay_in_pool w) \<and> attempts_env_ok envs w)"
| "event_env_ok (Ev_server_writable _ relay envs) w =
     (posix_memalign_ok (rs_memalign relay) (g_tcp_relay_in_pool w) \<and> attempts_env_ok envs w)"
| "event_env_ok (Ev_relay _ _ _ _) _ = True"

definition outcome_ok :: "int multiset \<Rightarrow> ptr set \<Rightarrow> ('x, 'c) tcp_world \<Rightarrow> 'c tcp_outcome \<times> ('x, 'c) tcp_world \<Rightarrow> bool" where
  "outcome_ok R A w res \<longleftrightarrow>
     holds R A (out_fds (fst res)) (out_block (fst res)) (snd res) \<and> same_store w (snd res) \<and> (\<forall>obj. fst res = Going obj \<longrightarrow> obj_ok obj)"

lemma outcome_handler:
  assumes "handler_result R A s w res" "\<And>s'. fst res = Going (Handshaking s') \<Longrightarrow> awaiting_payload s' \<or> connecting s'"
  shows "outcome_ok R A w res"
proof -
  have "obj_ok obj" if "fst res = Going obj" for obj
    using assms that by (cases obj) (auto simp: handler_result_def obj_ok_def)
  then show ?thesis using assms(1) by (auto simp: outcome_ok_def handler_result_def)
qed

lemma awaiting_not_connecting: "awaiting_payload s \<Longrightarrow> \<not> connecting s"
  by (simp add: awaiting_payload_def connecting_def)

lemma read_then_outcome:
  assumes "step_ready R A s w" "awaiting_payload s" "attempts_env_ok envs w" "read_then cfg lib recvs envs wait s w = Some res"
    "wait = Some (\<lambda>s. s) \<or> wait = None"
  shows "outcome_ok R A w res"
proof (rule outcome_handler)
  have s: "ts_server_fd s < 0" "ts_ss_client s \<noteq> None" using assms(2) by (auto simp: awaiting_payload_def)
  have "\<exists>io t. f x = x\<lparr>ts_client_io := io, ts_phase_timer := t\<rparr>" if "wait = Some f" for f x
  proof -
    have "f x = x\<lparr>ts_client_io := ts_client_io x, ts_phase_timer := ts_phase_timer x\<rparr>" using assms(5) that by auto
    then show ?thesis by blast
  qed
  then show "handler_result R A s w res" by (rule read_then_result [OF assms(1) s(1) assms(3,4)])
  fix s' assume s': "fst res = Going (Handshaking s')"
  have run: "read_then cfg lib recvs envs wait s w = Some (Going (Handshaking s'), snd res)"
    using assms(4) by (simp only: s' [symmetric] prod.collapse)
  have "awaiting_payload (f (s\<lparr>ts_phase := h\<rparr>))" if "wait = Some f" for f h
    using assms(2,5) that by (auto simp: awaiting_payload_def)
  then show "awaiting_payload s' \<or> connecting s'" by (rule read_then_going [OF run s(2)])
qed

lemma retry_outcome:
  assumes "step_ready R A s w" "connecting s" "attempts_env_ok envs w" "tcp_handshake_retry cfg lib envs nf s w = Some res"
  shows "outcome_ok R A w res"
proof (rule outcome_handler)
  obtain out w' where res: "res = (out, w')" by (cases res)
  show "handler_result R A s w res"
    using step_keeps_result [of R A s w out w'] retry_spec [OF assms(1,3), of cfg lib nf out w'] assms(1,4) res by (simp add: step_ready_def)
  show "awaiting_payload s' \<or> connecting s'" if "fst res = Going (Handshaking s')" for s'
    using retry_going [OF assms(4)] assms(2) that by (simp add: connecting_def)
qed

lemma step_outcome:
  assumes "step_ready R A s w" "connecting s" "attempts_env_ok envs w" "after_step cfg lib envs (step, w1) = Some res"
    "step_keeps R A s w (step, w1)" "\<And>s'. step = Hs_done (Going (Handshaking s')) \<Longrightarrow> connecting s'"
    "\<And>nf s'. step = Hs_retry nf s' \<Longrightarrow> ts_client_io s' = ts_client_io s"
  shows "outcome_ok R A w res"
proof (rule outcome_handler)
  show "handler_result R A s w res" by (rule after_step_result [OF assms(1,5,3,4)])
  fix s' assume "fst res = Going (Handshaking s')"
  then have run: "after_step cfg lib envs (step, w1) = Some (Going (Handshaking s'), snd res)"
    using assms(4) by (metis prod.collapse)
  have "ts_client_io s1 = None" if "step = Hs_retry nf s1" for nf s1
    using assms(7) [OF that] assms(2) by (simp add: connecting_def)
  from after_step_going [OF run assms(6) this] show "awaiting_payload s' \<or> connecting s'" by simp
qed

lemma relay_outcome:
  assumes "holds R A (session_fds s) (ts_relay_in s) w" "tcp_handle cfg lib (Ev_relay env is_client rd wr) (Relaying s) w = Some res"
  shows "outcome_ok R A w res"
proof -
  obtain r calls where r: "tcp_relay_on_event lib (tc_prefix_len cfg) env is_client rd wr s = (r, calls)" by (metis surj_pair)
  show ?thesis
  proof (cases r)
    case (Inl rst)
    then show ?thesis using assms r by (auto simp: outcome_ok_def)
  next
    case (Inr s')
    then have "conn_of s' = conn_of s" using event_conn [of lib "tc_prefix_len cfg" env is_client rd wr s s'] r by simp
    then show ?thesis using assms r Inr by (auto simp: outcome_ok_def conn_of_def session_fds_def obj_ok_def)
  qed
qed

lemma handle_outcome:
  assumes "obj_ok obj" "holds R A (obj_fds obj) (obj_block obj) w" "tcp_waits ev obj" "event_env_ok ev w" "tcp_handle cfg lib ev obj w = Some res"
  shows "outcome_ok R A w res"
proof (cases obj)
  case (Relaying s)
  then show ?thesis using assms relay_outcome [of R A s w cfg lib] by (cases ev) (auto simp: obj_fds_def obj_block_def)
next
  case (Handshaking s)
  have s: "step_ready R A s w" "awaiting_payload s \<or> connecting s"
    using assms(1,2) Handshaking by (auto simp: obj_ok_def obj_fds_def obj_block_def step_ready_def)
  show ?thesis
  proof (cases ev)
    case (Ev_initial_payload_read recvs envs)
    then have "awaiting_payload s" using s(2) assms(3) Handshaking by (auto simp: connecting_def)
    then show ?thesis using read_then_outcome [OF s(1), of envs cfg lib recvs "Some (\<lambda>s. s)" res] assms(4,5) Handshaking Ev_initial_payload_read
      by (simp add: tcp_handshake_on_initial_payload_read_def)
  next
    case (Ev_initial_payload_timeout recvs envs)
    then have "awaiting_payload s" using s(2) assms(3) Handshaking by (auto simp: connecting_def)
    then show ?thesis using read_then_outcome [OF s(1), of envs cfg lib recvs None res] assms(4,5) Handshaking Ev_initial_payload_timeout
      by (simp add: tcp_handshake_on_initial_payload_timeout_def)
  next
    case (Ev_connect_timeout envs)
    then have "connecting s" using s(2) assms(3) Handshaking by (auto simp: awaiting_payload_def)
    then show ?thesis using retry_outcome [OF s(1), of envs cfg lib True res] assms(4,5) Handshaking Ev_connect_timeout
      by (simp add: tcp_handshake_on_timeout_def)
  next
    case (Ev_server_connected so_error send relay envs)
    then have c: "connecting s" using s(2) assms(3) Handshaking by (auto simp: awaiting_payload_def)
    obtain step w1 where step: "tcp_handshake_on_server_connected lib so_error send relay s w = (step, w1)" by (metis surj_pair)
    have "step_keeps R A s w (step, w1)" using connected_spec [OF s(1), of relay lib so_error send] assms(4) Ev_server_connected step by simp
    then show ?thesis
      using step_outcome [OF s(1) c, of envs cfg lib step w1 res] connected_going [OF c, of lib so_error send relay w _ w1]
        connected_io [of lib so_error send relay s w _ _ w1] step assms(4,5) Handshaking Ev_server_connected by simp
  next
    case (Ev_server_writable send relay envs)
    then have c: "connecting s" using s(2) assms(3) Handshaking by (auto simp: awaiting_payload_def)
    obtain step w1 where step: "tcp_handshake_on_server_writable lib send relay s w = (step, w1)" by (metis surj_pair)
    have "step_keeps R A s w (step, w1)" using writable_spec [OF s(1), of relay lib send] assms(4) Ev_server_writable step by simp
    then show ?thesis
      using step_outcome [OF s(1) c, of envs cfg lib step w1 res] writable_going [OF c, of lib send relay w _ w1]
        writable_io [of lib send relay s w _ _ w1] step assms(4,5) Handshaking Ev_server_writable by simp
  qed (use assms(3) Handshaking in simp)
qed

lemma outcome_finish:
  assumes "tcp_inv w (as @ p # bs)"
    "outcome_ok (all_fds (tcp_mem w) (as @ bs)) (set (all_blocks (tcp_mem w) (as @ bs))) w res"
  shows "tcp_inv (tcp_finish p res) (as @ p # bs) \<or> tcp_inv (tcp_finish p res) (as @ bs)"
  using inv_finish [OF assms(1), of "snd res" "fst res"] assms(2) by (auto simp: outcome_ok_def split: tcp_outcome.splits)

lemma handle_inv:
  assumes "tcp_inv w ps" "tcp_mem w p = Some obj" "tcp_waits ev obj" "event_env_ok ev w" "tcp_handle cfg lib ev obj w = Some res"
  shows "\<exists>ps'. tcp_inv (tcp_finish p res) ps' \<and> set ps' \<subseteq> set ps"
proof -
  have "p \<in> set ps" using assms(1,2) by (auto simp: tcp_inv_def)
  then obtain as bs where ps: "ps = as @ p # bs" by (meson split_list)
  have obj: "obj_ok obj" "holds (all_fds (tcp_mem w) (as @ bs)) (set (all_blocks (tcp_mem w) (as @ bs))) (obj_fds obj) (obj_block obj) w"
    using assms(1,2) inv_focus [of w as p bs] unfolding ps by (auto simp: tcp_inv_def)
  from outcome_finish [OF assms(1) [unfolded ps] handle_outcome [OF obj assms(3-5)]] show ?thesis
    unfolding ps by fastforce
qed

text \<open>A new session.\<close>

lemma new_session_fields [simp]:
  "ts_server_fd (new_session fd target skaddr choice) = -1" "ts_client_fd (new_session fd target skaddr choice) = fd"
  "ts_relay_in (new_session fd target skaddr choice) = None" "header_ok (ts_phase (new_session fd target skaddr choice))"
  "ts_ss_client (new_session fd target skaddr choice) \<noteq> None" "ts_server_io (new_session fd target skaddr choice) = None"
  by (cases choice; simp add: new_session_def header_ok_def)+

lemma wait_outcome:
  fixes s :: "'c hs_session"
  assumes "step_ready R A s w" "ts_server_fd s < 0" "ts_server_io s = None" "ts_ss_client s \<noteq> None" "attempts_env_ok envs w"
    "tcp_handshake_wait_initial_payload cfg lib recvs envs s w = Some res"
  shows "outcome_ok R A w res"
proof (rule outcome_handler)
  let ?f = "\<lambda>s :: 'c hs_session. s\<lparr>ts_client_io := Some (Cb_initial_payload_read, True, False), ts_phase_timer := Some Timer_initial_payload\<rparr>"
  have run: "read_then cfg lib recvs envs (Some ?f) s w = Some res"
    using assms(6) by (simp add: tcp_handshake_wait_initial_payload_def)
  show "handler_result R A s w res" by (rule read_then_result [OF assms(1,2,5) run]) auto
  fix s' assume "fst res = Going (Handshaking s')"
  then have "read_then cfg lib recvs envs (Some ?f) s w = Some (Going (Handshaking s'), snd res)" using run by (metis prod.collapse)
  then show "awaiting_payload s' \<or> connecting s'"
    by (rule read_then_going [OF _ assms(4)]) (use assms(2,3,4) in \<open>auto simp: awaiting_payload_def\<close>)
qed

end
