(* ===== verification/TcpAttempts.thy ===== *)
theory TcpAttempts
  imports TcpLife
begin

text \<open>
  The life of one session from its creation to its close, whatever happens in between to the others of its thread: which
  servers it connects to, and which requests it sends to them.
\<close>

section \<open>The relay neither connects nor builds a request\<close>

fun plain :: "tcp_call \<Rightarrow> bool" where
  "plain (Call_request _) = False"
| "plain (Call_connect _ _) = False"
| "plain _ = True"

lemma plain_then:
  assumes "list_all plain (snd res)" "\<And>s. list_all plain (snd (f s))" shows "list_all plain (snd (and_then res f))"
proof (cases res)
  case (Pair r calls)
  then show ?thesis
    using assms(1) assms(2) [of "case r of Inr s \<Rightarrow> s"] by (cases r) (auto simp: and_then_def split: prod.split)
qed

lemma drain_plain: "list_all plain (snd (tcp_relay_drain fd buf rs off len))"
  by (induction fd buf rs off len rule: tcp_relay_drain.induct) (auto simp: Let_def split: io.split prod.split, metis snd_conv)

lemma process_plain: "list_all plain (snd (tcp_relay_process_server_data lib s))"
proof (induction lib s rule: tcp_relay_process_server_data.induct)
  case (1 lib s)
  obtain p calls where h: "open_header_part lib s = (p, calls)" by (metis surj_pair)
  have c: "list_all plain calls" using h by (auto simp: open_header_part_def Let_def split: if_splits option.splits)
  show ?case
    using 1 h c
    by (subst tcp_relay_process_server_data.simps) (auto split: part.split prod.split, metis snd_conv)
qed

lemma write_plain: "list_all plain (snd (tcp_relay_handle_write sends is_client wr s))"
proof -
  have d: "list_all plain calls" if "tcp_relay_drain fd buf rs off len = (r, calls)" for fd buf rs off len r calls
    using drain_plain [of fd buf rs off len] that by simp
  show ?thesis
    by (auto simp: tcp_relay_handle_write_def tcp_relay_write_to_client_def tcp_relay_write_to_server_def Let_def
        split: prod.split option.split dest: d)
qed

lemma read_plain: "list_all plain (snd (tcp_relay_handle_read lib n recvs is_client rd s))"
proof -
  have p: "list_all plain calls" if "tcp_relay_process_server_data lib s = (r, calls)" for s r calls
    using process_plain [of lib s] that by simp
  show ?thesis
    by (auto simp: tcp_relay_handle_read_def tcp_relay_read_from_client_def tcp_relay_read_from_server_def
        Let_def split: io.split prod.split option.split dest: p)
qed

lemma event_plain: "list_all plain (snd (tcp_relay_on_event lib n env is_client rd wr s))"
  unfolding tcp_relay_on_event_def
proof (intro plain_then)
  show "list_all plain (snd (tcp_relay_process_pending_server_data lib s))" for s
    using process_plain [of lib s] by (simp add: tcp_relay_process_pending_server_data_def)
  show "list_all plain (snd (tcp_relay_update_watchers s))" for s
    by (simp add: tcp_relay_update_watchers_def Let_def)
qed (rule write_plain read_plain)+

lemma plain_calls:
  assumes "list_all plain calls" shows "connects calls = []" "\<not> superseded nk calls"
  using assms
proof (induction calls arbitrary: nk)
  case (Cons c calls)
  {
    case 1
    then show ?case using Cons by (cases c) simp_all
  next
    case 2
    then show ?case using Cons by (cases c) simp_all
  }
qed simp_all

section \<open>Replays\<close>

text \<open>Something has come from the client.\<close>

fun got_data :: "tcp_call list \<Rightarrow> bool" where
  "got_data [] = False"
| "got_data (Call_recv _ d # calls) = (d \<noteq> [] \<or> got_data calls)"
| "got_data (_ # calls) = got_data calls"

text \<open>
  No request is built when one that carries what the client has sent has been queued completely: \<open>got\<close> is whether something has
  come from the client, \<open>nk\<close> the length of the last request and the number of bytes queued since.
\<close>

fun no_replay :: "bool \<Rightarrow> nat \<times> nat \<Rightarrow> tcp_call list \<Rightarrow> bool" where
  "no_replay got nk [] = True"
| "no_replay got nk (Call_recv _ d # calls) = no_replay (got \<or> d \<noteq> []) nk calls"
| "no_replay got nk (Call_request b # calls) = (\<not> (got \<and> complete nk) \<and> no_replay got (length b, 0) calls)"
| "no_replay got nk (Call_send _ d # calls) = no_replay got (fst nk, snd nk + length d) calls"
| "no_replay got nk (_ # calls) = no_replay got nk calls"

lemma got_append [simp]: "got_data (a @ b) \<longleftrightarrow> got_data a \<or> got_data b"
  by (induction a rule: got_data.induct) simp_all

lemma no_replay_append: "no_replay got nk (a @ b) \<longleftrightarrow> no_replay got nk a \<and> no_replay (got \<or> got_data a) (reach nk a) b"
proof (induction got nk a rule: no_replay.induct)
  case (2 got nk fd d calls)
  then show ?case by (simp add: disj_assoc)
qed simp_all

lemma no_replay_search: "\<not> receives calls \<Longrightarrow> (got \<longrightarrow> \<not> superseded nk calls) \<Longrightarrow> no_replay got nk calls \<and> \<not> got_data calls"
  by (induction got nk calls rule: no_replay.induct) auto

lemma no_replay_plain: "list_all plain calls \<Longrightarrow> no_replay got nk calls"
  by (induction got nk calls rule: no_replay.induct) auto

section \<open>What each handler adds to the log\<close>

definition hs_log :: "nat set \<Rightarrow> 'c hs_session \<Rightarrow> tcp_call list \<Rightarrow> 'c tcp_outcome \<Rightarrow> bool" where
  "hs_log M s calls out \<longleftrightarrow>
     \<not> receives calls \<and> distinct (connects calls) \<and> set (connects calls) \<subseteq> int ` M \<and>
     (th_initial_payload (ts_phase s) \<noteq> [] \<longrightarrow> \<not> superseded (progress_of s) calls) \<and>
     (\<forall>s'. out = Going (Handshaking s') \<longrightarrow>
        progress_of s' = reach (progress_of s) calls \<and> th_initial_payload (ts_phase s') = th_initial_payload (ts_phase s) \<and>
        untried (ts_tried_servers_mask s') \<subseteq> untried (ts_tried_servers_mask s) - nat ` set (connects calls))"

lemma hs_log_step:
  assumes "step_keeps R A s w (Hs_done out, w')" "step_logs M s w (Hs_done out, w')"
  shows "\<exists>calls. tcp_log w' = tcp_log w @ calls \<and> hs_log M s calls out"
proof -
  have payload: "th_initial_payload (ts_phase s') = th_initial_payload (ts_phase s)" if "out = Going (Handshaking s')" for s'
    using assms(1) that by (auto simp: step_keeps_def same_search_def)
  obtain calls where c: "tcp_log w' = tcp_log w @ calls" "\<not> receives calls" "distinct (connects calls)" "set (connects calls) \<subseteq> int ` M"
    "th_initial_payload (ts_phase s) \<noteq> [] \<longrightarrow> \<not> superseded (progress_of s) calls"
    "\<And>s'. step_session (Hs_done out) = Some s' \<Longrightarrow> progress_of s' = reach (progress_of s) calls \<and>
       untried (ts_tried_servers_mask s') \<subseteq> untried (ts_tried_servers_mask s) - nat ` set (connects calls)"
    using assms(2) by (auto simp: step_logs_def)
  then show ?thesis using payload unfolding hs_log_def step_session_going by blast
qed

lemma step_logs_mono: "M \<subseteq> N \<Longrightarrow> step_logs M s w res \<Longrightarrow> step_logs N s w res"
  unfolding step_logs_def by (cases res) (simp only: prod.case, meson image_mono subset_trans)

lemma after_step_log:
  assumes "step_ready R A s w" "step_keeps R A s w (step, w1)" "step_logs M s w (step, w1)" "attempts_env_ok envs w"
    "after_step cfg lib envs (step, w1) = Some (out, w')"
  shows "\<exists>calls. tcp_log w' = tcp_log w @ calls \<and> hs_log (M \<union> untried (ts_tried_servers_mask s)) s calls out"
proof (cases step)
  case (Hs_done out1)
  have "step_logs (M \<union> untried (ts_tried_servers_mask s)) s w (step, w1)" using assms(3) by (rule step_logs_mono [rotated]) blast
  then show ?thesis using hs_log_step [OF assms(2) [unfolded Hs_done]] assms(5) Hs_done by (simp add: after_step_def)
next
  case (Hs_retry nf s1)
  note k = assms(2) [unfolded Hs_retry]
  have s1: "step_ready R A s1 w1" "attempts_env_ok envs w1" "same_search s s1"
    using assms(1,4) k by (auto simp: step_keeps_def step_ready_def same_search_def attempts_env_ok_def)
  have "tcp_handshake_retry cfg lib envs nf s1 w1 = Some (out, w')" using assms(5) Hs_retry by (simp add: after_step_def)
  note r = retry_spec [OF s1(1,2) this]
  have "step_keeps R A s w (Hs_done out, w')" using r by (intro step_keeps_then [OF k]) simp
  moreover have "step_logs (M \<union> untried (ts_tried_servers_mask s)) s w (Hs_done out, w')"
    using r assms(3) Hs_retry s1(3) by (intro step_logs_then [of M s w nf s1 w1]) simp_all
  ultimately show ?thesis by (rule hs_log_step)
qed

lemma tries_logs:
  assumes "step_tries s w (step, w')" "\<not> complete (progress_of s)" "bit (ts_tried_servers_mask s) (unat (ts_server_idx s))"
  shows "step_logs {unat (ts_server_idx s)} s w (step, w')"
proof -
  obtain calls where c: "tcp_log w' = tcp_log w @ calls" "\<not> receives calls" "connects calls \<in> {[], [uint (ts_server_idx s)]}"
    "\<not> superseded (progress_of s) calls"
    "\<And>s'. step_session step = Some s' \<Longrightarrow> progress_of s' = reach (progress_of s) calls \<and>
       ts_tried_servers_mask s' = ts_tried_servers_mask s \<and> ts_server_idx s' = ts_server_idx s"
    using assms(1,2) by (auto simp: step_tries_def)
  have "uint (ts_server_idx s) = int (unat (ts_server_idx s))" by simp
  then have one: "connects calls = [] \<or> connects calls = [int (unat (ts_server_idx s))]" using c(3) by (simp only: insert_iff empty_iff simp_thms)
  then have con: "distinct (connects calls)" "set (connects calls) \<subseteq> int ` {unat (ts_server_idx s)}" by auto
  have new: "unat (ts_server_idx s) \<notin> untried (ts_tried_servers_mask s)" using assms(3) by (simp add: untried_def)
  have sub: "nat ` set (connects calls) \<subseteq> {unat (ts_server_idx s)}" using one by auto
  have un: "untried (ts_tried_servers_mask s) \<subseteq> untried (ts_tried_servers_mask s) - nat ` set (connects calls)"
  proof
    fix x assume x: "x \<in> untried (ts_tried_servers_mask s)"
    then have "x \<noteq> unat (ts_server_idx s)" using new by (intro notI) (simp only:)
    then show "x \<in> untried (ts_tried_servers_mask s) - nat ` set (connects calls)" using x sub by (meson DiffI singletonD subsetD)
  qed
  show ?thesis
    unfolding step_logs_def prod.case
  proof (intro exI [of _ calls] conjI allI impI)
    fix s' assume "step_session step = Some s'"
    from c(5) [OF this] un show "progress_of s' = reach (progress_of s) calls"
      "untried (ts_tried_servers_mask s') \<subseteq> untried (ts_tried_servers_mask s) - nat ` set (connects calls)" by simp_all
  qed (use c con in \<open>simp_all only: not_False_eq_True\<close>)
qed

lemma sends_logs:
  assumes "step_sends s w (step, w')" shows "step_logs {} s w (step, w')"
proof -
  obtain calls where c: "tcp_log w' = tcp_log w @ calls" "\<not> receives calls" "connects calls = []" "\<And>nk. \<not> superseded nk calls"
    "\<And>s'. step_session step = Some s' \<Longrightarrow> progress_of s' = reach (progress_of s) calls \<and>
       ts_tried_servers_mask s' = ts_tried_servers_mask s \<and> ts_server_idx s' = ts_server_idx s"
    using step_sends_calls [OF assms] by blast
  show ?thesis
    unfolding step_logs_def prod.case using c by (intro exI [of _ calls]) simp
qed

lemma hs_log_nil:
  assumes "\<And>s'. out = Going (Handshaking s') \<Longrightarrow> progress_of s' = progress_of s \<and>
    th_initial_payload (ts_phase s') = th_initial_payload (ts_phase s) \<and> ts_tried_servers_mask s' = ts_tried_servers_mask s"
  shows "hs_log M s [] out"
  using assms by (simp add: hs_log_def)

lemma hs_log_irrelevant [simp]: "hs_log M (s\<lparr>ts_phase_timer := t, ts_client_io := io\<rparr>) calls out = hs_log M s calls out"
  by (simp add: hs_log_def progress_of_def header_len_def header_sent_def)

text \<open>A session whose first server is still to be tried, as it is until the client's first bytes have come.\<close>

definition unstarted :: "'c hs_session \<Rightarrow> bool" where
  "unstarted s \<longleftrightarrow> ts_server_fd s < 0 \<and> ts_ss_client s \<noteq> None \<and> progress_of s = (0, 0) \<and>
     bit (ts_tried_servers_mask s) (unat (ts_server_idx s))"

lemma start_after_log:
  assumes "step_ready R A s w" "unstarted s" "attempts_env_ok envs w"
    "tcp_handshake_start_after_initial_payload cfg lib envs s w = Some (out, w')"
  shows "\<exists>calls. tcp_log w' = tcp_log w @ calls \<and> hs_log (insert (unat (ts_server_idx s)) (untried (ts_tried_servers_mask s))) s calls out"
proof -
  let ?s = "s\<lparr>ts_phase_timer := None, ts_client_io := None\<rparr>"
  have ready: "step_ready R A ?s w" "ts_server_fd ?s < 0" using assms(1,2) by (simp_all add: step_ready_def session_fds_def unstarted_def)
  show ?thesis
  proof (cases "th_initial_payload (ts_phase s) = [] \<and> th_client_eof (ts_phase s)")
    case True
    then have "out = closing False ?s" "w' = w" using assms(4) by (simp_all add: tcp_handshake_start_after_initial_payload_def)
    then show ?thesis by (intro exI [of _ "[]"] conjI hs_log_nil) simp_all
  next
    case False
    have env: "posix_memalign_ok (rs_memalign (ae_relay (envs 0))) (g_tcp_relay_in_pool w)" "attempts_env_ok (\<lambda>n. envs (Suc n)) w"
      using assms(3) by (simp_all add: attempts_env_ok_def shift_ok)
    obtain step w1 where t: "tcp_handshake_try_connect cfg lib (envs 0) ?s w = (step, w1)" by (metis surj_pair)
    have k: "step_keeps R A ?s w (step, w1)" "step_tries ?s w (step, w1)"
      using try_connect_spec [OF ready env(1), of cfg lib] unfolding t by blast+
    have "\<not> complete (progress_of ?s)" "bit (ts_tried_servers_mask ?s) (unat (ts_server_idx ?s))"
      using assms(2) by (simp_all add: unstarted_def complete_def progress_of_def header_len_def)
    from tries_logs [OF k(2) this] have l: "step_logs {unat (ts_server_idx s)} ?s w (step, w1)" by simp
    have "after_step cfg lib (\<lambda>n. envs (Suc n)) (step, w1) = Some (out, w')"
      using assms(4) False t by (auto simp: tcp_handshake_start_after_initial_payload_def tcp_handshake_start_def)
    from after_step_log [OF ready(1) k(1) l env(2) this] show ?thesis by simp
  qed
qed

text \<open>What has been read.\<close>

definition reads :: "tcp_call list \<Rightarrow> bool" where
  "reads calls \<longleftrightarrow> connects calls = [] \<and> (\<forall>nk. reach nk calls = nk) \<and> (\<forall>got nk. no_replay got nk calls)"

lemma read_initial_log:
  "tcp_handshake_read_initial_payload fd recvs h = (r, calls) \<Longrightarrow> reads calls \<and>
   (case r of None \<Rightarrow> True | Some (need, h') \<Rightarrow> th_initial_payload h' \<noteq> [] \<longleftrightarrow> th_initial_payload h \<noteq> [] \<or> got_data calls)"
proof (induction recvs arbitrary: h r calls)
  case (Cons x xs)
  show ?case
  proof (cases "length (th_initial_payload h) \<ge> TCP_SS_PLAIN_BUFSIZ")
    case True
    then show ?thesis using Cons.prems by (auto simp: reads_def)
  next
    case False
    show ?thesis
    proof (cases x)
      case (IoErr e)
      then show ?thesis using Cons False by (auto simp: reads_def split: if_splits)
    next
      case (IoOk d)
      let ?d = "take (TCP_SS_PLAIN_BUFSIZ - length (th_initial_payload h)) d"
      obtain res more where rec: "tcp_handshake_read_initial_payload fd xs (h\<lparr>th_initial_payload := th_initial_payload h @ ?d\<rparr>) = (res, more)"
        by (metis surj_pair)
      show ?thesis
      proof (cases "?d = []")
        case True
        then have "r = Some (False, h\<lparr>th_client_eof := True\<rparr>)" "calls = [Call_recv fd []]" using Cons.prems False IoOk by (auto simp: Let_def)
        then show ?thesis by (simp add: reads_def)
      next
        case d: False
        then have "r = res" "calls = Call_recv fd ?d # more" using Cons.prems False IoOk rec by (simp_all add: Let_def)
        then show ?thesis using Cons.IH [OF rec] d by (auto simp: reads_def split: option.splits)
      qed
    qed
  qed
qed (auto simp: reads_def)

text \<open>A handler that first reads \<open>rd\<close>, so that the session is \<open>s1\<close>, and then starts the search or waits.\<close>

definition read_log :: "'c hs_session \<Rightarrow> tcp_call list \<Rightarrow> tcp_call list \<Rightarrow> 'c hs_session \<Rightarrow> 'c tcp_outcome \<Rightarrow> bool" where
  "read_log s rd calls s1 out \<longleftrightarrow> reads rd \<and>
     hs_log (insert (unat (ts_server_idx s)) (untried (ts_tried_servers_mask s))) s1 calls out \<and>
     progress_of s1 = progress_of s \<and> ts_tried_servers_mask s1 = ts_tried_servers_mask s \<and>
     ((th_initial_payload (ts_phase s1) \<noteq> [] \<longleftrightarrow> th_initial_payload (ts_phase s) \<noteq> [] \<or> got_data rd) \<or>
      (calls = [] \<and> (\<forall>s'. out \<noteq> Going (Handshaking s')))) \<and>
     (\<forall>s'. out = Going (Handshaking s') \<longrightarrow> connecting s' \<or>
        (ts_server_fd s' = ts_server_fd s \<and> ts_ss_client s' = ts_ss_client s \<and> ts_server_idx s' = ts_server_idx s \<and>
         ts_tried_servers_mask s' = ts_tried_servers_mask s \<and> progress_of s' = progress_of s \<and> calls = []))"

lemma read_then_log:
  assumes "step_ready R A s w" "unstarted s" "attempts_env_ok envs w" "read_then cfg lib recvs envs wait s w = Some (out, w')"
    "\<And>f x. wait = Some f \<Longrightarrow> \<exists>io t. f x = x\<lparr>ts_client_io := io, ts_phase_timer := t\<rparr>"
  shows "\<exists>rd calls s1. tcp_log w' = tcp_log w @ rd @ calls \<and> read_log s rd calls s1 out"
proof -
  obtain r rd where r: "tcp_handshake_read_initial_payload (ts_client_fd s) recvs (ts_phase s) = (r, rd)" by (metis surj_pair)
  note rl = read_initial_log [OF r]
  show ?thesis
  proof (cases r)
    case None
    then have "out = closing True s" "w' = tcp_call rd w" using assms(4) r by (simp_all add: read_then_def)
    then have "tcp_log w' = tcp_log w @ rd @ []" "read_log s rd [] s out" using rl by (simp_all add: read_log_def hs_log_def)
    then show ?thesis by blast
  next
    case (Some x)
    obtain need h where x: "x = (need, h)" by (cases x)
    let ?s = "s\<lparr>ts_phase := h\<rparr>" and ?w = "tcp_call rd w"
    have same: "th_request_header h = th_request_header (ts_phase s)" "th_request_header_len h = th_request_header_len (ts_phase s)"
      "th_request_header_sent h = th_request_header_sent (ts_phase s)"
      using read_initial_same [of "ts_client_fd s" recvs "ts_phase s" need h rd] r Some x by simp_all
    have s1: "progress_of ?s = progress_of s" using same by (simp add: progress_of_def header_len_def header_sent_def)
    have ready: "step_ready R A ?s ?w" "unstarted ?s" "attempts_env_ok envs ?w"
      using assms(1-3) same s1 by (simp_all add: step_ready_def session_fds_def header_ok_def unstarted_def attempts_env_ok_def)
    have payload: "th_initial_payload h \<noteq> [] \<longleftrightarrow> th_initial_payload (ts_phase s) \<noteq> [] \<or> got_data rd" using rl Some x by simp
    have go: ?thesis if run: "tcp_handshake_start_after_initial_payload cfg lib envs ?s ?w = Some (out, w')"
    proof -
      obtain calls where "tcp_log w' = tcp_log ?w @ calls"
        "hs_log (insert (unat (ts_server_idx ?s)) (untried (ts_tried_servers_mask ?s))) ?s calls out"
        using start_after_log [OF ready run] by blast
      moreover have "connecting s'" if "out = Going (Handshaking s')" for s'
        using start_after_going [of cfg lib envs ?s ?w s' w'] run that assms(2) by (simp add: unstarted_def)
      ultimately have "tcp_log w' = tcp_log w @ rd @ calls" "read_log s rd calls ?s out" using rl payload s1 by (simp_all add: read_log_def)
      then show ?thesis by blast
    qed
    show ?thesis
    proof (cases wait)
      case None
      then show ?thesis using assms(4) r Some x go by (simp add: read_then_def Let_def)
    next
      case w: (Some f)
      obtain io t where f: "f ?s = ?s\<lparr>ts_client_io := io, ts_phase_timer := t\<rparr>" using assms(5) [OF w] by blast
      show ?thesis
      proof (cases need)
        case False
        then show ?thesis using assms(4) r Some x w go by (simp add: read_then_def Let_def)
      next
        case True
        then have res: "out = Going (Handshaking (f ?s))" "w' = ?w" using assms(4) r Some x w by (simp_all add: read_then_def Let_def)
        have "progress_of (f ?s) = progress_of s" using s1 unfolding f by (simp add: progress_of_def header_len_def header_sent_def)
        then have "tcp_log w' = tcp_log w @ rd @ []" "read_log s rd [] ?s out"
          using rl payload s1 res f by (simp_all add: read_log_def hs_log_def progress_of_def header_len_def header_sent_def)
        then show ?thesis by blast
      qed
    qed
  qed
qed

section \<open>The life of a session\<close>

text \<open>
  A session from its creation on: first it reads what the client has sent, then the events it waits for come, each in a world in which
  the other sessions of the thread, with the descriptors \<open>R\<close> and the blocks \<open>A\<close>, have done what they like. The calls made for
  this session are collected.
\<close>

inductive session_life ::
  "tcp_config \<Rightarrow> 'c ss2022_tcp \<Rightarrow> 'c hs_session \<Rightarrow> tcp_call list \<Rightarrow> 'c tcp_outcome \<times> ('x, 'c) tcp_world \<Rightarrow> bool"
  for cfg lib s0 where
life_start: "holds R A (session_fds s0) None w \<Longrightarrow> attempts_env_ok (envs :: nat \<Rightarrow> ('x, 'x, 'c) attempt_env) w \<Longrightarrow>
    tcp_handshake_wait_initial_payload cfg lib recvs envs s0 w = Some (out, w') \<Longrightarrow> tcp_log w' = tcp_log w @ calls \<Longrightarrow>
    session_life cfg lib s0 calls (out, w')"
| life_event: "session_life cfg lib s0 calls (Going obj, w0) \<Longrightarrow> holds R A (obj_fds obj) (obj_block obj) w \<Longrightarrow>
    tcp_waits (ev :: ('x, 'x, 'c) tcp_event) obj \<Longrightarrow> event_env_ok ev w \<Longrightarrow> tcp_handle cfg lib ev obj w = Some (out, w') \<Longrightarrow>
    tcp_log w' = tcp_log w @ new \<Longrightarrow> session_life cfg lib s0 (calls @ new) (out, w')"

definition life_ok :: "'c hs_session \<Rightarrow> tcp_call list \<Rightarrow> 'c tcp_outcome \<Rightarrow> bool" where
  "life_ok s0 calls out \<longleftrightarrow>
     distinct (connects calls) \<and> set (connects calls) \<subseteq> int ` insert (unat (ts_server_idx s0)) (untried (ts_tried_servers_mask s0)) \<and>
     no_replay False (0, 0) calls \<and> (\<forall>obj. out = Going obj \<longrightarrow> obj_ok obj) \<and>
     (\<forall>s. out = Going (Handshaking s) \<longrightarrow>
        progress_of s = reach (0, 0) calls \<and> (th_initial_payload (ts_phase s) \<noteq> [] \<longleftrightarrow> got_data calls) \<and>
        untried (ts_tried_servers_mask s) \<subseteq> untried (ts_tried_servers_mask s0) - nat ` set (connects calls) \<and>
        (awaiting_payload s \<longrightarrow> connects calls = [] \<and> ts_server_idx s = ts_server_idx s0 \<and>
           ts_tried_servers_mask s = ts_tried_servers_mask s0 \<and> progress_of s = (0, 0)))"

lemma life_extend:
  fixes s s0 s1 :: "'c hs_session"
  assumes calls: "distinct (connects calls)" "set (connects calls) \<subseteq> int ` (insert (unat (ts_server_idx s0)) (untried (ts_tried_servers_mask s0)))"
      "no_replay False (0, 0) calls" "progress_of s = reach (0, 0) calls" "th_initial_payload (ts_phase s) \<noteq> [] \<longleftrightarrow> got_data calls"
      "untried (ts_tried_servers_mask s) \<subseteq> untried (ts_tried_servers_mask s0) - nat ` set (connects calls)"
    and rd: "reads rd" "progress_of s1 = progress_of s" "ts_tried_servers_mask s1 = ts_tried_servers_mask s"
      "(th_initial_payload (ts_phase s1) \<noteq> [] \<longleftrightarrow> th_initial_payload (ts_phase s) \<noteq> [] \<or> got_data rd) \<or>
       (new = [] \<and> (\<forall>s'. out \<noteq> Going (Handshaking s')))"
    and new: "hs_log M s1 new out" "M \<inter> nat ` set (connects calls) = {}" "M \<subseteq> insert (unat (ts_server_idx s0)) (untried (ts_tried_servers_mask s0))"
    and out: "\<And>obj. out = Going obj \<Longrightarrow> obj_ok obj"
      "\<And>s'. out = Going (Handshaking s') \<Longrightarrow> awaiting_payload s' \<Longrightarrow> connects (calls @ new) = [] \<and> ts_server_idx s' = ts_server_idx s0 \<and>
         ts_tried_servers_mask s' = ts_tried_servers_mask s0 \<and> progress_of s' = (0, 0)"
  shows "life_ok s0 (calls @ rd @ new) out"
proof -
  let ?all = "calls @ rd @ new"
  have r: "connects rd = []" "\<And>nk. reach nk rd = nk" "\<And>got nk. no_replay got nk rd" using rd(1) by (auto simp: reads_def)
  have h: "\<not> receives new" "distinct (connects new)" "set (connects new) \<subseteq> int ` M"
    "th_initial_payload (ts_phase s1) \<noteq> [] \<longrightarrow> \<not> superseded (progress_of s1) new"
    "\<And>s'. out = Going (Handshaking s') \<Longrightarrow> progress_of s' = reach (progress_of s1) new \<and>
       th_initial_payload (ts_phase s') = th_initial_payload (ts_phase s1) \<and>
       untried (ts_tried_servers_mask s') \<subseteq> untried (ts_tried_servers_mask s1) - nat ` set (connects new)"
    using new(1) unfolding hs_log_def by blast+
  have disj: "set (connects calls) \<inter> set (connects new) = {}"
  proof -
    have "x \<notin> set (connects calls)" if x: "x \<in> set (connects new)" for x
    proof -
      obtain i where "x = int i" "i \<in> M" using h(3) x by blast
      then show ?thesis using new(2) by force
    qed
    then show ?thesis by blast
  qed
  have con: "distinct (connects ?all)" "set (connects ?all) \<subseteq> int ` (insert (unat (ts_server_idx s0)) (untried (ts_tried_servers_mask s0)))"
    using calls(1,2) h(2) disj r(1) subset_trans [OF h(3) image_mono [OF new(3)]] by simp_all
  have got: "no_replay (got_data calls \<or> got_data rd) (progress_of s1) new"
  proof (cases "new = []")
    case False
    then have "got_data calls \<or> got_data rd \<longrightarrow> \<not> superseded (progress_of s1) new" using False rd(4) calls(5) h(4) by metis
    from no_replay_search [OF h(1) this] show ?thesis by (rule conjunct1)
  qed simp
  have nr: "no_replay False (0, 0) ?all"
    using calls(3,4) got r rd(2) by (simp add: no_replay_append)
  have nodata: "\<not> got_data new" using no_replay_search [OF h(1), of False "(0, 0)"] by simp
  have "progress_of s' = reach (0, 0) ?all \<and> (th_initial_payload (ts_phase s') \<noteq> [] \<longleftrightarrow> got_data ?all) \<and>
      untried (ts_tried_servers_mask s') \<subseteq> untried (ts_tried_servers_mask s0) - nat ` set (connects ?all)"
    if s': "out = Going (Handshaking s')" for s'
  proof (intro conjI)
    note n = h(5) [OF s']
    show "progress_of s' = reach (0, 0) ?all" using n calls(4) rd(2) r(2) by simp
    show "th_initial_payload (ts_phase s') \<noteq> [] \<longleftrightarrow> got_data ?all" using n rd(4) calls(5) nodata s' unfolding got_append by metis
    show "untried (ts_tried_servers_mask s') \<subseteq> untried (ts_tried_servers_mask s0) - nat ` set (connects ?all)"
    proof -
      have "nat ` set (connects ?all) = nat ` set (connects calls) \<union> nat ` set (connects new)" using r(1) by (simp add: image_Un)
      moreover have "untried (ts_tried_servers_mask s') \<subseteq> untried (ts_tried_servers_mask s) - nat ` set (connects new)" using n rd(3) by simp
      ultimately show ?thesis using calls(6) by blast
    qed
  qed
  then show ?thesis unfolding life_ok_def using con nr out r(1) by simp
qed

lemma connecting_stays:
  assumes "connecting s" "tcp_waits ev (Handshaking s)" "tcp_handle cfg lib ev (Handshaking s) w = Some (Going (Handshaking s'), w')"
  shows "connecting s'"
proof (cases ev)
  case (Ev_connect_timeout envs)
  then show ?thesis using retry_going [of cfg lib envs True s w] assms by (simp add: tcp_handshake_on_timeout_def connecting_def)
next
  case (Ev_server_connected so_error send relay envs)
  obtain step w1 where step: "tcp_handshake_on_server_connected lib so_error send relay s w = (step, w1)" by (metis surj_pair)
  then show ?thesis
    using after_step_going [of cfg lib envs step w1 s' w'] connected_going [OF assms(1), of lib so_error send relay w _ w1]
      connected_io [of lib so_error send relay s w _ _ w1] assms(1,3) Ev_server_connected by (simp add: connecting_def)
next
  case (Ev_server_writable send relay envs)
  obtain step w1 where step: "tcp_handshake_on_server_writable lib send relay s w = (step, w1)" by (metis surj_pair)
  then show ?thesis
    using after_step_going [of cfg lib envs step w1 s' w'] writable_going [OF assms(1), of lib send relay w _ w1]
      writable_io [of lib send relay s w _ _ w1] assms(1,3) Ev_server_writable by (simp add: connecting_def)
qed (use assms in \<open>auto simp: connecting_def\<close>)

lemma connecting_log:
  assumes "step_ready R A s w" "connecting s" "tcp_waits ev (Handshaking s)" "event_env_ok ev w"
    "tcp_handle cfg lib ev (Handshaking s) w = Some (out, w')"
  shows "\<exists>calls. tcp_log w' = tcp_log w @ calls \<and> hs_log (untried (ts_tried_servers_mask s)) s calls out"
proof (cases ev)
  case (Ev_connect_timeout envs)
  have "tcp_handshake_retry cfg lib envs True s w = Some (out, w')" using assms(5) Ev_connect_timeout by (simp add: tcp_handshake_on_timeout_def)
  from retry_spec [OF assms(1) _ this] assms(4) Ev_connect_timeout hs_log_step show ?thesis by fastforce
next
  case (Ev_server_connected so_error send relay envs)
  obtain step w1 where step: "tcp_handshake_on_server_connected lib so_error send relay s w = (step, w1)" by (metis surj_pair)
  have "step_keeps R A s w (step, w1)" "step_sends s w (step, w1)"
    using connected_spec [OF assms(1), of relay lib so_error send] assms(4) Ev_server_connected step by simp_all
  from after_step_log [OF assms(1) this(1) sends_logs [OF this(2)], of envs cfg lib out w'] show ?thesis
    using assms(4,5) Ev_server_connected step by simp
next
  case (Ev_server_writable send relay envs)
  obtain step w1 where step: "tcp_handshake_on_server_writable lib send relay s w = (step, w1)" by (metis surj_pair)
  have "step_keeps R A s w (step, w1)" "step_sends s w (step, w1)"
    using writable_spec [OF assms(1), of relay lib send] assms(4) Ev_server_writable step by simp_all
  from after_step_log [OF assms(1) this(1) sends_logs [OF this(2)], of envs cfg lib out w'] show ?thesis
    using assms(4,5) Ev_server_writable step by simp
qed (use assms(2,3) in \<open>auto simp: connecting_def\<close>)

lemma awaiting_log:
  assumes "step_ready R A s w" "awaiting_payload s" "unstarted s" "tcp_waits ev (Handshaking s)" "event_env_ok ev w"
    "tcp_handle cfg lib ev (Handshaking s) w = Some (out, w')"
  shows "\<exists>rd calls s1. tcp_log w' = tcp_log w @ rd @ calls \<and> read_log s rd calls s1 out"
proof -
  have f: "\<exists>io t. x = x\<lparr>ts_client_io := io, ts_phase_timer := t\<rparr>" for x :: "'a hs_session"
    by (rule exI [of _ "ts_client_io x"], rule exI [of _ "ts_phase_timer x"]) simp
  show ?thesis
  proof (cases ev)
    case (Ev_initial_payload_read recvs envs)
    then have "read_then cfg lib recvs envs (Some (\<lambda>s. s)) s w = Some (out, w')" using assms(6) by (simp add: tcp_handshake_on_initial_payload_read_def)
    note log = read_then_log [OF assms(1,3) _ this]
    show ?thesis
    proof (rule log)
      show "\<exists>io t. g x = x\<lparr>ts_client_io := io, ts_phase_timer := t\<rparr>" if "Some (\<lambda>s. s) = Some g" for g :: "'a hs_session \<Rightarrow> 'a hs_session" and x
      proof -
        have "g x = x" using that by auto
        then show ?thesis using f [of x] by (simp only:)
      qed
    qed (use assms(5) Ev_initial_payload_read in simp)
  next
    case (Ev_initial_payload_timeout recvs envs)
    then have "read_then cfg lib recvs envs None s w = Some (out, w')" using assms(6) by (simp add: tcp_handshake_on_initial_payload_timeout_def)
    from read_then_log [OF assms(1,3) _ this] show ?thesis using assms(5) Ev_initial_payload_timeout by auto
  qed (use assms(2,4) in \<open>auto simp: awaiting_payload_def\<close>)
qed

lemma life_reads:
  assumes "life_ok s0 calls (Going (Handshaking s)) \<or>
      (calls = [] \<and> progress_of s = (0, 0) \<and> th_initial_payload (ts_phase s) = [] \<and> ts_server_idx s = ts_server_idx s0 \<and>
       ts_tried_servers_mask s = ts_tried_servers_mask s0)"
    and s: "connects calls = []" "progress_of s = (0, 0)" "ts_server_idx s = ts_server_idx s0" "ts_tried_servers_mask s = ts_tried_servers_mask s0"
    and log: "read_log s rd new s1 out" and ok: "\<And>obj. out = Going obj \<Longrightarrow> obj_ok obj"
  shows "life_ok s0 (calls @ rd @ new) out"
proof -
  have base: "no_replay False (0, 0) calls" "progress_of s = reach (0, 0) calls" "th_initial_payload (ts_phase s) \<noteq> [] \<longleftrightarrow> got_data calls"
    using assms(1) s(2) unfolding life_ok_def by auto
  have l: "reads rd" "hs_log (insert (unat (ts_server_idx s0)) (untried (ts_tried_servers_mask s0))) s1 new out"
    "progress_of s1 = progress_of s" "ts_tried_servers_mask s1 = ts_tried_servers_mask s"
    "(th_initial_payload (ts_phase s1) \<noteq> [] \<longleftrightarrow> th_initial_payload (ts_phase s) \<noteq> [] \<or> got_data rd) \<or>
     (new = [] \<and> (\<forall>s'. out \<noteq> Going (Handshaking s')))"
    "\<And>s'. out = Going (Handshaking s') \<Longrightarrow> connecting s' \<or> (ts_server_idx s' = ts_server_idx s \<and>
       ts_tried_servers_mask s' = ts_tried_servers_mask s \<and> progress_of s' = progress_of s \<and> new = [])"
    using log s(3,4) unfolding read_log_def by auto
  show ?thesis
  proof (rule life_extend [OF _ _ base _ l(1,3,4,5,2)])
    show "connects (calls @ new) = [] \<and> ts_server_idx s' = ts_server_idx s0 \<and> ts_tried_servers_mask s' = ts_tried_servers_mask s0 \<and> progress_of s' = (0, 0)"
      if "out = Going (Handshaking s')" "awaiting_payload s'" for s'
      using l(6) [OF that(1)] awaiting_not_connecting [OF that(2)] s by auto
  qed (use s ok in auto)
qed

lemma session_life_ok:
  fixes res :: "'c tcp_outcome \<times> ('x, 'c) tcp_world"
  assumes "session_life cfg lib s0 calls res" "s0 = new_session fd target skaddr (idx, m, c)" "bit m (unat idx)"
  shows "life_ok s0 calls (fst res)"
  using assms(1)
proof induction
  case (life_start R A w envs recvs out w' calls)
  have s0: "ts_server_idx s0 = idx" "ts_tried_servers_mask s0 = m" "progress_of s0 = (0, 0)" "th_initial_payload (ts_phase s0) = []"
    by (simp_all add: assms(2) new_session_def progress_of_def header_len_def header_sent_def)
  have ready: "step_ready R A s0 w" "unstarted s0" using life_start(1) assms(2,3) s0 by (simp_all add: step_ready_def unstarted_def)
  have run: "read_then cfg lib recvs envs (Some (\<lambda>s. s\<lparr>ts_client_io := Some (Cb_initial_payload_read, True, False), ts_phase_timer := Some Timer_initial_payload\<rparr>))
      s0 w = Some (out, w')" using life_start(3) by (simp add: tcp_handshake_wait_initial_payload_def)
  obtain rd new s1 where log: "tcp_log w' = tcp_log w @ rd @ new" "read_log s0 rd new s1 out"
    using read_then_log [OF ready life_start(2) run] by auto
  have ok: "obj_ok obj" if "out = Going obj" for obj
    using wait_outcome [OF ready(1) _ _ _ life_start(2,3)] that assms(2) by (auto simp: outcome_ok_def)
  have "life_ok s0 ([] @ rd @ new) out" by (rule life_reads [OF _ _ s0(3) refl refl log(2) ok]) (simp_all add: s0)
  then show ?case using life_start(4) log(1) by simp
next
  case (life_event calls obj w0 R A w ev out w' new)
  have IH: "life_ok s0 calls (Going obj)" using life_event.IH by simp
  have "obj_ok obj" using IH by (simp add: life_ok_def)
  from handle_outcome [OF this life_event(2-5)] have ok: "obj_ok obj'" if "out = Going obj'" for obj' using that by (simp add: outcome_ok_def)
  show ?case
  proof (cases obj)
    case (Relaying s)
    then obtain env is_client rd wr where ev: "ev = Ev_relay env is_client rd wr" using life_event(3) by (cases ev) auto
    obtain r cs where r: "tcp_relay_on_event lib (tc_prefix_len cfg) env is_client rd wr s = (r, cs)" by (metis surj_pair)
    then have "out \<noteq> Going (Handshaking s')" "w' = tcp_call cs w" for s'
      using life_event(5) Relaying ev by (cases r; auto simp: closing_def)+
    moreover have "list_all plain cs" using event_plain [of lib "tc_prefix_len cfg" env is_client rd wr s] r by simp
    ultimately show ?thesis
      using IH life_event(6) plain_calls(1) no_replay_plain ok by (auto simp: life_ok_def no_replay_append)
  next
    case (Handshaking s)
    have s: "progress_of s = reach (0, 0) calls" "th_initial_payload (ts_phase s) \<noteq> [] \<longleftrightarrow> got_data calls"
      "untried (ts_tried_servers_mask s) \<subseteq> untried (ts_tried_servers_mask s0) - nat ` set (connects calls)"
      "awaiting_payload s \<Longrightarrow> connects calls = [] \<and> ts_server_idx s = ts_server_idx s0 \<and> ts_tried_servers_mask s = ts_tried_servers_mask s0 \<and> progress_of s = (0, 0)"
      and c: "distinct (connects calls)" "set (connects calls) \<subseteq> int ` (insert (unat (ts_server_idx s0)) (untried (ts_tried_servers_mask s0)))"
      "no_replay False (0, 0) calls" using IH Handshaking unfolding life_ok_def by blast+
    have obj: "step_ready R A s w" "awaiting_payload s \<or> connecting s"
      using \<open>obj_ok obj\<close> life_event(2) Handshaking by (auto simp: obj_ok_def obj_fds_def obj_block_def step_ready_def)
    show ?thesis
    proof (cases "awaiting_payload s")
      case True
      note a = s(4) [OF True]
      have "unstarted s" using True a assms(2,3) by (auto simp: unstarted_def awaiting_payload_def new_session_def)
      from awaiting_log [OF obj(1) True this life_event(3,4,5) [unfolded Handshaking]]
      obtain rd cs s1 where log: "tcp_log w' = tcp_log w @ rd @ cs" "read_log s rd cs s1 out" by blast
      have "life_ok s0 (calls @ rd @ cs) out" by (rule life_reads [OF _ _ _ _ _ log(2) ok]) (use IH Handshaking a in simp_all)
      then show ?thesis using life_event(6) log(1) by simp
    next
      case False
      then have con: "connecting s" using obj(2) by simp
      from connecting_log [OF obj(1) con life_event(3,4,5) [unfolded Handshaking]]
      have log: "hs_log (untried (ts_tried_servers_mask s)) s new out" using life_event(6) by auto
      have "life_ok s0 (calls @ [] @ new) out"
      proof (rule life_extend [OF c s(1-3) _ refl refl _ log _ _ ok])
        show "connects (calls @ new) = [] \<and> ts_server_idx s' = ts_server_idx s0 \<and> ts_tried_servers_mask s' = ts_tried_servers_mask s0 \<and> progress_of s' = (0, 0)"
          if "out = Going (Handshaking s')" "awaiting_payload s'" for s'
          using connecting_stays [OF con life_event(3) [unfolded Handshaking]] life_event(5) Handshaking that awaiting_not_connecting by blast
      qed (use s(3) in \<open>auto simp: reads_def\<close>)
      then show ?thesis by simp
    qed
  qed
qed

section \<open>A small session\<close>

text \<open>The client has sent a byte; the first server refuses the connection, the second takes the request.\<close>

definition demo_tcp_config :: tcp_config where
  "demo_tcp_config = \<lparr>tc_fakedns = False, tc_tfo_connect = False, tc_domain_name_size = 255, tc_prefix_len = 34\<rparr>"

definition demo_start_env :: relay_start_env where
  "demo_start_env = \<lparr>rs_memalign = (\<lambda>_. None), rs_block = demo_block\<rparr>"

definition demo_attempt :: "int \<Rightarrow> (unit, unit, unit) attempt_env" where
  "demo_attempt fd =
     \<lparr>ae_client_error = IoOk None, ae_next = demo_selectors, ae_ctx = Some (), ae_client = Some (), ae_attempt = demo_selectors,
      ae_fd = fd, ae_sendto = IoErr EAGAIN, ae_connect = IoErr EINPROGRESS, ae_so_error = IoOk None, ae_send = IoErr EAGAIN,
      ae_relay = demo_start_env\<rparr>"

definition demo_target :: ss2022_addr where
  "demo_target = \<lparr>addr_port = 443, addr_host = SS2022_ADDR_IPV4 [8, 8, 8, 8]\<rparr>"

definition demo_new :: "unit hs_session" where
  "demo_new = new_session 5 demo_target [] (0, 1, ())"

definition demo_tcp_world :: "(unit, unit) tcp_world" where
  "demo_tcp_world =
     \<lparr>g_tcp_session_head = Some 4224, tcp_prev = (\<lambda>_. None), tcp_next = (\<lambda>_. None), tcp_mem = [4224 \<mapsto> Handshaking demo_new],
      g_tcp_session_pool = demo_mempool1, g_tcp_relay_in_pool = demo_mempool, g_tcp_ss_ctx = replicate 8 None,
      tcp_fds = [5], tcp_log = []\<rparr>"

definition demo_connecting :: "unit hs_session" where
  "demo_connecting = demo_new
     \<lparr>ts_server_fd := 9, ts_server_io := Some (Cb_server_connected, False, True), ts_phase_timer := Some Timer_connect,
      ts_phase := \<lparr>th_request_header = [22, 7], th_initial_payload = [7], th_target = demo_target, th_request_header_len = 2,
                   th_request_header_sent = 0, th_client_eof = False\<rparr>\<rparr>"

definition demo_world1 :: "(unit, unit) tcp_world" where
  "demo_world1 = demo_tcp_world\<lparr>tcp_fds := [9, 5], tcp_log := [Call_recv 5 [7], Call_request [22, 7], Call_connect 0 9]\<rparr>"

lemma demo_first:
  "tcp_handshake_wait_initial_payload demo_tcp_config demo_relay_lib [IoOk [7], IoErr EAGAIN] (\<lambda>_. demo_attempt 9) demo_new w =
   Some (Going (Handshaking demo_connecting), tcp_call [Call_recv 5 [7], Call_request [22, 7], Call_connect 0 9] (tcp_open 9 w))"
  by (simp add: tcp_handshake_wait_initial_payload_def read_then_def demo_new_def new_session_def tcp_consts Let_def
      tcp_handshake_start_after_initial_payload_def tcp_handshake_start_def after_step_def tcp_handshake_try_connect_def
      tcp_handshake_build_request_header_def demo_relay_lib_def TCP_SS2022_REQ_HDR_BUFSIZ_def TCP_SS2022_REQ_HDR_OVERHEAD_def
      tcp_handshake_connect_server_def demo_attempt_def demo_tcp_config_def tcp_connect_def tcp_plain_connect_def
      tcp_session_attach_server_def demo_connecting_def tcp_call_def tcp_open_def
      server_selector_tcp_attempt_def ss_attempt_epoch_def demo_selectors_def demo_selector_def)

lemma demo_first_world: "tcp_call [Call_recv 5 [7], Call_request [22, 7], Call_connect 0 9] (tcp_open 9 demo_tcp_world) = demo_world1"
  by (simp add: demo_world1_def demo_tcp_world_def tcp_call_def tcp_open_def)

lemma demo_next_best: "server_selector_next_best_tcp 1 demo_selectors = 2"
  by code_simp

definition demo_connecting2 :: "unit hs_session" where
  "demo_connecting2 = demo_connecting
     \<lparr>ts_server_fd := 10, ts_server_idx := 2, ts_tried_servers_mask := 5, ts_retry_count := 1\<rparr>"

definition demo_world2 :: "(unit, unit) tcp_world" where
  "demo_world2 = demo_world1\<lparr>tcp_fds := [10, 5], g_tcp_ss_ctx := (replicate 8 None)[2 := Some ()],
     tcp_log := tcp_log demo_world1 @ [Call_report (Tcp_failure 0), Call_close 9, Call_request [22, 7], Call_connect 2 10]\<rparr>"

lemma demo_second:
  "tcp_handle demo_tcp_config demo_relay_lib (Ev_server_connected (IoOk (Some (EOTHER 111))) (IoErr EAGAIN) demo_start_env (\<lambda>_. demo_attempt 10))
     (Handshaking demo_connecting) demo_world1 = Some (Going (Handshaking demo_connecting2), demo_world2)"
proof -
  have e: "server_selector_tcp_attempt 2 demo_selectors = 0"
    by (simp add: server_selector_tcp_attempt_def ss_attempt_epoch_def demo_selectors_def demo_selector_def)
  show ?thesis
    by (simp add: tcp_handshake_on_server_connected_def socket_error_is_local_def after_step_def tcp_handshake_retry.simps
      tcp_handshake_next_def demo_next_best e request_queued_def Let_def demo_connecting_def demo_new_def new_session_def
      drop_server_def next_server_def tcp_ctx_get_def tcp_handshake_try_connect_def
      tcp_handshake_build_request_header_def demo_relay_lib_def TCP_SS2022_REQ_HDR_BUFSIZ_def TCP_SS2022_REQ_HDR_OVERHEAD_def
      tcp_handshake_connect_server_def demo_attempt_def demo_tcp_config_def tcp_connect_def tcp_plain_connect_def
      tcp_session_attach_server_def demo_world2_def demo_world1_def demo_tcp_world_def demo_connecting2_def tcp_call_def tcp_open_def
      tcp_shut_def tcp_has_error_def)
qed

lemma demo_env_ok: "attempts_env_ok (\<lambda>_. demo_attempt fd) w"
  by (simp add: attempts_env_ok_def attempts_ok_def demo_attempt_def demo_selectors_ok demo_start_env_def demo_memalign_ok)

lemma demo_holds:
  "holds {#} {} (session_fds demo_new) None demo_tcp_world" "holds {#} {} (session_fds demo_connecting) None demo_world1"
proof -
  have "pool_of demo_mempool {}" using demo_mempool_ok by (simp add: pool_of_def mempool_inv_def) (simp add: demo_mempool_def)
  then show "holds {#} {} (session_fds demo_new) None demo_tcp_world" "holds {#} {} (session_fds demo_connecting) None demo_world1"
    by (simp_all add: holds_def session_fds_def fd_mset_def demo_new_def new_session_def demo_tcp_world_def demo_connecting_def demo_world1_def)
qed

lemma demo_life:
  "session_life demo_tcp_config demo_relay_lib demo_new
     ([Call_recv 5 [7], Call_request [22, 7], Call_connect 0 9] @
      [Call_report (Tcp_failure 0), Call_close 9, Call_request [22, 7], Call_connect 2 10]) (Going (Handshaking demo_connecting2), demo_world2)"
proof (rule life_event [OF life_start])
  show "holds {#} {} (session_fds demo_new) None demo_tcp_world" by (rule demo_holds)
  show "attempts_env_ok (\<lambda>_. demo_attempt 9) demo_tcp_world" by (rule demo_env_ok)
  show "tcp_handshake_wait_initial_payload demo_tcp_config demo_relay_lib [IoOk [7], IoErr EAGAIN] (\<lambda>_. demo_attempt 9) demo_new demo_tcp_world =
      Some (Going (Handshaking demo_connecting), demo_world1)" by (simp only: demo_first demo_first_world)
  show "tcp_log demo_world1 = tcp_log demo_tcp_world @ [Call_recv 5 [7], Call_request [22, 7], Call_connect 0 9]"
    by (simp add: demo_world1_def demo_tcp_world_def)
  show "holds {#} {} (obj_fds (Handshaking demo_connecting)) (obj_block (Handshaking demo_connecting)) demo_world1"
    using demo_holds(2) by (simp add: obj_fds_def obj_block_def) (simp add: demo_connecting_def demo_new_def new_session_def)
  let ?ev = "Ev_server_connected (IoOk (Some (EOTHER 111))) (IoErr EAGAIN) demo_start_env (\<lambda>_. demo_attempt 10)"
  show "tcp_waits ?ev (Handshaking demo_connecting)" by (simp add: demo_connecting_def)
  show "event_env_ok ?ev demo_world1" using demo_env_ok by (simp add: demo_start_env_def demo_memalign_ok)
  show "tcp_handle demo_tcp_config demo_relay_lib ?ev (Handshaking demo_connecting) demo_world1 = Some (Going (Handshaking demo_connecting2), demo_world2)"
    by (rule demo_second)
  show "tcp_log demo_world2 = tcp_log demo_world1 @ [Call_report (Tcp_failure 0), Call_close 9, Call_request [22, 7], Call_connect 2 10]"
    by (simp add: demo_world2_def)
qed

section \<open>The servers a session begins with\<close>

lemma choose_server_marks:
  fixes w :: "('x, 'c) tcp_world" and envs :: "nat \<Rightarrow> ('y, 'x, 'c) choice_env"
  assumes "tcp_choose_server envs first m w = Some (Some (idx, m', c), w')" "choices_ok envs"
  shows "unat idx < SS_MAX_SERVERS \<and> bit m' (unat idx)"
proof -
  let ?P = "\<lambda>(envs :: nat \<Rightarrow> ('y, 'x, 'c) choice_env) (first :: bool) (m :: u8) (w :: ('x, 'c) tcp_world) res. choices_ok envs \<longrightarrow>
    (\<forall>idx m' c. fst res = Some (idx, m', c :: 'c) \<longrightarrow> unat (idx :: u8) < SS_MAX_SERVERS \<and> bit (m' :: u8) (unat idx))"
  have "?P envs first m w (Some (idx, m', c), w')"
    using assms(1)
  proof (rule tcp_choose_server.raw_induct [of ?P, rotated])
    fix rec :: "(nat \<Rightarrow> ('y, 'x, 'c) choice_env) \<Rightarrow> bool \<Rightarrow> u8 \<Rightarrow> ('x, 'c) tcp_world \<Rightarrow> ((u8 \<times> u8 \<times> 'c) option \<times> ('x, 'c) tcp_world) option"
      and envs :: "nat \<Rightarrow> ('y, 'x, 'c) choice_env" and first and m :: u8 and w :: "('x, 'c) tcp_world"
      and res :: "(u8 \<times> u8 \<times> 'c) option \<times> ('x, 'c) tcp_world"
    let ?i = "if first then server_selector_best_tcp (ce_sel (envs 0)) else server_selector_next_best_tcp (ucast m) (ce_sel (envs 0))"
    assume IH: "\<And>envs first m w res. rec envs first m w = Some res \<Longrightarrow> ?P envs first m w res"
      and res: "(let next_idx = ?i; tried_mask' = m OR push_bit (nat next_idx) 1
        in if next_idx < 0 then Some (None, w)
           else (case tcp_ctx_get (ce_ctx (envs 0)) (nat next_idx) w of
              (ctx, w) \<Rightarrow> (case (ctx, ce_client (envs 0)) of
                 (Some _, Some c) \<Rightarrow> Some (Some (word_of_int next_idx, tried_mask', c), w)
               | _ \<Rightarrow> rec (\<lambda>n. envs (Suc n)) False tried_mask' w))) = Some res"
    obtain ctx w1 where c: "tcp_ctx_get (ce_ctx (envs 0)) (nat ?i) w = (ctx, w1)" by (metis surj_pair)
    define i where "i = ?i"
    show "?P envs first m w res"
    proof (intro impI allI)
      fix idx m' c assume ok: "choices_ok envs" and r: "fst res = Some (idx, m', c)"
      have i0: "\<not> i < 0" using res r unfolding i_def Let_def by (cases "?i < 0") auto
      have sel: "selectors_ok (ce_sel (envs 0))" using ok by (simp add: choices_ok_def)
      have i8: "nat i < SS_MAX_SERVERS"
      proof (cases first)
        case True
        then show ?thesis using sel by (simp add: i_def selectors_ok_def selector_ok_def server_selector_best_tcp_def) linarith
      next
        case False
        then show ?thesis using next_best_untried [OF sel, of m] i0 by (simp add: i_def untried_def)
      qed
      consider "idx = word_of_int i" "m' = m OR push_bit (nat i) 1" | "rec (\<lambda>n. envs (Suc n)) False (m OR push_bit (nat i) 1) w1 = Some res"
        using res r c i0 unfolding i_def [symmetric] Let_def by (simp only: if_False prod.case) (auto split: option.splits)
      then show "unat idx < SS_MAX_SERVERS \<and> bit m' (unat idx)"
      proof cases
        case 1
        have "unat (word_of_int i :: u8) = nat i" using i0 i8 by (simp add: SS_MAX_SERVERS_def unsigned_of_int take_bit_int_eq_self nat_less_iff)
        then show ?thesis using 1 i8 by (simp add: bit_or_iff bit_exp_iff SS_MAX_SERVERS_def)
      next
        case 2
        from IH [OF this] show ?thesis using shift_ok(2) [OF ok] r by simp
      qed
    qed
  qed
  then show ?thesis using assms(2) by simp
qed

section \<open>Properties\<close>


definition demo_choice :: "(unit, unit, unit) choice_env" where
  "demo_choice = \<lparr>ce_sel = demo_selectors, ce_ctx = Some (), ce_client = Some ()\<rparr>"

lemma demo_choose: "tcp_choose_server (\<lambda>_. demo_choice) True 0 demo_tcp_world = Some (Some (0, 1, ()), demo_tcp_world\<lparr>g_tcp_ss_ctx := (replicate 8 None)[0 := Some ()]\<rparr>)"
  by (simp add: tcp_choose_server.simps demo_choice_def server_selector_best_tcp_def demo_selectors_def demo_selector_def tcp_ctx_get_def
      demo_tcp_world_def Let_def)

lemma demo_choices_ok: "choices_ok (\<lambda>_. demo_choice)"
  by (simp add: choices_ok_def demo_choice_def demo_selectors_ok)


text \<open>C3. What the client sends first is never sent twice: once a request that carries it has been queued completely, by one call or many,
  no other request is built for the session, whichever server fails in whatever way afterwards.\<close>

theorem tcp_no_replay:
  assumes "tcp_choose_server choices True 0 w0 = Some (Some choice, w1)" "choices_ok choices"
    "session_life cfg lib (new_session fd target skaddr choice) calls res"
  shows "no_replay False (0, 0) calls"
proof -
  obtain idx m c where ch: "choice = (idx, m, c)" by (metis prod_cases3)
  have "bit m (unat idx)" using choose_server_marks [of choices True 0 w0 idx m c w1] assms(1,2) ch by simp
  from session_life_ok [OF assms(3) _ this, of fd target skaddr c] ch show ?thesis by (simp add: life_ok_def)
qed

theorem tcp_no_replay_witness:
  "no_replay False (0, 0) (tcp_log demo_world2) \<and> \<not> no_replay False (0, 0) [Call_recv 5 [7], Call_request [22, 7], Call_send 9 [22, 7], Call_request [22, 7]]"
  using tcp_no_replay [OF demo_choose demo_choices_ok demo_life [unfolded demo_new_def]]
  by (simp add: demo_world2_def demo_world1_def complete_def)

end
