(* ===== verification/TcpRuns.thy ===== *)
theory TcpRuns
  imports TcpAttempts
begin

text \<open>
  A thread that serves TCP, from the pools that \<^verbatim>\<open>run_event_loop\<close> of \<^verbatim>\<open>src/src/main.c\<close> creates for it over every batch of
  connections and every event of a session to its shutdown: what is true of every world it can reach.
\<close>

section \<open>The start of a thread\<close>

record tcp_pool_envs =
  env_tcp_session :: pool_env
  env_relay_in :: pool_env

definition tcp_thread_start :: "tcp_pool_envs \<Rightarrow> ('x, 'c) tcp_world option" where
  "tcp_thread_start env =
     (case thread_pool (env_tcp_session env) 64 65535 of
        None \<Rightarrow> None
      | Some sp \<Rightarrow>
          (case thread_pool ((env_relay_in env)\<lparr>pe_size := TCP_SS_RESP_IN_BUFSIZ\<rparr>) 0 65535 of
             None \<Rightarrow> None
           | Some rp \<Rightarrow>
               Some \<lparr>g_tcp_session_head = None, tcp_prev = (\<lambda>_. None), tcp_next = (\<lambda>_. None), tcp_mem = Map.empty,
                     g_tcp_session_pool = sp, g_tcp_relay_in_pool = rp, g_tcp_ss_ctx = replicate SS_MAX_SERVERS None,
                     tcp_fds = [], tcp_log = []\<rparr>))"

definition tcp_pool_envs_ok :: "tcp_pool_envs \<Rightarrow> bool" where
  "tcp_pool_envs_ok env \<longleftrightarrow> pool_env_ok (env_tcp_session env) \<and> pool_env_ok ((env_relay_in env)\<lparr>pe_size := TCP_SS_RESP_IN_BUFSIZ\<rparr>)"

lemma tcp_thread_start_inv: "tcp_thread_start env = Some w \<Longrightarrow> tcp_pool_envs_ok env \<Longrightarrow> tcp_inv w []"
  by (auto simp: tcp_thread_start_def tcp_inv_def session_list_def tcp_pool_envs_ok_def dest: thread_pool_of split: option.splits)

section \<open>Accepting\<close>

text \<open>The choice of a server touches nothing but the contexts.\<close>

lemma choose_server_store:
  fixes w :: "('x, 'c) tcp_world" and envs :: "nat \<Rightarrow> ('y, 'x, 'c) choice_env"
  assumes "tcp_choose_server envs first m w = Some (choice, w')"
  shows "\<exists>ctxs. w' = w\<lparr>g_tcp_ss_ctx := ctxs\<rparr>"
proof -
  let ?P = "\<lambda>(envs :: nat \<Rightarrow> ('y, 'x, 'c) choice_env) first m (w :: ('x, 'c) tcp_world) res. \<exists>ctxs. snd res = w\<lparr>g_tcp_ss_ctx := ctxs\<rparr>"
  have "?P envs first m w (choice, w')"
    using assms
  proof (rule tcp_choose_server.raw_induct [of ?P, rotated])
    fix rec :: "(nat \<Rightarrow> ('y, 'x, 'c) choice_env) \<Rightarrow> bool \<Rightarrow> u8 \<Rightarrow> ('x, 'c) tcp_world \<Rightarrow> ((u8 \<times> u8 \<times> 'c) option \<times> ('x, 'c) tcp_world) option"
      and envs :: "nat \<Rightarrow> ('y, 'x, 'c) choice_env" and first and m :: u8 and w :: "('x, 'c) tcp_world" and res
    let ?i = "if first then server_selector_best_tcp (ce_sel (envs 0)) else server_selector_next_best_tcp (ucast m) (ce_sel (envs 0))"
    assume IH: "\<And>envs first m w res. rec envs first m w = Some res \<Longrightarrow> ?P envs first m w res"
      and res: "(let next_idx = ?i; tried_mask' = m OR push_bit (nat next_idx) 1
        in if next_idx < 0 then Some (None, w)
           else (case tcp_ctx_get (ce_ctx (envs 0)) (nat next_idx) w of
              (ctx, w) \<Rightarrow> (case (ctx, ce_client (envs 0)) of
                 (Some _, Some c) \<Rightarrow> Some (Some (word_of_int next_idx, tried_mask', c), w)
               | _ \<Rightarrow> rec (\<lambda>n. envs (Suc n)) False tried_mask' w))) = Some res"
    obtain ctx w1 where c: "tcp_ctx_get (ce_ctx (envs 0)) (nat ?i) w = (ctx, w1)" by (metis surj_pair)
    then have w1: "\<exists>ctxs. w1 = w\<lparr>g_tcp_ss_ctx := ctxs\<rparr>"
      by (auto simp: tcp_ctx_get_def split: option.splits intro: exI [of _ "g_tcp_ss_ctx w"])
    show "\<exists>ctxs. snd res = w\<lparr>g_tcp_ss_ctx := ctxs\<rparr>"
    proof (cases "?i < 0")
      case True
      then have "res = (None, w)" using res unfolding Let_def by (simp only: if_True option.inject)
      then show ?thesis by (auto intro: exI [of _ "g_tcp_ss_ctx w"])
    next
      case False
      then have "snd res = w1 \<or> rec (\<lambda>n. envs (Suc n)) False (m OR push_bit (nat ?i) 1) w1 = Some res"
        using res c unfolding Let_def by (simp only: if_False prod.case) (auto split: option.splits)
      then show ?thesis
      proof
        assume "rec (\<lambda>n. envs (Suc n)) False (m OR push_bit (nat ?i) 1) w1 = Some res"
        from IH [OF this] w1 show ?thesis by auto
      qed (use w1 in simp)
    qed
  qed
  then show ?thesis by simp
qed

text \<open>The invariant says nothing of the log and the contexts, and a pool can be replaced by one with the same blocks in use.\<close>

lemma tcp_inv_irrelevant [simp]:
  "tcp_inv (tcp_shut rst fd (tcp_open fd w)) ps = tcp_inv w ps" "tcp_inv (w\<lparr>g_tcp_ss_ctx := ctxs\<rparr>) ps = tcp_inv w ps"
  by (simp_all add: tcp_inv_def session_list_def tcp_shut_def tcp_open_def tcp_call_def)

text \<open>A new session, with the fields it has while it waits for the client's first bytes.\<close>

definition new_waiting :: "int \<Rightarrow> ss2022_addr \<Rightarrow> bytes \<Rightarrow> u8 \<times> u8 \<times> 'c \<Rightarrow> 'c hs_session" where
  "new_waiting fd target skaddr choice =
     (new_session fd target skaddr choice)
       \<lparr>ts_client_io := Some (Cb_initial_payload_read, True, False), ts_phase_timer := Some Timer_initial_payload\<rparr>"

lemma new_waiting_ok: "obj_ok (Handshaking (new_waiting fd target skaddr choice))"
  by (simp add: new_waiting_def obj_ok_def awaiting_payload_def)

text \<open>What a handler leaves at the session's address replaces what was there.\<close>

lemma mem_aside:
  "tcp_shut rst fd (w\<lparr>tcp_mem := m\<rparr>) = (tcp_shut rst fd w)\<lparr>tcp_mem := m\<rparr>"
  "tcp_session_unlink p (w\<lparr>tcp_mem := m\<rparr>) = (tcp_session_unlink p w)\<lparr>tcp_mem := m\<rparr>"
  "w\<lparr>tcp_mem := m, g_tcp_relay_in_pool := pool\<rparr> = w\<lparr>g_tcp_relay_in_pool := pool, tcp_mem := m\<rparr>"
  "tcp_mem (tcp_session_unlink p w) = tcp_mem w" "tcp_mem (tcp_shut rst fd w) = tcp_mem w"
  by (simp_all add: tcp_shut_def tcp_call_def tcp_session_unlink_def Let_def split: option.split)

lemma if_mem_aside: "(if b then x\<lparr>tcp_mem := m\<rparr> else y\<lparr>tcp_mem := m\<rparr>) = (if b then x else y)\<lparr>tcp_mem := m\<rparr>"
  "tcp_mem (if b then x else y) = (if b then tcp_mem x else tcp_mem y)"
  by simp_all

lemma finish_overwrites: "tcp_finish p (out, w\<lparr>tcp_mem := (tcp_mem w)(p \<mapsto> obj)\<rparr>) = tcp_finish p (out, w)"
  by (cases out; simp add: tcp_finish_def tcp_session_close_def Let_def mem_aside if_mem_aside del: if_split split: option.split)

definition accept_env_ok :: "('y, 'x, 'c) accept_env \<Rightarrow> ('x, 'c) tcp_world \<Rightarrow> bool" where
  "accept_env_ok env w \<longleftrightarrow> posix_memalign_ok (ac_memalign env) (g_tcp_session_pool w) \<and> attempts_env_ok (ac_attempts env) w"

text \<open>A session that has been created and linked, before its first handler runs.\<close>

lemma create_spec:
  assumes "tcp_inv w ps" "posix_memalign_ok memalign (g_tcp_session_pool w)" "0 \<le> fd"
    "tcp_session_create memalign envs fd target skaddr (tcp_open fd w) = Some (r, w1)"
  shows "case r of
      None \<Rightarrow> tcp_inv (tcp_shut True fd w1) ps
    | Some p \<Rightarrow> \<exists>choice. tcp_mem w1 p = Some (Handshaking (new_session fd target skaddr choice)) \<and>
        tcp_inv (w1\<lparr>tcp_mem := (tcp_mem w1)(p \<mapsto> Handshaking (new_waiting fd target skaddr choice))\<rparr>) (p # ps) \<and>
        g_tcp_relay_in_pool w1 = g_tcp_relay_in_pool w"
proof -
  have pool: "pool_of (g_tcp_session_pool w) (set ps)" using assms(1) by (simp add: tcp_inv_def)
  obtain a q where a: "pool_alloc memalign (g_tcp_session_pool w) = (a, q)" by (metis surj_pair)
  note spec = pool_of_alloc [OF pool assms(2) a]
  let ?w = "(tcp_open fd w)\<lparr>g_tcp_session_pool := q\<rparr>"
  have same: "g_tcp_session_pool (tcp_open fd w) = g_tcp_session_pool w" by (simp add: tcp_open_def)
  show ?thesis
  proof (cases a)
    case None
    then have "r = None" "w1 = ?w" using assms(4) a same by (simp_all add: tcp_session_create_def)
    then show ?thesis using assms(1) spec None by (simp add: tcp_inv_def session_list_def tcp_shut_def tcp_open_def tcp_call_def)
  next
    case (Some p)
    obtain c w2 where c: "tcp_choose_server envs True 0 ?w = Some (c, w2)" using assms(4) a same Some
      by (cases "tcp_choose_server envs True 0 ?w") (auto simp: tcp_session_create_def)
    obtain ctxs where w2: "w2 = ?w\<lparr>g_tcp_ss_ctx := ctxs\<rparr>" using choose_server_store [OF c] by blast
    have p: "p \<notin> set ps" "pool_of q (insert p (set ps))" using spec Some by auto
    show ?thesis
    proof (cases c)
      case None
      then have "r = None" "w1 = w2\<lparr>g_tcp_session_pool := pool_free p q\<rparr>" using assms(4) a same Some c w2 by (simp_all add: tcp_session_create_def)
      then show ?thesis using assms(1) pool_free_alloc [OF p(2,1)]
        by (simp add: w2 tcp_inv_def session_list_def tcp_shut_def tcp_open_def tcp_call_def)
    next
      case ch: (Some choice)
      let ?m = "(tcp_mem w)(p \<mapsto> Handshaking (new_waiting fd target skaddr choice))"
      let ?w3 = "w2\<lparr>tcp_mem := (tcp_mem w2)(p \<mapsto> Handshaking (new_session fd target skaddr choice))\<rparr>"
      have r: "r = Some p" "w1 = tcp_session_link p ?w3" using assms(4) a same Some c ch by (simp_all add: tcp_session_create_def)
      have w1: "tcp_mem w1 = (tcp_mem w)(p \<mapsto> Handshaking (new_session fd target skaddr choice))" "g_tcp_session_pool w1 = q"
        "g_tcp_relay_in_pool w1 = g_tcp_relay_in_pool w" "tcp_fds w1 = fd # tcp_fds w"
        unfolding r(2) w2 by (simp_all add: tcp_session_link_def tcp_open_def Let_def split: option.split)
      have "session_list ?w3 ps" using assms(1) by (simp add: tcp_inv_def session_list_def w2 tcp_open_def)
      then have list: "session_list w1 (p # ps)" unfolding r(2) using p(1) by (rule session_link_list)
      have all: "all_fds ?m (p # ps) = {#fd#} + all_fds (tcp_mem w) ps" "all_blocks ?m (p # ps) = all_blocks (tcp_mem w) ps"
        using p(1) assms(3) by (simp_all add: obj_fds_def obj_block_def new_waiting_def session_fds_def fd_mset_def)
      have ok: "\<forall>x \<in> set (p # ps). obj_ok (the (?m x))"
        using p(1) assms(1) new_waiting_ok [of fd target skaddr choice] by (auto simp: tcp_inv_def)
      have inv: "tcp_inv (w1\<lparr>tcp_mem := ?m\<rparr>) (p # ps)"
      proof -
        have old: "dom (tcp_mem w) = set ps" "mset (tcp_fds w) = all_fds (tcp_mem w) ps" "distinct (all_blocks (tcp_mem w) ps)"
          "pool_of (g_tcp_relay_in_pool w) (set (all_blocks (tcp_mem w) ps))" using assms(1) by (auto simp: tcp_inv_def)
        have "session_list (w1\<lparr>tcp_mem := ?m\<rparr>) (p # ps)" using list by (simp add: session_list_def)
        moreover have "dom ?m = set (p # ps)" using old(1) by auto
        ultimately show ?thesis using old p(2) ok by (simp add: tcp_inv_def all w1 del: all_append all_upd list.set fun_upd_apply dom_fun_upd) simp
      qed
      then show ?thesis unfolding r(1) option.case by (intro exI [of _ choice]) (simp add: w1)
    qed
  qed
qed

lemma accepted_inv:
  assumes "tcp_inv w ps" "accept_env_ok env w" "0 \<le> fd" "tcp_proxy_accepted cfg dns lib isipv4 fd skaddr env (m, w) = Some (m', w')"
  shows "\<exists>ps'. tcp_inv w' ps'"
proof -
  obtain t m1 where t: "tcp_proxy_resolve_target cfg dns isipv4 (ac_getsockname env) m = (t, m1)" by (metis surj_pair)
  show ?thesis
  proof (cases t)
    case None
    then have "w' = tcp_shut True fd (tcp_open fd w)" using assms(4) t by (simp add: tcp_proxy_accepted_def Let_def)
    then show ?thesis using assms(1) by auto
  next
    case (Some target)
    obtain r w1 where c: "tcp_session_create (ac_memalign env) (ac_choice env) fd target skaddr (tcp_open fd w) = Some (r, w1)"
      using assms(4) t Some
      by (cases "tcp_session_create (ac_memalign env) (ac_choice env) fd target skaddr (tcp_open fd w)") (auto simp: tcp_proxy_accepted_def Let_def)
    have ok: "posix_memalign_ok (ac_memalign env) (g_tcp_session_pool w)" "attempts_env_ok (ac_attempts env) w"
      using assms(2) by (simp_all add: accept_env_ok_def)
    note spec = create_spec [OF assms(1) ok(1) assms(3) c]
    show ?thesis
    proof (cases r)
      case None
      then show ?thesis using assms(4) t Some c spec by (auto simp: tcp_proxy_accepted_def Let_def)
    next
      case p: (Some p)
      then obtain choice where ch: "tcp_mem w1 p = Some (Handshaking (new_session fd target skaddr choice))"
        "tcp_inv (w1\<lparr>tcp_mem := (tcp_mem w1)(p \<mapsto> Handshaking (new_waiting fd target skaddr choice))\<rparr>) (p # ps)"
        "g_tcp_relay_in_pool w1 = g_tcp_relay_in_pool w" using spec by auto
      let ?s = "new_session fd target skaddr choice" and ?obj = "Handshaking (new_waiting fd target skaddr choice)"
      let ?w1 = "w1\<lparr>tcp_mem := (tcp_mem w1)(p \<mapsto> ?obj)\<rparr>"
      obtain out w2 where res: "tcp_handshake_wait_initial_payload cfg lib (ac_recvs env) (ac_attempts env) ?s w1 = Some (out, w2)"
        "w' = tcp_finish p (out, w2)"
        using assms(4) t Some c p ch(1) by (auto simp: tcp_proxy_accepted_def Let_def hs_of_def split: option.splits)
      let ?R = "all_fds (tcp_mem ?w1) ps" and ?A = "set (all_blocks (tcp_mem ?w1) ps)"
      have "holds ?R ?A (session_fds ?s) None w1"
        using inv_focus [of ?w1 "[]" p ps] ch(2) by (simp add: holds_def obj_fds_def obj_block_def new_waiting_def session_fds_def)
      then have ready: "step_ready ?R ?A ?s w1" by (simp add: step_ready_def)
      have "attempts_env_ok (ac_attempts env) w1" using ok(2) ch(3) by (simp add: attempts_env_ok_def)
      from wait_outcome [OF ready _ _ _ this res(1)] have "outcome_ok ?R ?A w1 (out, w2)" by simp
      then have "outcome_ok ?R ?A ?w1 (out, w2\<lparr>tcp_mem := (tcp_mem w2)(p \<mapsto> ?obj)\<rparr>)"
        by (simp add: outcome_ok_def holds_def same_store_def)
      from outcome_finish [of ?w1 "[]" p ps, unfolded append_Nil, OF ch(2) this] show ?thesis
        unfolding finish_overwrites res(2) by blast
    qed
  qed
qed

text \<open>A batch: each answer is given in the world it is asked for in.\<close>

fun accepts_env_ok ::
  "tcp_config \<Rightarrow> fakedns \<Rightarrow> 'c ss2022_tcp \<Rightarrow> bool \<Rightarrow> nat \<Rightarrow> (int \<times> bytes \<times> ('y, 'x, 'c) accept_env) io list \<Rightarrow>
   fakedns_mru \<times> ('x, 'c) tcp_world \<Rightarrow> bool" where
  "accepts_env_ok cfg dns lib isipv4 left [] st = True"
| "accepts_env_ok cfg dns lib isipv4 0 (r # rs) st = True"
| "accepts_env_ok cfg dns lib isipv4 (Suc left) (r # rs) st =
     (case r of
        IoErr e \<Rightarrow> if e = EINTR then accepts_env_ok cfg dns lib isipv4 (Suc left) rs st else True
      | IoOk (fd, skaddr, env) \<Rightarrow>
          0 \<le> fd \<and> accept_env_ok env (snd st) \<and>
          (case tcp_proxy_accepted cfg dns lib isipv4 fd skaddr env st of
             None \<Rightarrow> True
           | Some st \<Rightarrow> accepts_env_ok cfg dns lib isipv4 left rs st))"

lemma on_accept_inv:
  "tcp_inv (snd st) ps \<Longrightarrow> accepts_env_ok cfg dns lib isipv4 left rs st \<Longrightarrow>
   tcp_proxy_on_accept cfg dns lib isipv4 left rs st = Some st' \<Longrightarrow> \<exists>ps'. tcp_inv (snd st') ps'"
proof (induction cfg dns lib isipv4 left rs st arbitrary: ps rule: tcp_proxy_on_accept.induct)
  case (3 cfg dns lib isipv4 left r rs st)
  show ?case
  proof (cases r)
    case (IoErr e)
    then show ?thesis using 3 by (auto split: if_splits)
  next
    case (IoOk x)
    obtain fd skaddr env where x: "x = (fd, skaddr, env)" by (cases x)
    obtain m w where st: "st = (m, w)" by (cases st)
    obtain st1 where st1: "tcp_proxy_accepted cfg dns lib isipv4 fd skaddr env st = Some st1"
      "tcp_proxy_on_accept cfg dns lib isipv4 left rs st1 = Some st'"
      using 3(5) IoOk x by (auto split: option.splits)
    have ok: "0 \<le> fd" "accept_env_ok env w" "accepts_env_ok cfg dns lib isipv4 left rs st1" using 3(4) IoOk x st st1 by auto
    obtain m1 w1 where s1: "st1 = (m1, w1)" by (cases st1)
    obtain ps1 where "tcp_inv w1 ps1"
      using accepted_inv [of w ps env fd cfg dns lib isipv4 skaddr m m1 w1] 3(3) ok(1,2) st st1(1) s1 by auto
    then show ?thesis using 3(1) [OF IoOk x [symmetric] refl st1(1) _ ok(3) st1(2), of ps1] s1 by simp
  qed
qed auto

section \<open>The worlds a thread can reach\<close>

inductive tcp_step :: "tcp_config \<Rightarrow> 'c ss2022_tcp \<Rightarrow> ('x, 'c) tcp_world \<Rightarrow> ('x, 'c) tcp_world \<Rightarrow> bool"
  for cfg lib where
tcp_step_accept: "accepts_env_ok cfg dns lib isipv4 TCP_ACCEPT_BATCH (rs :: (int \<times> bytes \<times> ('x, 'x, 'c) accept_env) io list) (m, w) \<Longrightarrow>
    tcp_proxy_on_accept cfg dns lib isipv4 TCP_ACCEPT_BATCH rs (m, w) = Some (m', w') \<Longrightarrow> tcp_step cfg lib w w'"
| tcp_step_event: "tcp_mem w p = Some obj \<Longrightarrow> tcp_waits (ev :: ('x, 'x, 'c) tcp_event) obj \<Longrightarrow> event_env_ok ev w \<Longrightarrow>
    tcp_handle cfg lib ev obj w = Some res \<Longrightarrow> tcp_step cfg lib w (tcp_finish p res)"

inductive tcp_reachable :: "tcp_config \<Rightarrow> 'c ss2022_tcp \<Rightarrow> tcp_pool_envs \<Rightarrow> ('x, 'c) tcp_world \<Rightarrow> bool"
  for cfg lib env where
tcp_reach_start: "tcp_thread_start env = Some w \<Longrightarrow> tcp_reachable cfg lib env w"
| tcp_reach_step: "tcp_reachable cfg lib env w \<Longrightarrow> tcp_step cfg lib w w' \<Longrightarrow> tcp_reachable cfg lib env w'"

lemma tcp_step_inv:
  assumes "tcp_step cfg lib w w'" "tcp_inv w ps" shows "\<exists>ps'. tcp_inv w' ps'"
  using assms(1)
proof (cases rule: tcp_step.cases)
  case (tcp_step_accept dns isipv4 rs m m')
  then show ?thesis using on_accept_inv [of "(m, w)" ps cfg dns lib isipv4 TCP_ACCEPT_BATCH rs "(m', w')"] assms(2) by simp
next
  case (tcp_step_event p obj ev res)
  then show ?thesis using handle_inv [OF assms(2), of p obj ev cfg lib res] by auto
qed

lemma tcp_reachable_inv:
  assumes "tcp_reachable cfg lib env w" "tcp_pool_envs_ok env" shows "\<exists>ps. tcp_inv w ps"
  using assms(1)
proof induction
  case (tcp_reach_start w)
  then show ?case using tcp_thread_start_inv assms(2) by blast
next
  case (tcp_reach_step w w')
  then show ?case using tcp_step_inv by blast
qed

section \<open>Closing everything\<close>

lemma session_list_next:
  "session_list w ps \<Longrightarrow> g_tcp_session_head w = (case ps of [] \<Rightarrow> None | p # _ \<Rightarrow> Some p)"
  "session_list w (p # ps) \<Longrightarrow> tcp_next w p = (case ps of [] \<Rightarrow> None | q # _ \<Rightarrow> Some q)"
  by (cases ps; auto simp: session_list_def)+

lemma close_object_inv:
  assumes "tcp_inv w (p # ps)" shows "tcp_inv (close_object p w) ps"
proof -
  note f = inv_focus [of w "[]" p ps, unfolded append_Nil, OF assms]
  show ?thesis
    using inv_closing [of w "[]" p ps w] assms f
    by (cases "the (tcp_mem w p)") (simp_all add: close_object_def obj_fds_def obj_block_def session_fds_def)
qed

lemma close_from_inv:
  "tcp_inv w ps \<Longrightarrow> \<exists>w'. close_from (g_tcp_session_head w) w = Some w' \<and> tcp_inv w' []"
proof (induction ps arbitrary: w)
  case Nil
  then have "g_tcp_session_head w = None" using session_list_next(1) [of w "[]"] by (simp add: tcp_inv_def)
  then show ?case using Nil by (simp add: close_from.simps)
next
  case (Cons p ps)
  have list: "session_list w (p # ps)" using Cons.prems by (simp add: tcp_inv_def)
  have inv: "tcp_inv (close_object p w) ps" by (rule close_object_inv [OF Cons.prems])
  then have "session_list (close_object p w) ps" by (simp add: tcp_inv_def)
  then have "g_tcp_session_head (close_object p w) = tcp_next w p"
    using session_list_next(1) session_list_next(2) [OF list] by metis
  then show ?case
    using Cons.IH [OF inv] session_list_next(1) [OF list] by (simp add: close_from.simps [of "Some p"] Let_def)
qed

section \<open>A small thread\<close>

definition demo_tcp_envs :: tcp_pool_envs where
  "demo_tcp_envs = \<lparr>env_tcp_session = demo_pool_env, env_relay_in = demo_pool_env\<rparr>"

lemma demo_tcp_envs_ok: "tcp_pool_envs_ok demo_tcp_envs"
  by (simp add: tcp_pool_envs_ok_def pool_env_ok_def demo_tcp_envs_def demo_pool_env_def demo_memalign_ok tcp_consts)

definition demo_tcp_start :: "(unit, unit) tcp_world" where
  "demo_tcp_start = the (tcp_thread_start demo_tcp_envs)"

lemma demo_tcp_pools:
  "\<exists>sp. thread_pool demo_pool_env 64 65535 = Some sp \<and> fst (pool_alloc (\<lambda>_. None) sp) = Some 4224"
  "\<exists>rp. thread_pool (demo_pool_env\<lparr>pe_size := TCP_SS_RESP_IN_BUFSIZ\<rparr>) 0 65535 = Some rp"
  by (simp_all add: thread_pool_def demo_pool_env_def mempool_create_def expand_pool_batch_def demo_memalign_def round_up_cacheline_def
      CACHELINE_SIZE_def SIZE_T_MAX_def Let_def pool_alloc_def mempool_alloc_sized_def block_to_data_def del: link_blocks.simps)

lemma demo_tcp_started:
  "tcp_thread_start demo_tcp_envs = Some demo_tcp_start" "g_tcp_ss_ctx demo_tcp_start = replicate 8 None" "tcp_fds demo_tcp_start = []"
  "tcp_mem demo_tcp_start = Map.empty" "fst (pool_alloc (\<lambda>_. None) (g_tcp_session_pool demo_tcp_start)) = Some 4224"
  "g_tcp_session_head demo_tcp_start = None" "tcp_log demo_tcp_start = []"
  using demo_tcp_pools by (auto simp: tcp_thread_start_def demo_tcp_start_def demo_tcp_envs_def SS_MAX_SERVERS_def)

text \<open>A client connects to 8.8.8.8, port 443, and has sent a byte.\<close>

definition demo_accept :: "(unit, unit, unit) accept_env" where
  "demo_accept =
     \<lparr>ac_getsockname = IoOk ([2, 0, 1, 187, 8, 8, 8, 8] @ replicate 8 0), ac_memalign = (\<lambda>_. None), ac_choice = (\<lambda>_. demo_choice),
      ac_recvs = [IoOk [7], IoErr EAGAIN], ac_attempts = (\<lambda>_. demo_attempt 9)\<rparr>"

definition demo_accepts :: "(int \<times> bytes \<times> (unit, unit, unit) accept_env) io list" where
  "demo_accepts = [IoErr EINTR, IoOk (5, [], demo_accept), IoErr EAGAIN]"

lemma demo_resolved: "tcp_proxy_resolve_target demo_tcp_config dns True (ac_getsockname demo_accept) m = (Some demo_target, m)"
  by (simp add: tcp_proxy_resolve_target_def get_tcp_orig_dstaddr_def demo_accept_def demo_tcp_config_def SIZEOF_SKADDR4_def sa_port_def
      sa_family_def sin_addr_def ntohs_def mk16_def byte16_def demo_target_def AF_INET_def)

definition demo_tcp_created :: "(unit, unit) tcp_world" where
  "demo_tcp_created = tcp_session_link 4224 (demo_tcp_start
     \<lparr>tcp_fds := [5], g_tcp_session_pool := snd (pool_alloc (\<lambda>_. None) (g_tcp_session_pool demo_tcp_start)),
      g_tcp_ss_ctx := (replicate 8 None)[0 := Some ()], tcp_mem := [4224 \<mapsto> Handshaking demo_new]\<rparr>)"

lemma demo_tcp_create:
  "tcp_session_create (ac_memalign demo_accept) (ac_choice demo_accept) 5 demo_target [] (tcp_open 5 demo_tcp_start) = Some (Some 4224, demo_tcp_created)"
proof -
  obtain q where q: "pool_alloc (\<lambda>_. None) (g_tcp_session_pool demo_tcp_start) = (Some 4224, q)" using demo_tcp_started(5) by (metis prod.collapse)
  have c: "tcp_choose_server (\<lambda>_. demo_choice) True 0 ((tcp_open 5 demo_tcp_start)\<lparr>g_tcp_session_pool := q\<rparr>) =
      Some (Some (0, 1, ()), (tcp_open 5 demo_tcp_start)\<lparr>g_tcp_session_pool := q, g_tcp_ss_ctx := (replicate 8 None)[0 := Some ()]\<rparr>)"
    using demo_tcp_started(2)
    by (simp add: tcp_choose_server.simps demo_choice_def server_selector_best_tcp_def demo_selectors_def demo_selector_def tcp_ctx_get_def
        tcp_open_def Let_def)
  show ?thesis
    using c q demo_tcp_started(3,4)
    by (simp add: tcp_session_create_def demo_accept_def demo_tcp_created_def tcp_open_def demo_new_def)
qed

definition demo_tcp_open :: "(unit, unit) tcp_world" where
  "demo_tcp_open = tcp_finish 4224 (Going (Handshaking demo_connecting),
     tcp_call [Call_recv 5 [7], Call_request [22, 7], Call_connect 0 9] (tcp_open 9 demo_tcp_created))"

lemma demo_tcp_opened:
  "tcp_proxy_on_accept demo_tcp_config dns demo_relay_lib True TCP_ACCEPT_BATCH demo_accepts (m, demo_tcp_start) = Some (m, demo_tcp_open)"
  "tcp_fds demo_tcp_open = [9, 5]" "tcp_mem demo_tcp_open = [4224 \<mapsto> Handshaking demo_connecting]" "g_tcp_session_head demo_tcp_open = Some 4224"
proof -
  have mem: "tcp_mem demo_tcp_created 4224 = Some (Handshaking demo_new)"
    by (simp add: demo_tcp_created_def tcp_session_link_def Let_def split: option.split)
  have "tcp_proxy_accepted demo_tcp_config dns demo_relay_lib True 5 [] demo_accept (m, demo_tcp_start) = Some (m, demo_tcp_open)"
    using demo_first [of demo_tcp_created] mem
    by (simp add: tcp_proxy_accepted_def demo_resolved demo_tcp_create hs_of_def demo_tcp_open_def) (simp add: demo_accept_def)
  then show "tcp_proxy_on_accept demo_tcp_config dns demo_relay_lib True TCP_ACCEPT_BATCH demo_accepts (m, demo_tcp_start) = Some (m, demo_tcp_open)"
    by (simp add: demo_accepts_def TCP_ACCEPT_BATCH_def numeral_eq_Suc)
  show "tcp_fds demo_tcp_open = [9, 5]" "tcp_mem demo_tcp_open = [4224 \<mapsto> Handshaking demo_connecting]" "g_tcp_session_head demo_tcp_open = Some 4224"
    using demo_tcp_started
    by (simp_all add: demo_tcp_open_def tcp_finish_def tcp_call_def tcp_open_def demo_tcp_created_def tcp_session_link_def Let_def split: option.split)
qed

lemma demo_tcp_reachable: "tcp_reachable demo_tcp_config demo_relay_lib demo_tcp_envs demo_tcp_open"
proof (rule tcp_reach_step [OF tcp_reach_start [OF demo_tcp_started(1)] tcp_step_accept])
  show "tcp_proxy_on_accept demo_tcp_config fakedns_static demo_relay_lib True TCP_ACCEPT_BATCH demo_accepts (fakedns_mru_static, demo_tcp_start) =
      Some (fakedns_mru_static, demo_tcp_open)" by (rule demo_tcp_opened)
  have "accept_env_ok demo_accept demo_tcp_start" using demo_env_ok by (simp add: accept_env_ok_def demo_accept_def demo_memalign_ok)
  then show "accepts_env_ok demo_tcp_config fakedns_static demo_relay_lib True TCP_ACCEPT_BATCH demo_accepts (fakedns_mru_static, demo_tcp_start)"
    by (simp add: demo_accepts_def TCP_ACCEPT_BATCH_def numeral_eq_Suc split: option.split)
qed

section \<open>Properties\<close>

text \<open>C11. No handler of a session and no batch of connections runs for ever: the search for a server, a loop whose turns depend on the
  state of selectors that other threads change, ends from every state, as long as the selectors read are well formed.\<close>

theorem tcp_handlers_return:
  assumes "event_selectors_ok ev" "\<And>fd skaddr env. IoOk (fd, skaddr, env) \<in> set rs \<Longrightarrow> accept_selectors_ok env"
  shows "(\<exists>res. tcp_handle cfg lib ev obj w = Some res) \<and> (\<exists>st'. tcp_proxy_on_accept cfg dns lib isipv4 left rs st = Some st')"
proof
  show "\<exists>res. tcp_handle cfg lib ev obj w = Some res" using handle_some [OF assms(1)] by blast
  have "tcp_proxy_on_accept cfg dns lib isipv4 left rs st \<noteq> None" by (rule on_accept_some) (rule assms(2))
  then show "\<exists>st'. tcp_proxy_on_accept cfg dns lib isipv4 left rs st = Some st'" by blast
qed

theorem tcp_handlers_return_witness:
  "(\<exists>res. tcp_handle demo_tcp_config demo_relay_lib (Ev_connect_timeout (\<lambda>_. (demo_attempt (-1))\<lparr>ae_client := None\<rparr>)) (Handshaking demo_connecting)
      demo_tcp_open = Some res) \<and>
   (\<exists>st'. tcp_proxy_on_accept demo_tcp_config fakedns_static demo_relay_lib True 16 demo_accepts (fakedns_mru_static, demo_tcp_open) = Some st')"
  by (rule tcp_handlers_return)
    (auto simp: attempts_ok_def demo_attempt_def demo_selectors_ok demo_accepts_def accept_selectors_ok_def demo_accept_def choices_ok_def demo_choice_def)

text \<open>C10. In every world that a thread can reach, the doubly linked list holds exactly the live sessions, each once; every block of the two pools
  that is in use belongs to one session; and the open descriptors are exactly those of the sessions, so that none is lost and no session
  keeps one that has been closed.\<close>

theorem tcp_accounting:
  assumes "tcp_reachable cfg lib env w" "tcp_pool_envs_ok env"
  shows "\<exists>ps. session_list w ps \<and> distinct ps \<and> set ps = dom (tcp_mem w) \<and> pool_live (g_tcp_session_pool w) = dom (tcp_mem w) \<and>
    pool_live (g_tcp_relay_in_pool w) = set (all_blocks (tcp_mem w) ps) \<and> distinct (all_blocks (tcp_mem w) ps) \<and>
    mset (tcp_fds w) = all_fds (tcp_mem w) ps"
proof -
  obtain ps where "tcp_inv w ps" using tcp_reachable_inv [OF assms] by blast
  then show ?thesis by (intro exI [of _ ps]) (simp add: tcp_inv_def pool_of_def session_list_def)
qed

theorem tcp_accounting_witness:
  "pool_live (g_tcp_session_pool demo_tcp_open) = {4224} \<and> length (tcp_fds demo_tcp_open) = 2 \<and> session_list demo_tcp_open [4224]"
proof -
  obtain ps where ps: "session_list demo_tcp_open ps" "distinct ps" "set ps = dom (tcp_mem demo_tcp_open)"
    "pool_live (g_tcp_session_pool demo_tcp_open) = dom (tcp_mem demo_tcp_open)"
    using tcp_accounting [OF demo_tcp_reachable demo_tcp_envs_ok] by blast
  then have "set ps = {4224}" by (simp add: demo_tcp_opened)
  then have "ps = [4224]" using ps(2) by (cases ps; cases "tl ps") auto
  then show ?thesis using ps by (simp add: demo_tcp_opened)
qed

text \<open>C12. Shutting down: from every world that a thread can reach, the walk along the list ends, and leaves no session, no open descriptor and
  no block in use, so that the destruction of both pools reports no leak.\<close>

theorem tcp_shutdown_clean:
  assumes "tcp_reachable cfg lib env w" "tcp_pool_envs_ok env"
  shows "\<exists>w'. map_option tcp_proxy_ctx_cleanup (tcp_proxy_close_all_sessions w) = Some w' \<and> g_tcp_session_head w' = None \<and>
    tcp_mem w' = Map.empty \<and> tcp_fds w' = [] \<and> mempool_destroy (g_tcp_session_pool w') = 0 \<and> mempool_destroy (g_tcp_relay_in_pool w') = 0"
proof -
  obtain ps where "tcp_inv w ps" using tcp_reachable_inv [OF assms] by blast
  from close_from_inv [OF this] obtain w' where w': "close_from (g_tcp_session_head w) w = Some w'" "tcp_inv w' []" by blast
  have d: "mempool_destroy pool = 0" if "pool_of pool {}" for pool
    using that mempool_destroy_ok [of pool] by (simp add: pool_of_def mempool_inv_def)
  have "g_tcp_session_head w' = None" using session_list_next(1) [of w' "[]"] w'(2) by (simp add: tcp_inv_def)
  then show ?thesis
    using w' by (auto simp: tcp_proxy_close_all_sessions_def tcp_proxy_ctx_cleanup_def tcp_inv_def d)
qed

theorem tcp_shutdown_clean_witness:
  "\<exists>w'. map_option tcp_proxy_ctx_cleanup (tcp_proxy_close_all_sessions demo_tcp_open) = Some w' \<and> tcp_fds demo_tcp_open = [9, 5] \<and> tcp_fds w' = []"
  using tcp_shutdown_clean [OF demo_tcp_reachable demo_tcp_envs_ok] demo_tcp_opened(2) by blast

text \<open>The doubly linked list is a list: linking a new session puts it in front, and unlinking one, at the head, at the tail or between
  two others, takes away just that one.\<close>

theorem tcp_session_list_refines:
  assumes "session_list w (as @ p # bs)" "q \<notin> set (as @ p # bs)"
  shows "session_list (tcp_session_link q w) (q # as @ p # bs) \<and> session_list (tcp_session_unlink p w) (as @ bs) \<and>
    session_list (tcp_session_unlink p (tcp_session_link q w)) (q # as @ bs)"
proof -
  have link: "session_list (tcp_session_link q w) ((q # as) @ p # bs)" using session_link_list [OF assms] by simp
  from session_unlink_list [OF this] session_unlink_list [OF assms(1)] link show ?thesis by simp
qed

theorem tcp_session_list_refines_witness:
  "session_list (tcp_session_unlink 4224 (tcp_session_link 8000 demo_tcp_world)) [8000]"
proof -
  have "session_list demo_tcp_world ([] @ 4224 # [])" by (simp add: session_list_def demo_tcp_world_def)
  from tcp_session_list_refines [OF this, of 8000] show ?thesis by simp
qed

end
