(* ===== verification/Spec2Isabelle.thy ===== *)
theory Spec2Isabelle
  imports FakednsServer FakednsPersist Mempool SelectorLife UdpFlush TcpRuns TcpStream
begin

text \<open>
  A model of tproxy2ss2022, a transparent proxy that forwards redirected TCP connections and UDP datagrams to
  Shadowsocks-2022 servers. All paths are under \<^verbatim>\<open>src/src/\<close>.

  \<^bold>\<open>How the program works.\<close> Each worker thread runs an event loop of its own with its own TCP sessions, UDP sessions and
  block pools. A TCP connection is accepted (\<^verbatim>\<open>tcp_proxy.c\<close>), its original destination is read, its first bytes are awaited for a
  moment and a server is chosen; after the request header has been sent the session relays both directions. A UDP datagram
  (\<^verbatim>\<open>udp_proxy.c\<close>) is routed to the session of its client, through which the answers come back; they leave from sockets bound to
  the address that is answering. The threads share two things: the ranking of the servers (\<^verbatim>\<open>server_selector.c\<close>), written by
  reports of the workers and by probes, and the pool of fake addresses (\<^verbatim>\<open>fakedns.c\<close>), written by the DNS
  server's thread only (\<^verbatim>\<open>fakedns_server.c\<close>) and read by the workers, each with a cache of its own, to turn a fake address into a name.

  \<^bold>\<open>What is proved, by part.\<close>

  \<^item> Fake-IP DNS. \<open>FakednsPool\<close>: \<^verbatim>\<open>fakedns_init\<close> and \<^verbatim>\<open>fakedns_lookup_domain\<close>, as initialisation, a probe loop and its three outcomes; the probe
    sequence visits distinct slots; well-formedness; what one lookup changes. \<open>FakednsPersist\<close>: \<^verbatim>\<open>fakedns_save\<close> and \<^verbatim>\<open>fakedns_load\<close> over files
    as byte lists, with every failing call as an argument; round trip and atomicity. \<open>FakednsReverse\<close>: reverse lookups with the thread-local cache
    and the interleaving of the writer with the readers (\<open>fakedns_steps\<close>, \<open>fakedns_reach\<close>, which starts from an empty pool
    or from one loaded from any file); the cache is invisible and a lease holds. \<open>FakednsWire\<close>: \<^verbatim>\<open>fakedns_process_query\<close>, byte for byte.
    \<open>FakednsServer\<close>: the batch callback; the locale \<open>responder\<close> is the contract of one answer, interpreted on the wire format.

  \<^item> Block pools. \<open>Mempool\<close>: all of \<^verbatim>\<open>mempool.c\<close> over an explicit store of block headers; the locale \<open>allocator\<close> is what the clients
    rely on, interpreted on the code's operations. \<open>Pools\<close>: one pool per type, as both proxies use it.

  \<^item> Server selection. \<open>ServerSelector\<close>: the windows of samples, scores, health, \<^verbatim>\<open>ss_update_best_locked\<close> and the reports.
    \<open>Double\<close> has the arithmetic of the scores. \<open>SelectorRanking\<close>: the ring buffer against the list of the last samples, and when and why the best server changes.
    \<open>SelectorProbe\<close>, \<open>SelectorRounds\<close>, \<open>SelectorLife\<close>: the TCP and UDP probes as state machines; \<open>probe_reachable\<close> is any interleaving of
    callbacks, ticks and workers' reports; bookkeeping of descriptors and timers, the end of rounds, the stop.

  \<^item> Caches of the UDP proxy. \<open>LruCache\<close>: the templates of \<^verbatim>\<open>lrucache.h\<close>; the locale \<open>lru_table\<close> is interpreted on them.

  \<^item> UDP proxy. \<open>UdpProxy\<close>: endpoints, parsing, sessions and their registration. \<open>UdpReply\<close>: both directions, idle time-outs and shutdown. \<open>UdpSessions\<close>,
    \<open>UdpLife\<close>: the invariant that ties tables, links, pool blocks and descriptors together, and that every operation keeps it. \<open>UdpRuns\<close>: all
    events of a thread in any order. \<open>UdpFlush\<close>: the grouping of replies by socket.

  \<^item> TCP proxy. \<open>TcpRelay\<close>: the relay, from \<^verbatim>\<open>tcp_buf_consume\<close> to \<^verbatim>\<open>tcp_relay_on_event\<close>; a function returns the session or how it is closed,
    and the list of its calls. \<open>TcpStream\<close>: what both sides have been sent against the decoding, or sealing, of the whole stream;
    nothing is lost, repeated or reordered, nothing waits unwatched. \<open>TcpHandshake\<close>: accepting, the first bytes, connecting, the loop
    that tries another server, the linked list, closing. \<open>TcpSearch\<close>: what one turn of that loop keeps, and that it ends; the linked list represents a list.
    \<open>TcpLife\<close>: the invariant of a thread. \<open>TcpAttempts\<close>: the whole life of one session, each server once and no replay.
    \<open>TcpRuns\<close>: all events of a thread in any order; accounting, termination and shutdown.

  \<^item> \<open>Prelude\<close> has the words, byte orders and lemmas that all parts share, \<open>Libc\<close> the functions of the C library with a model, \<open>Netutils\<close>
    the socket helpers of \<^verbatim>\<open>netutils.c\<close>.

  \<^bold>\<open>Conventions.\<close> A struct is a record with the source's field names, a pool pointer is the number of its block with a map as the memory behind it,
  and thread-local variables are the fields of a world (\<open>udp_world\<close>, \<open>tcp_world\<close>, \<open>probe_world\<close>). The results of system calls are arguments:
  \<open>IoOk\<close> or \<open>IoErr\<close>, a list where a loop calls repeatedly; a list that has run out answers \<^verbatim>\<open>EAGAIN\<close>. Descriptors are integers and a world has the list of the open
  ones. Integers keep their width where they can wrap.

  \<^bold>\<open>Loops.\<close> Loops over data are recursive functions that end. The loops that retry servers (\<open>tcp_handshake_retry\<close>, \<open>tcp_choose_server\<close>)
  and the walk over the session list (\<open>close_from\<close>) are partial functions whose result \<open>None\<close> means that they do not end; that they end
  is proved. There is no fuel. In the runs of the fake-IP pool the number of lookups is below \<open>2 ^ 32\<close>, where the version of a slot
  would wrap.

  \<^bold>\<open>What is assumed.\<close> The cryptographic library \<^verbatim>\<open>libss2022-client\<close> is a submodule that is not part of the repository: its functions are the fields of the records
  \<open>ss2022_tcp\<close> and \<open>ss2022_udp\<close> (theory \<open>Ss2022\<close>). The relay's theorems assume that it writes no more than it is asked to, that opening depends only on the receiving
  half of a client and sealing only on the sending half (\<open>relay_lib_ok\<close>). The hash of names is a parameter.
  \<^verbatim>\<open>posix_memalign\<close> returns aligned memory that overlaps no block of the pool, and new descriptors are not in use. A new selector state may
  be found at each read, since other threads write it; the theorems about the search for a server assume it well formed, which the theorems about the selector show it to be.

  \<^bold>\<open>What is not modelled.\<close> Log output and statistics; the parsing of options, the signals, the creation and joining of threads and the listening sockets in \<^verbatim>\<open>main.c\<close>;
  the binary and textual forms of addresses (\<^verbatim>\<open>inet_pton\<close>, \<^verbatim>\<open>inet_ntop\<close>); libev, whose watchers are the flags of the callbacks that are due; the memory
  model of the reads of the fake-IP pool without a lock, where a reverse lookup is one atomic step; the failure of a thread's start part-way.
\<close>

end
